(* ===== verification/Prelude.thy ===== *)
theory Prelude
  imports Main "HOL-Library.Word"
begin

unbundle bit_operations_syntax

text \<open>
  What the component theories share: the machine types of the server (bytes, 32 and 64 bit
  words), C++ exceptions as the values of \<open>error\<close>, a result type with its sequencing
  operator, little-endian byte values, and the collections of simplification rules the
  component proofs use.
\<close>

named_theorems result_simps \<open>sequencing of results\<close>
named_theorems le_simps \<open>little-endian byte values\<close>

type_synonym byte = "8 word"
type_synonym u32 = "32 word"
type_synonym u64 = "64 word"
type_synonym bytes = "byte list"

section \<open>Exceptions and results\<close>

text \<open>
  One constructor per exception class the sources throw (types.hpp and the standard library);
  the message is kept, since it says which guard fired.
\<close>

datatype error =
    ValidationError string
  | EntropyError string
  | MoneroParseError string
  | InvalidArgument string
  | RuntimeError string
  | LogicError string
  | DatabaseError string

type_synonym 'a result = "error + 'a"

definition and_then :: "'a result \<Rightarrow> ('a \<Rightarrow> 'b result) \<Rightarrow> 'b result" where
  "and_then m f = (case m of Inl e \<Rightarrow> Inl e | Inr x \<Rightarrow> f x)"

definition check :: "bool \<Rightarrow> error \<Rightarrow> unit result" where
  "check b e = (if b then Inr () else Inl e)"

lemma and_then_Inl [simp, result_simps]: "and_then (Inl e) f = Inl e"
  by (simp add: and_then_def)

lemma and_then_Inr [simp, result_simps]: "and_then (Inr x) f = f x"
  by (simp add: and_then_def)

lemma and_then_eq_Inr [result_simps]:
  "and_then m f = Inr y \<longleftrightarrow> (\<exists>x. m = Inr x \<and> f x = Inr y)"
  by (cases m) auto

lemma and_then_eq_Inl [result_simps]:
  "and_then m f = Inl e \<longleftrightarrow> m = Inl e \<or> (\<exists>x. m = Inr x \<and> f x = Inl e)"
  by (cases m) auto

lemma and_then_cong [fundef_cong]:
  assumes "m = m'" and "\<And>x. m' = Inr x \<Longrightarrow> f x = g x"
  shows "and_then m f = and_then m' g"
  using assms by (cases m') auto

lemma check_True [simp, result_simps]: "check True e = Inr ()"
  by (simp add: check_def)

lemma check_False [simp, result_simps]: "check False e = Inl e"
  by (simp add: check_def)

lemma check_eq_Inr [result_simps]: "check b e = Inr u \<longleftrightarrow> b"
  by (simp add: check_def)

lemma check_eq_Inl [result_simps]: "check b e = Inl e' \<longleftrightarrow> \<not> b \<and> e' = e"
  by (auto simp: check_def)

section \<open>Little-endian values\<close>

fun le_value :: "bytes \<Rightarrow> nat" where
  "le_value [] = 0"
| "le_value (b # bs) = unat b + 256 * le_value bs"

lemma unat_byte_less [simp]: "unat (b :: byte) < 256"
  using unsigned_less [of b] by simp

lemma le_value_append [le_simps]:
  "le_value (xs @ ys) = le_value xs + 256 ^ length xs * le_value ys"
  by (induction xs) (auto simp: algebra_simps)

lemma le_value_zeros [simp]: "le_value (replicate n 0) = 0"
  by (induction n) auto

lemma le_value_less: "le_value bs < 256 ^ length bs"
proof (induction bs)
  case Nil
  show ?case by simp
next
  case (Cons b bs)
  have "unat b + 256 * le_value bs < 256 + 256 * le_value bs" by simp
  also have "\<dots> = 256 * (le_value bs + 1)" by simp
  also have "\<dots> \<le> 256 * 256 ^ length bs"
    using Cons.IH by (intro mult_le_mono2) simp
  finally show ?case by simp
qed

lemma le_value_inj:
  "length xs = length ys \<Longrightarrow> le_value xs = le_value ys \<Longrightarrow> xs = ys"
proof (induction xs arbitrary: ys)
  case Nil
  then show ?case by simp
next
  case (Cons x xs)
  then obtain y ys' where ys: "ys = y # ys'" and len: "length xs = length ys'"
    by (cases ys) auto
  from Cons.prems(2) ys have eq: "unat x + 256 * le_value xs = unat y + 256 * le_value ys'"
    by simp
  have "unat x = (unat x + 256 * le_value xs) mod 256" by simp
  also have "\<dots> = unat y" using eq by simp
  finally have "x = y" by (simp add: word_unat_eq_iff)
  moreover from this eq have "le_value xs = le_value ys'" by simp
  ultimately show ?case using Cons.IH [OF len] ys by simp
qed

text \<open>Assembling a word from bytes, the loop every decoder of the sources repeats.\<close>

lemma bit_of_nat_less:
  assumes "n < 2 ^ k" and "k \<le> j"
  shows "\<not> bit (of_nat n :: 'a::len word) j"
proof -
  have "n < 2 ^ j" using assms by (meson le_less_trans less_le_trans not_le power_increasing one_le_numeral)
  then have "n div 2 ^ j = 0" by simp
  then have "\<not> bit n j" by (simp add: bit_iff_odd)
  then show ?thesis by (simp add: bit_of_nat_iff)
qed

lemma foldl_or_bytes:
  assumes "n \<le> length bs" and "8 * n \<le> LENGTH('a)"
  shows "foldl (\<lambda>r i. r OR push_bit (8 * i) (ucast (bs ! i))) (0 :: 'a::len word) [0..<n] =
    of_nat (le_value (take n bs))"
  using assms
proof (induction n)
  case 0
  show ?case by simp
next
  case (Suc n)
  let ?v = "le_value (take n bs)"
  have v: "?v < 2 ^ (8 * n)"
    using le_value_less [of "take n bs"] Suc.prems(1) by (simp add: power_mult)
  have "take (Suc n) bs = take n bs @ [bs ! n]"
    using Suc.prems(1) by (simp add: take_Suc_conv_app_nth)
  then have "le_value (take (Suc n) bs) = ?v + 2 ^ (8 * n) * unat (bs ! n)"
    using Suc.prems(1) by (simp add: le_value_append power_mult)
  moreover have "(of_nat (2 ^ (8 * n) * unat (bs ! n)) :: 'a word) = push_bit (8 * n) (ucast (bs ! n))"
    by (simp add: push_bit_eq_mult mult.commute unsigned_of_nat)
  moreover have "(of_nat ?v :: 'a word) + push_bit (8 * n) (ucast (bs ! n)) =
      of_nat ?v OR push_bit (8 * n) (ucast (bs ! n))"
    by (rule disjunctive_add_eq_or) (auto simp: bit_eq_iff bit_simps dest: bit_of_nat_less [OF v])
  ultimately show ?case using Suc by simp
qed
text \<open>The bytes of a word, from the least significant, have its value.\<close>

lemma le_value_store:
  "le_value (map (\<lambda>i. ucast (drop_bit (8 * i) (w :: 'a::len word))) [0..<n]) = unat w mod 256 ^ n"
proof (induction n)
  case 0
  show ?case by simp
next
  case (Suc n)
  have "unat (ucast (drop_bit (8 * n) w) :: byte) = unat w div 256 ^ n mod 256"
    by (simp only: unsigned_ucast_eq take_bit_eq_mod unat_drop_bit_eq drop_bit_nat_def power_mult) simp
  moreover have "unat w mod 256 ^ Suc n = unat w mod 256 ^ n + 256 ^ n * (unat w div 256 ^ n mod 256)"
    by (metis add.commute mod_mult2_eq mult.commute power_Suc)
  ultimately show ?case using Suc.IH by (simp add: le_value_append)
qed

section \<open>Counters\<close>

lemma unat_u32_less: "unat (x :: u32) < 2 ^ 32"
  using unsigned_less [of x] by simp

lemma unat_ucast_u32 [simp]: "unat (ucast (x :: u32) :: u64) = unat x"
  using unat_u32_less [of x] by (simp add: unsigned_ucast_eq take_bit_nat_eq_self)

text \<open>A counter below a bound of its own type can be incremented without wrapping.\<close>

lemma plus_one_below:
  assumes "n < (c :: 'a::len word)"
  shows "unat (n + 1) = Suc (unat n)" and "n + 1 \<le> c" and "n + 1 \<noteq> 0"
proof -
  have lt: "unat n < unat c" using assms by (simp add: word_less_nat_alt)
  have "Suc (unat n) < 2 ^ LENGTH('a)"
    using lt by (meson Suc_leI le_less_trans unsigned_less)
  then show eq: "unat (n + 1) = Suc (unat n)"
    by (simp add: unat_word_ariths)
  show "n + 1 \<le> c" using lt eq by (simp add: word_le_nat_alt)
  show "n + 1 \<noteq> 0" using eq by (metis nat.distinct(1) unat_0)
qed

lemma unat_minus_one_pos: "n \<noteq> (0 :: 'a::len word) \<Longrightarrow> unat (n - 1) = unat n - 1"
  by (rule unat_minus_one)

end
