(* ===== verification/Std_Map.thy ===== *)
theory Std_Map
  imports Prelude "HOL-Library.Product_Lexorder" "HOL-Library.List_Lexorder"
begin

text \<open>
  The ordered containers of the C++ standard library that the components keep their state in.
  A \<open>std::map\<close> is the list of its nodes in iteration order, which is the order of the keys;
  a \<open>std::set\<close> is the list of its elements. Lookup is \<^const>\<open>map_of\<close>, and \<open>size()\<close> is
  \<^const>\<open>length\<close>, so every state of a component can be evaluated. The locale \<open>key_value\<close> is the
  interface the components rely on; the ordered list is its interpretation.
\<close>

type_synonym ('k, 'v) std_map = "('k \<times> 'v) list"
type_synonym 'k std_set = "'k list"

section \<open>Operations\<close>

text \<open>\<open>m[k] = v\<close>, \<open>emplace\<close> on a fresh key, and assignment through an iterator.\<close>

fun map_put :: "'k::linorder \<Rightarrow> 'v \<Rightarrow> ('k, 'v) std_map \<Rightarrow> ('k, 'v) std_map" where
  "map_put k v [] = [(k, v)]"
| "map_put k v (p # m) =
     (if fst p < k then p # map_put k v m
      else if fst p = k then (k, v) # m
      else (k, v) # p # m)"

text \<open>\<open>erase(key)\<close>, which is a no-op on an absent key.\<close>

definition map_erase :: "'k \<Rightarrow> ('k, 'v) std_map \<Rightarrow> ('k, 'v) std_map" where
  "map_erase k m = filter (\<lambda>p. fst p \<noteq> k) m"

definition map_has :: "('k, 'v) std_map \<Rightarrow> 'k \<Rightarrow> bool" where
  "map_has m k = (map_of m k \<noteq> None)"

text \<open>The representation invariant: keys strictly increasing.\<close>

definition map_ok :: "('k::linorder, 'v) std_map \<Rightarrow> bool" where
  "map_ok m = sorted_wrt (<) (map fst m)"

definition set_insert :: "'k::linorder \<Rightarrow> 'k std_set \<Rightarrow> 'k std_set" where
  "set_insert x s = (if x \<in> set s then s else insort x s)"

definition set_erase :: "'k \<Rightarrow> 'k std_set \<Rightarrow> 'k std_set" where
  "set_erase x s = filter (\<lambda>y. y \<noteq> x) s"

definition set_ok :: "'k::linorder std_set \<Rightarrow> bool" where
  "set_ok s = sorted_wrt (<) s"

section \<open>Laws\<close>

named_theorems map_simps \<open>lookup, domain and size of ordered maps and sets\<close>

lemma map_of_map_put [simp, map_simps]:
  "map_of (map_put k v m) = (map_of m)(k \<mapsto> v)"
  by (induction m) (auto simp: fun_eq_iff)

lemma map_of_map_erase [simp, map_simps]:
  "map_of (map_erase k m) = (map_of m)(k := None)"
  by (induction m) (auto simp: map_erase_def fun_eq_iff)

lemma map_erase_Nil [simp]: "map_erase k [] = []"
  by (simp add: map_erase_def)

lemma map_has_iff [map_simps]: "map_has m k \<longleftrightarrow> k \<in> dom (map_of m)"
  by (auto simp: map_has_def)

lemma fst_set_map_put: "fst ` set (map_put k v m) = insert k (fst ` set m)"
  by (induction m) auto

lemma set_map_put_subset: "set (map_put k v m) \<subseteq> insert (k, v) (set m)"
  by (induction m) auto

lemma map_ok_Nil [simp, intro]: "map_ok []"
  by (simp add: map_ok_def)

lemma map_ok_Cons:
  "map_ok (p # m) \<longleftrightarrow> (\<forall>q \<in> set m. fst p < fst q) \<and> map_ok m"
  by (simp add: map_ok_def)

lemma map_ok_distinct: "map_ok m \<Longrightarrow> distinct (map fst m)"
  by (simp add: map_ok_def strict_sorted_iff)

lemma map_ok_map_put [simp, intro]: "map_ok m \<Longrightarrow> map_ok (map_put k v m)"
proof (induction m)
  case Nil
  show ?case by (simp add: map_ok_def)
next
  case (Cons p m)
  have bound: "\<forall>q \<in> set (map_put k v m). fst p < fst q" if "fst p < k"
  proof
    fix q assume "q \<in> set (map_put k v m)"
    then have "q = (k, v) \<or> q \<in> set m" using set_map_put_subset by fast
    then show "fst p < fst q" using that Cons.prems by (auto simp: map_ok_Cons)
  qed
  show ?case
  proof (cases "fst p < k")
    case True
    then show ?thesis using bound Cons by (simp add: map_ok_Cons)
  next
    case False
    have "\<forall>q \<in> set m. k < fst q"
      using False Cons.prems by (force simp: map_ok_Cons not_less)
    then show ?thesis using False Cons.prems by (auto simp: map_ok_Cons)
  qed
qed

lemma map_ok_map_erase [simp, intro]: "map_ok m \<Longrightarrow> map_ok (map_erase k m)"
  unfolding map_ok_def map_erase_def by (induction m) auto

lemma length_map_put:
  "map_ok m \<Longrightarrow> length (map_put k v m) = (if map_has m k then length m else Suc (length m))"
proof (induction m)
  case Nil
  show ?case by (simp add: map_has_def)
next
  case (Cons p m)
  have "map_of m k = None" if "k < fst p"
  proof -
    have "k \<notin> fst ` set m" using that Cons.prems by (force simp: map_ok_Cons)
    then show ?thesis by (simp add: map_of_eq_None_iff)
  qed
  with Cons show ?case by (cases p) (auto simp: map_has_def map_ok_Cons)
qed

lemma length_map_erase:
  "map_ok m \<Longrightarrow> length (map_erase k m) = (if map_has m k then length m - 1 else length m)"
proof (induction m)
  case Nil
  show ?case by (simp add: map_has_def)
next
  case (Cons p m)
  have notin: "map_of m (fst p) = None"
    using Cons.prems by (force simp: map_ok_Cons map_of_eq_None_iff)
  have pos: "0 < length m" if "map_of m k \<noteq> None"
    using that by (cases m) auto
  show ?case
  proof (cases "fst p = k")
    case True
    then have "map_erase k m = m"
      using notin unfolding map_erase_def by (intro filter_True) (metis imageI map_of_eq_None_iff)
    then show ?thesis using True by (simp add: map_erase_def map_has_def)
  next
    case False
    then show ?thesis using Cons pos by (cases p) (auto simp: map_erase_def map_has_def map_ok_Cons)
  qed
qed

lemma length_eq_card_dom: "map_ok m \<Longrightarrow> length m = card (dom (map_of m))"
  using distinct_card [OF map_ok_distinct, of m] by (simp add: dom_map_of_conv_image_fst)

lemma finite_dom_map_of' [simp]: "finite (dom (map_of m))"
  by (rule finite_dom_map_of)

lemma set_set_insert [simp, map_simps]: "set (set_insert x s) = insert x (set s)"
  by (auto simp: set_insert_def set_insort_key)

lemma set_set_erase [simp, map_simps]: "set (set_erase x s) = set s - {x}"
  by (auto simp: set_erase_def)

lemma set_ok_Nil [simp, intro]: "set_ok []"
  by (simp add: set_ok_def)

lemma set_ok_set_insert [simp, intro]: "set_ok s \<Longrightarrow> set_ok (set_insert x s)"
  by (auto simp: set_ok_def set_insert_def strict_sorted_iff sorted_insort distinct_insort)

lemma set_ok_set_erase [simp, intro]: "set_ok s \<Longrightarrow> set_ok (set_erase x s)"
  by (simp add: set_ok_def set_erase_def sorted_wrt_filter)

lemma set_erase_eq_Nil_iff: "set_erase x s = [] \<longleftrightarrow> set s \<subseteq> {x}"
  by (auto simp: set_erase_def filter_empty_conv)

section \<open>The interface\<close>

text \<open>
  What a client of a map uses: lookup after an insertion and after a deletion, and the number of
  entries. The lemmas of the locale count the entries that satisfy a predicate, which is how the
  registries keep per-source totals beside the map they summarise.
\<close>

locale key_value =
  fixes lookup :: "'m \<Rightarrow> 'k \<Rightarrow> 'v option"
    and put :: "'k \<Rightarrow> 'v \<Rightarrow> 'm \<Rightarrow> 'm"
    and del :: "'k \<Rightarrow> 'm \<Rightarrow> 'm"
    and size_of :: "'m \<Rightarrow> nat"
    and good :: "'m \<Rightarrow> bool"
  assumes lookup_put: "good m \<Longrightarrow> lookup (put k v m) = (lookup m)(k \<mapsto> v)"
    and lookup_del: "good m \<Longrightarrow> lookup (del k m) = (lookup m)(k := None)"
    and good_put: "good m \<Longrightarrow> good (put k v m)"
    and good_del: "good m \<Longrightarrow> good (del k m)"
    and finite_keys: "good m \<Longrightarrow> finite (dom (lookup m))"
    and size_card: "good m \<Longrightarrow> size_of m = card (dom (lookup m))"
begin

definition count_of :: "('v \<Rightarrow> bool) \<Rightarrow> 'm \<Rightarrow> nat" where
  "count_of P m = card {k. \<exists>v. lookup m k = Some v \<and> P v}"

lemma count_finite: "good m \<Longrightarrow> finite {k. \<exists>v. lookup m k = Some v \<and> P v}"
  by (rule finite_subset [OF _ finite_keys]) auto

lemma count_le_size: "good m \<Longrightarrow> count_of P m \<le> size_of m"
  unfolding count_of_def size_card by (rule card_mono [OF finite_keys]) auto

lemma size_put_new: "good m \<Longrightarrow> lookup m k = None \<Longrightarrow> size_of (put k v m) = Suc (size_of m)"
  by (simp add: size_card good_put lookup_put finite_keys domIff)

lemma size_del_present:
  "good m \<Longrightarrow> lookup m k = Some v \<Longrightarrow> size_of m = Suc (size_of (del k m))"
  using card.remove [of "dom (lookup m)" k]
  by (simp add: size_card good_del lookup_del finite_keys domI)

lemma count_put_new:
  assumes "good m" and "lookup m k = None"
  shows "count_of P (put k v m) = (if P v then Suc (count_of P m) else count_of P m)"
proof -
  let ?S = "{j. \<exists>w. lookup m j = Some w \<and> P w}"
  have "{j. \<exists>w. lookup (put k v m) j = Some w \<and> P w} = (if P v then insert k ?S else ?S)"
    using assms by (auto simp: lookup_put)
  moreover have "k \<notin> ?S" using assms by simp
  ultimately show ?thesis
    using count_finite [OF assms(1), of P] by (simp add: count_of_def)
qed

lemma count_del_present:
  assumes "good m" and "lookup m k = Some v"
  shows "count_of P m = (if P v then Suc (count_of P (del k m)) else count_of P (del k m))"
proof -
  let ?S = "{j. \<exists>w. lookup (del k m) j = Some w \<and> P w}"
  have "{j. \<exists>w. lookup m j = Some w \<and> P w} = (if P v then insert k ?S else ?S)"
    using assms by (auto simp: lookup_del)
  moreover have "k \<notin> ?S" using assms by (simp add: lookup_del)
  ultimately show ?thesis
    using count_finite [OF good_del [OF assms(1), of k], of P] by (simp add: count_of_def)
qed

lemma count_pos:
  "good m \<Longrightarrow> lookup m k = Some v \<Longrightarrow> P v \<Longrightarrow> 0 < count_of P m"
  using count_finite [of m P] by (auto simp: count_of_def card_gt_0_iff)

lemma count_zero_iff:
  "good m \<Longrightarrow> count_of P m = 0 \<longleftrightarrow> (\<forall>k v. lookup m k = Some v \<longrightarrow> \<not> P v)"
  using count_finite [of m P] by (auto simp: count_of_def)

end

interpretation smap: key_value map_of map_put map_erase length map_ok
  by unfold_locales (auto simp: length_eq_card_dom)

end
