(* ===== verification/Duplicate_Registry.thy ===== *)
theory Duplicate_Registry
  imports Std_Map
begin

text \<open>
  The process-wide registry of share identities (src/stratum/duplicate_registry.cpp). Each
  operation of the class is one definition over the record of its fields; the mutex makes every
  operation atomic, so a sequence of calls is a sequence of steps. The \<open>catch\<close> blocks undo a
  failed allocation and are not modelled: allocation does not fail here.
\<close>

section \<open>State\<close>

type_synonym duplicate_key = bytes

record dup_entry =
  entry_source :: u64
  entry_height :: u64
  entry_generation :: u64

record dup_bucket =
  external_references :: u64
  retired :: bool
  keys :: "duplicate_key std_set"

record dup_token =
  token_key :: duplicate_key
  token_generation :: u64

datatype reserve_result = ReserveReserved | ReserveDuplicate | ReserveCapacity

record dup_registry =
  global_capacity :: u64
  source_capacity :: u64
  entries :: "(duplicate_key, dup_entry) std_map"
  source_sizes :: "(u64, u64) std_map"
  buckets :: "(u64 \<times> u64, dup_bucket) std_map"
  next_generation :: u64

definition null_token :: dup_token where
  "null_token = \<lparr>token_key = replicate 48 0, token_generation = 0\<rparr>"

definition empty_bucket :: dup_bucket where
  "empty_bucket = \<lparr>external_references = 0, retired = False, keys = []\<rparr>"

text \<open>\<open>buckets_[{source_id, height}]\<close> reads a default bucket where none is stored.\<close>

definition bucket_in :: "(u64 \<times> u64, dup_bucket) std_map \<Rightarrow> u64 \<Rightarrow> u64 \<Rightarrow> dup_bucket" where
  "bucket_in m s h = (case map_of m (s, h) of None \<Rightarrow> empty_bucket | Some b \<Rightarrow> b)"

abbreviation bucket_at :: "dup_registry \<Rightarrow> u64 \<Rightarrow> u64 \<Rightarrow> dup_bucket" where
  "bucket_at r \<equiv> bucket_in (buckets r)"

section \<open>Operations\<close>

definition make_registry :: "u64 \<Rightarrow> u64 \<Rightarrow> dup_registry result" where
  "make_registry global_cap source_cap =
     (if global_cap = 0 \<or> source_cap = 0 \<or> source_cap > global_cap
      then Inl (InvalidArgument ''invalid duplicate registry capacity'')
      else Inr \<lparr>global_capacity = global_cap, source_capacity = source_cap, entries = [],
                source_sizes = [], buckets = [], next_generation = 1\<rparr>)"

text \<open>The admission test that \<open>reserve\<close> and \<open>restore\<close> share.\<close>

definition at_capacity :: "dup_registry \<Rightarrow> u64 \<Rightarrow> bool" where
  "at_capacity r s =
     (unat (global_capacity r) \<le> length (entries r) \<or>
      (case map_of (source_sizes r) s of None \<Rightarrow> False | Some n \<Rightarrow> source_capacity r \<le> n))"

text \<open>The insertion into the three containers that \<open>reserve\<close> and \<open>restore\<close> share.\<close>

definition insert_entry :: "duplicate_key \<Rightarrow> dup_entry \<Rightarrow> dup_registry \<Rightarrow> dup_registry" where
  "insert_entry k e r =
     (let s = entry_source e; h = entry_height e;
          n = (case map_of (source_sizes r) s of None \<Rightarrow> 0 | Some n \<Rightarrow> n);
          b = bucket_at r s h
      in r\<lparr>entries := map_put k e (entries r),
           source_sizes := map_put s (n + 1) (source_sizes r),
           buckets := map_put (s, h) (b\<lparr>keys := set_insert k (keys b)\<rparr>) (buckets r)\<rparr>)"

definition reserve ::
  "dup_registry \<Rightarrow> duplicate_key \<Rightarrow> u64 \<Rightarrow> u64 \<Rightarrow> reserve_result \<times> dup_token \<times> dup_registry" where
  "reserve r k s h =
     (if map_has (entries r) k then (ReserveDuplicate, null_token, r)
      else if at_capacity r s then (ReserveCapacity, null_token, r)
      else
        let g = (if next_generation r = 0 then 1 else next_generation r);
            e = \<lparr>entry_source = s, entry_height = h, entry_generation = g\<rparr>
        in (ReserveReserved, \<lparr>token_key = k, token_generation = g\<rparr>,
            insert_entry k e (r\<lparr>next_generation := g + 1\<rparr>)))"

text \<open>\<open>--count == 0\<close> erases the per-source counter.\<close>

definition drop_source :: "u64 \<Rightarrow> (u64, u64) std_map \<Rightarrow> (u64, u64) std_map" where
  "drop_source s m =
     (case map_of m s of
        None \<Rightarrow> m
      | Some n \<Rightarrow> if n - 1 = 0 then map_erase s m else map_put s (n - 1) m)"

text \<open>The bucket loses one key, and itself when nothing is left that refers to it.\<close>

definition drop_key :: "duplicate_key \<Rightarrow> u64 \<Rightarrow> u64 \<Rightarrow> dup_registry \<Rightarrow> dup_registry" where
  "drop_key k s h r =
     (case map_of (buckets r) (s, h) of
        None \<Rightarrow> r
      | Some b \<Rightarrow>
          let b' = b\<lparr>keys := set_erase k (keys b)\<rparr>
          in if keys b' = [] \<and> external_references b' = 0
             then r\<lparr>buckets := map_erase (s, h) (buckets r)\<rparr>
             else r\<lparr>buckets := map_put (s, h) b' (buckets r)\<rparr>)"

definition release :: "dup_registry \<Rightarrow> dup_token \<Rightarrow> bool \<times> dup_registry" where
  "release r t =
     (if token_generation t = 0 then (False, r)
      else case map_of (entries r) (token_key t) of
             None \<Rightarrow> (False, r)
           | Some e \<Rightarrow>
               if entry_generation e \<noteq> token_generation t then (False, r)
               else (True,
                 drop_key (token_key t) (entry_source e) (entry_height e)
                   (r\<lparr>entries := map_erase (token_key t) (entries r),
                      source_sizes := drop_source (entry_source e) (source_sizes r)\<rparr>)))"

definition retain_height :: "dup_registry \<Rightarrow> u64 \<Rightarrow> u64 \<Rightarrow> dup_registry" where
  "retain_height r s h =
     (let b = bucket_at r s h
      in r\<lparr>buckets := map_put (s, h) (b\<lparr>external_references := external_references b + 1\<rparr>)
                        (buckets r)\<rparr>)"

text \<open>The loop of \<open>collect_bucket\<close> over the keys of a bucket, in order.\<close>

fun collect_keys ::
  "u64 \<Rightarrow> duplicate_key list \<Rightarrow> dup_registry \<Rightarrow> dup_token list \<times> dup_registry" where
  "collect_keys s [] r = ([], r)"
| "collect_keys s (k # ks) r =
     (case map_of (entries r) k of
        None \<Rightarrow> collect_keys s ks r
      | Some e \<Rightarrow>
          let (ts, r') = collect_keys s ks
                (r\<lparr>entries := map_erase k (entries r),
                   source_sizes := drop_source s (source_sizes r)\<rparr>)
          in (\<lparr>token_key = k, token_generation = entry_generation e\<rparr> # ts, r'))"

definition collect_bucket :: "dup_registry \<Rightarrow> u64 \<Rightarrow> u64 \<Rightarrow> dup_token list \<times> dup_registry" where
  "collect_bucket r s h =
     (case map_of (buckets r) (s, h) of
        None \<Rightarrow> ([], r)
      | Some b \<Rightarrow>
          if \<not> retired b \<or> external_references b \<noteq> 0 then ([], r)
          else let (ts, r') = collect_keys s (keys b) r
               in (ts, r'\<lparr>buckets := map_erase (s, h) (buckets r')\<rparr>))"

definition retire_height :: "dup_registry \<Rightarrow> u64 \<Rightarrow> u64 \<Rightarrow> dup_token list \<times> dup_registry" where
  "retire_height r s h =
     collect_bucket
       (r\<lparr>buckets := map_put (s, h) ((bucket_at r s h)\<lparr>retired := True\<rparr>) (buckets r)\<rparr>) s h"

definition release_height :: "dup_registry \<Rightarrow> u64 \<Rightarrow> u64 \<Rightarrow> dup_token list \<times> dup_registry" where
  "release_height r s h =
     (case map_of (buckets r) (s, h) of
        None \<Rightarrow> ([], r)
      | Some b \<Rightarrow>
          if external_references b = 0 then ([], r)
          else collect_bucket
                 (r\<lparr>buckets := map_put (s, h)
                      (b\<lparr>external_references := external_references b - 1\<rparr>) (buckets r)\<rparr>) s h)"

definition restore ::
  "dup_registry \<Rightarrow> duplicate_key \<Rightarrow> u64 \<Rightarrow> u64 \<Rightarrow> u64 \<Rightarrow> dup_registry result" where
  "restore r k s h g =
     (if g = 0 then Inl (InvalidArgument ''zero duplicate generation'')
      else if map_has (entries r) k then Inr r
      else if at_capacity r s
      then Inl (RuntimeError ''persisted duplicate set exceeds configured capacity'')
      else
        let r' = insert_entry k \<lparr>entry_source = s, entry_height = h, entry_generation = g\<rparr> r
        in Inr (r'\<lparr>next_generation := max (next_generation r') (g + 1)\<rparr>))"

definition registry_size :: "dup_registry \<Rightarrow> nat" where
  "registry_size r = length (entries r)"

definition size_in :: "(u64, u64) std_map \<Rightarrow> u64 \<Rightarrow> u64" where
  "size_in m s = (case map_of m s of None \<Rightarrow> 0 | Some n \<Rightarrow> n)"

definition source_size :: "dup_registry \<Rightarrow> u64 \<Rightarrow> u64" where
  "source_size r s = size_in (source_sizes r) s"

section \<open>Invariant\<close>

text \<open>
  The accounting half relates the entries to the per-source counters and the capacities; the
  bucket half says that the bucket of a source and height holds exactly the live keys reserved
  under them.
\<close>

definition live_of :: "dup_registry \<Rightarrow> u64 \<Rightarrow> nat" where
  "live_of r s = smap.count_of (\<lambda>e. entry_source e = s) (entries r)"

definition acct_inv :: "dup_registry \<Rightarrow> bool" where
  "acct_inv r \<longleftrightarrow>
     map_ok (entries r) \<and> map_ok (source_sizes r) \<and>
     0 < source_capacity r \<and> source_capacity r \<le> global_capacity r \<and>
     length (entries r) \<le> unat (global_capacity r) \<and>
     (\<forall>s. unat (source_size r s) = live_of r s \<and> source_size r s \<le> source_capacity r) \<and>
     (\<forall>s. map_of (source_sizes r) s \<noteq> Some 0) \<and>
     (\<forall>k e. map_of (entries r) k = Some e \<longrightarrow> entry_generation e \<noteq> 0)"

definition keys_in :: "(duplicate_key, dup_entry) std_map \<Rightarrow> u64 \<Rightarrow> u64 \<Rightarrow> duplicate_key set" where
  "keys_in m s h = {k. \<exists>e. map_of m k = Some e \<and> entry_source e = s \<and> entry_height e = h}"

abbreviation keys_under :: "dup_registry \<Rightarrow> u64 \<Rightarrow> u64 \<Rightarrow> duplicate_key set" where
  "keys_under r \<equiv> keys_in (entries r)"

definition bucket_inv :: "dup_registry \<Rightarrow> bool" where
  "bucket_inv r \<longleftrightarrow>
     map_ok (buckets r) \<and>
     (\<forall>s h. set (keys (bucket_at r s h)) = keys_under r s h) \<and>
     (\<forall>s h. set_ok (keys (bucket_at r s h)))"

definition reg_inv :: "dup_registry \<Rightarrow> bool" where
  "reg_inv r \<longleftrightarrow> acct_inv r \<and> bucket_inv r"

section \<open>Each operation keeps the invariant\<close>

named_theorems reg_simps \<open>registry bookkeeping\<close>

lemma empty_bucket_fields [simp]:
  "keys empty_bucket = []" "retired empty_bucket = False" "external_references empty_bucket = 0"
  by (simp_all add: empty_bucket_def)

lemma bucket_in_put [reg_simps]:
  "bucket_in (map_put (s, h) b m) s' h' = (if s' = s \<and> h' = h then b else bucket_in m s' h')"
  by (auto simp: bucket_in_def)

lemma bucket_in_erase [reg_simps]:
  "bucket_in (map_erase (s, h) m) s' h' =
     (if s' = s \<and> h' = h then empty_bucket else bucket_in m s' h')"
  by (auto simp: bucket_in_def)

lemma acct_inv_frame [reg_simps]:
  "acct_inv (r\<lparr>buckets := x\<rparr>) = acct_inv r"
  "acct_inv (r\<lparr>next_generation := g\<rparr>) = acct_inv r"
  by (simp_all add: acct_inv_def source_size_def size_in_def live_of_def)

lemma bucket_inv_frame [reg_simps]:
  "bucket_inv (r\<lparr>next_generation := g\<rparr>) = bucket_inv r"
  "bucket_inv (r\<lparr>source_sizes := y\<rparr>) = bucket_inv r"
  by (simp_all add: bucket_inv_def reg_simps)

lemma at_capacity_frame [reg_simps]:
  "at_capacity (r\<lparr>next_generation := g\<rparr>) = at_capacity r"
  by (simp add: at_capacity_def fun_eq_iff split: option.splits)

lemma reg_inv_generation [reg_simps]:
  "reg_inv (r\<lparr>next_generation := g\<rparr>) = reg_inv r"
  by (simp add: reg_inv_def reg_simps)

subsection \<open>Accounting\<close>

text \<open>A key that enters or leaves the entries moves the counter of its source by one.\<close>

lemma acct_inv_add:
  assumes inv: "acct_inv r" and new: "map_of (entries r) k = None"
    and room: "\<not> at_capacity r (entry_source e)" and gen: "entry_generation e \<noteq> 0"
  shows "acct_inv (r\<lparr>entries := map_put k e (entries r),
           source_sizes := map_put (entry_source e) (source_size r (entry_source e) + 1)
             (source_sizes r)\<rparr>)" (is "acct_inv ?r")
proof -
  let ?s = "entry_source e"
  have ok: "map_ok (entries r)" using inv by (simp add: acct_inv_def)
  have live: "live_of ?r s = (if s = ?s then Suc (live_of r s) else live_of r s)" for s
    using smap.count_put_new [OF ok new, of "\<lambda>e. entry_source e = s" e] by (simp add: live_of_def)
  have sizes: "source_size ?r s = (if s = ?s then source_size r s + 1 else source_size r s)" for s
    by (auto simp: source_size_def size_in_def)
  have small: "source_size r ?s < source_capacity r"
    using room inv by (auto simp: at_capacity_def source_size_def size_in_def acct_inv_def not_le
        split: option.splits)
  have "unat (source_size r ?s + 1) = Suc (unat (source_size r ?s))"
    and "source_size r ?s + 1 \<le> source_capacity r" and "source_size r ?s + 1 \<noteq> 0"
    using plus_one_below [OF small] by auto
  moreover have "length (map_put k e (entries r)) \<le> unat (global_capacity r)"
    using room ok new by (simp add: length_map_put at_capacity_def map_has_def)
  ultimately show ?thesis using inv gen
    unfolding acct_inv_def sizes live by auto
qed

lemma acct_inv_remove:
  assumes inv: "acct_inv r" and old: "map_of (entries r) k = Some e"
  shows "acct_inv (r\<lparr>entries := map_erase k (entries r),
           source_sizes := drop_source (entry_source e) (source_sizes r)\<rparr>)" (is "acct_inv ?r")
proof -
  let ?s = "entry_source e"
  have ok: "map_ok (entries r)" and oks: "map_ok (source_sizes r)"
    using inv by (auto simp: acct_inv_def)
  have live: "live_of r s = (if s = ?s then Suc (live_of ?r s) else live_of ?r s)" for s
    using smap.count_del_present [OF ok old, of "\<lambda>e. entry_source e = s"]
    by (auto simp: live_of_def)
  have pos: "source_size r ?s \<noteq> 0"
  proof -
    have "unat (source_size r ?s) = Suc (live_of ?r ?s)"
      using inv live [of ?s] by (simp add: acct_inv_def)
    then show ?thesis by (metis nat.distinct(1) unat_0)
  qed
  then obtain n where some: "map_of (source_sizes r) ?s = Some n" and n: "source_size r ?s = n"
    by (auto simp: source_size_def size_in_def split: option.splits)
  have sizes: "source_size ?r s = (if s = ?s then source_size r s - 1 else source_size r s)" for s
    using some by (auto simp: source_size_def size_in_def drop_source_def)
  have dec: "unat (source_size r ?s - 1) = unat (source_size r ?s) - 1"
    and le: "source_size r ?s - 1 \<le> source_size r ?s"
    using pos by (auto simp: unat_minus_one_pos word_le_nat_alt)
  have nz: "map_of (drop_source ?s (source_sizes r)) s \<noteq> Some 0" for s
    using inv some by (auto simp: drop_source_def acct_inv_def)
  have oks': "map_ok (drop_source ?s (source_sizes r))"
    using oks some by (simp add: drop_source_def)
  have len: "length (map_erase k (entries r)) \<le> unat (global_capacity r)"
    using inv ok by (auto simp: acct_inv_def length_map_erase)
  have main: "unat (source_size ?r s) = live_of ?r s \<and> source_size ?r s \<le> source_capacity r" for s
    using inv live [of s] dec le unfolding sizes acct_inv_def
    by (cases "s = ?s") (auto intro: order_trans)
  show ?thesis
    using inv nz oks' len main unfolding acct_inv_def by (auto split: if_splits)
qed

subsection \<open>Insertion and release\<close>

lemma insert_entry_inv:
  assumes inv: "reg_inv r" and new: "map_of (entries r) k = None"
    and room: "\<not> at_capacity r (entry_source e)" and gen: "entry_generation e \<noteq> 0"
  shows "reg_inv (insert_entry k e r)"
proof -
  let ?s = "entry_source e" and ?h = "entry_height e"
  let ?b = "(bucket_at r ?s ?h)\<lparr>keys := set_insert k (keys (bucket_at r ?s ?h))\<rparr>"
  let ?r = "r\<lparr>entries := map_put k e (entries r),
      source_sizes := map_put ?s (source_size r ?s + 1) (source_sizes r)\<rparr>"
  have eq: "insert_entry k e r = ?r\<lparr>buckets := map_put (?s, ?h) ?b (buckets ?r)\<rparr>"
    by (simp add: insert_entry_def Let_def source_size_def size_in_def)
  have acct: "acct_inv ?r" using assms by (intro acct_inv_add) (auto simp: reg_inv_def)
  have under: "keys_in (map_put k e (entries r)) s h = (if s = ?s \<and> h = ?h then insert k (keys_under r s h)
      else keys_under r s h)" for s h
    using new by (auto simp: keys_in_def)
  have "bucket_inv (insert_entry k e r)"
    using inv unfolding eq bucket_inv_def reg_inv_def
    by (simp add: reg_simps under)
  with acct show ?thesis by (simp add: reg_inv_def eq reg_simps)
qed

lemma drop_key_inv:
  assumes acct: "acct_inv r" and ok: "map_ok (buckets r)"
    and other: "\<And>s' h'. set (keys (bucket_at r s' h')) =
      keys_under r s' h' \<union> (if s' = s \<and> h' = h then {k} else {})"
    and sok: "\<And>s' h'. set_ok (keys (bucket_at r s' h'))"
    and gone: "map_of (entries r) k = None"
  shows "reg_inv (drop_key k s h r)"
proof -
  have notin: "k \<notin> keys_under r s' h'" for s' h' using gone by (simp add: keys_in_def)
  have some: "map_of (buckets r) (s, h) = Some (bucket_at r s h)"
    using other [of s h] by (auto simp: bucket_in_def split: option.splits)
  let ?b = "(bucket_at r s h)\<lparr>keys := set_erase k (keys (bucket_at r s h))\<rparr>"
  have kb: "set (keys ?b) = keys_under r s h" using other [of s h] notin by auto
  show ?thesis
  proof (cases "keys ?b = [] \<and> external_references ?b = 0")
    case True
    then have "keys_under r s h = {}" using kb by simp
    then show ?thesis
      using True some acct ok other sok
      by (auto simp: drop_key_def reg_inv_def bucket_inv_def reg_simps Let_def)
  next
    case False
    then show ?thesis
      using some acct ok other sok kb
      by (auto simp: drop_key_def reg_inv_def bucket_inv_def reg_simps Let_def)
  qed
qed

lemma reserve_inv: "reg_inv r \<Longrightarrow> reg_inv (snd (snd (reserve r k s h)))"
  by (auto simp: reserve_def Let_def map_has_def reg_simps
      intro!: insert_entry_inv)

lemma release_inv:
  assumes inv: "reg_inv r"
  shows "reg_inv (snd (release r t))"
proof (cases "token_generation t = 0 \<or> map_of (entries r) (token_key t) = None")
  case True
  then show ?thesis using inv by (auto simp: release_def)
next
  case False
  then obtain e where e: "map_of (entries r) (token_key t) = Some e" by auto
  let ?k = "token_key t"
  let ?r = "r\<lparr>entries := map_erase ?k (entries r),
      source_sizes := drop_source (entry_source e) (source_sizes r)\<rparr>"
  have "reg_inv (drop_key ?k (entry_source e) (entry_height e) ?r)"
  proof (rule drop_key_inv)
    show "acct_inv ?r" using inv e by (intro acct_inv_remove) (auto simp: reg_inv_def)
    show "set (keys (bucket_at ?r s' h')) = keys_under ?r s' h' \<union>
        (if s' = entry_source e \<and> h' = entry_height e then {?k} else {})" for s' h'
      using inv e by (auto simp: reg_inv_def bucket_inv_def reg_simps keys_in_def)
  qed (use inv in \<open>auto simp: reg_inv_def bucket_inv_def reg_simps\<close>)
  then show ?thesis using e inv by (simp add: release_def)
qed

subsection \<open>Retirement of a height\<close>

lemma collect_keys_spec:
  assumes "acct_inv r" and "distinct ks"
    and "\<forall>k \<in> set ks. \<exists>e. map_of (entries r) k = Some e \<and> entry_source e = s"
    and "collect_keys s ks r = (ts, r')"
  shows "acct_inv r' \<and> map_of (entries r') = (map_of (entries r)) |` (- set ks) \<and>
    buckets r' = buckets r \<and>
    ts = map (\<lambda>k. \<lparr>token_key = k,
      token_generation = entry_generation (the (map_of (entries r) k))\<rparr>) ks"
  using assms
proof (induction ks arbitrary: r ts)
  case Nil
  then show ?case by simp
next
  case (Cons k ks)
  obtain e where e: "map_of (entries r) k = Some e" "entry_source e = s"
    using Cons.prems(3) by auto
  let ?r = "r\<lparr>entries := map_erase k (entries r), source_sizes := drop_source s (source_sizes r)\<rparr>"
  obtain ts' where rec: "collect_keys s ks ?r = (ts', r')"
    and ts: "ts = \<lparr>token_key = k, token_generation = entry_generation e\<rparr> # ts'"
    using Cons.prems(4) e by (auto split: prod.splits)
  have acct: "acct_inv ?r" using acct_inv_remove [OF Cons.prems(1) e(1)] e(2) by simp
  have rest: "\<forall>j \<in> set ks. \<exists>e. map_of (entries ?r) j = Some e \<and> entry_source e = s"
    using Cons.prems(2,3) by auto
  have dist: "distinct ks" and k: "k \<notin> set ks" using Cons.prems(2) by auto
  note ih = Cons.IH [OF acct dist rest rec]
  have "map_of (entries r') = (map_of (entries r)) |` (- set (k # ks))"
    using ih by (auto simp: fun_eq_iff restrict_map_def)
  moreover have "ts = map (\<lambda>k. \<lparr>token_key = k,
      token_generation = entry_generation (the (map_of (entries r) k))\<rparr>) (k # ks)"
    using ih ts e(1) k by auto
  ultimately show ?case using ih by simp
qed

lemma collect_bucket_idle:
  "\<not> retired (bucket_at r s h) \<or> external_references (bucket_at r s h) \<noteq> 0 \<Longrightarrow>
     collect_bucket r s h = ([], r)"
  by (auto simp: collect_bucket_def bucket_in_def split: option.splits)

lemma collect_bucket_due:
  assumes inv: "reg_inv r" and due: "retired (bucket_at r s h)" "external_references (bucket_at r s h) = 0"
    and run: "collect_bucket r s h = (ts, r')"
  shows "reg_inv r'" and "map_of (entries r') = (map_of (entries r)) |` (- keys_under r s h)"
    and "ts = map (\<lambda>k. \<lparr>token_key = k,
      token_generation = entry_generation (the (map_of (entries r) k))\<rparr>) (keys (bucket_at r s h))"
proof -
  have some: "map_of (buckets r) (s, h) = Some (bucket_at r s h)"
    using due by (auto simp: bucket_in_def split: option.splits)
  let ?ks = "keys (bucket_at r s h)"
  have ks: "set ?ks = keys_under r s h" "distinct ?ks"
    using inv by (auto simp: reg_inv_def bucket_inv_def set_ok_def strict_sorted_iff)
  obtain r1 where r1: "collect_keys s ?ks r = (ts, r1)"
    and r': "r' = r1\<lparr>buckets := map_erase (s, h) (buckets r1)\<rparr>"
    using run some due by (auto simp: collect_bucket_def split: prod.splits)
  have spec: "acct_inv r1 \<and> map_of (entries r1) = (map_of (entries r)) |` (- set ?ks) \<and>
      buckets r1 = buckets r \<and> ts = map (\<lambda>k. \<lparr>token_key = k,
      token_generation = entry_generation (the (map_of (entries r) k))\<rparr>) ?ks"
    using inv ks by (intro collect_keys_spec [OF _ ks(2) _ r1]) (auto simp: reg_inv_def keys_in_def)
  then show "map_of (entries r') = (map_of (entries r)) |` (- keys_under r s h)"
    and "ts = map (\<lambda>k. \<lparr>token_key = k,
      token_generation = entry_generation (the (map_of (entries r) k))\<rparr>) ?ks"
    by (simp_all add: r' ks)
  have under: "keys_under r1 s' h' = (if s' = s \<and> h' = h then {} else keys_under r s' h')" for s' h'
    using spec ks(1) by (auto simp: keys_in_def restrict_map_def split: if_splits)
  have "bucket_inv r'"
    using inv spec by (simp add: r' bucket_inv_def reg_inv_def reg_simps under)
  then show "reg_inv r'" using spec by (simp add: reg_inv_def r' reg_simps)
qed

text \<open>Changing the counter or the flag of a bucket leaves its keys alone.\<close>

lemma bucket_update_inv:
  assumes "reg_inv r" and "keys b = keys (bucket_at r s h)"
  shows "reg_inv (r\<lparr>buckets := map_put (s, h) b (buckets r)\<rparr>)"
  using assms by (auto simp: reg_inv_def bucket_inv_def reg_simps)

lemma collect_bucket_inv: "reg_inv r \<Longrightarrow> reg_inv (snd (collect_bucket r s h))"
proof (cases "retired (bucket_at r s h) \<and> external_references (bucket_at r s h) = 0")
  case True
  then show "reg_inv r \<Longrightarrow> ?thesis"
    using collect_bucket_due(1) [of r s h] by (metis prod.collapse)
next
  case False
  then show "reg_inv r \<Longrightarrow> ?thesis" by (simp add: collect_bucket_idle)
qed

lemma retain_height_inv: "reg_inv r \<Longrightarrow> reg_inv (retain_height r s h)"
  by (simp add: retain_height_def Let_def bucket_update_inv)

lemma retire_height_inv: "reg_inv r \<Longrightarrow> reg_inv (snd (retire_height r s h))"
  by (simp add: retire_height_def bucket_update_inv collect_bucket_inv)

lemma release_height_inv: "reg_inv r \<Longrightarrow> reg_inv (snd (release_height r s h))"
  by (auto simp: release_height_def bucket_in_def split: option.splits
      intro!: collect_bucket_inv bucket_update_inv)

lemma restore_inv: "reg_inv r \<Longrightarrow> restore r k s h g = Inr r' \<Longrightarrow> reg_inv r'"
  by (auto simp: restore_def Let_def map_has_def reg_simps
      split: if_splits intro!: insert_entry_inv)

section \<open>Runs of the registry\<close>

inductive reg_step :: "dup_registry \<Rightarrow> dup_registry \<Rightarrow> bool" where
  step_reserve: "reserve r k s h = (res, t, r') \<Longrightarrow> reg_step r r'"
| step_release: "release r t = (b, r') \<Longrightarrow> reg_step r r'"
| step_retain: "reg_step r (retain_height r s h)"
| step_retire: "retire_height r s h = (ts, r') \<Longrightarrow> reg_step r r'"
| step_release_height: "release_height r s h = (ts, r') \<Longrightarrow> reg_step r r'"
| step_restore: "restore r k s h g = Inr r' \<Longrightarrow> reg_step r r'"

inductive reg_reachable :: "u64 \<Rightarrow> u64 \<Rightarrow> dup_registry \<Rightarrow> bool" for g s where
  reg_start: "make_registry g s = Inr r \<Longrightarrow> reg_reachable g s r"
| reg_next: "reg_reachable g s r \<Longrightarrow> reg_step r r' \<Longrightarrow> reg_reachable g s r'"

inductive_cases reg_stepE: "reg_step r r'"

lemma make_registry_inv: "make_registry g s = Inr r \<Longrightarrow> reg_inv r"
  by (auto simp: make_registry_def reg_inv_def acct_inv_def bucket_inv_def source_size_def size_in_def
      live_of_def bucket_in_def keys_in_def smap.count_of_def word_gt_0 split: if_splits)

lemma reg_step_inv: "reg_step r r' \<Longrightarrow> reg_inv r \<Longrightarrow> reg_inv r'"
proof (induction rule: reg_step.induct)
  case (step_reserve r k s h res t r')
  then show ?case using reserve_inv [of r k s h] by simp
next
  case (step_release r t b r')
  then show ?case using release_inv [of r t] by simp
next
  case (step_retire r s h ts r')
  then show ?case using retire_height_inv [of r s h] by simp
next
  case (step_release_height r s h ts r')
  then show ?case using release_height_inv [of r s h] by simp
qed (auto intro: retain_height_inv restore_inv)

lemma insert_entry_caps [reg_simps]:
  "global_capacity (insert_entry k e r) = global_capacity r"
  "source_capacity (insert_entry k e r) = source_capacity r"
  by (simp_all add: insert_entry_def Let_def)

lemma drop_key_caps [reg_simps]:
  "global_capacity (drop_key k s h r) = global_capacity r"
  "source_capacity (drop_key k s h r) = source_capacity r"
  by (auto simp: drop_key_def Let_def split: option.splits)

lemma collect_keys_caps:
  "collect_keys s ks r = (ts, r') \<Longrightarrow>
     global_capacity r' = global_capacity r \<and> source_capacity r' = source_capacity r"
  by (induction s ks r arbitrary: ts r' rule: collect_keys.induct)
    (auto split: option.splits prod.splits)

lemma collect_bucket_caps [reg_simps]:
  "global_capacity (snd (collect_bucket r s h)) = global_capacity r"
  "source_capacity (snd (collect_bucket r s h)) = source_capacity r"
  by (auto simp: collect_bucket_def split: option.splits prod.splits dest: collect_keys_caps)

text \<open>No operation changes the configured capacities.\<close>

definition caps :: "dup_registry \<Rightarrow> u64 \<times> u64" where
  "caps r = (global_capacity r, source_capacity r)"

lemma operation_caps:
  "caps (snd (snd (reserve r k s h))) = caps r"
  "caps (snd (release r t)) = caps r"
  "caps (retain_height r s h) = caps r"
  "caps (snd (retire_height r s h)) = caps r"
  "caps (snd (release_height r s h)) = caps r"
  by (auto simp: caps_def reserve_def release_def retain_height_def retire_height_def
      release_height_def Let_def reg_simps split: option.splits)

lemma restore_caps: "restore r k s h g = Inr r' \<Longrightarrow> caps r' = caps r"
  by (auto simp: caps_def restore_def Let_def reg_simps split: if_splits)

lemma reg_step_caps: "reg_step r r' \<Longrightarrow> caps r' = caps r"
  by (erule reg_stepE) (metis operation_caps restore_caps snd_conv)+

lemma reg_reachable_inv: "reg_reachable g s r \<Longrightarrow> reg_inv r"
  by (induction rule: reg_reachable.induct) (auto dest: make_registry_inv reg_step_inv)

lemma reg_reachable_caps:
  "reg_reachable g s r \<Longrightarrow> global_capacity r = g \<and> source_capacity r = s"
  by (induction rule: reg_reachable.induct)
    (auto simp: make_registry_def caps_def dest: reg_step_caps split: if_splits)

section \<open>Identities are admitted once\<close>

text \<open>
  What the share path relies on: a store in which an attempt on a live identity fails and changes
  nothing, and a successful attempt makes exactly that identity live. \<open>accepted\<close> collects the
  identities of the successful attempts of a sequence.
\<close>

fun accepted :: "('r \<Rightarrow> 'k \<Rightarrow> 'a \<Rightarrow> bool \<times> 'r) \<Rightarrow> 'r \<Rightarrow> ('k \<times> 'a) list \<Rightarrow> 'k list" where
  "accepted attempt r [] = []"
| "accepted attempt r ((k, a) # reqs) =
     (let (won, r') = attempt r k a
      in if won then k # accepted attempt r' reqs else accepted attempt r' reqs)"

locale reservation_store =
  fixes attempt :: "'r \<Rightarrow> 'k \<Rightarrow> 'a \<Rightarrow> bool \<times> 'r"
    and live :: "'r \<Rightarrow> 'k set"
    and sound :: "'r \<Rightarrow> bool"
  assumes attempt_sound: "sound r \<Longrightarrow> sound (snd (attempt r k a))"
    and attempt_live: "sound r \<Longrightarrow> k \<in> live r \<Longrightarrow> \<not> fst (attempt r k a)"
    and attempt_won: "sound r \<Longrightarrow> fst (attempt r k a) \<Longrightarrow> live (snd (attempt r k a)) = insert k (live r)"
    and attempt_lost: "sound r \<Longrightarrow> \<not> fst (attempt r k a) \<Longrightarrow> live (snd (attempt r k a)) = live r"
begin

lemma accepted_once:
  "sound r \<Longrightarrow> distinct (accepted attempt r reqs) \<and> set (accepted attempt r reqs) \<inter> live r = {}"
proof (induction reqs arbitrary: r)
  case Nil
  show ?case by simp
next
  case (Cons req reqs)
  obtain k a where req: "req = (k, a)" by (cases req)
  obtain won r' where at: "attempt r k a = (won, r')" by (cases "attempt r k a")
  have sr: "sound r'" using attempt_sound [OF Cons.prems, of k a] at by simp
  note ih = Cons.IH [OF sr]
  show ?case
  proof (cases won)
    case True
    then have "live r' = insert k (live r)" and "k \<notin> live r"
      using attempt_won [OF Cons.prems, of k a] attempt_live [OF Cons.prems, of k a] at by auto
    with ih True show ?thesis by (auto simp: req at)
  next
    case False
    then have "live r' = live r" using attempt_lost [OF Cons.prems, of k a] at by simp
    with ih False show ?thesis by (simp add: req at)
  qed
qed

lemma accepted_append:
  "accepted attempt r (xs @ ys) =
     accepted attempt r xs @ accepted attempt (fold (\<lambda>(k, a) r. snd (attempt r k a)) xs r) ys"
  by (induction xs arbitrary: r) (auto split: prod.splits)

end

definition live_keys :: "dup_registry \<Rightarrow> duplicate_key set" where
  "live_keys r = dom (map_of (entries r))"

definition reserve_attempt ::
  "dup_registry \<Rightarrow> duplicate_key \<Rightarrow> u64 \<times> u64 \<Rightarrow> bool \<times> dup_registry" where
  "reserve_attempt r k sh =
     (let (res, t, r') = reserve r k (fst sh) (snd sh) in (res = ReserveReserved, r'))"

lemma insert_entry_entries [reg_simps]: "entries (insert_entry k e r) = map_put k e (entries r)"
  by (simp add: insert_entry_def Let_def)

lemma reserve_attempt_live:
  "live_keys (snd (reserve_attempt r k a)) =
     (if fst (reserve_attempt r k a) then insert k (live_keys r) else live_keys r)"
  by (auto simp: reserve_attempt_def reserve_def live_keys_def Let_def reg_simps)

interpretation dup_store: reservation_store reserve_attempt live_keys reg_inv
proof
  fix r k a
  assume inv: "reg_inv r"
  show "reg_inv (snd (reserve_attempt r k a))"
    using reserve_inv [OF inv, of k "fst a" "snd a"]
    by (auto simp: reserve_attempt_def split: prod.splits)
  show "k \<in> live_keys r \<Longrightarrow> \<not> fst (reserve_attempt r k a)"
    by (auto simp: reserve_attempt_def reserve_def live_keys_def map_has_def)
qed (simp_all add: reserve_attempt_live)

section \<open>Properties\<close>

text \<open>
  C9: in every state the registry can reach, the number of live identities is within the global
  capacity, the counter of a source equals the number of its live identities and is within the
  per-source capacity, and the bucket of a source and height holds exactly the live keys that were
  reserved under them.
\<close>

theorem registry_reachable_bounded:
  assumes "reg_reachable g c r"
  shows "registry_size r \<le> unat g \<and> source_size r s \<le> c \<and>
    unat (source_size r s) = card {k. \<exists>e. map_of (entries r) k = Some e \<and> entry_source e = s} \<and>
    set (keys (bucket_at r s h)) = keys_under r s h"
  using reg_reachable_inv [OF assms] reg_reachable_caps [OF assms]
  by (auto simp: reg_inv_def acct_inv_def bucket_inv_def registry_size_def live_of_def
      smap.count_of_def)

text \<open>A registry of capacity 2 after one reservation.\<close>

definition one_reserved :: dup_registry where
  "one_reserved = \<lparr>global_capacity = 2, source_capacity = 1,
     entries = [([7], \<lparr>entry_source = 1, entry_height = 5, entry_generation = 1\<rparr>)],
     source_sizes = [(1, 1)],
     buckets = [((1, 5), \<lparr>external_references = 0, retired = False, keys = [[7]]\<rparr>)],
     next_generation = 2\<rparr>"

lemma one_reserved_step:
  "reserve \<lparr>global_capacity = 2, source_capacity = 1, entries = [], source_sizes = [],
      buckets = [], next_generation = 1\<rparr> [7] 1 5 =
    (ReserveReserved, \<lparr>token_key = [7], token_generation = 1\<rparr>, one_reserved)"
  by (simp add: reserve_def map_has_def at_capacity_def insert_entry_def bucket_in_def
      empty_bucket_def set_insert_def one_reserved_def)

lemma one_reserved_reachable: "reg_reachable 2 1 one_reserved"
  by (rule reg_next [OF reg_start step_reserve [OF one_reserved_step]])
    (simp add: make_registry_def)

theorem registry_reachable_bounded_witness:
  "registry_size one_reserved \<le> 2 \<and> source_size one_reserved 1 \<le> 1 \<and>
   set (keys (bucket_at one_reserved 1 5)) = {[7]}"
  using registry_reachable_bounded [OF one_reserved_reachable, of 1 5]
  by (simp add: one_reserved_def keys_in_def)

text \<open>
  C6: whatever sequence of shares reaches the registry, from any number of sources and heights, no
  identity is admitted twice and none that was already live is admitted.
\<close>

theorem registry_admits_once:
  assumes "reg_inv r"
  shows "distinct (accepted reserve_attempt r reqs) \<and>
    set (accepted reserve_attempt r reqs) \<inter> live_keys r = {}"
  using assms by (rule dup_store.accepted_once)

theorem registry_admits_once_witness:
  "accepted reserve_attempt one_reserved [([7], (1, 5)), ([8], (2, 5)), ([8], (3, 6))] = [[8]] \<and>
   distinct (accepted reserve_attempt one_reserved [([7], (1, 5)), ([8], (2, 5)), ([8], (3, 6))])"
  using registry_admits_once [OF reg_reachable_inv [OF one_reserved_reachable],
      of "[([7], (1, 5)), ([8], (2, 5)), ([8], (3, 6))]"]
  by (simp add: one_reserved_def reserve_attempt_def reserve_def map_has_def at_capacity_def
      insert_entry_def bucket_in_def empty_bucket_def set_insert_def)

lemma reserve_reserved:
  assumes "reserve r k s h = (ReserveReserved, t, r')"
  shows "k \<notin> live_keys r" and "\<not> at_capacity r s" and "token_key t = k"
    and "token_generation t = (if next_generation r = 0 then 1 else next_generation r)"
    and "next_generation r' = token_generation t + 1"
    and "map_of (entries r') = (map_of (entries r))(k \<mapsto>
          \<lparr>entry_source = s, entry_height = h, entry_generation = token_generation t\<rparr>)"
    and "source_size r' = (source_size r)(s := source_size r s + 1)"
  using assms
  by (auto simp: reserve_def live_keys_def map_has_def Let_def reg_simps insert_entry_def
      source_size_def size_in_def fun_eq_iff split: if_splits)

text \<open>
  The three outcomes of \<open>reserve\<close>. A live key is a duplicate; a fresh key is refused exactly
  when the registry or its source is full; otherwise it becomes live under its source and height
  with the generation of the returned token, which is never zero. A refusal changes nothing.
\<close>

theorem reserve_outcomes:
  "(case reserve r k s h of
      (ReserveDuplicate, t, r') \<Rightarrow> k \<in> live_keys r \<and> r' = r \<and> t = null_token
    | (ReserveCapacity, t, r') \<Rightarrow> k \<notin> live_keys r \<and> at_capacity r s \<and> r' = r \<and> t = null_token
    | (ReserveReserved, t, r') \<Rightarrow>
        k \<notin> live_keys r \<and> \<not> at_capacity r s \<and> token_key t = k \<and> token_generation t \<noteq> 0 \<and>
        map_of (entries r') = (map_of (entries r))(k \<mapsto>
          \<lparr>entry_source = s, entry_height = h, entry_generation = token_generation t\<rparr>) \<and>
        source_size r' = (source_size r)(s := source_size r s + 1))"
proof -
  obtain res t r' where run: "reserve r k s h = (res, t, r')" by (cases "reserve r k s h")
  show ?thesis
  proof (cases res)
    case ReserveReserved
    then show ?thesis using reserve_reserved [of r k s h t r'] run by auto
  qed (use run in \<open>auto simp: reserve_def live_keys_def map_has_def Let_def split: if_splits\<close>)
qed

lemma size_in_drop:
  "size_in m s \<noteq> 0 \<Longrightarrow> size_in (drop_source s m) = (size_in m)(s := size_in m s - 1)"
  by (auto simp: size_in_def drop_source_def fun_eq_iff split: option.splits)

lemma reserved_token_releases:
  assumes inv: "reg_inv r" and res: "reserve r k s h = (ReserveReserved, t, r1)"
  shows "fst (release r1 t)" and "map_of (entries (snd (release r1 t))) = map_of (entries r)"
    and "source_size (snd (release r1 t)) = source_size r"
proof -
  note r = reserve_reserved [OF res]
  have fields: "token_key t = k" "token_generation t \<noteq> 0" "map_of (entries r) k = None"
    using r by (auto simp: live_keys_def)
  note room = r(2) and ent = r(6) and sz = r(7)
  have rel: "release r1 t = (True, drop_key k s h (r1\<lparr>entries := map_erase k (entries r1),
      source_sizes := drop_source s (source_sizes r1)\<rparr>))"
    using fields ent by (simp add: release_def)
  then show "fst (release r1 t)" by simp
  have dk: "entries (drop_key k s h x) = entries x" "source_sizes (drop_key k s h x) = source_sizes x" for x
    by (auto simp: drop_key_def Let_def split: option.splits)
  show "map_of (entries (snd (release r1 t))) = map_of (entries r)"
    using fields by (auto simp: rel dk ent fun_eq_iff)
  have "source_size r s < source_capacity r"
    using room inv by (auto simp: at_capacity_def source_size_def size_in_def acct_inv_def reg_inv_def not_le
        split: option.splits)
  then have nz: "source_size r s + 1 \<noteq> 0" by (rule plus_one_below)
  have "size_in (source_sizes r1) = (source_size r)(s := source_size r s + 1)"
    using sz by (simp add: source_size_def fun_eq_iff)
  then have "size_in (drop_source s (source_sizes r1)) = source_size r"
    using nz by (subst size_in_drop) auto
  then show "source_size (snd (release r1 t)) = source_size r"
    by (simp add: rel source_size_def dk fun_eq_iff)
qed

text \<open>
  C12: a token frees its reservation exactly once. Releasing it restores the live entries and the
  counters the reservation found; when the same key is then reserved again, for any source and
  height, the old token is stale and releasing it a second time does nothing.
\<close>

theorem stale_token_is_harmless:
  assumes "reg_inv r" and "reserve r k s h = (ReserveReserved, t, r1)"
    and "reserve (snd (release r1 t)) k s' h' = (ReserveReserved, t', r3)"
  shows "fst (release r1 t) \<and> map_of (entries (snd (release r1 t))) = map_of (entries r) \<and>
    source_size (snd (release r1 t)) = source_size r \<and> release r3 t = (False, r3)"
proof -
  note r1 = reserve_reserved [OF assms(2)] and r3 = reserve_reserved [OF assms(3)]
  have "next_generation (snd (release r1 t)) = next_generation r1"
    by (auto simp: release_def drop_key_def Let_def split: option.splits)
  then have "token_generation t' \<noteq> token_generation t"
    using r1(4,5) r3(4) by (auto simp: add_eq_0_iff split: if_splits)
  moreover have "map_of (entries r3) k = Some \<lparr>entry_source = s', entry_height = h',
      entry_generation = token_generation t'\<rparr>" and "token_key t = k"
    using r3(6) r1(3) by auto
  ultimately have "release r3 t = (False, r3)" by (simp add: release_def)
  then show ?thesis using reserved_token_releases [OF assms(1,2)] by simp
qed

text \<open>\<open>one_reserved\<close> after its token was released and the key reserved again.\<close>

theorem stale_token_is_harmless_witness:
  "\<exists>r t r1 t' r3. reserve r [7] 1 5 = (ReserveReserved, t, r1) \<and>
     reserve (snd (release r1 t)) [7] 2 6 = (ReserveReserved, t', r3) \<and> release r3 t = (False, r3)"
proof -
  let ?r = "\<lparr>global_capacity = 2, source_capacity = 1, entries = [], source_sizes = [],
      buckets = [], next_generation = 1\<rparr> :: dup_registry"
  let ?t = "\<lparr>token_key = [7], token_generation = 1\<rparr> :: dup_token"
  let ?t' = "\<lparr>token_key = [7], token_generation = 2\<rparr> :: dup_token"
  have inv: "reg_inv ?r" by (rule make_registry_inv [of 2 1]) (simp add: make_registry_def)
  have again: "reserve (snd (release one_reserved ?t)) [7] 2 6 =
      (ReserveReserved, ?t', snd (snd (reserve (snd (release one_reserved ?t)) [7] 2 6)))"
    by (simp add: one_reserved_def release_def drop_key_def drop_source_def map_erase_def
        set_erase_def reserve_def map_has_def at_capacity_def)
  show ?thesis
    using stale_token_is_harmless [OF inv one_reserved_step again] one_reserved_step again by blast
qed

lemma retire_height_due:
  assumes inv: "reg_inv r" and free: "external_references (bucket_at r s h) = 0"
    and run: "retire_height r s h = (ts, r')"
  shows "map_of (entries r') = (map_of (entries r)) |` (- keys_under r s h)"
    and "ts = map (\<lambda>k. \<lparr>token_key = k,
      token_generation = entry_generation (the (map_of (entries r) k))\<rparr>) (keys (bucket_at r s h))"
proof -
  let ?r = "r\<lparr>buckets := map_put (s, h) ((bucket_at r s h)\<lparr>retired := True\<rparr>) (buckets r)\<rparr>"
  have "reg_inv ?r" using inv by (intro bucket_update_inv) auto
  moreover have "collect_bucket ?r s h = (ts, r')" using run by (simp add: retire_height_def)
  ultimately show "map_of (entries r') = (map_of (entries r)) |` (- keys_under r s h)"
    and "ts = map (\<lambda>k. \<lparr>token_key = k,
      token_generation = entry_generation (the (map_of (entries r) k))\<rparr>) (keys (bucket_at r s h))"
    using collect_bucket_due(2,3) [of ?r s h ts r'] free by (simp_all add: reg_simps)
qed

text \<open>
  Retiring a height that nothing refers to frees exactly the identities reserved under that
  source and height, and returns one token for each, in key order and with the generation it was
  reserved with; all other identities stay live.
\<close>

theorem retire_height_collects:
  assumes "reg_inv r" and "external_references (bucket_at r s h) = 0"
    and "retire_height r s h = (ts, r')"
  shows "live_keys r' = live_keys r - keys_under r s h \<and>
    map token_key ts = keys (bucket_at r s h) \<and> sorted_wrt (<) (map token_key ts) \<and>
    set (map token_key ts) = keys_under r s h \<and>
    map token_generation ts =
      map (\<lambda>k. entry_generation (the (map_of (entries r) k))) (keys (bucket_at r s h))"
  using retire_height_due [OF assms] assms(1)
  by (auto simp: live_keys_def reg_inv_def bucket_inv_def set_ok_def comp_def)

text \<open>
  A retained height outlives its retirement. While references are left, retiring it frees
  nothing; releasing the last reference of the retired height frees exactly the identities under
  it.
\<close>

theorem retained_height_survives:
  assumes inv: "reg_inv r" and one: "external_references (bucket_at r s h) = 1"
    and ret: "retire_height r s h = (ts, r1)" and rel: "release_height r1 s h = (ts', r2)"
  shows "ts = [] \<and> entries r1 = entries r \<and>
    map token_key ts' = keys (bucket_at r s h) \<and> live_keys r2 = live_keys r - keys_under r s h"
proof -
  let ?b = "(bucket_at r s h)\<lparr>retired := True\<rparr>"
  let ?r = "r\<lparr>buckets := map_put (s, h) ?b (buckets r)\<rparr>"
  have r1: "ts = []" "r1 = ?r"
    using ret one by (auto simp: retire_height_def collect_bucket_idle reg_simps)
  let ?r2 = "?r\<lparr>buckets := map_put (s, h) (?b\<lparr>external_references := 0\<rparr>) (buckets ?r)\<rparr>"
  have inv2: "reg_inv ?r2" using inv by (intro bucket_update_inv) (auto simp: reg_simps)
  have "collect_bucket ?r2 s h = (ts', r2)"
    using rel one by (simp add: r1 release_height_def)
  from collect_bucket_due(2,3) [OF inv2 _ _ this] show ?thesis
    by (auto simp: r1 reg_simps live_keys_def comp_def)
qed

end
