(* ===== verification/Hex_Codec.thy ===== *)
theory Hex_Codec
  imports Prelude "HOL-Library.Char_ord"
begin

unbundle bit_operations_syntax

text \<open>
  Hexadecimal text: the codec of src/crypto/util.cpp that the whole server uses, and the second
  decoder that src/stratum/stratum.cpp keeps for the fields of a submission. The two are shown to
  agree, and both to invert the encoder.
\<close>

section \<open>The codec of util.cpp\<close>

definition is_hex_char :: "char \<Rightarrow> bool" where
  "is_hex_char ch \<longleftrightarrow>
     (CHR ''0'' \<le> ch \<and> ch \<le> CHR ''9'') \<or> (CHR ''a'' \<le> ch \<and> ch \<le> CHR ''f'') \<or>
     (CHR ''A'' \<le> ch \<and> ch \<le> CHR ''F'')"

definition hex_value :: "char \<Rightarrow> byte" where
  "hex_value ch =
     (if CHR ''0'' \<le> ch \<and> ch \<le> CHR ''9'' then of_char ch - of_char CHR ''0''
      else if CHR ''a'' \<le> ch \<and> ch \<le> CHR ''f'' then of_char ch - of_char CHR ''a'' + 10
      else of_char ch - of_char CHR ''A'' + 10)"

definition kHex :: string where
  "kHex = ''0123456789abcdef''"

text \<open>The loop of \<open>hex_decode\<close>, two characters at a time; the length is even when it is reached.\<close>

fun hex_decode_pairs :: "string \<Rightarrow> bytes result" where
  "hex_decode_pairs (high # low # rest) =
     (if \<not> is_hex_char high \<or> \<not> is_hex_char low
      then Inl (ValidationError ''hex text contains a non-hexadecimal character'')
      else and_then (hex_decode_pairs rest)
             (\<lambda>bs. Inr ((push_bit 4 (hex_value high) OR hex_value low) # bs)))"
| "hex_decode_pairs _ = Inr []"

definition hex_decode :: "string \<Rightarrow> bytes result" where
  "hex_decode text =
     (if odd (length text)
      then Inl (ValidationError ''hex text must contain an even number of characters'')
      else hex_decode_pairs text)"

definition hex_decode_exact :: "string \<Rightarrow> nat \<Rightarrow> bytes result" where
  "hex_decode_exact text n =
     (if n > (2 ^ 64 - 1) div 2 \<or> length text \<noteq> n * 2
      then Inl (ValidationError ''hex text has an unexpected length'')
      else hex_decode text)"

definition hex_digits_of :: "byte \<Rightarrow> string" where
  "hex_digits_of b = [kHex ! unat (drop_bit 4 b), kHex ! unat (b AND 0x0f)]"

definition hex_encode :: "bytes \<Rightarrow> string" where
  "hex_encode bs = concat (map hex_digits_of bs)"

section \<open>The codec of stratum.cpp\<close>

text \<open>\<open>nibble\<close> answers -1 for a character that is no digit.\<close>

definition nibble :: "char \<Rightarrow> int" where
  "nibble ch =
     (let b = of_char ch in
      if of_char CHR ''0'' \<le> b \<and> b \<le> of_char CHR ''9'' then b - of_char CHR ''0''
      else if of_char CHR ''a'' \<le> b \<and> b \<le> of_char CHR ''f'' then b - of_char CHR ''a'' + 10
      else if of_char CHR ''A'' \<le> b \<and> b \<le> of_char CHR ''F'' then b - of_char CHR ''A'' + 10
      else -1)"

fun decode_hex_pairs :: "string \<Rightarrow> bytes option" where
  "decode_hex_pairs (high # low # rest) =
     (if nibble high < 0 \<or> nibble low < 0 then None
      else map_option (\<lambda>bs. word_of_int (push_bit 4 (nibble high) OR nibble low) # bs)
             (decode_hex_pairs rest))"
| "decode_hex_pairs _ = Some []"

definition decode_hex :: "nat \<Rightarrow> string \<Rightarrow> bytes option" where
  "decode_hex n text = (if length text \<noteq> n * 2 then None else decode_hex_pairs text)"

text \<open>\<open>std::tolower\<close> in the C locale, applied to every byte.\<close>

definition tolower :: "char \<Rightarrow> char" where
  "tolower ch = (if CHR ''A'' \<le> ch \<and> ch \<le> CHR ''Z'' then char_of ((of_char ch :: nat) + 32) else ch)"

definition normalize_hex :: "string \<Rightarrow> string" where
  "normalize_hex text = map tolower text"

section \<open>Digits\<close>

lemma nibble_bound: "unat (drop_bit 4 (b :: byte)) < 16" "unat (b AND 0x0f) < 16"
proof -
  show "unat (drop_bit 4 b) < 16"
    using unat_byte_less [of b]
    by (simp only: unat_drop_bit_eq drop_bit_nat_def) (simp add: div_less_iff_less_mult del: unat_byte_less)
  have "unat (b AND 0x0f) \<le> unat (0x0f :: byte)"
    by (rule word_and_le1 [THEN word_le_nat_alt [THEN iffD1]])
  then show "unat (b AND 0x0f) < 16" by simp
qed

lemma nibbles_join: "push_bit 4 (drop_bit 4 (b :: byte)) OR (b AND 0x0f) = b"
proof -
  have "(0x0f :: byte) = mask 4" by (simp add: mask_eq_exp_minus_1)
  then show ?thesis
    by (simp add: bit_eq_iff bit_simps) (auto simp: not_less bit_imp_le_length)
qed

lemma kHex_digit:
  assumes "n < 16"
  shows "is_hex_char (kHex ! n)" and "hex_value (kHex ! n) = of_nat n" and "tolower (kHex ! n) = kHex ! n"
proof -
  have "\<forall>n \<in> set [0..<16]. is_hex_char (kHex ! n) \<and> hex_value (kHex ! n) = of_nat n \<and>
      tolower (kHex ! n) = kHex ! n"
    by code_simp
  with assms show "is_hex_char (kHex ! n)" and "hex_value (kHex ! n) = of_nat n"
    and "tolower (kHex ! n) = kHex ! n" by simp_all
qed

lemma hex_decode_pairs_encode: "hex_decode_pairs (hex_encode bs) = Inr bs"
  by (induction bs)
    (auto simp: hex_encode_def hex_digits_of_def kHex_digit nibble_bound nibbles_join)

lemma length_hex_encode [simp]: "length (hex_encode bs) = 2 * length bs"
  by (induction bs) (auto simp: hex_encode_def hex_digits_of_def)

lemma hex_char_cases:
  assumes "is_hex_char c"
  shows "c \<in> set ''0123456789abcdefABCDEF''"
proof -
  obtain n where n: "n = (of_char c :: nat)" by simp
  have "(48 \<le> n \<and> n \<le> 57) \<or> (97 \<le> n \<and> n \<le> 102) \<or> (65 \<le> n \<and> n \<le> 70)"
    using assms by (simp add: n is_hex_char_def less_eq_char_def)
  then have "n \<in> set ([48..<58] @ [97..<103] @ [65..<71])"
    unfolding set_append Un_iff set_upt atLeastLessThan_iff by linarith
  moreover have "c = char_of n" by (simp add: n)
  ultimately have "c \<in> set (map char_of ([48..<58] @ [97..<103] @ [65..<71 :: nat]))"
    by (metis image_eqI list.set_map)
  also have "map char_of ([48..<58] @ [97..<103] @ [65..<71 :: nat]) = ''0123456789abcdefABCDEF''"
    by code_simp
  finally show ?thesis .
qed

lemma hex_char_digit:
  assumes "is_hex_char c"
  shows "\<exists>n<16. hex_value c = of_nat n \<and> nibble c = int n \<and> kHex ! n = tolower c"
proof -
  have "\<forall>c \<in> set ''0123456789abcdefABCDEF''. unat (hex_value c) < 16 \<and>
      nibble c = int (unat (hex_value c)) \<and> kHex ! unat (hex_value c) = tolower c"
    by code_simp
  then have "unat (hex_value c) < 16 \<and> nibble c = int (unat (hex_value c)) \<and>
      kHex ! unat (hex_value c) = tolower c"
    using hex_char_cases [OF assms] by blast
  then show ?thesis by (intro exI [of _ "unat (hex_value c)"]) simp
qed

lemma nibble_neg_iff: "nibble c < 0 \<longleftrightarrow> \<not> is_hex_char c"
proof (cases "is_hex_char c")
  case True
  then show ?thesis using hex_char_digit [OF True] by auto
next
  case False
  obtain n where n: "n = (of_char c :: nat)" by simp
  then have m: "of_char c = int n" by (simp only: of_nat_of_char)
  show ?thesis using False
    by (auto simp: nibble_def is_hex_char_def less_eq_char_def Let_def not_le m n [symmetric])
qed

text \<open>A byte assembled from two digits splits into them again.\<close>

lemma nibbles_split:
  assumes "m < 16" and "n < 16"
  shows "unat (drop_bit 4 (push_bit 4 (of_nat m) OR of_nat n :: byte)) = m"
    and "unat ((push_bit 4 (of_nat m) OR of_nat n :: byte) AND 0x0f) = n"
    and "word_of_int (push_bit 4 (int m) OR int n) = (push_bit 4 (of_nat m) OR of_nat n :: byte)"
proof -
  have "\<forall>m \<in> set [0..<16]. \<forall>n \<in> set [0..<16].
     unat (drop_bit 4 (push_bit 4 (of_nat m) OR of_nat n :: byte)) = m \<and>
     unat ((push_bit 4 (of_nat m) OR of_nat n :: byte) AND 0x0f) = n \<and>
     word_of_int (push_bit 4 (int m) OR int n) = (push_bit 4 (of_nat m) OR of_nat n :: byte)"
    by code_simp
  with assms show "unat (drop_bit 4 (push_bit 4 (of_nat m) OR of_nat n :: byte)) = m"
    and "unat ((push_bit 4 (of_nat m) OR of_nat n :: byte) AND 0x0f) = n"
    and "word_of_int (push_bit 4 (int m) OR int n) = (push_bit 4 (of_nat m) OR of_nat n :: byte)"
    by simp_all
qed

lemma hex_decode_pairs_iff:
  "even (length t) \<Longrightarrow> (\<exists>bs. hex_decode_pairs t = Inr bs) \<longleftrightarrow> (\<forall>c \<in> set t. is_hex_char c)"
  by (induction t rule: hex_decode_pairs.induct) (auto simp: result_simps)

lemma hex_encode_decode_pairs:
  "even (length t) \<Longrightarrow> hex_decode_pairs t = Inr bs \<Longrightarrow> hex_encode bs = normalize_hex t"
proof (induction t arbitrary: bs rule: hex_decode_pairs.induct)
  case (1 high low rest)
  then obtain cs where hc: "is_hex_char high" "is_hex_char low"
    and cs: "hex_decode_pairs rest = Inr cs"
    and bs: "bs = (push_bit 4 (hex_value high) OR hex_value low) # cs"
    by (auto simp: result_simps split: if_splits)
  obtain m n where "m < 16" "hex_value high = of_nat m" "kHex ! m = tolower high"
    and "n < 16" "hex_value low = of_nat n" "kHex ! n = tolower low"
    using hex_char_digit hc by metis
  moreover have "hex_encode cs = normalize_hex rest"
    using "1.IH" hc cs "1.prems"(1) by simp
  ultimately show ?case
    by (simp add: bs hex_encode_def hex_digits_of_def normalize_hex_def nibbles_split
        del: drop_bit_or)
qed (auto simp: hex_encode_def normalize_hex_def)

lemma decode_hex_pairs_eq:
  "decode_hex_pairs t = (case hex_decode_pairs t of Inl _ \<Rightarrow> None | Inr bs \<Rightarrow> Some bs)"
proof (induction t rule: hex_decode_pairs.induct)
  case (1 high low rest)
  show ?case
  proof (cases "is_hex_char high \<and> is_hex_char low")
    case True
    then obtain m n where "m < 16" "hex_value high = of_nat m" "nibble high = int m"
      and "n < 16" "hex_value low = of_nat n" "nibble low = int n"
      using hex_char_digit by metis
    then show ?thesis using "1.IH" True
      by (cases "hex_decode_pairs rest") (auto simp: nibbles_split)
  next
    case False
    then show ?thesis by (auto simp: nibble_neg_iff)
  qed
qed auto

section \<open>Properties\<close>

text \<open>
  Hexadecimal text and bytes correspond. Decoding the encoding of any bytes gives them back;
  text decodes exactly when its length is even and every character is a digit, and encoding what it
  decodes to gives the text in lower case.
\<close>

theorem hex_round_trip:
  "hex_decode (hex_encode bs) = Inr bs \<and>
   ((\<exists>cs. hex_decode t = Inr cs) \<longleftrightarrow> even (length t) \<and> (\<forall>c \<in> set t. is_hex_char c)) \<and>
   (hex_decode t = Inr ds \<longrightarrow> hex_encode ds = normalize_hex t \<and> 2 * length ds = length t)"
proof (intro conjI impI)
  show "hex_decode (hex_encode bs) = Inr bs"
    by (simp add: hex_decode_def hex_decode_pairs_encode)
  show "(\<exists>cs. hex_decode t = Inr cs) \<longleftrightarrow> even (length t) \<and> (\<forall>c \<in> set t. is_hex_char c)"
    using hex_decode_pairs_iff [of t] by (auto simp: hex_decode_def)
  assume ds: "hex_decode t = Inr ds"
  then show enc: "hex_encode ds = normalize_hex t"
    by (auto simp: hex_decode_def hex_encode_decode_pairs split: if_splits)
  show "2 * length ds = length t"
    using arg_cong [OF enc, of length] by (simp add: normalize_hex_def)
qed

text \<open>
  The decoder of the Stratum layer accepts exactly the texts of the stated length that the
  decoder of the utility layer accepts, and gives the same bytes.
\<close>

theorem decode_hex_equivalent:
  assumes "n < 2 ^ 63"
  shows "decode_hex n t = (case hex_decode_exact t n of Inl _ \<Rightarrow> None | Inr bs \<Rightarrow> Some bs)"
  using assms by (auto simp: decode_hex_def hex_decode_exact_def hex_decode_def decode_hex_pairs_eq)

end
