(* ===== verification/Targets.thy ===== *)
theory Targets
  imports Hex_Codec
begin

text \<open>
  Difficulty arithmetic of src/monero/monero.cpp: the 64 bit share target and its wire form, the
  share comparison, and the 256 bit network comparison with its decimal parser and its product of
  32 bit limbs.
\<close>

section \<open>Share targets\<close>

definition share_target64 :: "u64 \<Rightarrow> u64 result" where
  "share_target64 difficulty =
     (if difficulty = 0 then Inl (ValidationError ''share difficulty must be positive'')
      else Inr (- 1 div difficulty))"

definition share_target_le :: "u64 \<Rightarrow> bytes result" where
  "share_target_le difficulty =
     and_then (share_target64 difficulty)
       (\<lambda>target. Inr (map (\<lambda>i. ucast (drop_bit (8 * i) target)) [0..<8]))"

definition share_target_hex :: "u64 \<Rightarrow> string result" where
  "share_target_hex difficulty =
     and_then (share_target_le difficulty) (\<lambda>bs. Inr (hex_encode bs))"

text \<open>A \<open>Hash32\<close> is a list of 32 bytes.\<close>

definition pow_word64 :: "bytes \<Rightarrow> u64" where
  "pow_word64 hash = foldl (\<lambda>r i. r OR push_bit (8 * i) (ucast (hash ! (24 + i)))) 0 [0..<8]"

definition meets_share_target :: "bytes \<Rightarrow> u64 \<Rightarrow> bool" where
  "meets_share_target hash target64 = (pow_word64 hash < target64)"

definition actual_difficulty :: "bytes \<Rightarrow> u64" where
  "actual_difficulty hash =
     (let w = pow_word64 hash in if w = 0 then - 1 else - 1 div w)"

section \<open>Network targets\<close>

text \<open>The inner loop of \<open>parse_decimal_uint128\<close>: every limb times ten plus the carry.\<close>

fun mul10_limbs :: "u32 list \<Rightarrow> u64 \<Rightarrow> u32 list \<times> u64" where
  "mul10_limbs [] carry = ([], carry)"
| "mul10_limbs (limb # limbs) carry =
     (let v = ucast limb * 10 + carry;
          (rest, out) = mul10_limbs limbs (drop_bit 32 v) in
      (ucast v # rest, out))"

fun parse_decimal_digits :: "string \<Rightarrow> u32 list \<Rightarrow> u32 list result" where
  "parse_decimal_digits [] limbs = Inr limbs"
| "parse_decimal_digits (ch # text) limbs =
     (if ch < CHR ''0'' \<or> ch > CHR ''9''
      then Inl (ValidationError ''difficulty must be canonical unsigned decimal'')
      else let (next, carry) = mul10_limbs limbs (of_char ch - of_char CHR ''0'') in
           if carry \<noteq> 0 then Inl (ValidationError ''network difficulty exceeds 2^128-1'')
           else parse_decimal_digits text next)"

definition parse_decimal_uint128 :: "string \<Rightarrow> u32 list result" where
  "parse_decimal_uint128 text =
     (if text = [] \<or> (length text > 1 \<and> hd text = CHR ''0'')
      then Inl (ValidationError ''difficulty must be canonical unsigned decimal'')
      else and_then (parse_decimal_digits text (replicate 4 0))
        (\<lambda>limbs. if list_all (\<lambda>limb. limb = 0) limbs
                 then Inl (ValidationError ''network difficulty must be positive'')
                 else Inr limbs))"

definition validate_network_difficulty :: "string \<Rightarrow> unit result" where
  "validate_network_difficulty text = and_then (parse_decimal_uint128 text) (\<lambda>_. Inr ())"

definition hash_limbs :: "bytes \<Rightarrow> u32 list" where
  "hash_limbs hash =
     map (\<lambda>i. foldl (\<lambda>r j. r OR push_bit (8 * j) (ucast (hash ! (i * 4 + j)))) 0 [0..<4]) [0..<8]"

text \<open>One row of the schoolbook product, and the loop that pushes its last carry upwards.\<close>

fun mul_row :: "u32 \<Rightarrow> u32 list \<Rightarrow> nat \<Rightarrow> u32 list \<Rightarrow> u64 \<Rightarrow> u32 list \<times> u64" where
  "mul_row h [] position product carry = (product, carry)"
| "mul_row h (d # ds) position product carry =
     (let v = ucast h * ucast d + ucast (product ! position) + carry in
      mul_row h ds (position + 1) (product[position := ucast v]) (drop_bit 32 v))"

function propagate_carry :: "u32 list \<Rightarrow> nat \<Rightarrow> u64 \<Rightarrow> u32 list" where
  "propagate_carry product position carry =
     (if carry \<noteq> 0 \<and> position < length product
      then let v = ucast (product ! position) + carry in
           propagate_carry (product[position := ucast v]) (position + 1) (drop_bit 32 v)
      else product)"
  by auto
termination by (relation "measure (\<lambda>(p, i, c). length p - i)") auto

declare propagate_carry.simps [simp del]

fun mul_rows :: "u32 list \<Rightarrow> u32 list \<Rightarrow> nat \<Rightarrow> u32 list \<Rightarrow> u32 list" where
  "mul_rows [] difficulty i product = product"
| "mul_rows (h # hs) difficulty i product =
     (let (next, carry) = mul_row h difficulty i product 0 in
      mul_rows hs difficulty (i + 1) (propagate_carry next (i + length difficulty) carry))"

definition meets_network_target :: "bytes \<Rightarrow> string \<Rightarrow> bool result" where
  "meets_network_target hash difficulty_decimal =
     and_then (parse_decimal_uint128 difficulty_decimal)
       (\<lambda>difficulty. Inr (list_all (\<lambda>limb. limb = 0)
          (drop 8 (mul_rows (hash_limbs hash) difficulty 0 (replicate 12 0)))))"

section \<open>Share arithmetic\<close>

lemma unat_max_word: "unat (- 1 :: u64) = 2 ^ 64 - 1"
  by (simp add: unsigned_minus_1_eq_mask mask_eq_exp_minus_1)

lemma unat_share_target: "difficulty \<noteq> 0 \<Longrightarrow> share_target64 difficulty = Inr t \<Longrightarrow>
    unat t = (2 ^ 64 - 1) div unat difficulty"
  by (auto simp: share_target64_def unat_div_distrib unat_max_word)

lemma pow_word64_value:
  assumes "length hash = 32"
  shows "unat (pow_word64 hash) = le_value (drop 24 hash)"
proof -
  have "pow_word64 hash =
      foldl (\<lambda>r i. r OR push_bit (8 * i) (ucast (drop 24 hash ! i))) (0 :: u64) [0..<8]"
    unfolding pow_word64_def by (rule foldl_cong) (use assms in \<open>auto simp: add.commute\<close>)
  also have "\<dots> = of_nat (le_value (take 8 (drop 24 hash)))"
    by (rule foldl_or_bytes) (use assms in auto)
  also have "take 8 (drop 24 hash) = drop 24 hash" using assms by simp
  finally have "pow_word64 hash = of_nat (le_value (drop 24 hash))" .
  moreover have "le_value (drop 24 hash) < 2 ^ 64"
    using le_value_less [of "drop 24 hash"] assms by simp
  ultimately show ?thesis by (simp add: unsigned_of_nat take_bit_nat_eq_self)
qed

lemma actual_difficulty_reaches:
  assumes "difficulty \<noteq> 0"
  shows "difficulty \<le> actual_difficulty hash \<longleftrightarrow> unat (pow_word64 hash) \<le> (2 ^ 64 - 1) div unat difficulty"
proof (cases "pow_word64 hash = 0")
  case True
  then show ?thesis by (simp add: actual_difficulty_def)
next
  case False
  have pos: "0 < unat difficulty" "0 < unat (pow_word64 hash)"
    using assms False by (simp_all add: unat_gt_0)
  have "difficulty \<le> actual_difficulty hash \<longleftrightarrow> unat difficulty \<le> (2 ^ 64 - 1) div unat (pow_word64 hash)"
    using False by (simp add: actual_difficulty_def word_le_nat_alt unat_div_distrib unat_max_word)
  also have "\<dots> \<longleftrightarrow> unat (pow_word64 hash) \<le> (2 ^ 64 - 1) div unat difficulty"
    using pos by (simp add: less_eq_div_iff_mult_less_eq mult.commute)
  finally show ?thesis .
qed

section \<open>Limb arithmetic\<close>

fun limbs_value :: "u32 list \<Rightarrow> nat" where
  "limbs_value [] = 0"
| "limbs_value (x # xs) = unat x + 2 ^ 32 * limbs_value xs"

lemma limbs_value_less: "limbs_value xs < 2 ^ (32 * length xs)"
proof (induction xs)
  case Nil
  show ?case by simp
next
  case (Cons x xs)
  have "unat x + 2 ^ 32 * limbs_value xs < 2 ^ 32 * (limbs_value xs + 1)"
    using unat_u32_less [of x] by simp
  also have "\<dots> \<le> 2 ^ 32 * 2 ^ (32 * length xs)" using Cons.IH by (intro mult_le_mono2) simp
  finally show ?case by (simp add: power_add)
qed

lemma limbs_value_append:
  "limbs_value (xs @ ys) = limbs_value xs + 2 ^ (32 * length xs) * limbs_value ys"
  by (induction xs) (auto simp: algebra_simps power_add)

lemma limbs_value_zero_iff: "limbs_value xs = 0 \<longleftrightarrow> list_all (\<lambda>x. x = 0) xs"
  by (induction xs) (auto simp: unat_eq_0)

lemma limbs_value_inj: "length xs = length ys \<Longrightarrow> limbs_value xs = limbs_value ys \<Longrightarrow> xs = ys"
proof (induction xs ys rule: list_induct2')
  case (4 x xs y ys)
  have "unat x + 2 ^ 32 * limbs_value xs = unat y + 2 ^ 32 * limbs_value ys" using "4.prems"(2) by simp
  then have "(unat x + 2 ^ 32 * limbs_value xs) mod 2 ^ 32 = (unat y + 2 ^ 32 * limbs_value ys) mod 2 ^ 32"
    by simp
  then have "unat x = unat y" using unat_u32_less [of x] unat_u32_less [of y] by simp
  with 4 show ?case by (simp add: word_unat_eq_iff)
qed auto

lemma limbs_value_update:
  "i < length xs \<Longrightarrow>
   limbs_value (xs[i := v]) + 2 ^ (32 * i) * unat (xs ! i) = limbs_value xs + 2 ^ (32 * i) * unat v"
proof (induction xs arbitrary: i)
  case Nil
  then show ?case by simp
next
  case (Cons x xs)
  show ?case
  proof (cases i)
    case 0
    then show ?thesis by simp
  next
    case (Suc k)
    then have "2 ^ 32 * (limbs_value (xs[k := v]) + 2 ^ (32 * k) * unat (xs ! k)) =
        2 ^ 32 * (limbs_value xs + 2 ^ (32 * k) * unat v)" using Cons by simp
    then show ?thesis by (simp add: Suc algebra_simps power_add)
  qed
qed

text \<open>A 64 bit value is its low limb plus its carry.\<close>

lemma split_limb: "unat (ucast (v :: u64) :: u32) + 2 ^ 32 * unat (drop_bit 32 v) = unat v"
proof -
  have "unat (ucast v :: u32) = unat v mod 2 ^ 32"
    by (simp only: unsigned_ucast_eq take_bit_eq_mod) simp
  moreover have "unat (drop_bit 32 v) = unat v div 2 ^ 32"
    by (simp only: unat_drop_bit_eq drop_bit_nat_def)
  ultimately show ?thesis by simp
qed

lemma carry_less: "unat (drop_bit 32 (v :: u64)) < 2 ^ 32"
proof -
  have "unat v < 2 ^ LENGTH(64)" by (rule unsigned_less)
  then show ?thesis using split_limb [of v] by simp
qed

lemma unat_u64_exact: "unat a + unat b < 2 ^ 64 \<Longrightarrow> unat (a + b :: u64) = unat a + unat b"
  by (simp add: unat_word_ariths)

lemma unat_u64_mult: "unat a * unat b < 2 ^ 64 \<Longrightarrow> unat (a * b :: u64) = unat a * unat b"
  by (simp add: unat_word_ariths)

lemma mul10_limbs_value:
  "unat c < 2 ^ 32 \<Longrightarrow> mul10_limbs xs c = (ys, out) \<Longrightarrow>
   length ys = length xs \<and> limbs_value ys + 2 ^ (32 * length xs) * unat out = 10 * limbs_value xs + unat c"
proof (induction xs arbitrary: c ys out)
  case Nil
  then show ?case by simp
next
  case (Cons x xs)
  let ?v = "ucast x * 10 + c"
  obtain zs where zs: "mul10_limbs xs (drop_bit 32 ?v) = (zs, out)" "ys = ucast ?v # zs"
    using Cons.prems(2) by (auto simp: Let_def split: prod.splits)
  have x: "unat x < 2 ^ 32" by (rule unat_u32_less)
  then have "unat (ucast x * 10 :: u64) = unat x * 10" by (subst unat_u64_mult) simp_all
  with x Cons.prems(1) have v: "unat ?v = unat x * 10 + unat c"
    by (subst unat_u64_exact) simp_all
  from Cons.IH [OF carry_less zs(1)] show ?case using split_limb [of ?v] v zs(2)
    by (simp add: power_add algebra_simps)
qed

lemma mul_value_fits:
  assumes "a < (2 ^ 32 :: nat)" and "b < 2 ^ 32" and "c < 2 ^ 32" and "d < 2 ^ 32"
  shows "a * b + c + d < 2 ^ 64"
proof -
  have "a * b \<le> (2 ^ 32 - 1) * (2 ^ 32 - 1)" using assms(1,2) by (intro mult_le_mono) auto
  with assms show ?thesis by simp
qed

lemma mul_row_value:
  "unat c < 2 ^ 32 \<Longrightarrow> position + length ds \<le> length p \<Longrightarrow>
   mul_row h ds position p c = (q, out) \<Longrightarrow>
   length q = length p \<and> unat out < 2 ^ 32 \<and>
   limbs_value q + 2 ^ (32 * (position + length ds)) * unat out =
     limbs_value p + 2 ^ (32 * position) * (unat h * limbs_value ds + unat c)"
proof (induction ds arbitrary: position p c)
  case Nil
  then show ?case by simp
next
  case (Cons d ds)
  let ?v = "ucast h * ucast d + ucast (p ! position) + c"
  have lt: "unat h * unat d + unat (p ! position) + unat c < 2 ^ 64"
    using Cons.prems(1) by (intro mul_value_fits unat_u32_less)
  then have "unat (ucast h * ucast d :: u64) = unat h * unat d" by (subst unat_u64_mult) simp_all
  with lt have v: "unat ?v = unat h * unat d + unat (p ! position) + unat c"
    by (simp add: unat_u64_exact)
  have rec: "mul_row h ds (position + 1) (p[position := ucast ?v]) (drop_bit 32 ?v) = (q, out)"
    using Cons.prems(3) by (simp add: Let_def)
  have upd: "limbs_value (p[position := ucast ?v]) + 2 ^ (32 * position) * unat (p ! position) =
      limbs_value p + 2 ^ (32 * position) * unat (ucast ?v :: u32)"
    using Cons.prems(2) by (intro limbs_value_update) simp
  have "2 ^ (32 * position) * (unat (ucast ?v :: u32) + 2 ^ 32 * unat (drop_bit 32 ?v)) =
      2 ^ (32 * position) * (unat h * unat d + unat (p ! position) + unat c)"
    by (simp only: split_limb v)
  then show ?case using Cons.IH [OF carry_less _ rec] Cons.prems(2) upd
    by (simp add: algebra_simps power_add)
qed

lemma propagate_carry_value:
  "unat c < 2 ^ 32 \<Longrightarrow> i \<le> length p \<Longrightarrow>
   length (propagate_carry p i c) = length p \<and>
   limbs_value (propagate_carry p i c) = (limbs_value p + 2 ^ (32 * i) * unat c) mod 2 ^ (32 * length p)"
proof (induction p i c rule: propagate_carry.induct)
  case (1 p i c)
  show ?case
  proof (cases "c \<noteq> 0 \<and> i < length p")
    case False
    then have "(limbs_value p + 2 ^ (32 * i) * unat c) mod 2 ^ (32 * length p) = limbs_value p"
      using "1.prems" limbs_value_less [of p] by (cases "c = 0") (auto simp: not_less)
    then show ?thesis using False by (subst (1 2) propagate_carry.simps) auto
  next
    case True
    let ?v = "ucast (p ! i) + c"
    have pi: "unat (p ! i) < 2 ^ 32" by (rule unat_u32_less)
    then have v: "unat ?v = unat (p ! i) + unat c" using "1.prems"(1) by (simp add: unat_u64_exact)
    have upd: "limbs_value (p[i := ucast ?v]) + 2 ^ (32 * i) * unat (p ! i) =
        limbs_value p + 2 ^ (32 * i) * unat (ucast ?v :: u32)"
      using True by (intro limbs_value_update) simp
    have "2 ^ (32 * i) * (unat (ucast ?v :: u32) + 2 ^ 32 * unat (drop_bit 32 ?v)) =
        2 ^ (32 * i) * (unat (p ! i) + unat c)"
      by (simp only: split_limb v)
    then have "limbs_value (p[i := ucast ?v]) + 2 ^ (32 * (i + 1)) * unat (drop_bit 32 ?v) =
        limbs_value p + 2 ^ (32 * i) * unat c"
      using upd by (simp add: algebra_simps power_add)
    moreover have "propagate_carry p i c = propagate_carry (p[i := ucast ?v]) (i + 1) (drop_bit 32 ?v)"
      using True by (subst propagate_carry.simps) (simp add: Let_def)
    ultimately show ?thesis using "1.IH" [OF True refl carry_less] True by simp
  qed
qed

lemma mul_rows_value:
  "i + length hs + length ds \<le> Suc (length p) \<Longrightarrow> hs = [] \<or> ds \<noteq> [] \<Longrightarrow>
   length (mul_rows hs ds i p) = length p \<and>
   limbs_value (mul_rows hs ds i p) =
     (limbs_value p + 2 ^ (32 * i) * (limbs_value hs * limbs_value ds)) mod 2 ^ (32 * length p)"
proof (induction hs arbitrary: i p)
  case Nil
  then show ?case using limbs_value_less [of p] by simp
next
  case (Cons h hs)
  let ?M = "2 ^ (32 * length p) :: nat"
  obtain q c where q: "mul_row h ds i p 0 = (q, c)" by (cases "mul_row h ds i p 0")
  with Cons.prems mul_row_value [of 0 i ds p h q c]
  have row: "length q = length p" "unat c < 2 ^ 32"
    "limbs_value q + 2 ^ (32 * (i + length ds)) * unat c =
       limbs_value p + 2 ^ (32 * i) * (unat h * limbs_value ds)"
    by simp_all
  let ?r = "propagate_carry q (i + length ds) c"
  have r: "length ?r = length p"
    "limbs_value ?r = (limbs_value p + 2 ^ (32 * i) * (unat h * limbs_value ds)) mod ?M"
    using propagate_carry_value [of c "i + length ds" q] row Cons.prems by simp_all
  have "mul_rows (h # hs) ds i p = mul_rows hs ds (i + 1) ?r" by (simp add: q)
  moreover have "hs = [] \<or> ds \<noteq> []" "i + 1 + length hs + length ds \<le> Suc (length ?r)"
    using Cons.prems r(1) by auto
  ultimately show ?case using Cons.IH [of "i + 1" ?r] r
    by (simp add: mod_simps algebra_simps power_add)
qed

section \<open>The decimal parser\<close>

definition decimal_value :: "string \<Rightarrow> nat" where
  "decimal_value text = foldl (\<lambda>n ch. 10 * n + (of_char ch - 48)) 0 text"

definition canonical_decimal :: "string \<Rightarrow> bool" where
  "canonical_decimal text \<longleftrightarrow>
     text \<noteq> [] \<and> (length text > 1 \<longrightarrow> hd text \<noteq> CHR ''0'') \<and>
     (\<forall>ch \<in> set text. CHR ''0'' \<le> ch \<and> ch \<le> CHR ''9'')"

lemma decimal_prefix_le: "(n :: nat) \<le> foldl (\<lambda>n ch. 10 * n + (of_char ch - 48)) n text"
proof (induction "text" arbitrary: n)
  case (Cons c cs)
  show ?case using Cons.IH [of "10 * n + (of_char c - 48)"] by simp
qed simp

lemma digit_value:
  assumes "CHR ''0'' \<le> ch" and "ch \<le> CHR ''9''"
  shows "unat (of_char ch - of_char CHR ''0'' :: u64) = of_char ch - 48"
proof -
  obtain n where n: "n = (of_char ch :: nat)" by simp
  then have w: "(of_char ch :: u64) = of_nat n" by (simp only: of_nat_of_char)
  have "48 \<le> n" "n \<le> 57" using assms by (simp_all add: less_eq_char_def n)
  then have "(of_nat n - 48 :: u64) = of_nat (n - 48)" by (simp add: of_nat_diff)
  then show ?thesis using \<open>n \<le> 57\<close>
    by (simp add: w n [symmetric] unsigned_of_nat take_bit_nat_eq_self)
qed

lemma parse_decimal_digits_value:
  "length limbs = 4 \<Longrightarrow>
   parse_decimal_digits text limbs = Inr out \<longleftrightarrow>
     (\<forall>ch \<in> set text. CHR ''0'' \<le> ch \<and> ch \<le> CHR ''9'') \<and> length out = 4 \<and>
     limbs_value out = foldl (\<lambda>n ch. 10 * n + (of_char ch - 48)) (limbs_value limbs) text"
proof (induction "text" arbitrary: limbs)
  case Nil
  then show ?case by (auto intro: limbs_value_inj)
next
  case (Cons ch cs)
  obtain nx c where m: "mul10_limbs limbs (of_char ch - of_char CHR ''0'') = (nx, c)" by fastforce
  show ?case
  proof (cases "CHR ''0'' \<le> ch \<and> ch \<le> CHR ''9''")
    case False
    then show ?thesis by auto
  next
    case True
    then have d: "unat (of_char ch - of_char CHR ''0'' :: u64) = of_char ch - 48"
      by (intro digit_value) auto
    have "of_char ch \<le> (57 :: nat)" using True by (simp add: less_eq_char_def)
    with d mul10_limbs_value [OF _ m] Cons.prems
    have nx: "length nx = 4" "limbs_value nx + 2 ^ 128 * unat c = 10 * limbs_value limbs + (of_char ch - 48)"
      by simp_all
    show ?thesis
    proof (cases "c = 0")
      case True
      then show ?thesis using Cons.IH [OF nx(1)] nx(2) m \<open>CHR ''0'' \<le> ch \<and> ch \<le> CHR ''9''\<close> by auto
    next
      case False
      then have "unat c \<noteq> 0" by (simp add: unat_eq_0)
      then have "2 ^ 128 \<le> 10 * limbs_value limbs + (of_char ch - 48)" using nx(2) by (cases "unat c") auto
      then have "2 ^ 128 \<le> foldl (\<lambda>n ch. 10 * n + (of_char ch - 48)) (limbs_value limbs) (ch # cs)"
        using decimal_prefix_le [of "10 * limbs_value limbs + (of_char ch - 48)" cs] by simp
      moreover have "limbs_value out < 2 ^ 128" if "length out = 4"
        using limbs_value_less [of out] that by simp
      ultimately show ?thesis using False m by auto
    qed
  qed
qed

lemma parse_decimal_uint128_value:
  "parse_decimal_uint128 text = Inr out \<longleftrightarrow>
     canonical_decimal text \<and> 0 < decimal_value text \<and> length out = 4 \<and> limbs_value out = decimal_value text"
proof -
  have z: "limbs_value (replicate 4 0) = 0" by (simp add: limbs_value_zero_iff list_all_iff)
  have "parse_decimal_digits text (replicate 4 0) = Inr l \<longleftrightarrow>
     (\<forall>ch \<in> set text. CHR ''0'' \<le> ch \<and> ch \<le> CHR ''9'') \<and> length l = 4 \<and>
     limbs_value l = decimal_value text" for l
    using parse_decimal_digits_value [of "replicate 4 0" "text" l] z by (simp add: decimal_value_def)
  note digits = this
  show ?thesis
  proof (cases "text = [] \<or> (length text > 1 \<and> hd text = CHR ''0'')")
    case True
    then show ?thesis by (auto simp: parse_decimal_uint128_def canonical_decimal_def)
  next
    case False
    then have "parse_decimal_uint128 text = Inr out \<longleftrightarrow>
        parse_decimal_digits text (replicate 4 0) = Inr out \<and> limbs_value out \<noteq> 0"
      by (auto simp: parse_decimal_uint128_def and_then_eq_Inr limbs_value_zero_iff split: if_splits)
    then show ?thesis using False by (auto simp: canonical_decimal_def digits)
  qed
qed

text \<open>Every value below 2^128 has limbs, so a refusal is never a parser failure on a valid value.\<close>

lemma limbs_exist: "v < 2 ^ (32 * n) \<Longrightarrow> \<exists>limbs. length limbs = n \<and> limbs_value limbs = v"
proof (induction n arbitrary: v)
  case 0
  then show ?case by simp
next
  case (Suc n)
  have "v div 2 ^ 32 < 2 ^ (32 * n)"
    using Suc.prems by (simp add: div_less_iff_less_mult power_add mult.commute)
  then obtain limbs where "length limbs = n" "limbs_value limbs = v div 2 ^ 32" using Suc.IH by blast
  moreover have "unat (of_nat v :: u32) = v mod 2 ^ 32"
    by (simp add: unsigned_of_nat take_bit_eq_mod)
  ultimately show ?case by (intro exI [of _ "of_nat v # limbs"]) simp
qed

lemma parse_decimal_digits_error:
  "parse_decimal_digits text limbs = Inl e \<Longrightarrow> \<exists>why. e = ValidationError why"
  by (induction "text" limbs rule: parse_decimal_digits.induct)
    (auto simp: Let_def split: if_splits prod.splits)

lemma parse_decimal_error:
  assumes "parse_decimal_uint128 text = Inl e"
  obtains why where "e = ValidationError why"
  using assms
  by (auto simp: parse_decimal_uint128_def result_simps split: if_splits
      dest: parse_decimal_digits_error)

section \<open>The network comparison\<close>

lemma hash_limbs_value:
  assumes "length hash = 32"
  shows "length (hash_limbs hash) = 8 \<and> limbs_value (hash_limbs hash) = le_value hash"
proof
  show "length (hash_limbs hash) = 8" by (simp add: hash_limbs_def)
  have limb: "unat (hash_limbs hash ! i) = le_value (take 4 (drop (i * 4) hash))" if "i < 8" for i
  proof -
    have "hash_limbs hash ! i =
        foldl (\<lambda>r j. r OR push_bit (8 * j) (ucast (drop (i * 4) hash ! j))) (0 :: u32) [0..<4]"
      using that assms by (simp add: hash_limbs_def)
    also have "\<dots> = of_nat (le_value (take 4 (drop (i * 4) hash)))"
      by (rule foldl_or_bytes) (use that assms in auto)
    finally have w: "hash_limbs hash ! i = of_nat (le_value (take 4 (drop (i * 4) hash)))" .
    have "le_value (take 4 (drop (i * 4) hash)) < 2 ^ 32"
      using le_value_less [of "take 4 (drop (i * 4) hash)"] that assms by simp
    then show ?thesis by (simp add: w unsigned_of_nat take_bit_nat_eq_self)
  qed
  have "limbs_value (take n (hash_limbs hash)) = le_value (take (4 * n) hash)" if "n \<le> 8" for n
    using that
  proof (induction n)
    case 0
    show ?case by simp
  next
    case (Suc n)
    have "take (Suc n) (hash_limbs hash) = take n (hash_limbs hash) @ [hash_limbs hash ! n]"
      using Suc.prems \<open>length (hash_limbs hash) = 8\<close> by (simp add: take_Suc_conv_app_nth)
    moreover have "take (4 * Suc n) hash = take (4 * n) hash @ take 4 (drop (n * 4) hash)"
      by (simp add: take_add [symmetric] mult.commute add.commute)
    ultimately show ?case using Suc assms limb [of n] \<open>length (hash_limbs hash) = 8\<close>
      by (simp add: limbs_value_append le_value_append power_mult)
  qed
  from this [of 8] show "limbs_value (hash_limbs hash) = le_value hash"
    using assms \<open>length (hash_limbs hash) = 8\<close> by simp
qed

lemma high_limbs_zero:
  assumes "length p = 12"
  shows "list_all (\<lambda>x. x = 0) (drop 8 p) \<longleftrightarrow> limbs_value p < 2 ^ 256"
proof -
  have "limbs_value p = limbs_value (take 8 p) + 2 ^ 256 * limbs_value (drop 8 p)"
    using limbs_value_append [of "take 8 p" "drop 8 p"] assms by simp
  moreover have "limbs_value (take 8 p) < 2 ^ 256"
    using limbs_value_less [of "take 8 p"] assms by simp
  ultimately show ?thesis by (auto simp: limbs_value_zero_iff [symmetric])
qed

lemma network_product:
  assumes "length hash = 32" and "length limbs = 4"
  shows "list_all (\<lambda>x. x = 0) (drop 8 (mul_rows (hash_limbs hash) limbs 0 (replicate 12 0))) \<longleftrightarrow>
    le_value hash * limbs_value limbs < 2 ^ 256"
proof -
  let ?p = "mul_rows (hash_limbs hash) limbs 0 (replicate 12 0)"
  have "limbs_value (replicate 12 0) = 0" by (simp add: limbs_value_zero_iff list_all_iff)
  moreover have "limbs \<noteq> []" using assms(2) by auto
  ultimately have p: "length ?p = 12" "limbs_value ?p = (le_value hash * limbs_value limbs) mod 2 ^ 384"
    using mul_rows_value [of 0 "hash_limbs hash" limbs "replicate 12 0"] hash_limbs_value [OF assms(1)]
      assms(2) by simp_all
  have "le_value hash * limbs_value limbs < 2 ^ 256 * 2 ^ 128"
    using le_value_less [of hash] limbs_value_less [of limbs] assms
    by (intro mult_strict_mono) simp_all
  then have "le_value hash * limbs_value limbs < 2 ^ 384" by simp
  then show ?thesis using high_limbs_zero [OF p(1)] p(2) by simp
qed

section \<open>Properties\<close>

lemma network_target_value:
  assumes "length hash = 32"
  shows "(if canonical_decimal text \<and> 0 < decimal_value text \<and> decimal_value text < 2 ^ 128
          then meets_network_target hash text = Inr (le_value hash * decimal_value text < 2 ^ 256)
          else \<exists>why. meets_network_target hash text = Inl (ValidationError why))"
proof (cases "parse_decimal_uint128 text")
  case (Inr limbs)
  then have p: "canonical_decimal text" "0 < decimal_value text" "length limbs = 4"
    "limbs_value limbs = decimal_value text"
    by (simp_all add: parse_decimal_uint128_value)
  moreover have "decimal_value text < 2 ^ 128" using limbs_value_less [of limbs] p by simp
  moreover have "meets_network_target hash text = Inr (le_value hash * decimal_value text < 2 ^ 256)"
    using network_product [OF assms p(3)] p(4) Inr by (simp add: meets_network_target_def)
  ultimately show ?thesis by simp
next
  case (Inl e)
  then obtain why where "e = ValidationError why" by (rule parse_decimal_error)
  with Inl have "\<exists>why. meets_network_target hash text = Inl (ValidationError why)"
    by (simp add: meets_network_target_def)
  moreover have "\<not> (canonical_decimal text \<and> 0 < decimal_value text \<and> decimal_value text < 2 ^ 128)"
    using Inl limbs_exist [of "decimal_value text" 4] parse_decimal_uint128_value [of "text"] by force
  ultimately show ?thesis by auto
qed

text \<open>
  C19: the network comparison is exact. For a 32 byte hash and a difficulty text that is canonical
  decimal with a positive value below 2^128, the answer is whether the little-endian value of the
  hash times the difficulty stays below 2^256, computed without loss by 32 bit limbs; every other
  text is refused with a validation error, and no text is refused for another reason.
\<close>

theorem meets_network_target_exact:
  assumes "length hash = 32"
  shows "(if canonical_decimal text \<and> 0 < decimal_value text \<and> decimal_value text < 2 ^ 128
          then meets_network_target hash text = Inr (le_value hash * decimal_value text < 2 ^ 256)
          else \<exists>why. meets_network_target hash text = Inl (ValidationError why))"
  by (rule network_target_value [OF assms])

theorem meets_network_target_exact_witness:
  "length (replicate 31 0 @ [1 :: byte]) = 32 \<and>
   meets_network_target (replicate 31 0 @ [1]) ''255'' = Inr True \<and>
   meets_network_target (replicate 31 0 @ [1]) ''256'' = Inr False"
proof -
  have v: "le_value (replicate 31 0 @ [1]) = 2 ^ 248"
    by (simp add: le_value_append)
  show ?thesis
    using meets_network_target_exact [of "replicate 31 0 @ [1]" "''255''"]
      meets_network_target_exact [of "replicate 31 0 @ [1]" "''256''"]
    by (simp add: v canonical_decimal_def decimal_value_def less_eq_char_def)
qed

text \<open>
  What a share target admits. A positive difficulty has the target (2^64-1) div difficulty,
  zero is refused; a 32 byte hash meets the target of a difficulty exactly when its actual
  difficulty reaches it and its comparison word is not the target itself, so an accepted share
  never has an actual difficulty below the one it was assigned.
\<close>

theorem share_target_admits:
  assumes "length hash = 32"
  shows "(case share_target64 difficulty of
      Inl e \<Rightarrow> difficulty = 0 \<and> e = ValidationError ''share difficulty must be positive''
    | Inr target \<Rightarrow> unat target = (2 ^ 64 - 1) div unat difficulty \<and>
        (meets_share_target hash target \<longleftrightarrow>
           difficulty \<le> actual_difficulty hash \<and> le_value (drop 24 hash) \<noteq> unat target))"
proof (cases "difficulty = 0")
  case True
  then show ?thesis by (simp add: share_target64_def)
next
  case False
  then obtain t where t: "share_target64 difficulty = Inr t" by (simp add: share_target64_def)
  have ut: "unat t = (2 ^ 64 - 1) div unat difficulty" by (rule unat_share_target [OF False t])
  have w: "unat (pow_word64 hash) = le_value (drop 24 hash)" by (rule pow_word64_value [OF assms])
  have "difficulty \<le> actual_difficulty hash \<longleftrightarrow> unat (pow_word64 hash) \<le> unat t"
    using actual_difficulty_reaches [OF False] ut by simp
  then have "meets_share_target hash t \<longleftrightarrow>
      difficulty \<le> actual_difficulty hash \<and> le_value (drop 24 hash) \<noteq> unat t"
    unfolding meets_share_target_def by (auto simp: word_less_nat_alt w [symmetric])
  with ut t show ?thesis by simp
qed

end
