(* ===== verification/Reader.thy ===== *)
theory Reader
  imports Prelude
begin

unbundle bit_operations_syntax

text \<open>
  The byte reader of src/monero/monero.cpp and the variable length integers it decodes. A reading
  function takes the data and the position and gives a value and the new position, or the exception
  it throws. The locale \<open>local_parser\<close> is the contract every reading function keeps: it moves
  forward inside the data and what it answers depends only on the bytes it passed over.
\<close>

section \<open>Reading functions\<close>

type_synonym 'a parser = "bytes \<Rightarrow> nat \<Rightarrow> ('a \<times> nat) result"

definition p_return :: "'a \<Rightarrow> 'a parser" where
  "p_return x = (\<lambda>d pos. Inr (x, pos))"

definition p_fail :: "error \<Rightarrow> 'a parser" where
  "p_fail e = (\<lambda>d pos. Inl e)"

definition p_then :: "'a parser \<Rightarrow> ('a \<Rightarrow> 'b parser) \<Rightarrow> 'b parser" where
  "p_then p f = (\<lambda>d pos. and_then (p d pos) (\<lambda>(x, pos'). f x d pos'))"

definition p_check :: "bool \<Rightarrow> string \<Rightarrow> unit parser" where
  "p_check b why = (if b then p_return () else p_fail (MoneroParseError why))"

section \<open>The class Reader\<close>

definition reader_position :: "nat parser" where
  "reader_position = (\<lambda>d pos. Inr (pos, pos))"

definition reader_remaining :: "nat parser" where
  "reader_remaining = (\<lambda>d pos. Inr (length d - pos, pos))"

definition reader_eof :: "bool parser" where
  "reader_eof = (\<lambda>d pos. Inr (pos = length d, pos))"

definition reader_require :: "nat \<Rightarrow> unit parser" where
  "reader_require count =
     p_then reader_remaining (\<lambda>remaining. p_check (count \<le> remaining) ''truncated Monero blob'')"

definition reader_byte :: "byte parser" where
  "reader_byte = p_then (reader_require 1) (\<lambda>_ d pos. Inr (d ! pos, pos + 1))"

definition reader_bytes :: "nat \<Rightarrow> bytes parser" where
  "reader_bytes count =
     p_then (reader_require count) (\<lambda>_ d pos. Inr (take count (drop pos d), pos + count))"

definition reader_skip :: "nat \<Rightarrow> unit parser" where
  "reader_skip count = p_then (reader_bytes count) (\<lambda>_. p_return ())"

function encode_varint :: "u64 \<Rightarrow> bytes" where
  "encode_varint value =
     (let b = ucast (value AND 0x7f); rest = drop_bit 7 value in
      if rest \<noteq> 0 then (b OR 0x80) # encode_varint rest else [b])"
  by auto
termination
proof (relation "measure unat")
  fix v b and rest :: u64
  assume "rest = drop_bit 7 v" and nz: "rest \<noteq> 0"
  then have "unat rest = unat v div 2 ^ 7" by (simp only: unat_drop_bit_eq drop_bit_nat_def)
  moreover have "unat rest \<noteq> 0" using nz by (simp add: unat_eq_0)
  ultimately show "(rest, v) \<in> measure unat" by simp
qed simp

declare encode_varint.simps [simp del]

text \<open>The loop of \<open>varint\<close>, with the number of rounds left (10 at the start, so \<open>i = 9\<close> is round 1).\<close>

primrec varint_loop :: "nat \<Rightarrow> nat \<Rightarrow> u64 \<Rightarrow> nat \<Rightarrow> u64 parser" where
  "varint_loop 0 start value shift = p_fail (MoneroParseError ''unterminated varint'')"
| "varint_loop (Suc k) start value shift =
     p_then reader_byte (\<lambda>current.
     p_then (p_check (\<not> (k = 0 \<and> current > 1)) ''varint overflows uint64'') (\<lambda>_.
     let value = value OR push_bit shift (ucast (current AND 0x7f)) in
     if current AND 0x80 = 0
     then p_then reader_position (\<lambda>position.
          p_then (p_check (length (encode_varint value) = position - start) ''noncanonical varint'')
            (\<lambda>_. p_return value))
     else varint_loop k start value (shift + 7)))"

definition reader_varint :: "u64 parser" where
  "reader_varint = p_then reader_position (\<lambda>start. varint_loop 10 start 0 0)"

definition reader_count :: "nat \<Rightarrow> nat parser" where
  "reader_count element_minimum =
     p_then reader_varint (\<lambda>count_value.
     p_then reader_remaining (\<lambda>remaining.
     p_then (p_check (unat count_value \<le> remaining div element_minimum)
               ''container count exceeds remaining block bytes'')
       (\<lambda>_. p_return (unat count_value))))"

text \<open>A loop that runs a reading function a number of times.\<close>

primrec p_times :: "nat \<Rightarrow> 'a parser \<Rightarrow> 'a list parser" where
  "p_times 0 p = p_return []"
| "p_times (Suc n) p = p_then p (\<lambda>x. p_then (p_times n p) (\<lambda>xs. p_return (x # xs)))"

section \<open>The contract of a reading function\<close>

named_theorems parser_simps \<open>success of composed reading functions\<close>
named_theorems parser_local \<open>reading functions that keep the contract\<close>

definition agree :: "nat \<Rightarrow> nat \<Rightarrow> bytes \<Rightarrow> bytes \<Rightarrow> bool" where
  "agree a b d d' \<longleftrightarrow> length d' = length d \<and> (\<forall>i. a \<le> i \<and> i < b \<longrightarrow> d' ! i = d ! i)"

locale local_parser =
  fixes p :: "'a parser"
  assumes advance: "p d pos = Inr (x, pos') \<Longrightarrow> pos \<le> length d \<Longrightarrow> pos \<le> pos' \<and> pos' \<le> length d"
    and local: "p d pos = Inr (x, pos') \<Longrightarrow> pos \<le> length d \<Longrightarrow> agree pos pos' d d' \<Longrightarrow>
      p d' pos = Inr (x, pos')"

lemma p_then_success [parser_simps]:
  "p_then p f d pos = Inr (y, pos'') \<longleftrightarrow> (\<exists>x pos'. p d pos = Inr (x, pos') \<and> f x d pos' = Inr (y, pos''))"
  by (auto simp: p_then_def and_then_eq_Inr)

lemma p_return_success [parser_simps]: "p_return x d pos = Inr (y, pos') \<longleftrightarrow> y = x \<and> pos' = pos"
  by (auto simp: p_return_def)

lemma p_fail_success [parser_simps]: "p_fail e d pos = Inr y \<longleftrightarrow> False"
  by (simp add: p_fail_def)

lemma p_check_success [parser_simps]: "p_check b why d pos = Inr (u, pos') \<longleftrightarrow> b \<and> pos' = pos"
  by (auto simp: p_check_def p_return_def p_fail_def)

lemma reader_position_success [parser_simps]:
  "reader_position d pos = Inr (x, pos') \<longleftrightarrow> x = pos \<and> pos' = pos"
  by (auto simp: reader_position_def)

lemma reader_remaining_success [parser_simps]:
  "reader_remaining d pos = Inr (x, pos') \<longleftrightarrow> x = length d - pos \<and> pos' = pos"
  by (auto simp: reader_remaining_def)

lemma reader_eof_success [parser_simps]:
  "reader_eof d pos = Inr (x, pos') \<longleftrightarrow> x = (pos = length d) \<and> pos' = pos"
  by (auto simp: reader_eof_def)

lemma reader_byte_success [parser_simps]:
  "reader_byte d pos = Inr (x, pos') \<longleftrightarrow> pos < length d \<and> x = d ! pos \<and> pos' = pos + 1"
  by (auto simp: reader_byte_def reader_require_def parser_simps)

lemma reader_bytes_success [parser_simps]:
  "reader_bytes n d pos = Inr (x, pos') \<longleftrightarrow>
     n \<le> length d - pos \<and> x = take n (drop pos d) \<and> pos' = pos + n"
  by (auto simp: reader_bytes_def reader_require_def parser_simps)

lemma reader_skip_success [parser_simps]:
  "reader_skip n d pos = Inr (u, pos') \<longleftrightarrow> n \<le> length d - pos \<and> pos' = pos + n"
  by (auto simp: reader_skip_def parser_simps)

lemma agree_mono: "agree a b d d' \<Longrightarrow> a \<le> a' \<Longrightarrow> b' \<le> b \<Longrightarrow> agree a' b' d d'"
  by (auto simp: agree_def)

lemma agree_take_drop: "agree pos (pos + n) d d' \<Longrightarrow> take n (drop pos d') = take n (drop pos d)"
  by (rule nth_equalityI) (auto simp: agree_def)

lemma local_return [parser_local]: "local_parser (p_return x)"
  by unfold_locales (auto simp: parser_simps)

lemma local_check [parser_local]: "local_parser (p_check b why)"
  by unfold_locales (auto simp: parser_simps)

lemma local_fail [parser_local]: "local_parser (p_fail e)"
  by unfold_locales (auto simp: parser_simps)

lemma local_then [parser_local]:
  assumes "local_parser p" and "\<And>x. local_parser (f x)"
  shows "local_parser (p_then p f)"
proof
  fix d d' pos y pos''
  assume "p_then p f d pos = Inr (y, pos'')" and le: "pos \<le> length d"
  then obtain x pos' where p: "p d pos = Inr (x, pos')" and f: "f x d pos' = Inr (y, pos'')"
    by (auto simp: parser_simps)
  have a1: "pos \<le> pos' \<and> pos' \<le> length d" by (rule local_parser.advance [OF assms(1) p le])
  with local_parser.advance [OF assms(2) f] have a2: "pos' \<le> pos'' \<and> pos'' \<le> length d" by simp
  from a1 a2 show "pos \<le> pos'' \<and> pos'' \<le> length d" by simp
  assume ag: "agree pos pos'' d d'"
  have "p d' pos = Inr (x, pos')"
    using local_parser.local [OF assms(1) p le] ag a2 by (auto intro: agree_mono)
  moreover have "f x d' pos' = Inr (y, pos'')"
    using local_parser.local [OF assms(2) f] ag a1 by (auto intro: agree_mono)
  ultimately show "p_then p f d' pos = Inr (y, pos'')" by (auto simp: parser_simps)
qed

lemma local_if [parser_local]:
  "local_parser p \<Longrightarrow> local_parser q \<Longrightarrow> local_parser (if b then p else q)"
  by simp

text \<open>\<open>remaining\<close> and \<open>eof\<close> look at the length alone, which the contract keeps.\<close>

interpretation position: local_parser reader_position
  by unfold_locales (auto simp: parser_simps)

interpretation remaining: local_parser reader_remaining
  by unfold_locales (auto simp: parser_simps agree_def)

interpretation at_end: local_parser reader_eof
  by unfold_locales (auto simp: parser_simps agree_def)

interpretation one_byte: local_parser reader_byte
  by unfold_locales (auto simp: parser_simps agree_def)

interpretation some_bytes: local_parser "reader_bytes n" for n
  by unfold_locales (auto simp: parser_simps agree_def intro: agree_take_drop [unfolded agree_def])

lemmas [parser_local] =
  position.local_parser_axioms remaining.local_parser_axioms at_end.local_parser_axioms
  one_byte.local_parser_axioms some_bytes.local_parser_axioms

interpretation skipped: local_parser "reader_skip n" for n
  unfolding reader_skip_def by (intro parser_local)

lemma local_varint_loop: "local_parser (varint_loop k start value shift)"
  by (induction k arbitrary: "value" shift) (auto simp: Let_def intro!: parser_local)

interpretation variable_int: local_parser reader_varint
  unfolding reader_varint_def by (intro parser_local local_varint_loop)

lemmas [parser_local] = skipped.local_parser_axioms variable_int.local_parser_axioms

interpretation counted: local_parser "reader_count m" for m
  unfolding reader_count_def by (intro parser_local)

lemma local_times [parser_local]: "local_parser p \<Longrightarrow> local_parser (p_times n p)"
  by (induction n) (auto intro!: parser_local)

lemmas [parser_local] = counted.local_parser_axioms

section \<open>Variable length integers\<close>

text \<open>The reference: base 128 digits, least significant first, all but the last with the high bit.\<close>

fun base128 :: "nat \<Rightarrow> bytes" where
  "base128 n = (if n < 128 then [of_nat n] else of_nat (n mod 128 + 128) # base128 (n div 128))"

declare base128.simps [simp del]

fun base128_value :: "bytes \<Rightarrow> nat" where
  "base128_value [] = 0"
| "base128_value (b # bs) = unat b mod 128 + 128 * base128_value bs"

definition continued :: "bytes \<Rightarrow> bool" where
  "continued bs \<longleftrightarrow> bs \<noteq> [] \<and> (\<forall>b \<in> set (butlast bs). 128 \<le> unat b) \<and> unat (last bs) < 128"

lemma unat_low7: "unat (v AND 0x7f :: 'a::len word) = unat v mod 128" if "7 < LENGTH('a)"
proof -
  have "(0x7f :: 'a word) = mask 7" by (simp add: mask_eq_exp_minus_1)
  then have "v AND 0x7f = take_bit 7 v" by (simp only: take_bit_eq_mask)
  then have "unat (v AND 0x7f) = take_bit 7 (unat v)" by (simp only: unsigned_take_bit_eq)
  then show ?thesis by (simp add: take_bit_eq_mod)
qed

lemma unat_shift7: "unat (drop_bit 7 (v :: u64)) = unat v div 128"
  by (simp only: unat_drop_bit_eq drop_bit_nat_def) simp

lemma high_bit_clear_iff: "(b :: byte) AND 0x80 = 0 \<longleftrightarrow> unat b < 128"
proof -
  have "\<forall>n \<in> set [0..<256]. (of_nat n :: byte) AND 0x80 = 0 \<longleftrightarrow> n < 128" by code_simp
  moreover have "unat b \<in> set [0..<256]" by simp
  ultimately have "(of_nat (unat b) :: byte) AND 0x80 = 0 \<longleftrightarrow> unat b < 128" by blast
  then show ?thesis by simp
qed

lemma encode_varint_base128: "encode_varint v = base128 (unat v)"
proof (induction v rule: encode_varint.induct)
  case (1 v)
  have low: "unat (ucast (v AND 0x7f) :: byte) = unat v mod 128"
    using unat_low7 [of v] by (simp add: unsigned_ucast_eq take_bit_eq_mod)
  then have lw: "(ucast (v AND 0x7f) :: byte) = of_nat (unat v mod 128)"
    by (simp add: word_unat_eq_iff unsigned_of_nat take_bit_nat_eq_self)
  have rest: "drop_bit 7 v \<noteq> 0 \<longleftrightarrow> \<not> unat v < 128"
    using unat_shift7 [of v] by (auto simp flip: unat_eq_0)
  have hi: "(ucast (v AND 0x7f) :: byte) OR 0x80 = of_nat (unat v mod 128 + 128)"
    using disjunctive_add_eq_or [of "ucast (v AND 0x7f)" "0x80 :: byte"] low
    by (simp add: high_bit_clear_iff lw [symmetric])
  show ?case
  proof (cases "unat v < 128")
    case True
    then show ?thesis using rest lw by (subst encode_varint.simps, subst base128.simps) simp
  next
    case False
    then show ?thesis using rest hi 1 unat_shift7 [of v]
      by (subst encode_varint.simps, subst base128.simps) (simp add: Let_def)
  qed
qed

lemma base128_unique:
  "continued bs \<Longrightarrow> length (base128 (base128_value bs)) = length bs \<Longrightarrow> base128 (base128_value bs) = bs"
proof (induction bs)
  case Nil
  then show ?case by (simp add: continued_def)
next
  case (Cons b bs)
  let ?n = "base128_value (b # bs)"
  show ?case
  proof (cases bs)
    case Nil
    then have "unat b < 128" using Cons.prems(1) by (simp add: continued_def)
    then show ?thesis using Nil by (subst base128.simps) simp
  next
    case (Cons b' bs')
    have b: "128 \<le> unat b" and c: "continued bs"
      using Cons.prems(1) \<open>bs = b' # bs'\<close> by (auto simp: continued_def)
    have big: "\<not> ?n < 128"
      using Cons.prems(2) \<open>bs = b' # bs'\<close> by (subst (asm) base128.simps) (auto split: if_splits)
    have dm: "?n mod 128 = unat b mod 128" "?n div 128 = base128_value bs" by simp_all
    have "unat b mod 128 + 128 = unat b"
      using b unat_byte_less [of b] le_mod_geq [of 128 "unat b"] by (simp del: unat_byte_less)
    then have "base128 ?n = b # base128 (base128_value bs)"
      using big dm by (subst base128.simps) simp
    moreover from this Cons.prems(2) have "length (base128 (base128_value bs)) = length bs" by simp
    ultimately show ?thesis using Cons.IH [OF c] by simp
  qed
qed

lemma base128_continued: "continued (base128 n) \<and> base128_value (base128 n) = n"
proof (induction n rule: base128.induct)
  case (1 n)
  show ?case
  proof (cases "n < 128")
    case True
    then show ?thesis by (subst (1 2) base128.simps) (simp add: continued_def unsigned_of_nat take_bit_nat_eq_self)
  next
    case False
    have m: "n mod 128 < 128" by simp
    then have u: "unat (of_nat (n mod 128 + 128) :: byte) = n mod 128 + 128"
      by (simp add: unsigned_of_nat take_bit_nat_eq_self del: of_nat_add)
    have "base128 n = of_nat (n mod 128 + 128) # base128 (n div 128)"
      using False by (subst base128.simps) simp
    then show ?thesis using 1 [OF False] u by (auto simp: continued_def)
  qed
qed

text \<open>A round of the loop adds one digit above the ones it has.\<close>

lemma add_digit:
  assumes "unat value < 128 ^ i" and "i < 10" and "i = 9 \<longrightarrow> current \<le> (1 :: byte)"
  shows "unat (value OR push_bit (7 * i) (ucast (current AND 0x7f)) :: u64) =
    unat value + 128 ^ i * (unat current mod 128)"
proof -
  let ?low = "ucast (current AND 0x7f) :: u64"
  have low: "unat ?low = unat current mod 128"
    using unat_low7 [of current] by (simp add: unsigned_ucast_eq take_bit_nat_eq_self)
  have p: "(128 :: nat) ^ i = 2 ^ (7 * i)" by (simp add: power_mult)
  have "value AND push_bit (7 * i) ?low = 0"
  proof (rule bit_word_eqI)
    fix j
    have "\<not> bit (of_nat (unat value) :: u64) j" if "7 * i \<le> j"
      by (rule bit_of_nat_less [OF _ that]) (use assms(1) p in simp)
    then show "bit (value AND push_bit (7 * i) ?low) j = bit 0 j"
      by (auto simp: bit_simps)
  qed
  then have or: "value OR push_bit (7 * i) ?low = value + push_bit (7 * i) ?low"
    by (simp add: disjunctive_add_eq_or)
  have bound: "unat value + 2 ^ (7 * i) * (unat current mod 128) < 2 ^ 64"
  proof (cases "i = 9")
    case True
    then have "unat current \<le> 1" using assms(3) by (simp add: word_le_nat_alt)
    then show ?thesis using assms(1) True by (cases "unat current") auto
  next
    case False
    then have "i \<le> 8" using assms(2) by simp
    have "2 ^ (7 * i) * (unat current mod 128) \<le> 2 ^ (7 * i) * (127 :: nat)"
      by (rule mult_le_mono2) (use mod_less_divisor [of 128 "unat current"] in simp)
    then have "unat value + 2 ^ (7 * i) * (unat current mod 128) < 2 ^ (7 * i) * 128"
      using assms(1) p by linarith
    also have "\<dots> \<le> 2 ^ 56 * 128"
      using \<open>i \<le> 8\<close> power_increasing [of "7 * i" 56 "2 :: nat"] by simp
    finally show ?thesis by simp
  qed
  have "push_bit (7 * i) ?low = of_nat (2 ^ (7 * i) * (unat current mod 128))"
    unfolding low [symmetric] by (simp add: push_bit_eq_mult mult.commute)
  then have "unat (push_bit (7 * i) ?low) = 2 ^ (7 * i) * (unat current mod 128)"
    using bound by (simp add: unsigned_of_nat take_bit_nat_eq_self del: of_nat_mult)
  then show ?thesis using or bound p by (simp add: unat_word_ariths)
qed

text \<open>What the loop reads, and that it reads every canonical encoding.\<close>

lemma varint_loop_reads:
  "i + k = 10 \<Longrightarrow> unat value < 128 ^ i \<Longrightarrow>
   varint_loop k start value (7 * i) d (start + i) = Inr (v, pos') \<Longrightarrow>
   \<exists>bs. continued bs \<and> pos' = start + i + length bs \<and> pos' \<le> length d \<and>
     take (length bs) (drop (start + i) d) = bs \<and>
     unat v = unat value + 128 ^ i * base128_value bs \<and> length (encode_varint v) = i + length bs"
proof (induction k arbitrary: i "value")
  case 0
  then show ?case by (simp add: parser_simps)
next
  case (Suc k)
  let ?c = "d ! (start + i)"
  let ?w = "value OR push_bit (7 * i) (ucast (?c AND 0x7f))"
  have c: "start + i < length d" and ov: "\<not> (k = 0 \<and> ?c > 1)"
    using Suc.prems(3) by (auto simp: parser_simps)
  have digit: "unat ?w = unat value + 128 ^ i * (unat ?c mod 128)"
    using Suc.prems(1,2) ov by (intro add_digit) auto
  have d0: "drop (start + i) d = ?c # drop (start + Suc i) d"
    using c by (simp add: Cons_nth_drop_Suc)
  show ?case
  proof (cases "?c AND 0x80 = 0")
    case True
    then have "v = ?w" "pos' = start + i + 1" "length (encode_varint v) = i + 1"
      using Suc.prems(3) by (auto simp: parser_simps Let_def)
    moreover have "unat ?c < 128" using True by (simp add: high_bit_clear_iff)
    ultimately show ?thesis using digit c d0
      by (intro exI [of _ "[?c]"]) (simp add: continued_def)
  next
    case False
    then have "varint_loop k start ?w (7 * Suc i) d (start + Suc i) = Inr (v, pos')"
      using Suc.prems(3) by (simp add: parser_simps Let_def add.commute)
    moreover have "unat ?w < 128 ^ Suc i"
    proof -
      have "128 ^ i * (unat ?c mod 128) \<le> 128 ^ i * (127 :: nat)"
        by (rule mult_le_mono2) (use mod_less_divisor [of 128 "unat ?c"] in simp)
      then show ?thesis using Suc.prems(2) by (simp only: digit power_Suc)
    qed
    ultimately obtain bs where bs: "continued bs" "pos' = start + Suc i + length bs" "pos' \<le> length d"
      "take (length bs) (drop (start + Suc i) d) = bs"
      "unat v = unat ?w + 128 ^ Suc i * base128_value bs" "length (encode_varint v) = Suc i + length bs"
      using Suc.IH [of "Suc i" ?w] Suc.prems(1) by auto
    have "128 \<le> unat ?c" using False by (simp add: high_bit_clear_iff)
    then show ?thesis using bs digit d0
      by (intro exI [of _ "?c # bs"]) (auto simp: continued_def algebra_simps)
  qed
qed

lemma length_base128: "0 < m \<Longrightarrow> n < 128 ^ m \<Longrightarrow> length (base128 n) \<le> m"
proof (induction m arbitrary: n)
  case 0
  then show ?case by simp
next
  case (Suc m)
  show ?case
  proof (cases "n < 128")
    case True
    then show ?thesis by (subst base128.simps) simp
  next
    case False
    then have "0 < m" using Suc.prems(2) by (cases m) auto
    moreover have "n div 128 < 128 ^ m" using Suc.prems(2) by (simp add: div_less_iff_less_mult mult.commute)
    ultimately show ?thesis using Suc.IH False by (subst base128.simps) simp
  qed
qed

lemma length_encode_varint: "length (encode_varint v) \<le> 10"
proof -
  have "unat v < 2 ^ LENGTH(64)" by (rule unsigned_less)
  then show ?thesis using length_base128 [of 10 "unat v"] by (simp add: encode_varint_base128)
qed

lemma varint_loop_complete:
  "i + k = 10 \<Longrightarrow> continued bs \<Longrightarrow> take (length bs) (drop (start + i) d) = bs \<Longrightarrow>
   unat value < 128 ^ i \<Longrightarrow> unat value + 128 ^ i * base128_value bs = unat v \<Longrightarrow>
   length (encode_varint v) = i + length bs \<Longrightarrow>
   varint_loop k start value (7 * i) d (start + i) = Inr (v, start + i + length bs)"
proof (induction k arbitrary: i "value" bs)
  case 0
  then show ?case using length_encode_varint [of v] by (auto simp: continued_def)
next
  case (Suc k)
  obtain c cs where bs: "bs = c # cs" using Suc.prems(2) by (cases bs) (auto simp: continued_def)
  have "drop (start + i) d \<noteq> []" using Suc.prems(3) bs by auto
  then have lt: "start + i < length d" by simp
  then have d0: "drop (start + i) d = d ! (start + i) # drop (start + Suc i) d"
    by (simp add: Cons_nth_drop_Suc)
  have c: "d ! (start + i) = c" and cs: "take (length cs) (drop (start + Suc i) d) = cs"
    using Suc.prems(3) bs d0 by simp_all
  let ?w = "value OR push_bit (7 * i) (ucast (c AND 0x7f))"
  have v64: "unat v < 2 ^ LENGTH(64)" by (rule unsigned_less)
  have last: "cs = [] \<and> c \<le> 1" if "k = 0"
  proof -
    have "cs = []" using length_encode_varint [of v] Suc.prems(1,6) bs that by simp
    moreover have "unat c < 128" using Suc.prems(2) bs \<open>cs = []\<close> by (simp add: continued_def)
    moreover have "128 ^ 9 * (unat c mod 128) < 2 ^ 64"
      using Suc.prems(1,5) bs \<open>cs = []\<close> that v64 by simp
    ultimately show ?thesis by (simp add: word_le_nat_alt)
  qed
  have digit: "unat ?w = unat value + 128 ^ i * (unat c mod 128)"
    using Suc.prems(1,4) last by (intro add_digit) auto
  show ?case
  proof (cases cs)
    case Nil
    then have "unat c < 128" using Suc.prems(2) bs by (simp add: continued_def)
    then have "c AND 0x80 = 0" by (simp add: high_bit_clear_iff)
    moreover have "?w = v" using digit Suc.prems(5) Nil bs by (simp add: word_unat_eq_iff)
    ultimately show ?thesis using lt c last Suc.prems(6) Nil bs
      by (auto simp: parser_simps Let_def not_less)
  next
    case (Cons c' cs')
    then have "128 \<le> unat c" and cont: "continued cs"
      using Suc.prems(2) bs by (auto simp: continued_def)
    then have "c AND 0x80 \<noteq> 0" by (simp add: high_bit_clear_iff)
    have "128 ^ i * (unat c mod 128) \<le> 128 ^ i * (127 :: nat)"
      by (rule mult_le_mono2) (use mod_less_divisor [of 128 "unat c"] in simp)
    then have "unat ?w < 128 ^ Suc i" using Suc.prems(4) by (simp only: digit power_Suc)
    moreover have "unat ?w + 128 ^ Suc i * base128_value cs = unat v"
      using Suc.prems(5) digit bs by (simp add: algebra_simps)
    ultimately have "varint_loop k start ?w (7 * Suc i) d (start + Suc i) = Inr (v, start + Suc i + length cs)"
      using Suc.IH [of "Suc i" cs ?w] Suc.prems(1,6) cont cs bs by simp
    then show ?thesis using \<open>c AND 0x80 \<noteq> 0\<close> lt c last bs Cons
      by (auto simp: parser_simps Let_def add.commute)
  qed
qed

lemma reader_varint_iff:
  "reader_varint d pos = Inr (v, pos') \<longleftrightarrow>
     take (pos' - pos) (drop pos d) = encode_varint v \<and> pos' = pos + length (encode_varint v)"
proof
  assume "reader_varint d pos = Inr (v, pos')"
  then have "varint_loop 10 pos 0 (7 * 0) d (pos + 0) = Inr (v, pos')"
    by (simp add: reader_varint_def parser_simps)
  then obtain bs where bs: "continued bs" "pos' = pos + length bs" "take (length bs) (drop pos d) = bs"
    "unat v = base128_value bs" "length (encode_varint v) = length bs"
    using varint_loop_reads [of 0 10 0 pos d v pos'] by auto
  then have "encode_varint v = bs" using base128_unique [OF bs(1)] by (simp add: encode_varint_base128)
  then show "take (pos' - pos) (drop pos d) = encode_varint v \<and> pos' = pos + length (encode_varint v)"
    using bs by simp
next
  assume r: "take (pos' - pos) (drop pos d) = encode_varint v \<and> pos' = pos + length (encode_varint v)"
  then have "varint_loop 10 pos 0 (7 * 0) d (pos + 0) = Inr (v, pos + 0 + length (encode_varint v))"
    using base128_continued [of "unat v"]
    by (intro varint_loop_complete) (auto simp: encode_varint_base128)
  then show "reader_varint d pos = Inr (v, pos')"
    using r by (simp add: reader_varint_def parser_simps)
qed

lemma encode_varint_nonempty: "encode_varint v \<noteq> []"
  by (subst encode_varint.simps) (simp add: Let_def)

lemma reader_varint_advances:
  assumes "reader_varint d pos = Inr (v, pos')"
  shows "pos < pos'"
  using assms encode_varint_nonempty [of v] by (simp add: reader_varint_iff)

section \<open>Properties\<close>

text \<open>
  C25: variable length integers are read exactly in their canonical form. At any position of any
  data, reading succeeds with a value and a new position if and only if the bytes between the two
  positions are the encoding of that value; so every encoded 64 bit value is read back, no padded
  or overlong encoding is accepted, and at most ten bytes are consumed.
\<close>

theorem varint_round_trip:
  "reader_varint d pos = Inr (v, pos') \<longleftrightarrow>
     take (pos' - pos) (drop pos d) = encode_varint v \<and> pos' = pos + length (encode_varint v) \<and>
     length (encode_varint v) \<le> 10"
  using reader_varint_iff [of d pos v pos'] length_encode_varint [of v] by simp

end
