(* ===== verification/Keccak.thy ===== *)
theory Keccak
  imports Prelude
begin

unbundle bit_operations_syntax

text \<open>
  Legacy Keccak-256 as src/crypto/util.cpp computes it, statement by statement over a list of 25
  lanes, and the proof that it is the function of the Keccak specification: the permutation against
  its five step maps, and the block loop against the sponge with multi-rate padding.
\<close>

section \<open>The routine of util.cpp\<close>

definition kRoundConstants :: "u64 list" where
  "kRoundConstants =
    [0x0000000000000001, 0x0000000000008082, 0x800000000000808a, 0x8000000080008000,
     0x000000000000808b, 0x0000000080000001, 0x8000000080008081, 0x8000000000008009,
     0x000000000000008a, 0x0000000000000088, 0x0000000080008009, 0x000000008000000a,
     0x000000008000808b, 0x800000000000008b, 0x8000000000008089, 0x8000000000008003,
     0x8000000000008002, 0x8000000000000080, 0x000000000000800a, 0x800000008000000a,
     0x8000000080008081, 0x8000000000008080, 0x0000000080000001, 0x8000000080008008]"

definition kRotation :: "nat list" where
  "kRotation =
    [1, 3, 6, 10, 15, 21, 28, 36, 45, 55, 2, 14, 27, 41, 56, 8, 25, 43, 62, 18, 39, 61, 20, 44]"

definition kLane :: "nat list" where
  "kLane =
    [10, 7, 11, 17, 18, 3, 5, 16, 8, 21, 24, 4, 15, 23, 19, 13, 12, 2, 20, 14, 22, 9, 6, 1]"

definition rotate_left :: "u64 \<Rightarrow> nat \<Rightarrow> u64" where
  "rotate_left value count = push_bit count value OR drop_bit (64 - count) value"

text \<open>
  \<open>keccak_f1600\<close> is one loop over the round constants; the three blocks of its body are separate
  definitions: the column parities, the walk along \<open>kLane\<close> that carries the displaced lane, and
  the row step, which reads a copy of the row.
\<close>

definition theta_column :: "u64 list \<Rightarrow> nat \<Rightarrow> u64" where
  "theta_column state i =
     state ! i XOR state ! (i + 5) XOR state ! (i + 10) XOR state ! (i + 15) XOR state ! (i + 20)"

definition keccak_theta :: "u64 list \<Rightarrow> u64 list" where
  "keccak_theta state =
     (let column = map (theta_column state) [0..<5] in
      foldl (\<lambda>st i.
        let delta = column ! ((i + 4) mod 5) XOR rotate_left (column ! ((i + 1) mod 5)) 1 in
        foldl (\<lambda>s j. s[j + i := s ! (j + i) XOR delta]) st [0, 5, 10, 15, 20])
      state [0..<5])"

definition keccak_rho_pi :: "u64 list \<Rightarrow> u64 list" where
  "keccak_rho_pi state =
     fst (foldl (\<lambda>(st, current) i.
        let destination = kLane ! i; displaced = st ! destination in
        (st[destination := rotate_left current (kRotation ! i)], displaced))
      (state, state ! 1) [0..<24])"

definition keccak_chi :: "u64 list \<Rightarrow> u64 list" where
  "keccak_chi state =
     foldl (\<lambda>st row.
        let original = take 5 (drop row st) in
        foldl (\<lambda>s i. s[row + i :=
            original ! i XOR (NOT (original ! ((i + 1) mod 5)) AND original ! ((i + 2) mod 5))])
          st [0..<5])
      state [0, 5, 10, 15, 20]"

definition keccak_round :: "u64 list \<Rightarrow> u64 \<Rightarrow> u64 list" where
  "keccak_round state round_constant =
     (let st = keccak_chi (keccak_rho_pi (keccak_theta state)) in
      st[0 := st ! 0 XOR round_constant])"

definition keccak_f1600 :: "u64 list \<Rightarrow> u64 list" where
  "keccak_f1600 state = foldl keccak_round state kRoundConstants"

definition load64_le :: "bytes \<Rightarrow> u64" where
  "load64_le input = foldl (\<lambda>r i. r OR push_bit (8 * i) (ucast (input ! i))) 0 [0..<8]"

definition store64_le :: "u64 \<Rightarrow> bytes" where
  "store64_le value = map (\<lambda>i. ucast (drop_bit (8 * i) value)) [0..<8]"

text \<open>\<open>keccak256\<close>: whole blocks are absorbed first, then a tail of 136 zero bytes with the two marks.\<close>

definition keccak_absorb :: "u64 list \<Rightarrow> bytes \<Rightarrow> u64 list" where
  "keccak_absorb state block =
     keccak_f1600 (foldl (\<lambda>st i. st[i := st ! i XOR load64_le (drop (i * 8) block)]) state [0..<17])"

function keccak_blocks :: "u64 list \<Rightarrow> bytes \<Rightarrow> u64 list \<times> bytes" where
  "keccak_blocks state input =
     (if 136 \<le> length input
      then keccak_blocks (keccak_absorb state (take 136 input)) (drop 136 input)
      else (state, input))"
  by auto
termination by (relation "measure (\<lambda>(s, i). length i)") auto

declare keccak_blocks.simps [simp del]

definition keccak_pad :: "bytes \<Rightarrow> bytes" where
  "keccak_pad input =
     (let tail = (input @ replicate (136 - length input) 0)[length input := 0x01] in
      tail[135 := tail ! 135 OR 0x80])"

definition keccak256 :: "bytes \<Rightarrow> bytes" where
  "keccak256 input =
     (let (state, rest) = keccak_blocks (replicate 25 0) input;
          state = keccak_absorb state (keccak_pad rest) in
      concat (map (\<lambda>i. store64_le (state ! i)) [0..<4]))"


section \<open>The reference permutation\<close>

text \<open>
  Keccak-f[1600] as its specification gives it: a 5 by 5 array of lanes \<open>A (x, y)\<close>, the five step
  maps, rotation offsets from the triangular numbers along the walk \<open>(x, y) \<mapsto> (y, 2x + 3y)\<close>, and
  round constants from the 8 bit linear feedback register. No table of the source is used here.
\<close>

type_synonym lanes = "nat \<times> nat \<Rightarrow> u64"

definition lane_list :: "lanes \<Rightarrow> u64 list" where
  "lane_list A = map (\<lambda>i. A (i mod 5, i div 5)) [0..<25]"

definition lane_array :: "u64 list \<Rightarrow> lanes" where
  "lane_array st = (\<lambda>(x, y). st ! (x + 5 * y))"

definition spec_theta :: "lanes \<Rightarrow> lanes" where
  "spec_theta A = (\<lambda>(x, y).
     let C = (\<lambda>x. A (x, 0) XOR A (x, 1) XOR A (x, 2) XOR A (x, 3) XOR A (x, 4)) in
     A (x, y) XOR (C ((x + 4) mod 5) XOR word_rotl 1 (C ((x + 1) mod 5))))"

fun rho_walk :: "nat \<Rightarrow> nat \<times> nat \<Rightarrow> nat \<Rightarrow> ((nat \<times> nat) \<times> nat) list" where
  "rho_walk t (x, y) 0 = []"
| "rho_walk t (x, y) (Suc n) =
     ((x, y), ((t + 1) * (t + 2) div 2) mod 64) # rho_walk (t + 1) (y, (2 * x + 3 * y) mod 5) n"

definition rho_offset :: "nat \<times> nat \<Rightarrow> nat" where
  "rho_offset p = (case map_of (rho_walk 0 (1, 0) 24) p of None \<Rightarrow> 0 | Some r \<Rightarrow> r)"

definition spec_rho :: "lanes \<Rightarrow> lanes" where
  "spec_rho A = (\<lambda>p. word_rotl (rho_offset p) (A p))"

definition spec_pi :: "lanes \<Rightarrow> lanes" where
  "spec_pi A = (\<lambda>(x, y). A ((x + 3 * y) mod 5, x))"

definition spec_chi :: "lanes \<Rightarrow> lanes" where
  "spec_chi A = (\<lambda>(x, y). A (x, y) XOR (NOT (A ((x + 1) mod 5, y)) AND A ((x + 2) mod 5, y)))"

definition spec_iota :: "u64 \<Rightarrow> lanes \<Rightarrow> lanes" where
  "spec_iota rc A = A((0, 0) := A (0, 0) XOR rc)"

text \<open>The register steps \<open>R \<mapsto> 2R\<close>, reduced by \<open>x^8 + x^6 + x^5 + x^4 + 1\<close>; its low bit is the output.\<close>

definition lfsr_step :: "int \<Rightarrow> int" where
  "lfsr_step r = (if 2 * r \<ge> 256 then (2 * r) XOR 0x171 else 2 * r)"

fun lfsr_bits :: "nat \<Rightarrow> int \<Rightarrow> bool list" where
  "lfsr_bits 0 r = []"
| "lfsr_bits (Suc n) r = odd r # lfsr_bits n (lfsr_step r)"

text \<open>Bit \<open>2^j - 1\<close> of constant \<open>ir\<close> is output \<open>j + 7 ir\<close> of the register.\<close>

fun constant_of_bits :: "nat \<Rightarrow> bool list \<Rightarrow> u64" where
  "constant_of_bits j [] = 0"
| "constant_of_bits j (b # bs) =
     (if b then push_bit (2 ^ j - 1) 1 else 0) OR constant_of_bits (Suc j) bs"

definition spec_round_constant :: "nat \<Rightarrow> u64" where
  "spec_round_constant ir = constant_of_bits 0 (take 7 (drop (7 * ir) (lfsr_bits 168 1)))"

definition spec_round :: "u64 \<Rightarrow> lanes \<Rightarrow> lanes" where
  "spec_round rc A = spec_iota rc (spec_chi (spec_pi (spec_rho (spec_theta A))))"

definition spec_keccak_f :: "lanes \<Rightarrow> lanes" where
  "spec_keccak_f A = foldl (\<lambda>A ir. spec_round (spec_round_constant ir) A) A [0..<24]"

section \<open>The routine against the reference\<close>

lemma rotate_left_word_rotl:
  assumes "0 < n" and "n < 64"
  shows "rotate_left w n = word_rotl n w"
proof (rule bit_word_eqI)
  fix m assume "m < LENGTH(64)"
  moreover have "(m + (64 - n)) mod 64 = (if n \<le> m then m - n else 64 + m - n)"
    if "m < 64" using that assms by (auto simp: mod_if)
  ultimately show "bit (rotate_left w n) m = bit (word_rotl n w) m"
    using assms by (auto simp: rotate_left_def bit_simps bit_word_rotl_iff not_le
        dest: bit_imp_le_length)
qed

lemma word_rotl_0: "word_rotl 0 (w :: u64) = w"
  by (rule bit_word_eqI) (simp add: bit_word_rotl_iff)

lemma length_25_cases:
  assumes "length xs = 25"
  obtains v1 w1 x1 y1 z1
    v2 w2 x2 y2 z2
    v3 w3 x3 y3 z3
    v4 w4 x4 y4 z4
    v5 w5 x5 y5 z5
  where "xs =
    [v1, w1, x1, y1, z1,
     v2, w2, x2, y2, z2,
     v3, w3, x3, y3, z3,
     v4, w4, x4, y4, z4,
     v5, w5, x5, y5, z5]"
proof -
  have "xs = map (\<lambda>i. xs ! i) [0..<25]" using assms by (metis map_nth)
  then show thesis using that by (simp add: upt_rec)
qed

lemma lfsr_bits_168:
  "lfsr_bits 168 1 =
    [True, False, False, False, False, False, False, False, True, False, True, True, False,
     False, False, True, True, True, True, False, True, False, False, False, False, True,
     True, True, True, True, True, True, True, False, False, True, False, False, False, False,
     True, False, True, False, False, True, True, True, True, True, False, True, False, True,
     False, True, False, True, True, True, False, False, False, False, False, True, True,
     False, False, False, True, False, True, False, True, True, False, False, True, True,
     False, False, True, False, True, True, True, True, True, True, False, True, True, True,
     True, False, False, True, True, False, True, True, True, False, True, True, True, False,
     False, True, False, True, False, True, False, False, True, False, True, False, False,
     False, True, False, False, True, False, True, True, False, True, False, False, False,
     True, True, False, False, True, True, True, False, False, True, True, True, True, False,
     False, False, True, True, False, True, True, False, False, False, False, True, False,
     False, False, True, False, True, True, True]"
  by code_simp

lemma upt_evals:
  "[0..<5] = [0, 1, 2, 3, 4]"
  "[0..<24] = [0, 1, 2, 3, 4] @ [5, 6, 7, 8, 9] @ [10, 11, 12, 13, 14] @ [15, 16, 17, 18, 19] @ [20, 21, 22, 23]"
  "[0..<25] = [0, 1, 2, 3, 4] @ [5, 6, 7, 8, 9] @ [10, 11, 12, 13, 14] @ [15, 16, 17, 18, 19] @ [20, 21, 22, 23, 24]"
  by (simp_all add: upt_rec)

lemma rho_walk_eval: "rho_walk 0 (1, 0) 24 =
    [((1, 0), 1), ((0, 2), 3), ((2, 1), 6), ((1, 2), 10), ((2, 3), 15), ((3, 3), 21), ((3, 0),
     28), ((0, 1), 36), ((1, 3), 45), ((3, 1), 55), ((1, 4), 2), ((4, 4), 14), ((4, 0), 27),
     ((0, 3), 41), ((3, 4), 56), ((4, 3), 8), ((3, 2), 25), ((2, 2), 43), ((2, 0), 62), ((0,
     4), 18), ((4, 2), 39), ((2, 4), 61), ((4, 1), 20), ((1, 1), 44)]"
  by code_simp

lemma round_constants_agree: "map spec_round_constant [0..<24] = kRoundConstants"
  unfolding spec_round_constant_def lfsr_bits_168 upt_evals kRoundConstants_def by simp

lemma theta_updates:
  assumes "length st = 25" and "D = [d0, d1, d2, d3, d4]"
  shows "foldl (\<lambda>st i. foldl (\<lambda>s j. s[j + i := s ! (j + i) XOR D ! i]) st [0, 5, 10, 15, 20]) st [0..<5] =
    map (\<lambda>i. st ! i XOR D ! (i mod 5)) [0..<25]"
  using assms(1)
  by (rule length_25_cases) (simp add: assms(2) upt_evals)

lemma rho_pi_agrees:
  assumes "length st = 25"
  shows "keccak_rho_pi st = lane_list (spec_pi (spec_rho (lane_array st)))"
  using assms
  by (rule length_25_cases)
    (simp add: keccak_rho_pi_def lane_list_def spec_pi_def spec_rho_def lane_array_def upt_evals
      rotate_left_word_rotl word_rotl_0 rho_offset_def rho_walk_eval [simplified] Let_def kLane_def
      kRotation_def)

lemma chi_agrees:
  assumes "length st = 25"
  shows "keccak_chi st = lane_list (spec_chi (lane_array st))"
  using assms
  by (rule length_25_cases)
    (simp add: keccak_chi_def lane_list_def spec_chi_def lane_array_def upt_evals)

lemma theta_agrees:
  assumes "length st = 25"
  shows "keccak_theta st = lane_list (spec_theta (lane_array st))"
proof -
  define C where "C = map (theta_column st) [0..<5]"
  define D where "D = map (\<lambda>i. C ! ((i + 4) mod 5) XOR rotate_left (C ! ((i + 1) mod 5)) 1) [0..<5]"
  have "keccak_theta st =
      foldl (\<lambda>st i. foldl (\<lambda>s j. s[j + i := s ! (j + i) XOR D ! i]) st [0, 5, 10, 15, 20]) st [0..<5]"
    unfolding keccak_theta_def Let_def C_def [symmetric]
    by (rule foldl_cong) (simp_all add: D_def)
  also have "\<dots> = map (\<lambda>i. st ! i XOR D ! (i mod 5)) [0..<25]"
    by (rule theta_updates [OF assms]) (simp add: D_def upt_evals)
  also have "\<dots> = lane_list (spec_theta (lane_array st))"
    unfolding lane_list_def
  proof (rule map_cong [OF refl])
    fix i :: nat
    have col: "C ! x = lane_array st (x, 0) XOR lane_array st (x, 1) XOR lane_array st (x, 2) XOR
        lane_array st (x, 3) XOR lane_array st (x, 4)" if "x < 5" for x
      using that by (simp add: C_def theta_column_def lane_array_def)
    have "st ! i = lane_array st (i mod 5, i div 5)"
      by (simp add: lane_array_def)
    then show "st ! i XOR D ! (i mod 5) = spec_theta (lane_array st) (i mod 5, i div 5)"
      by (simp add: D_def spec_theta_def col rotate_left_word_rotl)
  qed
  finally show ?thesis .
qed

lemma length_lane_list [simp]: "length (lane_list A) = 25"
  by (simp add: lane_list_def)

text \<open>Only the 25 lanes of an array matter to a step map.\<close>

lemma lane_array_lane_list: "x < 5 \<Longrightarrow> y < 5 \<Longrightarrow> lane_array (lane_list A) (x, y) = A (x, y)"
  by (simp add: lane_array_def lane_list_def)

lemma lane_list_cong: "(\<And>x y. x < 5 \<Longrightarrow> y < 5 \<Longrightarrow> A (x, y) = B (x, y)) \<Longrightarrow> lane_list A = lane_list B"
  by (simp add: lane_list_def less_mult_imp_div_less)

lemma spec_round_lanes:
  "lane_list (spec_chi (lane_array (lane_list (spec_pi (spec_rho (lane_array (lane_list A))))))) =
   lane_list (spec_chi (spec_pi (spec_rho A)))"
  by (rule lane_list_cong)
    (simp add: spec_chi_def spec_pi_def spec_rho_def lane_array_lane_list)

lemma keccak_round_agrees:
  assumes "length st = 25"
  shows "keccak_round st rc = lane_list (spec_round rc (lane_array st))"
proof -
  let ?B = "spec_chi (spec_pi (spec_rho (spec_theta (lane_array st))))"
  have "keccak_chi (keccak_rho_pi (keccak_theta st)) = lane_list ?B"
    using assms by (simp add: theta_agrees rho_pi_agrees chi_agrees spec_round_lanes)
  moreover have "(lane_list ?B)[0 := lane_list ?B ! 0 XOR rc] = lane_list (spec_iota rc ?B)"
    by (rule nth_equalityI) (auto simp: lane_list_def spec_iota_def nth_list_update)
  ultimately show ?thesis by (simp add: keccak_round_def spec_round_def Let_def)
qed

lemma spec_round_cong:
  assumes "\<And>x y. x < 5 \<Longrightarrow> y < 5 \<Longrightarrow> A (x, y) = B (x, y)" and "x < 5" and "y < 5"
  shows "spec_round rc A (x, y) = spec_round rc B (x, y)"
  using assms
  by (simp add: spec_round_def spec_iota_def spec_chi_def spec_pi_def spec_rho_def spec_theta_def)

lemma keccak_rounds_agree:
  assumes "length st = 25" and "\<And>x y. x < 5 \<Longrightarrow> y < 5 \<Longrightarrow> lane_array st (x, y) = A (x, y)"
  shows "foldl keccak_round st rcs = lane_list (foldl (\<lambda>A rc. spec_round rc A) A rcs)"
  using assms
proof (induction rcs arbitrary: st A)
  case Nil
  have "st = lane_list (lane_array st)"
    using Nil.prems(1) by (auto intro!: nth_equalityI simp: lane_list_def lane_array_def)
  also have "\<dots> = lane_list A" using Nil.prems(2) by (rule lane_list_cong)
  finally show ?case by simp
next
  case (Cons rc rcs)
  let ?st = "keccak_round st rc"
  have st: "?st = lane_list (spec_round rc (lane_array st))"
    by (rule keccak_round_agrees) fact
  moreover have "lane_array ?st (x, y) = spec_round rc A (x, y)" if "x < 5" "y < 5" for x y
    using Cons.prems(2) that by (simp add: st lane_array_lane_list cong: spec_round_cong)
  ultimately show ?case using Cons.IH [of ?st "spec_round rc A"] by simp
qed

lemma keccak_f1600_spec:
  assumes "length st = 25"
  shows "keccak_f1600 st = lane_list (spec_keccak_f (lane_array st))"
  using keccak_rounds_agree [OF assms refl, of "map spec_round_constant [0..<24]"]
  by (simp add: keccak_f1600_def spec_keccak_f_def round_constants_agree [symmetric] foldl_map)


section \<open>The sponge\<close>

text \<open>
  The hash as the specification gives it: the message with its multi-rate padding, cut into blocks
  of 136 bytes, each added to the first 17 lanes before the permutation; the digest is the first
  four lanes.
\<close>

definition spec_pad :: "bytes \<Rightarrow> bytes" where
  "spec_pad m =
     (let q = 136 - length m mod 136 in
      if q = 1 then m @ [0x81] else m @ [0x01] @ replicate (q - 2) 0 @ [0x80])"

fun spec_blocks :: "nat \<Rightarrow> bytes \<Rightarrow> bytes list" where
  "spec_blocks 0 m = []"
| "spec_blocks (Suc n) m = take 136 m # spec_blocks n (drop 136 m)"

definition spec_absorb :: "lanes \<Rightarrow> bytes \<Rightarrow> lanes" where
  "spec_absorb A b = spec_keccak_f (\<lambda>(x, y).
     if x + 5 * y < 17 then A (x, y) XOR of_nat (le_value (take 8 (drop (8 * (x + 5 * y)) b)))
     else A (x, y))"

definition spec_keccak256 :: "bytes \<Rightarrow> nat" where
  "spec_keccak256 m =
     (let p = spec_pad m;
          A = foldl spec_absorb (\<lambda>_. 0) (spec_blocks (length p div 136) p) in
      \<Sum>i<4. unat (A (i, 0)) * 2 ^ (64 * i))"

lemma load64_le_value: "8 \<le> length b \<Longrightarrow> load64_le b = of_nat (le_value (take 8 b))"
  unfolding load64_le_def by (rule foldl_or_bytes) auto

lemma length_store64_le [simp]: "length (store64_le w) = 8"
  by (simp add: store64_le_def)

lemma le_value_store64: "le_value (store64_le w) = unat w"
proof -
  have "unat w < 2 ^ LENGTH(64)" by (rule unsigned_less)
  then show ?thesis by (simp add: store64_le_def le_value_store)
qed

lemma foldl_update_prefix:
  "n \<le> length st \<Longrightarrow>
   foldl (\<lambda>st i. st[i := f i (st ! i)]) st [0..<n] =
   map (\<lambda>i. if i < n then f i (st ! i) else st ! i) [0..<length st]"
  by (induction n) (auto intro!: nth_equalityI simp: nth_list_update map_nth)

lemma spec_keccak_f_cong:
  assumes "\<And>x y. x < 5 \<Longrightarrow> y < 5 \<Longrightarrow> A (x, y) = B (x, y)"
  shows "lane_list (spec_keccak_f A) = lane_list (spec_keccak_f B)"
proof -
  have "lane_list (spec_keccak_f C) = keccak_f1600 (lane_list C)" for C
    using keccak_rounds_agree [of "lane_list C" C "map spec_round_constant [0..<24]"]
    by (simp add: lane_array_lane_list keccak_f1600_def spec_keccak_f_def
        round_constants_agree [symmetric] foldl_map)
  moreover have "lane_list A = lane_list B" using assms by (rule lane_list_cong)
  ultimately show ?thesis by simp
qed

lemma keccak_absorb_spec:
  assumes "length b = 136"
  shows "keccak_absorb (lane_list A) b = lane_list (spec_absorb A b)"
proof -
  let ?A = "\<lambda>(x, y). if x + 5 * y < 17
      then A (x, y) XOR of_nat (le_value (take 8 (drop (8 * (x + 5 * y)) b))) else A (x, y)"
  have "foldl (\<lambda>st i. st[i := st ! i XOR load64_le (drop (i * 8) b)]) (lane_list A) [0..<17] = lane_list ?A"
    using assms
    by (subst foldl_update_prefix)
      (auto intro!: nth_equalityI simp: lane_list_def load64_le_value mult.commute)
  then have "keccak_absorb (lane_list A) b = lane_list (spec_keccak_f (lane_array (lane_list ?A)))"
    by (simp add: keccak_absorb_def keccak_f1600_spec)
  also have "\<dots> = lane_list (spec_keccak_f ?A)"
    by (rule spec_keccak_f_cong) (rule lane_array_lane_list)
  finally show ?thesis by (simp add: spec_absorb_def)
qed

text \<open>The zero-filled tail with its two marks is the padding of a final partial block.\<close>

lemma keccak_pad_spec:
  assumes "length m < 136"
  shows "keccak_pad m = spec_pad m"
proof (cases "length m = 135")
  case True
  then show ?thesis by (simp add: keccak_pad_def spec_pad_def list_update_append nth_append)
next
  case False
  then have len: "length m \<le> 134" using assms by simp
  obtain k where "k = 134 - length m" by simp
  then have k: "136 - length m = Suc (Suc k)" "135 = length m + Suc k" using len by simp_all
  have zero: "(0 # replicate k (0 :: byte)) ! k = 0"
    by (metis lessI nth_replicate replicate_Suc)
  have "keccak_pad m = m @ [0x01] @ (replicate (Suc k) 0)[k := 0x80]"
    unfolding keccak_pad_def k by (simp add: list_update_append nth_append zero)
  also have "(replicate (Suc k) (0 :: byte))[k := 0x80] = replicate k 0 @ [0x80]"
    by (induction k) auto
  finally show ?thesis using k assms by (simp add: spec_pad_def)
qed

lemma spec_pad_block:
  assumes "136 \<le> length m"
  shows "spec_pad m = take 136 m @ spec_pad (drop 136 m)"
proof -
  have "length m mod 136 = length (drop 136 m) mod 136"
    using assms by (simp add: le_mod_geq)
  then have "spec_pad (take 136 m @ drop 136 m) = take 136 m @ spec_pad (drop 136 m)"
    unfolding spec_pad_def Let_def append_take_drop_id by simp
  then show ?thesis by simp
qed

lemma keccak_sponge:
  "(case keccak_blocks (lane_list A) m of (st, rest) \<Rightarrow> keccak_absorb st (keccak_pad rest)) =
   lane_list (foldl spec_absorb A (spec_blocks (length (spec_pad m) div 136) (spec_pad m)))"
proof (induction "length m" arbitrary: A m rule: less_induct)
  case less
  show ?case
  proof (cases "136 \<le> length m")
    case True
    let ?A = "spec_absorb A (take 136 m)"
    have "keccak_blocks (lane_list A) m = keccak_blocks (lane_list ?A) (drop 136 m)"
      using True by (subst keccak_blocks.simps) (simp add: keccak_absorb_spec)
    moreover have "spec_blocks (length (spec_pad m) div 136) (spec_pad m) =
        take 136 m # spec_blocks (length (spec_pad (drop 136 m)) div 136) (spec_pad (drop 136 m))"
      using True spec_pad_block [OF True] by (simp add: div_add_self1)
    ultimately show ?thesis using True less.hyps [of "drop 136 m" ?A] by simp
  next
    case False
    have "length (spec_pad m) = 136" using False by (auto simp: spec_pad_def Let_def)
    then show ?thesis using False
      by (subst keccak_blocks.simps) (simp add: keccak_pad_spec keccak_absorb_spec)
  qed
qed

lemma length_keccak256 [simp]: "length (keccak256 m) = 32"
  by (simp add: keccak256_def upt_rec Let_def split: prod.split)

text \<open>
  C24: the hash routine is Keccak-256. The in-place lane walk, the two tables and the round
  constants of the source compute the permutation of the specification, and the block loop with its
  zero-filled tail computes the sponge over the padded message, so that the 32 bytes of the digest
  are the first four lanes in little-endian order, for every message.
\<close>

theorem keccak256_is_the_sponge:
  "length (keccak256 m) = 32 \<and> le_value (keccak256 m) = spec_keccak256 m"
proof
  show "length (keccak256 m) = 32" by simp
  let ?A = "foldl spec_absorb (\<lambda>_. 0) (spec_blocks (length (spec_pad m) div 136) (spec_pad m))"
  have four: "{..<4} = {0, 1, 2, 3 :: nat}" by auto
  have zero: "replicate 25 0 = lane_list (\<lambda>_. 0)"
    by (rule nth_equalityI) (simp_all add: lane_list_def)
  have "keccak256 m = concat (map (\<lambda>i. store64_le (lane_list ?A ! i)) [0..<4])"
    using keccak_sponge [of "\<lambda>_. 0" m]
    unfolding keccak256_def zero by (cases "keccak_blocks (lane_list (\<lambda>_. 0)) m") simp
  also have "\<dots> = concat (map (\<lambda>i. store64_le (?A (i, 0))) [0, 1, 2, 3])"
    by (simp add: lane_list_def upt_rec numeral_2_eq_2)
  finally show "le_value (keccak256 m) = spec_keccak256 m"
    by (simp add: le_value_append le_value_store64 spec_keccak256_def Let_def four)
qed

end
