(* ===== verification/Monero_Block.thy ===== *)
theory Monero_Block
  imports Reader Keccak Hex_Codec
begin

text \<open>
  Block templates (src/monero/monero.cpp): the parser of a block blob and of its miner transaction,
  the transaction tree hash, the hashing blob and the block identifier, and the two edits the server
  makes to a template, the reserved bytes and the nonce. Offsets are positions in the blob, kept as
  natural numbers: all are at most its length.
\<close>

section \<open>Parsing\<close>

definition parse_vector_bytes :: "unit parser" where
  "parse_vector_bytes = p_then (reader_count 1) reader_skip"

definition parse_public_key_vector :: "unit parser" where
  "parse_public_key_vector = p_then (reader_count 32) (\<lambda>count. reader_skip (count * 32))"

definition parse_txout_to_script :: "unit parser" where
  "parse_txout_to_script = p_then parse_public_key_vector (\<lambda>_. parse_vector_bytes)"

text \<open>
  \<open>parse_input\<close> writes its three reference arguments; the caller initialises them to 0, false and 0,
  and only the generation variant changes the first two.
\<close>

record input_result =
  coinbase_height :: u64
  coinbase :: bool
  signature_count :: nat

definition parse_input :: "input_result \<Rightarrow> input_result parser" where
  "parse_input out =
     p_then reader_byte (\<lambda>tag.
     if tag = 0xff then
       p_then reader_varint (\<lambda>h.
         p_return (out\<lparr>coinbase_height := h, coinbase := True, signature_count := 0\<rparr>))
     else if tag = 0x00 then
       p_then (reader_skip 32) (\<lambda>_. p_then reader_varint (\<lambda>_. p_then parse_vector_bytes (\<lambda>_.
         p_return (out\<lparr>signature_count := 0\<rparr>))))
     else if tag = 0x01 then
       p_then (reader_skip 32) (\<lambda>_. p_then reader_varint (\<lambda>_. p_then parse_txout_to_script (\<lambda>_.
       p_then parse_vector_bytes (\<lambda>_. p_return (out\<lparr>signature_count := 0\<rparr>)))))
     else if tag = 0x02 then
       p_then reader_varint (\<lambda>_. p_then (reader_count 1) (\<lambda>offsets.
       p_then (p_times offsets reader_varint) (\<lambda>_. p_then (reader_skip 32) (\<lambda>_.
         p_return (out\<lparr>signature_count := offsets\<rparr>)))))
     else p_fail (MoneroParseError ''unsupported transaction input variant''))"

definition parse_output :: "unit parser" where
  "parse_output =
     p_then reader_varint (\<lambda>_. p_then reader_byte (\<lambda>tag.
     if tag = 0x00 then parse_txout_to_script
     else if tag = 0x01 then reader_skip 32
     else if tag = 0x02 then reader_skip 32
     else if tag = 0x03 then reader_skip 33
     else p_fail (MoneroParseError ''unsupported transaction output variant'')))"

record parsed_miner_transaction =
  begin_offset :: nat
  end_offset :: nat
  prefix_end_offset :: nat
  unprunable_end_offset :: nat
  extra_begin_offset :: nat
  extra_size :: nat
  version :: u64
  height :: u64
  input_count :: u64
  output_count :: u64
  is_coinbase :: bool

text \<open>The loop over the inputs: what each one gave, in order.\<close>

definition parse_inputs :: "u64 \<Rightarrow> input_result list parser" where
  "parse_inputs n =
     p_times (unat n) (parse_input \<lparr>coinbase_height = 0, coinbase = False, signature_count = 0\<rparr>)"

text \<open>The signatures of a version 1 transaction.\<close>

fun skip_signatures :: "nat list \<Rightarrow> unit parser" where
  "skip_signatures [] = p_return ()"
| "skip_signatures (count # counts) =
     p_then reader_remaining (\<lambda>remaining.
     p_then (p_check (count \<le> remaining div 64) ''truncated transaction signatures'') (\<lambda>_.
     p_then (reader_skip (count * 64)) (\<lambda>_. skip_signatures counts)))"

definition parse_transaction_tail :: "u64 \<Rightarrow> nat list \<Rightarrow> unit parser" where
  "parse_transaction_tail ver signature_counts =
     (if ver = 1 then skip_signatures signature_counts
      else p_then reader_byte (\<lambda>rct_type.
             p_check (rct_type = 0) ''unsupported miner transaction with non-null RingCT data''))"

text \<open>The head of the miner transaction, up to the size of its extra field.\<close>

definition parse_transaction_head :: "(u64 \<times> u64 \<times> input_result list \<times> u64 \<times> nat) parser" where
  "parse_transaction_head =
     p_then reader_varint (\<lambda>ver.
     p_then (p_check (\<not> (ver = 0 \<or> ver > 2)) ''unsupported miner transaction version'') (\<lambda>_.
     p_then reader_varint (\<lambda>unlock_time.
     p_then reader_varint (\<lambda>inputs.
     p_then reader_remaining (\<lambda>remaining.
     p_then (p_check (\<not> (inputs = 0 \<or> unat inputs > remaining)) ''invalid miner transaction input count'') (\<lambda>_.
     p_then (parse_inputs inputs) (\<lambda>ins.
     p_then (p_check (\<not> (\<not> coinbase (hd ins) \<or> inputs \<noteq> 1))
               ''miner transaction must have exactly one generation input'') (\<lambda>_.
     p_then reader_varint (\<lambda>outputs.
     p_then reader_remaining (\<lambda>remaining.
     p_then (p_check (\<not> unat outputs > remaining) ''invalid miner transaction output count'') (\<lambda>_.
     p_then (p_times (unat outputs) parse_output) (\<lambda>_.
     p_then (reader_count 1) (\<lambda>extra.
     p_return (ver, inputs, ins, outputs, extra))))))))))))))"

definition parse_miner_transaction :: "parsed_miner_transaction parser" where
  "parse_miner_transaction =
     p_then reader_position (\<lambda>begin.
     p_then parse_transaction_head (\<lambda>(ver, inputs, ins, outputs, extra).
     p_then reader_position (\<lambda>extra_begin.
     p_then (reader_skip extra) (\<lambda>_.
     p_then reader_position (\<lambda>prefix_end.
     p_then (parse_transaction_tail ver (map signature_count ins)) (\<lambda>_.
     p_then reader_position (\<lambda>end.
     p_return \<lparr>begin_offset = begin, end_offset = end, prefix_end_offset = prefix_end,
       unprunable_end_offset = end, extra_begin_offset = extra_begin, extra_size = extra,
       version = ver, height = coinbase_height (hd ins), input_count = inputs,
       output_count = outputs, is_coinbase = coinbase (hd ins)\<rparr>)))))))"

record parsed_block =
  blob :: bytes
  major_version :: u64
  minor_version :: u64
  timestamp :: u64
  previous_hash :: bytes
  nonce_offset :: nat
  miner_transaction :: parsed_miner_transaction
  transaction_hashes :: "bytes list"

text \<open>The header up to the nonce, and what follows the nonce.\<close>

definition parse_header :: "(u64 \<times> u64 \<times> u64 \<times> bytes) parser" where
  "parse_header =
     p_then reader_varint (\<lambda>major.
     p_then reader_varint (\<lambda>minor.
     p_then reader_varint (\<lambda>stamp.
     p_then (p_check (\<not> (major = 0 \<or> major > 255 \<or> minor > 255)) ''unsupported block version'') (\<lambda>_.
     p_then (reader_bytes 32) (\<lambda>previous. p_return (major, minor, stamp, previous))))))"

definition parse_hashes :: "bytes list parser" where
  "parse_hashes =
     p_then (reader_count 32) (\<lambda>tx_count.
     p_then (p_times tx_count (reader_bytes 32)) (\<lambda>hashes.
     p_then reader_eof (\<lambda>eof.
     p_then (p_check eof ''block has trailing bytes'') (\<lambda>_. p_return hashes))))"

definition parse_block_at :: "parsed_block parser" where
  "parse_block_at =
     p_then parse_header (\<lambda>(major, minor, stamp, previous).
     p_then reader_position (\<lambda>nonce.
     p_then (reader_skip 4) (\<lambda>_.
     p_then parse_miner_transaction (\<lambda>tx.
     p_then parse_hashes (\<lambda>hashes.
     p_return \<lparr>blob = [], major_version = major, minor_version = minor, timestamp = stamp,
       previous_hash = previous, nonce_offset = nonce, miner_transaction = tx,
       transaction_hashes = hashes\<rparr>)))))"

definition parse_block :: "bytes \<Rightarrow> parsed_block result" where
  "parse_block data = and_then (parse_block_at data 0) (\<lambda>(b, _). Inr (b\<lparr>blob := data\<rparr>))"

section \<open>Hashes\<close>

definition hash_pair :: "bytes \<Rightarrow> bytes \<Rightarrow> bytes" where
  "hash_pair left right = keccak256 (left @ right)"

text \<open>The two loops of \<open>tree_hash\<close> that size the array, and the ones that fill it.\<close>

function grow_count :: "nat \<Rightarrow> nat \<Rightarrow> nat" where
  "grow_count n count = (if 0 < count \<and> count < n then grow_count n (count * 2) else count)"
  by auto
termination by (relation "measure (\<lambda>(s, c). s - c)") auto

declare grow_count.simps [simp del]

fun pair_rest :: "bytes list \<Rightarrow> nat \<Rightarrow> nat \<Rightarrow> nat \<Rightarrow> bytes list \<Rightarrow> bytes list" where
  "pair_rest hashes source destination 0 intermediates = intermediates"
| "pair_rest hashes source destination (Suc n) intermediates =
     pair_rest hashes (source + 2) (destination + 1) n
       (intermediates[destination := hash_pair (hashes ! source) (hashes ! (source + 1))])"

function fold_tree :: "nat \<Rightarrow> bytes list \<Rightarrow> bytes list" where
  "fold_tree count intermediates =
     (if count > 2
      then let half = count div 2 in
           fold_tree half (foldl (\<lambda>im i. im[i := hash_pair (im ! (2 * i)) (im ! (2 * i + 1))])
             intermediates [0..<half])
      else intermediates)"
  by auto
termination by (relation "measure fst") auto

declare fold_tree.simps [simp del]

definition tree_hash :: "bytes list \<Rightarrow> bytes result" where
  "tree_hash hashes =
     (if hashes = [] then Inl (MoneroParseError ''transaction tree cannot be empty'')
      else if length hashes = 1 then Inr (hd hashes)
      else if length hashes = 2 then Inr (hash_pair (hashes ! 0) (hashes ! 1))
      else let count = grow_count (length hashes) 2 div 2;
               copied = 2 * count - length hashes;
               intermediates = take copied hashes @ replicate (count - copied) (replicate 32 0);
               filled = pair_rest hashes copied copied (count - copied) intermediates;
               folded = fold_tree count filled in
           Inr (hash_pair (folded ! 0) (folded ! 1)))"

definition miner_transaction_hash :: "parsed_block \<Rightarrow> bytes" where
  "miner_transaction_hash block =
     (let tx = miner_transaction block;
          sub = (\<lambda>from upto. take (upto - from) (drop from (blob block))) in
      if version tx = 1 then keccak256 (sub (begin_offset tx) (end_offset tx))
      else let prefix = keccak256 (sub (begin_offset tx) (prefix_end_offset tx));
               base = keccak256 (sub (prefix_end_offset tx) (unprunable_end_offset tx)) in
           keccak256 (prefix @ base @ replicate 32 0))"

definition transaction_tree_hash :: "parsed_block \<Rightarrow> bytes result" where
  "transaction_tree_hash block = tree_hash (miner_transaction_hash block # transaction_hashes block)"

definition block_hashing_blob :: "parsed_block \<Rightarrow> bytes result" where
  "block_hashing_blob block =
     (let header_end = nonce_offset block + 4 in
      if header_end > length (blob block) then Inl (MoneroParseError ''invalid block header range'')
      else and_then (transaction_tree_hash block) (\<lambda>root.
        Inr (take header_end (blob block) @ root @
          encode_varint (of_nat (length (transaction_hashes block) + 1)))))"

definition block_hash :: "parsed_block \<Rightarrow> bytes result" where
  "block_hash block =
     and_then (block_hashing_blob block) (\<lambda>hashing.
     let result = keccak256 hashing in
     if height (miner_transaction block) \<noteq> 202612 then Inr result
     else
       and_then (hex_decode_exact ''3a8a2b3a29b50fc86ff73dd087ea43c6f0d6b8f936c849194d5c84c737903966'' 32)
         (\<lambda>correct_blob_hash.
       and_then (hex_decode_exact ''bbd604d2ba11ba27935e006ed39c9bfdd99b76bf4a50654bc1e1e61217962698'' 32)
         (\<lambda>existing_block_id.
       if keccak256 (blob block) = correct_blob_hash then Inr existing_block_id
       else if result = existing_block_id
       then Inl (MoneroParseError ''nonhistorical block collides with the height-202612 exception ID'')
       else Inr result)))"

section \<open>The reserved bytes and the nonce\<close>

text \<open>
  The walk over the fields of the extra data. \<open>extra_round\<close> is the body of the loop: whether the
  field is the one looked for, and the position after it, or \<open>None\<close> where the source returns false
  or throws, which its handler turns into false. \<open>walk_extra\<close> is the loop; its fuel is the number of
  bytes, enough since every round reads at least a tag.
\<close>

primrec padding_ok :: "nat \<Rightarrow> nat \<Rightarrow> bytes \<Rightarrow> nat \<Rightarrow> bool" where
  "padding_ok 0 padding_size d pos = True"
| "padding_ok (Suc n) padding_size d pos =
     (d ! pos = 0 \<and> padding_size + 1 \<le> 255 \<and> padding_ok n (padding_size + 1) d (pos + 1))"

definition extra_round :: "nat \<Rightarrow> nat \<Rightarrow> nat \<Rightarrow> bytes \<Rightarrow> nat \<Rightarrow> (bool \<times> nat) option" where
  "extra_round base reserved_offset reserve_size d pos =
     (case reader_varint d pos of Inl _ \<Rightarrow> None
      | Inr (tag, pos) \<Rightarrow>
        if tag = 0x00 then
          (if padding_ok (length d - pos) 1 d pos then Some (False, length d) else None)
        else if tag = 0x01 then
          (case reader_skip 32 d pos of Inl _ \<Rightarrow> None | Inr (_, pos) \<Rightarrow> Some (False, pos))
        else if tag = 0x02 then
          (case reader_varint d pos of Inl _ \<Rightarrow> None
           | Inr (sz, pos) \<Rightarrow>
             if unat sz > length d - pos then None
             else Some (unat sz = reserve_size \<and> base + pos = reserved_offset, pos + unat sz))
        else if tag = 0x03 \<or> tag = 0xde then
          (case reader_varint d pos of Inl _ \<Rightarrow> None
           | Inr (sz, pos) \<Rightarrow> if unat sz > length d - pos then None else Some (False, pos + unat sz))
        else if tag = 0x04 then
          (case reader_varint d pos of Inl _ \<Rightarrow> None
           | Inr (count, pos) \<Rightarrow>
             if unat count > (length d - pos) div 32 then None else Some (False, pos + unat count * 32))
        else None)"

primrec walk_extra :: "nat \<Rightarrow> nat \<Rightarrow> nat \<Rightarrow> nat \<Rightarrow> bool \<Rightarrow> bytes \<Rightarrow> nat \<Rightarrow> bool option" where
  "walk_extra 0 base reserved_offset reserve_size found d pos = (if pos = length d then Some found else None)"
| "walk_extra (Suc fuel) base reserved_offset reserve_size found d pos =
     (if pos = length d then Some found
      else case extra_round base reserved_offset reserve_size d pos of None \<Rightarrow> None
      | Some (hit, pos) \<Rightarrow>
        walk_extra fuel base reserved_offset reserve_size (found \<or> hit) d pos)"

definition reserved_offset_is_exact_extra_nonce :: "parsed_block \<Rightarrow> nat \<Rightarrow> nat \<Rightarrow> bool" where
  "reserved_offset_is_exact_extra_nonce block reserved_offset reserve_size =
     (let tx = miner_transaction block; total = length (blob block) in
      if reserve_size \<noteq> 16 then False
      else if extra_begin_offset tx > total \<or> extra_size tx > total - extra_begin_offset tx \<or>
              reserved_offset > total \<or> reserve_size > total - reserved_offset then False
      else let extra = take (extra_size tx) (drop (extra_begin_offset tx) (blob block)) in
           walk_extra (length extra) (extra_begin_offset tx) reserved_offset reserve_size False extra 0 = Some True)"

text \<open>\<open>std::copy\<close> over a range of the blob.\<close>

definition patch :: "bytes \<Rightarrow> nat \<Rightarrow> bytes \<Rightarrow> bytes" where
  "patch data offset replacement =
     take offset data @ replacement @ drop (offset + length replacement) data"

definition mutate_reserved_bytes :: "parsed_block \<Rightarrow> nat \<Rightarrow> bytes \<Rightarrow> parsed_block result" where
  "mutate_reserved_bytes block reserved_offset replacement =
     (if length replacement \<noteq> 16 \<or>
         \<not> reserved_offset_is_exact_extra_nonce block reserved_offset (length replacement)
      then Inl (MoneroParseError ''reserved mutation is not the exact 16-byte extra nonce'')
      else parse_block (patch (blob block) reserved_offset replacement))"

definition insert_nonce :: "parsed_block \<Rightarrow> bytes \<Rightarrow> parsed_block result" where
  "insert_nonce block nonce =
     (if nonce_offset block + length nonce > length (blob block)
      then Inl (MoneroParseError ''nonce offset is outside block'')
      else parse_block (patch (blob block) (nonce_offset block) nonce))"

section \<open>The parsers keep the contract\<close>

lemma local_case_prod [parser_local]:
  "(\<And>a b. local_parser (f a b)) \<Longrightarrow> local_parser (case x of (a, b) \<Rightarrow> f a b)"
  by (cases x) simp

interpretation vector_bytes: local_parser parse_vector_bytes
  unfolding parse_vector_bytes_def by (intro parser_local)

interpretation txout_to_script: local_parser parse_txout_to_script
  unfolding parse_txout_to_script_def parse_public_key_vector_def
  by (intro parser_local vector_bytes.local_parser_axioms)

interpretation one_input: local_parser "parse_input out" for out
  unfolding parse_input_def
  by (intro parser_local vector_bytes.local_parser_axioms txout_to_script.local_parser_axioms)

interpretation one_output: local_parser parse_output
  unfolding parse_output_def by (intro parser_local txout_to_script.local_parser_axioms)

interpretation transaction_head: local_parser parse_transaction_head
  unfolding parse_transaction_head_def parse_inputs_def
  by (intro parser_local one_input.local_parser_axioms one_output.local_parser_axioms)

lemma local_skip_signatures: "local_parser (skip_signatures counts)"
  by (induction counts) (auto intro!: parser_local)

interpretation transaction_tail: local_parser "parse_transaction_tail ver counts" for ver counts
  unfolding parse_transaction_tail_def by (intro parser_local local_skip_signatures)

interpretation miner_tx: local_parser parse_miner_transaction
  unfolding parse_miner_transaction_def
  by (intro parser_local transaction_head.local_parser_axioms transaction_tail.local_parser_axioms)

interpretation header: local_parser parse_header
  unfolding parse_header_def by (intro parser_local)

interpretation hashes: local_parser parse_hashes
  unfolding parse_hashes_def by (intro parser_local)

section \<open>The layout of a block\<close>

lemma parse_miner_transaction_layout:
  "parse_miner_transaction d p = Inr (tx, e) \<longleftrightarrow>
   (\<exists>ver inputs ins outputs extra x.
      parse_transaction_head d p = Inr ((ver, inputs, ins, outputs, extra), x) \<and> extra \<le> length d - x \<and>
      parse_transaction_tail ver (map signature_count ins) d (x + extra) = Inr ((), e) \<and>
      tx = \<lparr>begin_offset = p, end_offset = e, prefix_end_offset = x + extra,
        unprunable_end_offset = e, extra_begin_offset = x, extra_size = extra, version = ver,
        height = coinbase_height (hd ins), input_count = inputs, output_count = outputs,
        is_coinbase = coinbase (hd ins)\<rparr>)"
  unfolding parse_miner_transaction_def by (fastforce simp: parser_simps split: prod.splits)

lemma parse_block_layout:
  "parse_block d = Inr b \<longleftrightarrow>
   (\<exists>major minor stamp previous n tx m hs.
      parse_header d 0 = Inr ((major, minor, stamp, previous), n) \<and> 4 \<le> length d - n \<and>
      parse_miner_transaction d (n + 4) = Inr (tx, m) \<and> parse_hashes d m = Inr (hs, length d) \<and>
      b = \<lparr>blob = d, major_version = major, minor_version = minor, timestamp = stamp,
        previous_hash = previous, nonce_offset = n, miner_transaction = tx, transaction_hashes = hs\<rparr>)"
  unfolding parse_block_def parse_block_at_def
  by (fastforce simp: and_then_eq_Inr parser_simps parse_hashes_def split: prod.splits)

lemma nth_patch:
  "offset + length r \<le> length d \<Longrightarrow> i < length d \<Longrightarrow>
   patch d offset r ! i = (if offset \<le> i \<and> i < offset + length r then r ! (i - offset) else d ! i)"
  by (auto simp: patch_def nth_append)

lemma length_patch [simp]: "offset + length r \<le> length d \<Longrightarrow> length (patch d offset r) = length d"
  by (simp add: patch_def)

lemma agree_patch:
  assumes "offset + length r \<le> length d" and "b \<le> length d" and "b \<le> offset \<or> offset + length r \<le> a"
  shows "agree a b d (patch d offset r)"
  using assms by (auto simp: agree_def nth_patch)

text \<open>A block keeps its layout under an edit of bytes that its parser skips.\<close>

lemma patch_nonce:
  assumes "parse_block d = Inr b" and "length nonce = 4"
  shows "parse_block (patch d (nonce_offset b) nonce) = Inr (b\<lparr>blob := patch d (nonce_offset b) nonce\<rparr>)"
proof -
  obtain major minor stamp previous n tx m hs where
    h: "parse_header d 0 = Inr ((major, minor, stamp, previous), n)" and n: "4 \<le> length d - n"
    and t: "parse_miner_transaction d (n + 4) = Inr (tx, m)"
    and hs: "parse_hashes d m = Inr (hs, length d)"
    and b: "b = \<lparr>blob = d, major_version = major, minor_version = minor, timestamp = stamp,
      previous_hash = previous, nonce_offset = n, miner_transaction = tx, transaction_hashes = hs\<rparr>"
    using assms(1) unfolding parse_block_layout by blast
  let ?d = "patch d n nonce"
  have len: "n + length nonce \<le> length d" using n assms(2) header.advance [OF h] by simp
  have m: "n + 4 \<le> m \<and> m \<le> length d" using miner_tx.advance [OF t] len assms(2) by simp
  have "parse_header ?d 0 = Inr ((major, minor, stamp, previous), n)"
    by (rule header.local [OF h]) (use len in \<open>auto intro: agree_patch\<close>)
  moreover have "parse_miner_transaction ?d (n + 4) = Inr (tx, m)"
    by (rule miner_tx.local [OF t]) (use len m assms(2) in \<open>auto intro!: agree_patch\<close>)
  moreover have "parse_hashes ?d m = Inr (hs, length ?d)"
    using hashes.local [OF hs, of ?d] len m assms(2) by (simp add: agree_patch)
  ultimately show ?thesis using n len unfolding parse_block_layout b by auto
qed

lemma patch_extra:
  assumes "parse_block d = Inr b" and "extra_begin_offset (miner_transaction b) \<le> offset"
    and "offset + length r \<le> extra_begin_offset (miner_transaction b) + extra_size (miner_transaction b)"
  shows "parse_block (patch d offset r) = Inr (b\<lparr>blob := patch d offset r\<rparr>)"
proof -
  obtain major minor stamp previous n tx m hs where
    h: "parse_header d 0 = Inr ((major, minor, stamp, previous), n)" and n: "4 \<le> length d - n"
    and t: "parse_miner_transaction d (n + 4) = Inr (tx, m)"
    and hs: "parse_hashes d m = Inr (hs, length d)"
    and b: "b = \<lparr>blob = d, major_version = major, minor_version = minor, timestamp = stamp,
      previous_hash = previous, nonce_offset = n, miner_transaction = tx, transaction_hashes = hs\<rparr>"
    using assms(1) unfolding parse_block_layout by blast
  obtain ver inputs ins outputs extra x where
    hd: "parse_transaction_head d (n + 4) = Inr ((ver, inputs, ins, outputs, extra), x)"
    and ex: "extra \<le> length d - x"
    and tl: "parse_transaction_tail ver (map signature_count ins) d (x + extra) = Inr ((), m)"
    and tx: "extra_begin_offset tx = x" "extra_size tx = extra"
    and txd: "tx = \<lparr>begin_offset = n + 4, end_offset = m, prefix_end_offset = x + extra,
        unprunable_end_offset = m, extra_begin_offset = x, extra_size = extra, version = ver,
        height = coinbase_height (hd ins), input_count = inputs, output_count = outputs,
        is_coinbase = coinbase (hd ins)\<rparr>"
    using t unfolding parse_miner_transaction_layout by auto
  let ?d = "patch d offset r"
  have n4: "n + 4 \<le> length d" using n header.advance [OF h] by simp
  have x: "n + 4 \<le> x \<and> x \<le> length d" using transaction_head.advance [OF hd] n4 by simp
  have m: "x + extra \<le> m \<and> m \<le> length d" using transaction_tail.advance [OF tl] ex x by auto
  have off: "x \<le> offset" "offset + length r \<le> x + extra" using assms(2,3) b tx by simp_all
  have "parse_header ?d 0 = Inr ((major, minor, stamp, previous), n)"
    by (rule header.local [OF h]) (use x m off in \<open>auto intro!: agree_patch\<close>)
  moreover have "parse_transaction_head ?d (n + 4) = Inr ((ver, inputs, ins, outputs, extra), x)"
    by (rule transaction_head.local [OF hd]) (use x m off in \<open>auto intro!: agree_patch\<close>)
  moreover have "parse_transaction_tail ver (map signature_count ins) ?d (x + extra) = Inr ((), m)"
    by (rule transaction_tail.local [OF tl]) (use x m off in \<open>auto intro!: agree_patch\<close>)
  moreover have "parse_hashes ?d m = Inr (hs, length ?d)"
    using hashes.local [OF hs, of ?d] x m off by (simp add: agree_patch)
  moreover have "length ?d = length d" using x m off by simp
  ultimately show ?thesis using n ex
    unfolding parse_block_layout parse_miner_transaction_layout b txd by auto
qed

text \<open>
  A round moves forward, a hit is a field of the right size that ends the round, and the round
  does not look at the payload of a hit.
\<close>

lemma padding_ok_agree:
  "padding_ok n s d pos \<Longrightarrow> agree pos (pos + n) d d' \<Longrightarrow> padding_ok n s d' pos"
proof (induction n arbitrary: s pos)
  case (Suc n)
  have "agree (pos + 1) (pos + 1 + n) d d'" using Suc.prems(2) by (rule agree_mono) auto
  then show ?case using Suc by (auto simp: agree_def)
qed simp

lemma extra_round_advance:
  assumes "extra_round base ro n d pos = Some (hit, pos')" and "pos < length d"
  shows "pos < pos' \<and> pos' \<le> length d \<and> (hit \<longrightarrow> (\<exists>q. ro = base + q \<and> pos < q \<and> q + n = pos'))"
proof -
  obtain tag p1 where t: "reader_varint d pos = Inr (tag, p1)"
    using assms(1) by (auto simp: extra_round_def split: sum.splits)
  have p1: "pos < p1" "p1 \<le> length d"
    using variable_int.advance [OF t] reader_varint_advances [OF t] assms(2) by simp_all
  have p2: "p1 < p2 \<and> p2 \<le> length d" if "reader_varint d p1 = Inr (v, p2)" for v p2
    using variable_int.advance [OF that] reader_varint_advances [OF that] p1 by simp
  show ?thesis
    using assms(1) p1 unfolding extra_round_def t
    by (auto simp: parser_simps split: if_splits sum.splits dest!: p2)
qed

lemma extra_round_agree:
  assumes r: "extra_round base ro n d pos = Some (hit, pos')" and pos: "pos < length d"
    and ag: "agree pos (if hit then pos' - n else pos') d d'"
  shows "extra_round base ro n d' pos = Some (hit, pos')"
proof -
  obtain tag p1 where t: "reader_varint d pos = Inr (tag, p1)"
    using r by (auto simp: extra_round_def split: sum.splits)
  have p1: "pos < p1" "p1 \<le> length d"
    using variable_int.advance [OF t] reader_varint_advances [OF t] pos by simp_all
  have len: "length d' = length d" using ag by (simp add: agree_def)
  have p2: "p1 < p2 \<and> p2 \<le> length d" if "reader_varint d p1 = Inr (v, p2)" for v p2
    using variable_int.advance [OF that] reader_varint_advances [OF that] p1 by simp
  have "p1 \<le> (if hit then pos' - n else pos')"
    using r p1 unfolding extra_round_def t
    by (auto simp: parser_simps split: if_splits sum.splits dest!: p2)
  then have t': "reader_varint d' pos = Inr (tag, p1)"
    by (intro variable_int.local [OF t]) (use pos ag in \<open>auto intro: agree_mono\<close>)
  have second: "reader_varint d' p1 = Inr (v, p2)"
    if "reader_varint d p1 = Inr (v, p2)" "p2 \<le> (if hit then pos' - n else pos')" for v p2
    by (intro variable_int.local [OF that(1)]) (use p1 that(2) ag in \<open>auto intro!: agree_mono [OF ag]\<close>)
  show ?thesis
  proof (cases "tag = 0 \<or> tag = 1")
    case True
    have "padding_ok (length d - p1) 1 d' p1" if "padding_ok (length d - p1) 1 d p1" "pos' = length d" "\<not> hit"
      by (rule padding_ok_agree [OF that(1)]) (use ag that p1 in \<open>auto intro: agree_mono\<close>)
    then show ?thesis using True r len unfolding extra_round_def t t'
      by (auto simp: reader_skip_def reader_bytes_def reader_require_def p_then_def reader_remaining_def
          p_check_def p_return_def p_fail_def split: if_splits sum.splits)
  next
    case False
    then obtain v p2 where v: "reader_varint d p1 = Inr (v, p2)"
      using r unfolding extra_round_def t by (auto split: if_splits sum.splits)
    have "p2 \<le> (if hit then pos' - n else pos')"
      using r False v unfolding extra_round_def t by (auto split: if_splits)
    from second [OF v this] show ?thesis
      using r False v len unfolding extra_round_def t t' by (auto split: if_splits)
  qed
qed

lemma walk_extra_found:
  "walk_extra fuel base ro n False d pos = Some True \<Longrightarrow> pos \<le> length d \<Longrightarrow>
   \<exists>q. ro = base + q \<and> pos < q \<and> q + n \<le> length d"
proof (induction fuel arbitrary: pos)
  case 0
  then show ?case by (simp split: if_splits)
next
  case (Suc fuel)
  then have pos: "pos < length d" by (auto split: if_splits)
  with Suc.prems obtain hit p where r: "extra_round base ro n d pos = Some (hit, p)"
    by (auto split: option.splits)
  have adv: "pos < p \<and> p \<le> length d \<and> (hit \<longrightarrow> (\<exists>q. ro = base + q \<and> pos < q \<and> q + n = p))"
    by (rule extra_round_advance [OF r pos])
  show ?case
  proof (cases hit)
    case True
    then show ?thesis using adv by auto
  next
    case False
    then have "walk_extra fuel base ro n False d p = Some True" using Suc.prems r pos by simp
    then show ?thesis using Suc.IH [of p] adv by auto
  qed
qed

lemma walk_extra_agree:
  "walk_extra fuel base ro n found d pos = Some res \<Longrightarrow> pos \<le> length d \<Longrightarrow> agree pos (length d) d d' \<Longrightarrow>
   walk_extra fuel base ro n found d' pos = Some res"
proof (induction fuel arbitrary: pos found)
  case 0
  then show ?case by (simp add: agree_def split: if_splits)
next
  case (Suc fuel)
  have len: "length d' = length d" using Suc.prems(3) by (simp add: agree_def)
  show ?case
  proof (cases "pos = length d")
    case True
    then show ?thesis using Suc.prems(1) len by simp
  next
    case False
    then have pos: "pos < length d" using Suc.prems(2) by simp
    obtain hit p where r: "extra_round base ro n d pos = Some (hit, p)"
      using Suc.prems(1) False by (auto split: option.splits)
    have adv: "pos < p" "p \<le> length d" using extra_round_advance [OF r pos] by simp_all
    have "extra_round base ro n d' pos = Some (hit, p)"
      by (rule extra_round_agree [OF r pos]) (rule agree_mono [OF Suc.prems(3)], use adv in auto)
    moreover have "walk_extra fuel base ro n (found \<or> hit) d' p = Some res"
      using Suc.IH [OF _ adv(2) agree_mono [OF Suc.prems(3)]] Suc.prems(1) r False adv by simp
    ultimately show ?thesis using False len by simp
  qed
qed

lemma walk_extra_patch:
  assumes "ro = base + q" and "length rep = n"
  shows "walk_extra fuel base ro n False d pos = Some True \<Longrightarrow> pos \<le> length d \<Longrightarrow>
    walk_extra fuel base ro n False (patch d q rep) pos = Some True"
proof (induction fuel arbitrary: pos)
  case 0
  then show ?case by (simp split: if_splits)
next
  case (Suc fuel)
  have q: "pos < q" "q + n \<le> length d" using walk_extra_found [OF Suc.prems] assms(1) by auto
  then have pos: "pos < length d" by simp
  with Suc.prems obtain hit p where r: "extra_round base ro n d pos = Some (hit, p)"
    by (auto split: option.splits)
  have adv: "pos < p" "p \<le> length d" "hit \<Longrightarrow> q + n = p"
    using extra_round_advance [OF r pos] assms(1) by auto
  have rest: "walk_extra fuel base ro n hit d p = Some True" using Suc.prems(1) r pos by simp
  have "hit \<or> p < q" using walk_extra_found [of fuel base ro n d p] rest adv assms(1) by (cases hit) auto
  then have "extra_round base ro n (patch d q rep) pos = Some (hit, p)"
    using q adv assms(2) by (intro extra_round_agree [OF r pos] agree_patch) auto
  moreover have "walk_extra fuel base ro n hit (patch d q rep) p = Some True"
  proof (cases hit)
    case True
    show ?thesis by (rule walk_extra_agree [OF rest adv(2)]) (use q adv(3) [OF True] assms(2) in \<open>auto intro: agree_patch\<close>)
  next
    case False
    then show ?thesis using Suc.IH [of p] rest adv by simp
  qed
  ultimately show ?case using pos q assms(2) by simp
qed

lemma sub_patch:
  assumes "q + length r \<le> n" and "x + n \<le> length d"
  shows "take n (drop x (patch d (x + q) r)) = patch (take n (drop x d)) q r"
  using assms by (intro nth_equalityI) (auto simp: nth_patch)

lemma guard_inside:
  assumes "reserved_offset_is_exact_extra_nonce b ro n"
  shows "n = 16 \<and> (\<exists>q. ro = extra_begin_offset (miner_transaction b) + q \<and>
    q + 16 \<le> extra_size (miner_transaction b) \<and>
    extra_begin_offset (miner_transaction b) + extra_size (miner_transaction b) \<le> length (blob b))"
proof -
  let ?tx = "miner_transaction b"
  let ?e = "take (extra_size ?tx) (drop (extra_begin_offset ?tx) (blob b))"
  have n: "n = 16" and sz: "extra_begin_offset ?tx + extra_size ?tx \<le> length (blob b)"
    and w: "walk_extra (length ?e) (extra_begin_offset ?tx) ro n False ?e 0 = Some True"
    using assms by (auto simp: reserved_offset_is_exact_extra_nonce_def Let_def split: if_splits)
  from walk_extra_found [OF w] obtain q where "ro = extra_begin_offset ?tx + q" "q + n \<le> length ?e" by auto
  then show ?thesis using n sz by auto
qed

lemma guard_patch:
  assumes "reserved_offset_is_exact_extra_nonce b ro 16" and "length r = 16"
  shows "reserved_offset_is_exact_extra_nonce (b\<lparr>blob := patch (blob b) ro r\<rparr>) ro 16"
proof -
  let ?tx = "miner_transaction b"
  let ?x = "extra_begin_offset ?tx"
  let ?e = "take (extra_size ?tx) (drop ?x (blob b))"
  obtain q where q: "ro = ?x + q" "q + 16 \<le> extra_size ?tx" "?x + extra_size ?tx \<le> length (blob b)"
    using guard_inside [OF assms(1)] by auto
  have "take (extra_size ?tx) (drop ?x (patch (blob b) ro r)) = patch ?e q r"
    unfolding q(1) by (rule sub_patch) (use q assms(2) in auto)
  moreover have "walk_extra (length ?e) ?x ro 16 False ?e 0 = Some True"
    using assms(1) by (auto simp: reserved_offset_is_exact_extra_nonce_def Let_def split: if_splits)
  then have "walk_extra (length ?e) ?x ro 16 False (patch ?e q r) 0 = Some True"
    by (rule walk_extra_patch [OF q(1) assms(2)]) simp
  moreover have "ro + length r \<le> length (blob b)" "length (patch ?e q r) = length ?e"
    using q assms(2) by auto
  ultimately show ?thesis
    using q by (auto simp: reserved_offset_is_exact_extra_nonce_def Let_def)
qed

section \<open>Well-formedness of what is parsed\<close>

lemma parse_input_coinbase:
  "parse_input \<lparr>coinbase_height = 0, coinbase = False, signature_count = 0\<rparr> d pos = Inr (r, pos') \<Longrightarrow>
   coinbase r \<Longrightarrow> signature_count r = 0"
  by (auto simp: parse_input_def parser_simps split: if_splits)

lemma varint_then_advances:
  assumes "p_then reader_varint f d pos = Inr (y, pos')" and "\<And>v. local_parser (f v)" and "pos \<le> length d"
  shows "pos < pos'"
proof -
  obtain v p1 where v: "reader_varint d pos = Inr (v, p1)" and f: "f v d p1 = Inr (y, pos')"
    using assms(1) by (auto simp: parser_simps)
  have "pos < p1" using v by (rule reader_varint_advances)
  moreover have "p1 \<le> pos'"
    using local_parser.advance [OF assms(2) f] variable_int.advance [OF v assms(3)] by simp
  ultimately show ?thesis by simp
qed

lemma parse_transaction_head_shape:
  assumes "parse_transaction_head d p = Inr ((ver, inputs, ins, outputs, extra), x)" and "p \<le> length d"
  shows "(ver = 1 \<or> ver = 2) \<and> inputs = 1 \<and> p < x \<and> x + extra \<le> length d \<and>
    (\<exists>r. ins = [r] \<and> coinbase r \<and> signature_count r = 0)"
proof -
  have ver: "ver = 1 \<or> ver = 2" if "ver \<noteq> 0" "\<not> ver > 2"
  proof -
    have "unat ver \<noteq> 0" "unat ver \<le> 2" using that by (simp_all add: unat_eq_0 word_less_nat_alt)
    then have "unat ver = 1 \<or> unat ver = 2" by auto
    then show ?thesis by (auto simp: word_unat_eq_iff)
  qed
  have px: "p < x"
    by (rule varint_then_advances [OF assms(1) [unfolded parse_transaction_head_def] _ assms(2)])
      (unfold parse_inputs_def, intro parser_local one_input.local_parser_axioms one_output.local_parser_axioms)
  obtain q0 q where ins: "parse_inputs inputs d q0 = Inr (ins, q)" and one: "inputs = 1"
    and nz: "ver \<noteq> 0" "\<not> ver > 2" and cb: "coinbase (hd ins)"
    and ex: "extra \<le> length d - x"
    using assms(1) by (auto simp: parse_transaction_head_def reader_count_def parser_simps)
  obtain r where r: "ins = [r]" "signature_count r = 0"
    using ins cb by (auto simp: one parse_inputs_def parser_simps dest: parse_input_coinbase)
  show ?thesis
    using ver [OF nz] one px ex r cb transaction_head.advance [OF assms] by auto
qed

lemma p_times_bytes: "p_times m (reader_bytes n) d pos = Inr (xs, pos') \<Longrightarrow> pos \<le> length d \<Longrightarrow>
    \<forall>x \<in> set xs. length x = n"
  by (induction m arbitrary: pos xs) (auto simp: parser_simps)

lemma parse_hashes_shape:
  assumes "parse_hashes d p = Inr (hs, e)" and "p \<le> length d"
  shows "e = length d \<and> (\<forall>h \<in> set hs. length h = 32)"
proof -
  obtain c q where c: "reader_count 32 d p = Inr (c, q)" and t: "p_times c (reader_bytes 32) d q = Inr (hs, e)"
    and e: "e = length d"
    using assms(1) by (auto simp: parse_hashes_def parser_simps)
  then show ?thesis using p_times_bytes [OF t] counted.advance [OF c assms(2)] by simp
qed

lemma parse_header_shape:
  assumes "parse_header d p = Inr ((major, minor, stamp, previous), n)"
  shows "major \<noteq> 0 \<and> major \<le> 255 \<and> minor \<le> 255 \<and> length previous = 32"
  using assms by (auto simp: parse_header_def parser_simps)

lemma parse_transaction_tail_shape:
  assumes "parse_transaction_tail ver [0] d p = Inr (u, e)"
  shows "(if ver = 1 then e = p else e = p + 1 \<and> d ! p = 0)"
  using assms by (auto simp: parse_transaction_tail_def parser_simps)

lemma tree_hash_total: "hs \<noteq> [] \<Longrightarrow> \<exists>root. tree_hash hs = Inr root"
  by (simp add: tree_hash_def Let_def)

lemma miner_transaction_hash_patch:
  assumes "begin_offset (miner_transaction b) \<le> prefix_end_offset (miner_transaction b)"
    and "prefix_end_offset (miner_transaction b) \<le> end_offset (miner_transaction b)"
    and "end_offset (miner_transaction b) \<le> length (blob b)"
    and "unprunable_end_offset (miner_transaction b) = end_offset (miner_transaction b)"
    and "offset + length r \<le> begin_offset (miner_transaction b)"
  shows "miner_transaction_hash (b\<lparr>blob := patch (blob b) offset r\<rparr>) = miner_transaction_hash b"
proof -
  have "take (v - u) (drop u (patch (blob b) offset r)) = take (v - u) (drop u (blob b))"
    if "begin_offset (miner_transaction b) \<le> u" "u \<le> v" "v \<le> end_offset (miner_transaction b)" for u v
    by (rule agree_take_drop) (use that assms in \<open>auto intro!: agree_patch\<close>)
  then show ?thesis using assms by (simp add: miner_transaction_hash_def Let_def)
qed

text \<open>
  What a parsed block promises: the offsets are ordered and inside the blob (header, nonce, miner
  transaction, extra field, transaction end), the versions are in range, there is exactly one
  generation input, after the prefix come no signatures (version 1) or one zero byte (version 2),
  and every transaction hash has 32 bytes.
\<close>

definition well_formed_block :: "bytes \<Rightarrow> parsed_block \<Rightarrow> bool" where
  "well_formed_block d b \<longleftrightarrow>
    blob b = d \<and> major_version b \<noteq> 0 \<and> major_version b \<le> 255 \<and> minor_version b \<le> 255 \<and>
    length (previous_hash b) = 32 \<and> (\<forall>h \<in> set (transaction_hashes b). length h = 32) \<and>
    (let tx = miner_transaction b in
      nonce_offset b + 4 = begin_offset tx \<and> begin_offset tx < extra_begin_offset tx \<and>
      extra_begin_offset tx + extra_size tx = prefix_end_offset tx \<and>
      unprunable_end_offset tx = end_offset tx \<and> end_offset tx \<le> length d \<and>
      (version tx = 1 \<and> end_offset tx = prefix_end_offset tx \<or>
       version tx = 2 \<and> end_offset tx = prefix_end_offset tx + 1 \<and> d ! prefix_end_offset tx = 0) \<and>
      is_coinbase tx \<and> input_count tx = 1)"

lemma parsed_shape:
  assumes "parse_block d = Inr b"
  shows "well_formed_block d b"
proof -
  obtain major minor stamp previous n tx m hs where
    h: "parse_header d 0 = Inr ((major, minor, stamp, previous), n)" and n: "4 \<le> length d - n"
    and t: "parse_miner_transaction d (n + 4) = Inr (tx, m)"
    and hs: "parse_hashes d m = Inr (hs, length d)"
    and b: "b = \<lparr>blob = d, major_version = major, minor_version = minor, timestamp = stamp,
      previous_hash = previous, nonce_offset = n, miner_transaction = tx, transaction_hashes = hs\<rparr>"
    using assms unfolding parse_block_layout by blast
  have n4: "n + 4 \<le> length d" using n header.advance [OF h] by simp
  have m: "m \<le> length d" using miner_tx.advance [OF t n4] by simp
  obtain ver inputs ins outputs extra x where
    hd: "parse_transaction_head d (n + 4) = Inr ((ver, inputs, ins, outputs, extra), x)"
    and tl: "parse_transaction_tail ver (map signature_count ins) d (x + extra) = Inr ((), m)"
    and tx: "tx = \<lparr>begin_offset = n + 4, end_offset = m, prefix_end_offset = x + extra,
        unprunable_end_offset = m, extra_begin_offset = x, extra_size = extra, version = ver,
        height = coinbase_height (hd ins), input_count = inputs, output_count = outputs,
        is_coinbase = coinbase (hd ins)\<rparr>"
    using t unfolding parse_miner_transaction_layout by auto
  obtain r where r: "ver = 1 \<or> ver = 2" "inputs = 1" "n + 4 < x" "ins = [r]" "coinbase r" "signature_count r = 0"
    using parse_transaction_head_shape [OF hd n4] by auto
  have "if ver = 1 then m = x + extra else m = x + extra + 1 \<and> d ! (x + extra) = 0"
    using parse_transaction_tail_shape [of ver d "x + extra" "()" m] tl r by simp
  then show ?thesis
    using parse_header_shape [OF h] parse_hashes_shape [OF hs m] m r by (auto simp: well_formed_block_def b tx Let_def)
qed

section \<open>The transaction tree\<close>

text \<open>
  The reference: with \<open>n\<close> hashes and the largest power of two \<open>c\<close> below \<open>n\<close>, the first \<open>2c - n\<close> are
  kept, the others are hashed in pairs, and the \<open>c\<close> values are hashed in pairs until one is left.
\<close>

fun pair_up :: "bytes list \<Rightarrow> bytes list" where
  "pair_up (x # y # rest) = hash_pair x y # pair_up rest"
| "pair_up rest = rest"

lemma length_pair_up: "length (pair_up xs) = (length xs + 1) div 2"
  by (induction xs rule: pair_up.induct) auto

function merkle_root :: "bytes list \<Rightarrow> bytes" where
  "merkle_root xs = (if length xs \<le> 1 then hd xs else merkle_root (pair_up xs))"
  by auto
termination by (relation "measure length") (auto simp: length_pair_up)

declare merkle_root.simps [simp del]

lemma nth_pair_up:
  "even (length xs) \<Longrightarrow> i < length xs div 2 \<Longrightarrow> pair_up xs ! i = hash_pair (xs ! (2 * i)) (xs ! (2 * i + 1))"
proof (induction xs arbitrary: i rule: pair_up.induct)
  case (1 x y rest)
  then show ?case by (cases i) auto
qed auto

text \<open>The in-place pass reads positions it has not overwritten yet.\<close>

lemma fold_pass_nth:
  assumes "2 * n \<le> length im"
  shows "length (foldl (\<lambda>im i. im[i := hash_pair (im ! (2 * i)) (im ! (2 * i + 1))]) im [0..<n]) = length im \<and>
    (\<forall>j < length im. foldl (\<lambda>im i. im[i := hash_pair (im ! (2 * i)) (im ! (2 * i + 1))]) im [0..<n] ! j =
      (if j < n then hash_pair (im ! (2 * j)) (im ! (2 * j + 1)) else im ! j))"
  using assms
proof (induction n)
  case 0
  show ?case by simp
next
  case (Suc n)
  then have "length (foldl (\<lambda>im i. im[i := hash_pair (im ! (2 * i)) (im ! (2 * i + 1))]) im [0..<n]) = length im"
    "\<And>j. j < length im \<Longrightarrow> foldl (\<lambda>im i. im[i := hash_pair (im ! (2 * i)) (im ! (2 * i + 1))]) im [0..<n] ! j =
      (if j < n then hash_pair (im ! (2 * j)) (im ! (2 * j + 1)) else im ! j)"
    by simp_all
  then show ?case using Suc.prems by (auto simp: nth_list_update less_Suc_eq)
qed

lemma fold_pass_pair_up:
  assumes "2 * n \<le> length im"
  shows "take n (foldl (\<lambda>im i. im[i := hash_pair (im ! (2 * i)) (im ! (2 * i + 1))]) im [0..<n]) =
    pair_up (take (2 * n) im)"
  using fold_pass_nth [OF assms] assms
  by (intro nth_equalityI) (auto simp: length_pair_up nth_pair_up)

lemma fold_tree_root:
  "0 < k \<Longrightarrow> 2 ^ k \<le> length im \<Longrightarrow>
   hash_pair (fold_tree (2 ^ k) im ! 0) (fold_tree (2 ^ k) im ! 1) = merkle_root (take (2 ^ k) im)"
proof (induction k arbitrary: im)
  case 0
  then show ?case by simp
next
  case (Suc k)
  show ?case
  proof (cases "k = 0")
    case True
    then obtain x y zs where "im = x # y # zs"
      using Suc.prems(2) by (cases im; cases "tl im") auto
    then show ?thesis using True
      by (subst (1 2) fold_tree.simps) (simp add: merkle_root.simps [of "[_, _]"] merkle_root.simps [of "[_]"])
  next
    case False
    let ?im = "foldl (\<lambda>im i. im[i := hash_pair (im ! (2 * i)) (im ! (2 * i + 1))]) im [0..<2 ^ k]"
    have "(2 :: nat) ^ 1 < 2 ^ Suc k" by (rule power_strict_increasing) (use False in auto)
    then have "(2 :: nat) ^ Suc k > 2" by simp
    then have "fold_tree (2 ^ Suc k) im = fold_tree (2 ^ k) ?im"
      by (subst fold_tree.simps) (simp add: Let_def)
    moreover have "merkle_root (take (2 ^ Suc k) im) = merkle_root (take (2 ^ k) ?im)"
      using fold_pass_pair_up [of "2 ^ k" im] Suc.prems(2) \<open>2 ^ Suc k > 2\<close>
      by (subst merkle_root.simps) auto
    moreover have "2 ^ k \<le> length ?im" using fold_pass_nth [of "2 ^ k" im] Suc.prems(2) by simp
    ultimately show ?thesis using Suc.IH [of ?im] False by simp
  qed
qed

lemma grow_count_power:
  "2 ^ k < n \<Longrightarrow> n \<le> 2 ^ (k + m) \<Longrightarrow>
   \<exists>j. grow_count n (2 ^ k) = 2 ^ Suc j \<and> 2 ^ j < n \<and> n \<le> 2 ^ Suc j \<and> k \<le> j"
proof (induction m arbitrary: k)
  case 0
  then show ?case by simp
next
  case (Suc m)
  have step: "grow_count n (2 ^ k) = grow_count n (2 ^ Suc k)"
    using Suc.prems(1) by (subst grow_count.simps) (simp add: mult.commute)
  show ?case
  proof (cases "2 ^ Suc k < n")
    case True
    then obtain j where "grow_count n (2 ^ Suc k) = 2 ^ Suc j" "2 ^ j < n" "n \<le> 2 ^ Suc j" "Suc k \<le> j"
      using Suc.IH [of "Suc k"] Suc.prems(2) by auto
    then show ?thesis using step by (intro exI [of _ j]) simp
  next
    case False
    then have "grow_count n (2 ^ Suc k) = 2 ^ Suc k" by (subst grow_count.simps) simp
    then show ?thesis using step False Suc.prems(1) by (intro exI [of _ k]) simp
  qed
qed

lemma pair_rest_nth:
  "destination + n \<le> length im \<Longrightarrow> length (pair_rest hs source destination n im) = length im \<and>
   (\<forall>j < length im. pair_rest hs source destination n im ! j =
     (if destination \<le> j \<and> j < destination + n
      then hash_pair (hs ! (source + 2 * (j - destination))) (hs ! (source + 2 * (j - destination) + 1))
      else im ! j))"
proof (induction n arbitrary: source destination im)
  case 0
  show ?case by auto
next
  case (Suc n)
  let ?im = "im[destination := hash_pair (hs ! source) (hs ! (source + 1))]"
  have IH: "length (pair_rest hs (source + 2) (destination + 1) n ?im) = length im"
    "\<And>j. j < length im \<Longrightarrow> pair_rest hs (source + 2) (destination + 1) n ?im ! j =
     (if destination + 1 \<le> j \<and> j < destination + 1 + n
      then hash_pair (hs ! (source + 2 + 2 * (j - (destination + 1)))) (hs ! (source + 2 + 2 * (j - (destination + 1)) + 1))
      else ?im ! j)"
    using Suc.IH [of "destination + 1" ?im "source + 2"] Suc.prems by simp_all
  have "j - destination = Suc (j - Suc destination)" if "Suc destination \<le> j" for j
    using that by auto
  then show ?case using IH Suc.prems by (auto simp: nth_list_update)
qed

lemma filled_array:
  assumes "c < length hs" and "length hs \<le> 2 * c"
  shows "pair_rest hs (2 * c - length hs) (2 * c - length hs) (c - (2 * c - length hs))
      (take (2 * c - length hs) hs @ replicate (c - (2 * c - length hs)) z) =
    take (2 * c - length hs) hs @ pair_up (drop (2 * c - length hs) hs)"
proof -
  let ?k = "2 * c - length hs"
  let ?im = "take ?k hs @ replicate (c - ?k) z"
  have k: "?k < c" "?k \<le> length hs" using assms by auto
  have im: "length ?im = c" using k by simp
  have even: "even (length (drop ?k hs))" "length (drop ?k hs) div 2 = c - ?k" using assms by auto
  show ?thesis
  proof (rule nth_equalityI)
    show "length (pair_rest hs ?k ?k (c - ?k) ?im) = length (take ?k hs @ pair_up (drop ?k hs))"
      using pair_rest_nth [of ?k "c - ?k" ?im hs ?k] k im even by (simp add: length_pair_up)
    fix j assume "j < length (pair_rest hs ?k ?k (c - ?k) ?im)"
    then have j: "j < c" using pair_rest_nth [of ?k "c - ?k" ?im hs ?k] k im by simp
    then have "pair_rest hs ?k ?k (c - ?k) ?im ! j =
        (if ?k \<le> j then hash_pair (hs ! (?k + 2 * (j - ?k))) (hs ! (?k + 2 * (j - ?k) + 1)) else ?im ! j)"
      using pair_rest_nth [of ?k "c - ?k" ?im hs ?k] k im by simp
    moreover have "pair_up (drop ?k hs) ! (j - ?k) =
        hash_pair (hs ! (?k + 2 * (j - ?k))) (hs ! (?k + 2 * (j - ?k) + 1))" if "?k \<le> j"
      using nth_pair_up [OF even(1), of "j - ?k"] even(2) diff_less_mono [OF j that] k
      by (simp add: add.assoc)
    ultimately show "pair_rest hs ?k ?k (c - ?k) ?im ! j = (take ?k hs @ pair_up (drop ?k hs)) ! j"
      using j k by (auto simp: nth_append)
  qed
qed

lemma tree_hash_root:
  assumes "3 \<le> length hs"
  shows "\<exists>m. 2 ^ m < length hs \<and> length hs \<le> 2 ^ Suc m \<and>
    tree_hash hs = Inr (merkle_root (take (2 ^ Suc m - length hs) hs @ pair_up (drop (2 ^ Suc m - length hs) hs)))"
proof -
  have "length hs \<le> 2 ^ (1 + length hs)"
    using less_exp [of "1 + length hs"] by simp
  then obtain m where m: "grow_count (length hs) 2 = 2 ^ Suc m" "2 ^ m < length hs" "length hs \<le> 2 ^ Suc m" "1 \<le> m"
    using grow_count_power [of 1 "length hs" "length hs"] assms by auto
  let ?k = "2 ^ Suc m - length hs"
  let ?f = "take ?k hs @ pair_up (drop ?k hs)"
  have f: "pair_rest hs ?k ?k (2 ^ m - ?k) (take ?k hs @ replicate (2 ^ m - ?k) (replicate 32 0)) = ?f"
    using filled_array [of "2 ^ m" hs "replicate 32 0"] m by simp
  have len: "length ?f = 2 ^ m" using m by (auto simp: length_pair_up)
  then have tk: "take (2 ^ m) ?f = ?f" by (intro take_all) simp
  have "hash_pair (fold_tree (2 ^ m) ?f ! 0) (fold_tree (2 ^ m) ?f ! 1) = merkle_root ?f"
    using fold_tree_root [of m ?f] m(4) len unfolding tk by simp
  moreover have c: "grow_count (length hs) 2 div 2 = 2 ^ m" using m(1) by simp
  ultimately have "tree_hash hs = Inr (merkle_root ?f)"
    using assms f c unfolding tree_hash_def Let_def by auto
  with m show ?thesis by blast
qed

section \<open>Properties\<close>

text \<open>
  C26: the transaction tree hash is the Merkle root of Monero's tree. The empty list is refused, one
  hash is its own root, two are hashed together; for \<open>n \<ge> 3\<close> hashes and the power of two \<open>c = 2^m\<close>
  with \<open>c < n \<le> 2c\<close>, the array the routine fills and folds in place gives the root of the complete
  tree over the first \<open>2c - n\<close> hashes followed by the pairwise hashes of the others.
\<close>

theorem tree_hash_is_merkle_root:
  "(if hs = [] then tree_hash hs = Inl (MoneroParseError ''transaction tree cannot be empty'')
    else if length hs \<le> 2 then tree_hash hs = Inr (merkle_root hs)
    else \<exists>m. 2 ^ m < length hs \<and> length hs \<le> 2 ^ Suc m \<and>
      tree_hash hs = Inr (merkle_root (take (2 ^ Suc m - length hs) hs @ pair_up (drop (2 ^ Suc m - length hs) hs))))"
proof (cases "length hs \<le> 2")
  case True
  then consider "hs = []" | x where "hs = [x]" | x y where "hs = [x, y]"
    by (cases hs; cases "tl hs") auto
  then show ?thesis
    by cases (simp_all add: tree_hash_def merkle_root.simps [of "[_, _]"] merkle_root.simps [of "[_]"])
next
  case False
  then show ?thesis using tree_hash_root [of hs] by auto
qed

text \<open>
  What a parsed block is. Whenever parsing succeeds, the offsets it reports are ordered and
  inside the blob (header, nonce, miner transaction, extra field, transaction end), the block
  version is 1..255, the miner transaction has version 1 or 2 and exactly one generation input,
  after its prefix come no signatures (version 1) or one zero byte (version 2), and every
  transaction hash has 32 bytes.
\<close>

theorem parse_block_well_formed:
  assumes "parse_block d = Inr b"
  shows "well_formed_block d b"
  by (rule parsed_shape [OF assms])

text \<open>A block of 72 bytes: one generation input at height 10, an 18 byte extra field, no transactions.\<close>

definition sample_blob :: bytes where
  "sample_blob = [16, 16, 5] @ replicate 32 7 @ [0, 0, 0, 0] @ [2, 60, 1, 0xff, 10, 0, 18, 2, 16] @
     replicate 16 0 @ [0, 0]"

definition sample_block :: parsed_block where
  "sample_block = \<lparr>blob = sample_blob, major_version = 16, minor_version = 16, timestamp = 5,
     previous_hash = replicate 32 7, nonce_offset = 35,
     miner_transaction = \<lparr>begin_offset = 39, end_offset = 65, prefix_end_offset = 64,
       unprunable_end_offset = 65, extra_begin_offset = 46, extra_size = 18, version = 2,
       height = 10, input_count = 1, output_count = 0, is_coinbase = True\<rparr>,
     transaction_hashes = []\<rparr>"

lemma parse_sample: "parse_block sample_blob = Inr sample_block"
  by code_simp

lemma sample_guard: "reserved_offset_is_exact_extra_nonce sample_block 48 16"
  by code_simp

lemma insert_nonce_parsed:
  assumes "parse_block d = Inr b" and "length nonce = 4"
  shows "\<exists>b' hb. insert_nonce b nonce = Inr b' \<and>
    b' = b\<lparr>blob := patch d (nonce_offset b) nonce\<rparr> \<and>
    transaction_tree_hash b' = transaction_tree_hash b \<and>
    block_hashing_blob b = Inr hb \<and> block_hashing_blob b' = Inr (patch hb (nonce_offset b) nonce)"
proof -
  let ?b = "b\<lparr>blob := patch d (nonce_offset b) nonce\<rparr>"
  have wf: "well_formed_block d b" by (rule parsed_shape [OF assms(1)])
  then have d: "blob b = d" and n: "nonce_offset b + 4 \<le> length d"
    by (auto simp: well_formed_block_def Let_def)
  have tree: "transaction_tree_hash ?b = transaction_tree_hash b"
    using miner_transaction_hash_patch [of b "nonce_offset b" nonce] wf assms(2)
    by (auto simp: transaction_tree_hash_def well_formed_block_def Let_def)
  obtain root where root: "transaction_tree_hash b = Inr root"
    using tree_hash_total [of "miner_transaction_hash b # transaction_hashes b"]
    by (auto simp: transaction_tree_hash_def)
  have "insert_nonce b nonce = Inr ?b"
    using patch_nonce [OF assms] n assms(2) d by (simp add: insert_nonce_def)
  moreover have "take (nonce_offset b + 4) (patch d (nonce_offset b) nonce) @ rest =
      patch (take (nonce_offset b + 4) d @ rest) (nonce_offset b) nonce" for rest
    using n assms(2) by (simp add: patch_def)
  ultimately show ?thesis using tree root n d assms(2)
    by (auto simp: block_hashing_blob_def)
qed

text \<open>
  C18: inserting a nonce. For every parsed block and every 4 byte nonce the insertion succeeds; the
  result differs from the block in the blob alone, and there only in the four nonce bytes; the
  transaction tree hash is unchanged, and the hashing blob of the result is the hashing blob of the
  template with the nonce written at the nonce offset. So a submitted nonce selects the proof of
  work input a miner computed, and nothing else.
\<close>

theorem insert_nonce_patches_hashing_blob:
  assumes "parse_block d = Inr b" and "length nonce = 4"
  shows "\<exists>b' hb. insert_nonce b nonce = Inr b' \<and>
    b' = b\<lparr>blob := patch d (nonce_offset b) nonce\<rparr> \<and>
    transaction_tree_hash b' = transaction_tree_hash b \<and>
    block_hashing_blob b = Inr hb \<and> block_hashing_blob b' = Inr (patch hb (nonce_offset b) nonce)"
  using assms by (rule insert_nonce_parsed)

theorem insert_nonce_patches_hashing_blob_witness:
  "length [1 :: byte, 2, 3, 4] = 4 \<and> parse_block sample_blob = Inr sample_block \<and>
   insert_nonce sample_block [1, 2, 3, 4] = Inr (sample_block\<lparr>blob := patch sample_blob 35 [1, 2, 3, 4]\<rparr>)"
  using insert_nonce_patches_hashing_blob [OF parse_sample, of "[1, 2, 3, 4]"] parse_sample
  by (auto simp: sample_block_def)

lemma mutate_reserved_parsed:
  assumes "parse_block d = Inr b"
  shows "if length r = 16 \<and> reserved_offset_is_exact_extra_nonce b ro 16
    then \<exists>b'. mutate_reserved_bytes b ro r = Inr b' \<and> b' = b\<lparr>blob := patch d ro r\<rparr> \<and>
      take (nonce_offset b + 4) (blob b') = take (nonce_offset b + 4) d \<and>
      take 16 (drop ro (blob b')) = r \<and> length (blob b') = length d \<and>
      reserved_offset_is_exact_extra_nonce b' ro 16
    else mutate_reserved_bytes b ro r =
      Inl (MoneroParseError ''reserved mutation is not the exact 16-byte extra nonce'')"
proof (cases "length r = 16 \<and> reserved_offset_is_exact_extra_nonce b ro 16")
  case False
  then show ?thesis by (auto simp: mutate_reserved_bytes_def)
next
  case True
  then have len: "length r = 16" and g: "reserved_offset_is_exact_extra_nonce b ro 16" by simp_all
  let ?tx = "miner_transaction b"
  have wf: "well_formed_block d b" by (rule parsed_shape [OF assms])
  then have d: "blob b = d" and n: "nonce_offset b + 4 \<le> extra_begin_offset ?tx"
    by (auto simp: well_formed_block_def Let_def)
  obtain q where q: "ro = extra_begin_offset ?tx + q" "q + 16 \<le> extra_size ?tx"
    "extra_begin_offset ?tx + extra_size ?tx \<le> length d"
    using guard_inside [OF g] d by auto
  have "mutate_reserved_bytes b ro r = Inr (b\<lparr>blob := patch d ro r\<rparr>)"
    using patch_extra [OF assms, of ro r] True q d by (simp add: mutate_reserved_bytes_def)
  moreover have "take (nonce_offset b + 4) (patch d ro r) = take (nonce_offset b + 4) d"
    "take 16 (drop ro (patch d ro r)) = r" "length (patch d ro r) = length d"
    using q n len by (auto simp: patch_def)
  moreover have "reserved_offset_is_exact_extra_nonce (b\<lparr>blob := patch d ro r\<rparr>) ro 16"
    using guard_patch [OF g len] d by simp
  ultimately show ?thesis using True by simp
qed

text \<open>
  C20: writing the reserved bytes of a parsed block. The edit is refused unless it has 16 bytes and
  the offset is that of the payload of a 16 byte extra nonce field; otherwise it succeeds, the
  result is the same block with those 16 bytes replaced (every offset, version, height, hash and
  count is the same), the header before the miner transaction is untouched, and the offset is
  again that of an exact extra nonce.
\<close>

theorem mutate_reserved_bytes_is_local:
  assumes "parse_block d = Inr b"
  shows "if length r = 16 \<and> reserved_offset_is_exact_extra_nonce b ro 16
    then \<exists>b'. mutate_reserved_bytes b ro r = Inr b' \<and> b' = b\<lparr>blob := patch d ro r\<rparr> \<and>
      take (nonce_offset b + 4) (blob b') = take (nonce_offset b + 4) d \<and>
      take 16 (drop ro (blob b')) = r \<and> length (blob b') = length d \<and>
      reserved_offset_is_exact_extra_nonce b' ro 16
    else mutate_reserved_bytes b ro r =
      Inl (MoneroParseError ''reserved mutation is not the exact 16-byte extra nonce'')"
  using assms by (rule mutate_reserved_parsed)

theorem mutate_reserved_bytes_is_local_witness:
  "parse_block sample_blob = Inr sample_block \<and>
   mutate_reserved_bytes sample_block 48 (replicate 16 9) =
     Inr (sample_block\<lparr>blob := patch sample_blob 48 (replicate 16 9)\<rparr>)"
  using mutate_reserved_bytes_is_local [OF parse_sample, of "replicate 16 9" 48] parse_sample sample_guard
  by auto

end
