(* ===== verification/Address.thy ===== *)
theory Address
  imports Reader Keccak
begin

text \<open>
  Primary addresses (src/monero/monero.cpp, with the networks of src/crypto/util.cpp): the block
  Base58 decoder with its overflow guards, and the decoding of a wallet address. An encoder written
  from the Monero address format serves as the reference for the round trip.
\<close>

datatype network = Mainnet | Testnet | Stagenet | Regtest

definition network_name :: "network \<Rightarrow> string" where
  "network_name n = (case n of Mainnet \<Rightarrow> ''mainnet'' | Testnet \<Rightarrow> ''testnet''
     | Stagenet \<Rightarrow> ''stagenet'' | Regtest \<Rightarrow> ''regtest'')"

definition parse_network :: "string \<Rightarrow> network result" where
  "parse_network v =
     (if v = ''mainnet'' then Inr Mainnet else if v = ''testnet'' then Inr Testnet
      else if v = ''stagenet'' then Inr Stagenet else if v = ''regtest'' then Inr Regtest
      else Inl (ValidationError ''network must be mainnet, testnet, stagenet, or regtest''))"

definition kBase58Alphabet :: string where
  "kBase58Alphabet = ''123456789ABCDEFGHJKLMNPQRSTUVWXYZabcdefghijkmnopqrstuvwxyz''"

definition kEncodedToDecoded :: "nat list" where
  "kEncodedToDecoded = [0, 0, 1, 2, 3, 3, 4, 5, 5, 6, 7, 8]"

definition prefix_for :: "network \<Rightarrow> u64" where
  "prefix_for n = (case n of Mainnet \<Rightarrow> 18 | Regtest \<Rightarrow> 18 | Testnet \<Rightarrow> 53 | Stagenet \<Rightarrow> 24)"

text \<open>\<open>kBase58Alphabet.find\<close>\<close>

definition alphabet_find :: "char \<Rightarrow> nat option" where
  "alphabet_find ch =
     (if ch \<in> set kBase58Alphabet then Some (length (takeWhile (\<lambda>x. x \<noteq> ch) kBase58Alphabet)) else None)"

text \<open>The loop of \<open>decode_base58_block\<close>, over the characters from the last one.\<close>

fun decode_digits :: "string \<Rightarrow> u64 \<Rightarrow> u64 \<Rightarrow> u64 result" where
  "decode_digits [] acc order = Inr acc"
| "decode_digits (ch # rest) acc order =
     (case alphabet_find ch of
        None \<Rightarrow> Inl (ValidationError ''Monero address contains a non-Base58 character'')
      | Some digit \<Rightarrow>
        if digit \<noteq> 0 \<and> order > (- 1 - acc) div of_nat digit
        then Inl (ValidationError ''Monero address Base58 block overflows'')
        else let acc = acc + order * of_nat digit in
          if rest \<noteq> []
          then if order > - 1 div 58 then Inl (ValidationError ''Monero address Base58 block overflows'')
               else decode_digits rest acc (order * 58)
          else Inr acc)"

definition decode_base58_block :: "string \<Rightarrow> nat \<Rightarrow> u64 result" where
  "decode_base58_block encoded decoded_size =
     and_then (decode_digits (rev encoded) 0 1) (\<lambda>v.
     if decoded_size < 8 \<and> v \<ge> push_bit (decoded_size * 8) 1
     then Inl (ValidationError ''Monero address Base58 block is noncanonical'')
     else Inr v)"

text \<open>The low bytes of a block value, most significant first.\<close>

definition block_bytes :: "nat \<Rightarrow> u64 \<Rightarrow> bytes" where
  "block_bytes n v = rev (map (\<lambda>i. ucast (drop_bit (8 * i) v)) [0..<n])"

fun decode_full_blocks :: "nat \<Rightarrow> string \<Rightarrow> bytes result" where
  "decode_full_blocks 0 encoded = Inr []"
| "decode_full_blocks (Suc n) encoded =
     and_then (decode_base58_block (take 11 encoded) 8) (\<lambda>v.
     and_then (decode_full_blocks n (drop 11 encoded)) (\<lambda>rest. Inr (block_bytes 8 v @ rest)))"

definition base58_decode :: "string \<Rightarrow> bytes result" where
  "base58_decode encoded =
     (if encoded = [] then Inl (ValidationError ''Monero address is empty'')
      else let full_blocks = length encoded div 11; remainder = length encoded mod 11 in
        if remainder \<ge> length kEncodedToDecoded \<or> (remainder \<noteq> 0 \<and> kEncodedToDecoded ! remainder = 0)
        then Inl (ValidationError ''Monero address Base58 length is invalid'')
        else let last_decoded = kEncodedToDecoded ! remainder in
          and_then (decode_full_blocks full_blocks encoded) (\<lambda>front.
          if remainder \<noteq> 0
          then and_then (decode_base58_block (drop (full_blocks * 11) encoded) last_decoded)
                 (\<lambda>v. Inr (front @ block_bytes last_decoded v))
          else Inr front))"

record primary_address =
  addr_network :: network
  addr_prefix :: u64
  spend_public_key :: bytes
  view_public_key :: bytes

definition decode_primary_address :: "string \<Rightarrow> network \<Rightarrow> primary_address result" where
  "decode_primary_address address expected_network =
     and_then (base58_decode address) (\<lambda>decoded.
     if length decoded \<noteq> 69 then Inl (ValidationError ''wallet_address is not a primary Monero address'')
     else let payload = take (length decoded - 4) decoded; digest = keccak256 payload in
       if drop (length decoded - 4) decoded \<noteq> take 4 digest
       then Inl (ValidationError ''wallet_address checksum is invalid'')
       else and_then (reader_varint payload 0) (\<lambda>(prefix, pos).
         if prefix \<noteq> prefix_for expected_network
         then Inl (ValidationError ''wallet_address network or address type does not match'')
         else and_then (reader_bytes 32 payload pos) (\<lambda>(spend, pos).
           and_then (reader_bytes 32 payload pos) (\<lambda>(view, pos).
           if pos \<noteq> length payload
           then Inl (ValidationError ''wallet_address payload has trailing data'')
           else Inr \<lparr>addr_network = expected_network, addr_prefix = prefix,
                      spend_public_key = spend, view_public_key = view\<rparr>))))"

definition validate_primary_address :: "string \<Rightarrow> network \<Rightarrow> unit result" where
  "validate_primary_address address expected_network =
     and_then (decode_primary_address address expected_network) (\<lambda>_. Inr ())"

section \<open>The Base58 value of a block\<close>

definition digit_of :: "char \<Rightarrow> nat" where
  "digit_of ch = length (takeWhile (\<lambda>x. x \<noteq> ch) kBase58Alphabet)"

fun base58_value :: "string \<Rightarrow> nat" where
  "base58_value [] = 0"
| "base58_value (ch # rest) = digit_of ch + 58 * base58_value rest"

lemma takeWhile_find: "c \<in> set xs \<Longrightarrow> length (takeWhile (\<lambda>x. x \<noteq> c) xs) < length xs"
  by (induction xs) auto

lemma digit_of_less: "ch \<in> set kBase58Alphabet \<Longrightarrow> digit_of ch < 58"
proof -
  assume "ch \<in> set kBase58Alphabet"
  then have "length (takeWhile (\<lambda>x. x \<noteq> ch) kBase58Alphabet) < length kBase58Alphabet"
    by (rule takeWhile_find)
  then show ?thesis by (simp add: digit_of_def kBase58Alphabet_def)
qed

lemma unat_max: "unat (- 1 :: u64) = 2 ^ 64 - 1"
  by (simp add: unsigned_minus_1_eq_mask mask_eq_exp_minus_1)

text \<open>The guard of the loop is exactly that the sum does not fit 64 bits.\<close>

lemma sum_guard:
  assumes "0 < digit" and "digit < 58"
  shows "order > (- 1 - acc) div (of_nat digit :: u64) \<longleftrightarrow> 2 ^ 64 \<le> unat acc + unat order * digit"
proof -
  have ud: "unat (of_nat digit :: u64) = digit"
    using assms by (simp add: unsigned_of_nat take_bit_nat_eq_self)
  have "unat acc < 2 ^ LENGTH(64)" by (rule unsigned_less)
  then have um: "unat (- 1 - acc) = 2 ^ 64 - 1 - unat acc"
    by (simp add: unat_sub word_le_nat_alt unat_max)
  have "order > (- 1 - acc) div of_nat digit \<longleftrightarrow> (2 ^ 64 - 1 - unat acc) div digit < unat order"
    by (simp add: word_less_nat_alt unat_div_distrib ud um)
  also have "\<dots> \<longleftrightarrow> 2 ^ 64 - 1 - unat acc < unat order * digit"
    using assms(1) by (simp add: div_less_iff_less_mult)
  finally show ?thesis using \<open>unat acc < 2 ^ LENGTH(64)\<close> by auto
qed

lemma alphabet_find_eq: "alphabet_find c = (if c \<in> set kBase58Alphabet then Some (digit_of c) else None)"
  by (simp add: alphabet_find_def digit_of_def)

lemma order_step:
  assumes "unat order = 58 ^ i" and "i < 10"
  shows "\<not> order > (- 1 :: u64) div 58 \<and> unat (order * 58) = 58 ^ Suc i"
proof -
  have "(58 :: nat) ^ Suc i \<le> 58 ^ 10" using assms(2) by (intro power_increasing) auto
  then have le: "58 ^ i * 58 \<le> (58 ^ 10 :: nat)" by simp
  then have "\<not> order > (- 1 :: u64) div 58"
    by (simp add: word_less_nat_alt unat_div_distrib unat_max assms(1) not_less)
  moreover have "unat (order * 58) = 58 ^ Suc i"
    using le by (simp add: unat_word_ariths assms(1))
  ultimately show ?thesis by simp
qed

lemma decode_digits_value:
  "unat order = 58 ^ i \<Longrightarrow> i + length cs \<le> 11 \<Longrightarrow>
   decode_digits cs acc order = Inr v \<longleftrightarrow>
     set cs \<subseteq> set kBase58Alphabet \<and> unat v = unat acc + 58 ^ i * base58_value cs"
proof (induction cs arbitrary: acc order i)
  case Nil
  then show ?case by (auto simp: word_unat_eq_iff)
next
  case (Cons c cs)
  have v: "unat v < 2 ^ LENGTH(64)" by (rule unsigned_less)
  have total: "unat acc + 58 ^ i * base58_value (c # cs) =
      unat acc + 58 ^ i * digit_of c + 58 ^ Suc i * base58_value cs"
    by (simp add: distrib_left)
  show ?case
  proof (cases "c \<in> set kBase58Alphabet")
    case False
    then show ?thesis by (simp add: alphabet_find_eq)
  next
    case True
    let ?d = "digit_of c"
    let ?acc = "acc + order * of_nat ?d"
    have d: "?d < 58" by (rule digit_of_less [OF True])
    have ud: "unat (of_nat ?d :: u64) = ?d" using d by (simp add: unsigned_of_nat take_bit_nat_eq_self)
    show ?thesis
    proof (cases "2 ^ 64 \<le> unat acc + unat order * ?d")
      case over: True
      have "unat acc < 2 ^ LENGTH(64)" by (rule unsigned_less)
      then have "?d \<noteq> 0" using over by (cases "?d = 0") auto
      then have "\<exists>e. decode_digits (c # cs) acc order = Inl e"
        using sum_guard [of ?d acc order] d over True by (simp add: alphabet_find_eq)
      moreover have "unat v < unat acc + 58 ^ i * base58_value (c # cs)"
        unfolding total using over v Cons.prems(1) by simp
      ultimately show ?thesis by auto
    next
      case fits: False
      then have acc: "unat ?acc = unat acc + 58 ^ i * ?d"
        using Cons.prems(1) ud by (simp add: unat_word_ariths)
      have guard: "\<not> (?d \<noteq> 0 \<and> order > (- 1 - acc) div of_nat ?d)"
        using sum_guard [of ?d acc order] d fits by auto
      show ?thesis
      proof (cases "cs = []")
        case True
        then show ?thesis using \<open>c \<in> set kBase58Alphabet\<close> guard acc
          by (auto simp: alphabet_find_eq Let_def word_unat_eq_iff)
      next
        case False
        then have "i < 10" using Cons.prems(2) by (cases cs) auto
        note o = order_step [OF Cons.prems(1) this]
        have "decode_digits (c # cs) acc order = decode_digits cs ?acc (order * 58)"
          using \<open>c \<in> set kBase58Alphabet\<close> guard False o by (auto simp: alphabet_find_eq Let_def)
        then show ?thesis
          using Cons.IH [of "order * 58" "Suc i" ?acc] o Cons.prems(2) \<open>c \<in> set kBase58Alphabet\<close>
          unfolding total acc [symmetric] by simp
      qed
    qed
  qed
qed

lemma decode_base58_block_value:
  assumes "length encoded \<le> 11" and "n \<le> 8"
  shows "decode_base58_block encoded n = Inr v \<longleftrightarrow>
    set encoded \<subseteq> set kBase58Alphabet \<and> unat v = base58_value (rev encoded) \<and>
    base58_value (rev encoded) < 256 ^ n"
proof -
  have b: "unat (push_bit (n * 8) 1 :: u64) = 256 ^ n" if "n < 8"
  proof -
    have "(2 :: nat) ^ (n * 8) < 2 ^ 64" using that by (intro power_strict_increasing) auto
    then have "unat (of_nat (2 ^ (n * 8)) :: u64) = 2 ^ (n * 8)"
      using that by (simp only: unsigned_of_nat take_bit_nat_eq_self len_num1 len_bit0) simp
    moreover have "(2 :: nat) ^ (n * 8) = 256 ^ n" by (subst mult.commute) (simp add: power_mult)
    moreover have "push_bit (n * 8) 1 = (of_nat (2 ^ (n * 8)) :: u64)" by (simp add: push_bit_eq_mult)
    ultimately show ?thesis by (simp only:)
  qed
  have v: "unat v < 2 ^ LENGTH(64)" by (rule unsigned_less)
  have "decode_base58_block encoded n = Inr v \<longleftrightarrow>
      decode_digits (rev encoded) 0 1 = Inr v \<and> \<not> (n < 8 \<and> v \<ge> push_bit (n * 8) 1)"
    unfolding decode_base58_block_def and_then_eq_Inr by (auto split: if_splits)
  then show ?thesis
    using decode_digits_value [of 1 0 "rev encoded" 0 v] assms b v
    by (cases "n < 8") (auto simp: word_le_nat_alt not_le)
qed

section \<open>The reference encoder\<close>

text \<open>
  Addresses as the Monero format writes them: a block of \<open>n\<close> bytes, as a big-endian number, in 11
  digits (8 bytes) or 7 digits (5 bytes), the most significant first; the payload is the network
  prefix, the spend key and the view key, followed by four bytes of its hash.
\<close>

fun base58_digits :: "nat \<Rightarrow> nat \<Rightarrow> string" where
  "base58_digits 0 v = []"
| "base58_digits (Suc n) v = kBase58Alphabet ! (v mod 58) # base58_digits n (v div 58)"

definition encode_block58 :: "nat \<Rightarrow> bytes \<Rightarrow> string" where
  "encode_block58 digits bs = rev (base58_digits digits (le_value (rev bs)))"

primrec encode_blocks58 :: "nat \<Rightarrow> bytes \<Rightarrow> string" where
  "encode_blocks58 0 bs = (if bs = [] then [] else encode_block58 7 bs)"
| "encode_blocks58 (Suc n) bs = encode_block58 11 (take 8 bs) @ encode_blocks58 n (drop 8 bs)"

definition encode_address :: "network \<Rightarrow> bytes \<Rightarrow> bytes \<Rightarrow> string" where
  "encode_address n spend view =
     (let payload = [ucast (prefix_for n)] @ spend @ view in
      encode_blocks58 8 (payload @ take 4 (keccak256 payload)))"

lemma digit_of_alphabet: "i < 58 \<Longrightarrow> digit_of (kBase58Alphabet ! i) = i \<and> kBase58Alphabet ! i \<in> set kBase58Alphabet"
proof -
  have "\<forall>i \<in> set [0..<58]. digit_of (kBase58Alphabet ! i) = i \<and> kBase58Alphabet ! i \<in> set kBase58Alphabet"
    by code_simp
  then show "i < 58 \<Longrightarrow> ?thesis" by simp
qed

lemma base58_digits_value:
  "v < 58 ^ n \<Longrightarrow> base58_value (base58_digits n v) = v \<and> set (base58_digits n v) \<subseteq> set kBase58Alphabet \<and>
    length (base58_digits n v) = n"
proof (induction n arbitrary: v)
  case 0
  then show ?case by simp
next
  case (Suc n)
  have "v div 58 < 58 ^ n" using Suc.prems by (simp add: div_less_iff_less_mult mult.commute)
  then show ?case using Suc.IH [of "v div 58"] digit_of_alphabet [of "v mod 58"] by simp
qed

lemma block_bytes_value: "unat v = le_value (rev bs) \<Longrightarrow> length bs = n \<Longrightarrow> block_bytes n v = bs"
proof -
  assume v: "unat v = le_value (rev bs)" and n: "length bs = n"
  have "le_value (map (\<lambda>i. ucast (drop_bit (8 * i) v)) [0..<n]) = le_value (rev bs)"
    using le_value_less [of "rev bs"] v n by (simp add: le_value_store)
  then have "map (\<lambda>i. ucast (drop_bit (8 * i) v)) [0..<n] = rev bs"
    by (intro le_value_inj) (simp add: n)
  then show ?thesis by (simp add: block_bytes_def)
qed

lemma decode_encode_block:
  assumes "length bs = n" and "n \<le> 8" and "256 ^ n \<le> (58 :: nat) ^ digits" and "digits \<le> 11"
  shows "\<exists>v. decode_base58_block (encode_block58 digits bs) n = Inr v \<and> block_bytes n v = bs"
proof -
  let ?v = "le_value (rev bs)"
  have lt: "?v < 256 ^ n" using le_value_less [of "rev bs"] assms(1) by simp
  then have e: "base58_value (base58_digits digits ?v) = ?v" "set (base58_digits digits ?v) \<subseteq> set kBase58Alphabet"
    "length (base58_digits digits ?v) = digits"
    using base58_digits_value [of ?v digits] assms(3) by auto
  have "256 ^ n \<le> (256 ^ 8 :: nat)" using assms(2) by (intro power_increasing) auto
  then have u: "unat (of_nat ?v :: u64) = ?v"
    using lt by (simp add: unsigned_of_nat take_bit_nat_eq_self)
  then have "decode_base58_block (encode_block58 digits bs) n = Inr (of_nat ?v)"
    using e lt assms(2,4) by (subst decode_base58_block_value) (auto simp: encode_block58_def)
  then show ?thesis using block_bytes_value [OF u assms(1)] by blast
qed

lemma length_encode_block58 [simp]: "length (encode_block58 n bs) = n"
proof -
  have "length (base58_digits n v) = n" for v by (induction n arbitrary: v) auto
  then show ?thesis by (simp add: encode_block58_def)
qed

lemma decode_full_blocks_encode:
  "length bs = 8 * n + 5 \<Longrightarrow>
   decode_full_blocks n (encode_blocks58 n bs) = Inr (take (8 * n) bs) \<and>
   drop (n * 11) (encode_blocks58 n bs) = encode_block58 7 (drop (8 * n) bs) \<and>
   length (encode_blocks58 n bs) = 11 * n + 7"
proof (induction n arbitrary: bs)
  case 0
  then show ?case by auto
next
  case (Suc n)
  obtain v where "decode_base58_block (encode_block58 11 (take 8 bs)) 8 = Inr v" "block_bytes 8 v = take 8 bs"
    using decode_encode_block [of "take 8 bs" 8 11] Suc.prems by auto
  moreover have "take (8 + 8 * n) bs = take 8 bs @ take (8 * n) (drop 8 bs)" by (rule take_add)
  ultimately show ?case using Suc.IH [of "drop 8 bs"] Suc.prems by (simp add: add.commute)
qed

lemma base58_decode_encode:
  assumes "length bs = 69"
  shows "base58_decode (encode_blocks58 8 bs) = Inr bs"
proof -
  have f: "decode_full_blocks 8 (encode_blocks58 8 bs) = Inr (take 64 bs)"
    "drop 88 (encode_blocks58 8 bs) = encode_block58 7 (drop 64 bs)" "length (encode_blocks58 8 bs) = 95"
    using decode_full_blocks_encode [of bs 8] assms by simp_all
  obtain v where "decode_base58_block (encode_block58 7 (drop 64 bs)) 5 = Inr v" "block_bytes 5 v = drop 64 bs"
    using decode_encode_block [of "drop 64 bs" 5 7] assms by auto
  moreover have "encode_blocks58 8 bs \<noteq> []" using f(3) by auto
  ultimately show ?thesis using f by (simp add: base58_decode_def Let_def kEncodedToDecoded_def)
qed

section \<open>Properties\<close>

lemma prefix_varint: "encode_varint (prefix_for n) = [ucast (prefix_for n)]"
  by (cases n) (subst encode_varint.simps; simp add: prefix_for_def)+

lemma decode_payload:
  assumes "length spend = 32" and "length view = 32"
    and "base58_decode address = Inr (([ucast (prefix_for n)] @ spend @ view) @
      take 4 (keccak256 ([ucast (prefix_for n)] @ spend @ view)))"
  shows "decode_primary_address address n = Inr \<lparr>addr_network = n, addr_prefix = prefix_for n,
    spend_public_key = spend, view_public_key = view\<rparr>"
proof -
  let ?p = "[ucast (prefix_for n)] @ spend @ view"
  have "reader_varint ?p 0 = Inr (prefix_for n, 1)"
    by (simp add: reader_varint_iff prefix_varint)
  moreover have "reader_bytes 32 ?p 1 = Inr (spend, 33)" "reader_bytes 32 ?p 33 = Inr (view, 65)"
    using assms(1,2) by (simp_all add: reader_bytes_success)
  ultimately show ?thesis using assms
    by (simp add: decode_primary_address_def Let_def del: append_Cons append_Nil)
qed

text \<open>
  C27: every primary address decodes to its keys. For each network and any two 32 byte keys, the
  address the Monero format assigns to them is accepted and gives back the network, its prefix and
  the two keys; the overflow guards of the 64 bit arithmetic never reject a valid block.
\<close>

theorem address_round_trip:
  assumes "length spend = 32" and "length view = 32"
  shows "decode_primary_address (encode_address n spend view) n =
    Inr \<lparr>addr_network = n, addr_prefix = prefix_for n, spend_public_key = spend, view_public_key = view\<rparr>"
  by (rule decode_payload [OF assms])
    (use assms in \<open>simp add: encode_address_def Let_def base58_decode_encode\<close>)

theorem address_round_trip_witness:
  "length (replicate 32 (1 :: byte)) = 32 \<and>
   decode_primary_address (encode_address Mainnet (replicate 32 1) (replicate 32 2)) Mainnet =
     Inr \<lparr>addr_network = Mainnet, addr_prefix = 18, spend_public_key = replicate 32 1,
       view_public_key = replicate 32 2\<rparr>"
  using address_round_trip [of "replicate 32 1" "replicate 32 2" Mainnet] by (simp add: prefix_for_def)

text \<open>The table sends both 7 and 8 trailing characters to 5 bytes.\<close>

lemma base58_value_append_one: "base58_value (cs @ ''1'') = base58_value cs"
  by (induction cs) (simp_all add: digit_of_def kBase58Alphabet_def)

lemma decode_block_leading_one:
  assumes "length encoded = 7"
  shows "decode_base58_block (CHR ''1'' # encoded) 5 = Inr v \<longleftrightarrow> decode_base58_block encoded 5 = Inr v"
  using assms base58_value_append_one [of "rev encoded"]
  by (simp add: decode_base58_block_value kBase58Alphabet_def)

lemma decode_full_blocks_prefix:
  "11 * n \<le> length xs \<Longrightarrow> decode_full_blocks n (take (11 * n) xs @ ys) = decode_full_blocks n xs"
  by (induction n arbitrary: xs) (simp_all add: drop_take)

text \<open>
  C28: a second spelling of an address is accepted. Where a 95 character address is accepted, so is
  the 96 character text with an extra digit 1 before its last seven characters, with the same
  result: the length table maps 8 trailing characters to 5 bytes like 7, although no byte string
  has an encoding of that length.
\<close>

theorem padded_address_accepted:
  assumes "length a = 95" and "decode_primary_address a n = Inr r"
  shows "length (take 88 a @ ''1'' @ drop 88 a) = 96 \<and>
    decode_primary_address (take 88 a @ ''1'' @ drop 88 a) n = Inr r"
proof -
  let ?a = "take 88 a @ ''1'' @ drop 88 a"
  obtain bs where bs: "base58_decode a = Inr bs"
    using assms(2) by (auto simp: decode_primary_address_def and_then_eq_Inr)
  then obtain front v where f: "decode_full_blocks 8 a = Inr front"
    and v: "decode_base58_block (drop 88 a) 5 = Inr v" and eq: "bs = front @ block_bytes 5 v"
    using assms(1) by (auto simp: base58_decode_def kEncodedToDecoded_def and_then_eq_Inr split: if_splits)
  have "decode_full_blocks 8 ?a = Inr front"
    using decode_full_blocks_prefix [of 8 a "''1'' @ drop 88 a"] f assms(1) by simp
  moreover have "decode_base58_block (''1'' @ drop 88 a) 5 = Inr v"
    using decode_block_leading_one [of "drop 88 a"] v assms(1) by simp
  moreover have "length ?a = 96" "drop 88 ?a = ''1'' @ drop 88 a" using assms(1) by simp_all
  ultimately have "base58_decode ?a = Inr bs"
    using assms(1) eq by (auto simp: base58_decode_def kEncodedToDecoded_def Let_def)
  then show ?thesis using assms bs by (simp add: decode_primary_address_def)
qed

theorem padded_address_accepted_witness:
  "\<exists>a r. length a = 95 \<and> decode_primary_address a Mainnet = Inr r \<and>
     decode_primary_address (take 88 a @ ''1'' @ drop 88 a) Mainnet = Inr r"
proof -
  let ?p = "[ucast (prefix_for Mainnet)] @ replicate 32 1 @ replicate 32 2"
  let ?a = "encode_address Mainnet (replicate 32 1) (replicate 32 2)"
  have b: "base58_decode ?a = Inr (?p @ take 4 (keccak256 ?p))"
    by (simp add: encode_address_def Let_def base58_decode_encode)
  have len: "length ?a = 95"
    using decode_full_blocks_encode [of "?p @ take 4 (keccak256 ?p)" 8]
    by (simp add: encode_address_def Let_def)
  show ?thesis
    using padded_address_accepted [OF len decode_payload [OF _ _ b]] decode_payload [OF _ _ b] len by auto
qed

end
