(* ===== verification/Defense.thy ===== *)
theory Defense
  imports Complex_Main Std_Map
begin

text \<open>
  The abuse defence of the Stratum listener (src/stratum/defense.cpp): token buckets, the sustained
  rate detector, candidate slots, evidence windows, bans with their expiry index and the bounded
  table of peer states in least recently used order. Times are nanosecond counts of the two clocks
  and are arguments of the operations. A \<open>double\<close> is the rational number it stands for; \<open>rnd\<close> is
  the rounding of its arithmetic.
\<close>

section \<open>Peers\<close>

datatype peer_address = PeerAddress (peer_family: int) (peer_bytes: bytes) (peer_size: nat)

text \<open>The defaulted comparison: the members in declaration order.\<close>

definition peer_members :: "peer_address \<Rightarrow> int \<times> bytes \<times> nat" where
  "peer_members p = (peer_family p, peer_bytes p, peer_size p)"

lemma peer_members_inj: "peer_members a = peer_members b \<Longrightarrow> a = b"
  by (cases a; cases b) (simp add: peer_members_def)

instantiation peer_address :: linorder
begin

definition less_eq_peer_address :: "peer_address \<Rightarrow> peer_address \<Rightarrow> bool" where
  "a \<le> b \<longleftrightarrow> peer_members a \<le> peer_members b"

definition less_peer_address :: "peer_address \<Rightarrow> peer_address \<Rightarrow> bool" where
  "a < b \<longleftrightarrow> peer_members a < peer_members b"

instance
  by standard
    (auto simp: less_eq_peer_address_def less_peer_address_def intro: peer_members_inj)

end

datatype sockaddr = Sockaddr_In bytes | Sockaddr_In6 bytes | Sockaddr_Other

definition AF_INET :: int where "AF_INET = 2"
definition AF_INET6 :: int where "AF_INET6 = 10"

definition pad16 :: "bytes \<Rightarrow> bytes" where
  "pad16 bs = bs @ replicate (16 - length bs) 0"

definition v4mapped :: "bytes \<Rightarrow> bool" where
  "v4mapped a \<longleftrightarrow> take 12 a = replicate 10 0 @ [0xff, 0xff]"

definition from_socket :: "sockaddr \<Rightarrow> peer_address result" where
  "from_socket storage = (case storage of
     Sockaddr_In a \<Rightarrow> Inr (PeerAddress AF_INET (pad16 a) 4)
   | Sockaddr_In6 a \<Rightarrow>
       if v4mapped a then Inr (PeerAddress AF_INET (pad16 (take 4 (drop 12 a))) 4) else Inr (PeerAddress AF_INET6 a 16)
   | Sockaddr_Other \<Rightarrow> Inl (InvalidArgument ''unsupported socket address family''))"

definition peer_parse ::
  "(string \<Rightarrow> bytes option) \<Rightarrow> (string \<Rightarrow> bytes option) \<Rightarrow> string \<Rightarrow> peer_address result" where
  "peer_parse inet_pton4 inet_pton6 txt = (case inet_pton4 txt of
     Some a \<Rightarrow> Inr (PeerAddress AF_INET (pad16 a) 4)
   | None \<Rightarrow> (case inet_pton6 txt of
       Some a \<Rightarrow> if v4mapped a then Inr (PeerAddress AF_INET (pad16 (take 4 (drop 12 a))) 4) else Inr (PeerAddress AF_INET6 a 16)
     | None \<Rightarrow> Inl (InvalidArgument ''invalid IP address'')))"

definition peer_key :: "peer_address \<Rightarrow> bytes" where
  "peer_key p = (if peer_family p = AF_INET then 0x04 else 0x06) # take (peer_size p) (peer_bytes p)"

section \<open>State\<close>

datatype abuse_kind = Malformed | Authentication_Failure | Unknown_Job | Duplicate_Share | Oversized_Line
  | Verified_False_Candidate | Candidate_Mismatch | Trusted_Candidate_Rejection | Rate_Hammer

definition abuse_index :: "abuse_kind \<Rightarrow> nat" where
  "abuse_index k = (case k of Malformed \<Rightarrow> 0 | Authentication_Failure \<Rightarrow> 1 | Unknown_Job \<Rightarrow> 2
     | Duplicate_Share \<Rightarrow> 3 | Oversized_Line \<Rightarrow> 4 | Verified_False_Candidate \<Rightarrow> 5
     | Candidate_Mismatch \<Rightarrow> 6 | Trusted_Candidate_Rejection \<Rightarrow> 7 | Rate_Hammer \<Rightarrow> 8)"

lemma abuse_index_inj: "abuse_index a = abuse_index b \<Longrightarrow> a = b"
  by (cases a; cases b) (simp_all add: abuse_index_def)

instantiation abuse_kind :: linorder
begin

definition less_eq_abuse_kind :: "abuse_kind \<Rightarrow> abuse_kind \<Rightarrow> bool" where
  "a \<le> b \<longleftrightarrow> abuse_index a \<le> abuse_index b"

definition less_abuse_kind :: "abuse_kind \<Rightarrow> abuse_kind \<Rightarrow> bool" where
  "a < b \<longleftrightarrow> abuse_index a < abuse_index b"

instance
  by standard (auto simp: less_eq_abuse_kind_def less_abuse_kind_def dest: abuse_index_inj)

end

record defense_config =
  enabled :: bool
  ban_seconds :: u32
  connection_rate_per_minute :: u32
  connection_burst :: u32
  request_rate_per_second :: u32
  request_burst :: u32
  submit_rate_per_second :: u32
  submit_burst :: u32
  malformed_limit :: u32
  auth_failure_limit :: u32
  unknown_job_limit :: u32
  duplicate_limit :: u32
  abuse_window_seconds :: u32
  hammer_rate_multiplier :: u32
  hammer_sustain_seconds :: u32
  candidate_rate_per_minute :: u32
  candidate_burst :: u32
  candidate_inflight_per_ip :: u32
  candidate_global_cap :: u32
  false_candidate_limit :: u32
  false_candidate_window_seconds :: u32
  trusted_candidate_rejection_limit :: u32
  trusted_candidate_rejection_window_seconds :: u32
  verification_mismatch_limit :: u32
  verification_mismatch_window_seconds :: u32
  max_peer_states :: nat
  max_active_bans :: nat

record ban_record =
  ban_peer :: peer_address
  ban_reason :: abuse_kind
  ban_created :: int
  ban_expires :: int
  ban_evidence_start :: int
  ban_evidence_end :: int

record token_bucket =
  tokens :: rat
  updated :: int
  bucket_initialized :: bool

record hammer_state =
  hammer_bucket :: u64
  hammer_attempts :: u64
  consecutive_seconds :: u32
  evidence_start :: int
  hammer_initialized :: bool

record peer_state =
  connections :: token_bucket
  requests :: token_bucket
  submits :: token_bucket
  candidates :: token_bucket
  connection_hammer :: hammer_state
  request_hammer :: hammer_state
  submit_hammer :: hammer_state
  candidate_hammer :: hammer_state
  candidate_inflight :: nat
  evidence :: "(abuse_kind, int list) std_map"
  last_activity :: int

record defense =
  peers :: "(peer_address, peer_state) std_map"
  peer_lru :: "peer_address list"
  bans :: "(peer_address, ban_record) std_map"
  ban_expiries :: "(int, peer_address std_set) std_map"
  ban_overflow_until :: "int option"
  global_inflight :: nat

definition new_bucket :: "int \<Rightarrow> token_bucket" where
  "new_bucket now = \<lparr>tokens = 0, updated = now, bucket_initialized = False\<rparr>"

definition new_hammer :: hammer_state where
  "new_hammer = \<lparr>hammer_bucket = 0, hammer_attempts = 0, consecutive_seconds = 0, evidence_start = 0,
     hammer_initialized = False\<rparr>"

definition new_peer :: "int \<Rightarrow> peer_state" where
  "new_peer now = \<lparr>connections = new_bucket now, requests = new_bucket now, submits = new_bucket now,
     candidates = new_bucket now, connection_hammer = new_hammer, request_hammer = new_hammer,
     submit_hammer = new_hammer, candidate_hammer = new_hammer, candidate_inflight = 0,
     evidence = [], last_activity = now\<rparr>"

definition seconds :: "u32 \<Rightarrow> int" where
  "seconds n = int (unat n) * 1000000000"

definition kPeerStateTtl :: int where
  "kPeerStateTtl = 24 * 3600 * 1000000000"

definition make_defense :: "defense_config \<Rightarrow> defense result" where
  "make_defense cfg =
     (if enabled cfg \<and> (hammer_rate_multiplier cfg < 2 \<or> hammer_sustain_seconds cfg = 0 \<or>
         max_peer_states cfg = 0 \<or> max_active_bans cfg = 0)
      then Inl (InvalidArgument ''invalid sustained-hammer configuration'')
      else Inr \<lparr>peers = [], peer_lru = [], bans = [], ban_expiries = [], ban_overflow_until = None,
        global_inflight = 0\<rparr>)"

section \<open>The table of peer states\<close>

definition lru_touch :: "peer_address \<Rightarrow> peer_address list \<Rightarrow> peer_address list" where
  "lru_touch p lru = filter (\<lambda>q. q \<noteq> p) lru @ [p]"

definition touch_peer :: "peer_address \<Rightarrow> peer_state \<Rightarrow> int \<Rightarrow> defense \<Rightarrow> defense" where
  "touch_peer p st now s = s\<lparr>peers := map_put p (st\<lparr>last_activity := now\<rparr>) (peers s),
     peer_lru := lru_touch p (peer_lru s)\<rparr>"

definition erase_peer :: "peer_address \<Rightarrow> defense \<Rightarrow> defense" where
  "erase_peer p s = s\<lparr>peers := map_erase p (peers s), peer_lru := filter (\<lambda>q. q \<noteq> p) (peer_lru s)\<rparr>"

text \<open>The first loop of \<open>find_or_create_peer_locked\<close>: idle states at the front of the list.\<close>

fun drop_idle :: "int \<Rightarrow> (peer_address, peer_state) std_map \<Rightarrow> peer_address list \<Rightarrow>
    (peer_address, peer_state) std_map \<times> peer_address list" where
  "drop_idle cutoff ps [] = (ps, [])"
| "drop_idle cutoff ps (p # lru) = (case map_of ps p of
     None \<Rightarrow> drop_idle cutoff ps lru
   | Some st \<Rightarrow>
       if candidate_inflight st \<noteq> 0 \<or> last_activity st \<ge> cutoff then (ps, p # lru)
       else drop_idle cutoff (map_erase p ps) lru)"

text \<open>The second loop: room for one state, passing over peers that hold a candidate slot.\<close>

function make_room :: "nat \<Rightarrow> nat \<Rightarrow> (peer_address, peer_state) std_map \<Rightarrow> peer_address list \<Rightarrow>
    (peer_address, peer_state) std_map \<times> peer_address list" where
  "make_room cap examined ps lru =
     (if length ps \<ge> cap \<and> examined < length lru
      then (case lru of [] \<Rightarrow> (ps, lru)
        | p # rest \<Rightarrow> (case map_of ps p of
            None \<Rightarrow> make_room cap examined ps rest
          | Some st \<Rightarrow>
              if candidate_inflight st = 0 then (map_erase p ps, rest)
              else make_room cap (examined + 1) ps (rest @ [p])))
      else (ps, lru))"
  by pat_completeness auto
termination by (relation "measure (\<lambda>(c, e, ps, lru). length lru - e)") auto

declare make_room.simps [simp del]

definition create_peer ::
  "defense_config \<Rightarrow> peer_address \<Rightarrow> int \<Rightarrow> defense \<Rightarrow> peer_state option \<times> defense" where
  "create_peer cfg p now s =
     (let (ps, lru) = drop_idle (now - kPeerStateTtl) (peers s) (peer_lru s);
          (ps, lru) = make_room (max_peer_states cfg) 0 ps lru in
      if length ps \<ge> max_peer_states cfg then (None, s\<lparr>peers := ps, peer_lru := lru\<rparr>)
      else (Some (new_peer now), s\<lparr>peers := map_put p (new_peer now) ps, peer_lru := lru @ [p]\<rparr>))"

definition find_or_create_peer ::
  "defense_config \<Rightarrow> peer_address \<Rightarrow> int \<Rightarrow> defense \<Rightarrow> peer_state option \<times> defense" where
  "find_or_create_peer cfg p now s = (case map_of (peers s) p of
     Some st \<Rightarrow>
       if candidate_inflight st = 0 \<and> last_activity st < now - kPeerStateTtl
       then create_peer cfg p now (erase_peer p s)
       else (Some (st\<lparr>last_activity := now\<rparr>), touch_peer p st now s)
   | None \<Rightarrow> create_peer cfg p now s)"

section \<open>Bans\<close>

definition erase_ban :: "peer_address \<Rightarrow> ban_record \<Rightarrow> defense \<Rightarrow> defense" where
  "erase_ban p b s = s\<lparr>bans := map_erase p (bans s),
     ban_expiries := (case map_of (ban_expiries s) (ban_expires b) of
         None \<Rightarrow> ban_expiries s
       | Some ps \<Rightarrow>
           if set_erase p ps = [] then map_erase (ban_expires b) (ban_expiries s)
           else map_put (ban_expires b) (set_erase p ps) (ban_expiries s))\<rparr>"

definition add_ban :: "ban_record \<Rightarrow> defense \<Rightarrow> defense" where
  "add_ban b s = s\<lparr>bans := map_put (ban_peer b) b (bans s),
     ban_expiries := map_put (ban_expires b)
       (set_insert (ban_peer b) (case map_of (ban_expiries s) (ban_expires b) of None \<Rightarrow> [] | Some ps \<Rightarrow> ps))
       (ban_expiries s)\<rparr>"

definition insert_ban :: "defense_config \<Rightarrow> ban_record \<Rightarrow> defense \<Rightarrow> bool \<times> defense" where
  "insert_ban cfg b s =
     (let s = (case map_of (bans s) (ban_peer b) of None \<Rightarrow> s | Some old \<Rightarrow> erase_ban (ban_peer b) old s) in
      if length (bans s) \<ge> max_active_bans cfg
      then (True, if (case ban_overflow_until s of None \<Rightarrow> True | Some t \<Rightarrow> t < ban_expires b)
                  then s\<lparr>ban_overflow_until := Some (ban_expires b)\<rparr> else s)
      else (True, add_ban b s))"

fun expire_loop :: "int \<Rightarrow> (peer_address, ban_record) std_map \<Rightarrow> (int, peer_address std_set) std_map \<Rightarrow>
    (peer_address, ban_record) std_map \<times> (int, peer_address std_set) std_map" where
  "expire_loop now bs [] = (bs, [])"
| "expire_loop now bs ((e, ps) # rest) =
     (if e \<le> now then expire_loop now (foldl (\<lambda>b p. map_erase p b) bs ps) rest
      else (bs, (e, ps) # rest))"

definition expire_bans :: "int \<Rightarrow> defense \<Rightarrow> defense" where
  "expire_bans now s =
     (let (bs, es) = expire_loop now (bans s) (ban_expiries s) in
      s\<lparr>bans := bs, ban_expiries := es,
        ban_overflow_until := (case ban_overflow_until s of
            Some t \<Rightarrow> if t \<le> now then None else Some t | None \<Rightarrow> None)\<rparr>)"

definition refused :: "peer_address \<Rightarrow> defense \<Rightarrow> bool" where
  "refused p s \<longleftrightarrow> map_has (bans s) p \<or> ban_overflow_until s \<noteq> None"

definition banned :: "defense_config \<Rightarrow> peer_address \<Rightarrow> int \<Rightarrow> defense \<Rightarrow> bool \<times> defense" where
  "banned cfg p wall_now s =
     (if \<not> enabled cfg then (False, s)
      else let s = expire_bans wall_now s in (refused p s, s))"

definition restore_ban :: "defense_config \<Rightarrow> ban_record \<Rightarrow> int \<Rightarrow> defense \<Rightarrow> defense" where
  "restore_ban cfg b wall_now s =
     (if \<not> enabled cfg \<or> ban_expires b \<le> wall_now then s else snd (insert_ban cfg b s))"

section \<open>Rates\<close>

definition consume :: "(rat \<Rightarrow> rat) \<Rightarrow> token_bucket \<Rightarrow> rat \<Rightarrow> rat \<Rightarrow> int \<Rightarrow> bool \<times> token_bucket" where
  "consume rnd b rate burst now =
     (let b = (if \<not> bucket_initialized b
               then b\<lparr>bucket_initialized := True, tokens := burst, updated := now\<rparr> else b);
          elapsed = rnd (of_int (now - updated b) / 1000000000);
          filled = min burst (rnd (tokens b + rnd (elapsed * rate)));
          b = b\<lparr>tokens := filled, updated := now\<rparr> in
      if filled < 1 then (False, b) else (True, b\<lparr>tokens := rnd (filled - 1)\<rparr>))"

text \<open>
  The update of a hammer state, and whether the sustained rate reached its limit; the caller then
  bans the peer unless it is banned already.
\<close>

definition hammer_threshold :: "(rat \<Rightarrow> rat) \<Rightarrow> defense_config \<Rightarrow> rat \<Rightarrow> u64" where
  "hammer_threshold rnd cfg rate =
     word_of_int (max 1 (ceiling (rnd (rate * of_nat (unat (hammer_rate_multiplier cfg))))))"

definition step_hammer :: "u64 \<Rightarrow> u64 \<Rightarrow> int \<Rightarrow> bool \<Rightarrow> hammer_state \<Rightarrow> hammer_state" where
  "step_hammer threshold bucket wall_now count h =
     (let sustained = (bucket = hammer_bucket h + 1 \<and> hammer_attempts h \<ge> threshold) in
      (if sustained
       then h\<lparr>evidence_start := (if consecutive_seconds h = 0 then wall_now - 1000000000 else evidence_start h),
              consecutive_seconds := consecutive_seconds h + 1\<rparr>
       else h\<lparr>consecutive_seconds := 0, evidence_start := 0\<rparr>)
      \<lparr>hammer_bucket := bucket, hammer_attempts := (if count then 1 else 0)\<rparr>)"

definition observe_hammer ::
  "(rat \<Rightarrow> rat) \<Rightarrow> defense_config \<Rightarrow> peer_address \<Rightarrow> hammer_state \<Rightarrow> rat \<Rightarrow> int \<Rightarrow> int \<Rightarrow> bool \<Rightarrow> defense \<Rightarrow>
   ban_record option \<times> hammer_state \<times> defense" where
  "observe_hammer rnd cfg p h rate steady_now wall_now count s =
     (let bucket = word_of_int (max 0 (steady_now div 1000000000)) in
      if \<not> hammer_initialized h
      then (None, h\<lparr>hammer_initialized := True, hammer_bucket := bucket,
                    hammer_attempts := (if count then 1 else 0)\<rparr>, s)
      else if bucket = hammer_bucket h
      then (None, if count \<and> hammer_attempts h \<noteq> - 1 then h\<lparr>hammer_attempts := hammer_attempts h + 1\<rparr> else h, s)
      else let h = step_hammer (hammer_threshold rnd cfg rate) bucket wall_now count h in
        if consecutive_seconds h < hammer_sustain_seconds cfg \<or> map_has (bans s) p then (None, h, s)
        else let b = \<lparr>ban_peer = p, ban_reason = Rate_Hammer, ban_created = wall_now,
                       ban_expires = wall_now + seconds (ban_seconds cfg),
                       ban_evidence_start = evidence_start h, ban_evidence_end = wall_now\<rparr>;
                 (ok, s) = insert_ban cfg b s in
          (if ok then Some b else None, h, s))"

text \<open>
  The common body of \<open>admit_connection\<close>, \<open>admit_request\<close> and \<open>admit_submit\<close>: the answer, the ban that
  is reported to the callback, and the state. \<open>upd\<close> writes the bucket and the hammer back.
\<close>

definition admit_rate ::
  "(rat \<Rightarrow> rat) \<Rightarrow> defense_config \<Rightarrow> (peer_state \<Rightarrow> token_bucket) \<Rightarrow> (peer_state \<Rightarrow> hammer_state) \<Rightarrow>
   (token_bucket \<Rightarrow> hammer_state \<Rightarrow> peer_state \<Rightarrow> peer_state) \<Rightarrow> rat \<Rightarrow> u32 \<Rightarrow>
   peer_address \<Rightarrow> int \<Rightarrow> int \<Rightarrow> defense \<Rightarrow> bool \<times> ban_record option \<times> defense" where
  "admit_rate rnd cfg bkt ham upd rate burst p steady_now wall_now s =
     (if \<not> enabled cfg then (True, None, s)
      else let s = expire_bans wall_now s in
        if refused p s then (False, None, s)
        else case find_or_create_peer cfg p steady_now s of
          (None, s) \<Rightarrow> (False, None, s)
        | (Some st, s) \<Rightarrow>
            let (created, h, s) = observe_hammer rnd cfg p (ham st) rate steady_now wall_now True s;
                (taken, b) = (if created = None
                  then consume rnd (bkt st) rate (of_nat (unat burst)) steady_now else (False, bkt st)) in
            (created = None \<and> taken, created, s\<lparr>peers := map_put p (upd b h st) (peers s)\<rparr>))"

definition admit_connection where
  "admit_connection rnd cfg = admit_rate rnd cfg connections connection_hammer
     (\<lambda>b h st. st\<lparr>connections := b, connection_hammer := h\<rparr>)
     (rnd (of_nat (unat (connection_rate_per_minute cfg)) / 60)) (connection_burst cfg)"

definition admit_request where
  "admit_request rnd cfg = admit_rate rnd cfg requests request_hammer
     (\<lambda>b h st. st\<lparr>requests := b, request_hammer := h\<rparr>)
     (of_nat (unat (request_rate_per_second cfg))) (request_burst cfg)"

definition admit_submit where
  "admit_submit rnd cfg = admit_rate rnd cfg submits submit_hammer
     (\<lambda>b h st. st\<lparr>submits := b, submit_hammer := h\<rparr>)
     (of_nat (unat (submit_rate_per_second cfg))) (submit_burst cfg)"

definition candidate_capped :: "defense_config \<Rightarrow> peer_state \<Rightarrow> defense \<Rightarrow> bool" where
  "candidate_capped cfg st s \<longleftrightarrow>
     (candidate_global_cap cfg \<noteq> 0 \<and> global_inflight s \<ge> unat (candidate_global_cap cfg)) \<or>
     (candidate_inflight_per_ip cfg \<noteq> 0 \<and> candidate_inflight st \<ge> unat (candidate_inflight_per_ip cfg))"

definition admit_candidate ::
  "(rat \<Rightarrow> rat) \<Rightarrow> defense_config \<Rightarrow> peer_address \<Rightarrow> int \<Rightarrow> int \<Rightarrow> defense \<Rightarrow>
   bool \<times> ban_record option \<times> defense" where
  "admit_candidate rnd cfg p steady_now wall_now s =
     (if \<not> enabled cfg then (True, None, s)
      else let s = expire_bans wall_now s in
        if refused p s then (False, None, s)
        else case find_or_create_peer cfg p steady_now s of
          (None, s) \<Rightarrow> (False, None, s)
        | (Some st, s) \<Rightarrow>
            let limited = (candidate_rate_per_minute cfg \<noteq> 0);
                rate = rnd (of_nat (unat (candidate_rate_per_minute cfg)) / 60);
                (created, h, s) = (if limited
                  then observe_hammer rnd cfg p (candidate_hammer st) rate steady_now wall_now False s
                  else (None, candidate_hammer st, s));
                capped = candidate_capped cfg st s;
                (rate_allowed, b) = (if limited
                  then consume rnd (candidates st) rate (of_nat (unat (candidate_burst cfg))) steady_now
                  else (True, candidates st));
                (created, h, s) = (if created = None \<and> (capped \<or> \<not> rate_allowed) \<and> limited
                  then observe_hammer rnd cfg p h rate steady_now wall_now True s
                  else (created, h, s));
                allowed = (created = None \<and> \<not> capped \<and> rate_allowed);
                st = st\<lparr>candidates := b, candidate_hammer := h,
                        candidate_inflight := candidate_inflight st + (if allowed then 1 else 0)\<rparr> in
            (allowed, created, s\<lparr>peers := map_put p st (peers s),
               global_inflight := global_inflight s + (if allowed then 1 else 0)\<rparr>))"

definition candidate_finished :: "defense_config \<Rightarrow> peer_address \<Rightarrow> int \<Rightarrow> defense \<Rightarrow> defense" where
  "candidate_finished cfg p steady_now s =
     (if \<not> enabled cfg then s
      else case map_of (peers s) p of
        None \<Rightarrow> s
      | Some st \<Rightarrow>
          if candidate_inflight st = 0 then s
          else (touch_peer p (st\<lparr>candidate_inflight := candidate_inflight st - 1\<rparr>) steady_now s)
                 \<lparr>global_inflight := global_inflight s - 1\<rparr>)"

section \<open>Evidence\<close>

definition threshold :: "defense_config \<Rightarrow> abuse_kind \<Rightarrow> u32 \<times> int" where
  "threshold cfg kind = (case kind of
     Malformed \<Rightarrow> (malformed_limit cfg, seconds (abuse_window_seconds cfg))
   | Authentication_Failure \<Rightarrow> (auth_failure_limit cfg, seconds (abuse_window_seconds cfg))
   | Unknown_Job \<Rightarrow> (unknown_job_limit cfg, seconds (abuse_window_seconds cfg))
   | Duplicate_Share \<Rightarrow> (duplicate_limit cfg, seconds (abuse_window_seconds cfg))
   | Oversized_Line \<Rightarrow> (2, seconds (abuse_window_seconds cfg))
   | Verified_False_Candidate \<Rightarrow> (false_candidate_limit cfg, seconds (false_candidate_window_seconds cfg))
   | Candidate_Mismatch \<Rightarrow> (verification_mismatch_limit cfg, seconds (verification_mismatch_window_seconds cfg))
   | Trusted_Candidate_Rejection \<Rightarrow>
       (trusted_candidate_rejection_limit cfg, seconds (trusted_candidate_rejection_window_seconds cfg))
   | Rate_Hammer \<Rightarrow> (- 1, seconds (hammer_sustain_seconds cfg)))"

definition record_abuse ::
  "defense_config \<Rightarrow> peer_address \<Rightarrow> abuse_kind \<Rightarrow> int \<Rightarrow> int \<Rightarrow> defense \<Rightarrow> ban_record option \<times> defense" where
  "record_abuse cfg p kind steady_now wall_now s =
     (if \<not> enabled cfg then (None, s)
      else let s = expire_bans wall_now s in
        if refused p s then (None, s)
        else case find_or_create_peer cfg p steady_now s of
          (None, s) \<Rightarrow> (None, s)
        | (Some st, s) \<Rightarrow>
            let (limit, window) = threshold cfg kind;
                old = (case map_of (evidence st) kind of None \<Rightarrow> [] | Some es \<Rightarrow> es);
                events = dropWhile (\<lambda>t. t < wall_now - window) old @ [wall_now];
                s = s\<lparr>peers := map_put p (st\<lparr>evidence := map_put kind events (evidence st)\<rparr>) (peers s)\<rparr> in
            if length events \<ge> unat limit
            then let b = \<lparr>ban_peer = p, ban_reason = kind, ban_created = wall_now,
                           ban_expires = wall_now + seconds (ban_seconds cfg),
                           ban_evidence_start = hd events, ban_evidence_end = last events\<rparr>;
                     (ok, s) = insert_ban cfg b s in
              (if ok then Some b else None, s)
            else (None, s))"

definition peer_state_count :: "defense \<Rightarrow> nat" where
  "peer_state_count s = length (peers s)"

definition active_ban_count :: "defense \<Rightarrow> nat" where
  "active_ban_count s = length (bans s)"

definition candidate_peer_inflight :: "peer_address \<Rightarrow> defense \<Rightarrow> nat" where
  "candidate_peer_inflight p s = (case map_of (peers s) p of None \<Rightarrow> 0 | Some st \<Rightarrow> candidate_inflight st)"

section \<open>The invariant\<close>

definition total_inflight :: "(peer_address, peer_state) std_map \<Rightarrow> nat" where
  "total_inflight ps = sum_list (map (candidate_inflight \<circ> snd) ps)"

definition within_slots :: "defense_config \<Rightarrow> peer_state \<Rightarrow> bool" where
  "within_slots cfg st \<longleftrightarrow> candidate_inflight_per_ip cfg = 0 \<or>
     candidate_inflight st \<le> unat (candidate_inflight_per_ip cfg)"

definition slots_ok :: "defense_config \<Rightarrow> (peer_address, peer_state) std_map \<Rightarrow> bool" where
  "slots_ok cfg ps \<longleftrightarrow> (\<forall>p st. map_of ps p = Some st \<longrightarrow> within_slots cfg st)"

text \<open>The list orders exactly the known peers, and the slot counter is the sum of theirs.\<close>

definition table_ok :: "defense_config \<Rightarrow> (peer_address, peer_state) std_map \<Rightarrow> peer_address list \<Rightarrow> bool" where
  "table_ok cfg ps lru \<longleftrightarrow> map_ok ps \<and> distinct lru \<and> set lru = dom (map_of ps) \<and>
     length ps \<le> max_peer_states cfg \<and> slots_ok cfg ps"

text \<open>The index by expiry lists exactly the active bans, and each under its own expiry.\<close>

definition indexed :: "(int, peer_address std_set) std_map \<Rightarrow> peer_address \<Rightarrow> int \<Rightarrow> bool" where
  "indexed es p e \<longleftrightarrow> (case map_of es e of None \<Rightarrow> False | Some ps \<Rightarrow> p \<in> set ps)"

definition banned_until :: "(peer_address, ban_record) std_map \<Rightarrow> peer_address \<Rightarrow> int \<Rightarrow> bool" where
  "banned_until bs p e \<longleftrightarrow> (case map_of bs p of None \<Rightarrow> False | Some b \<Rightarrow> ban_expires b = e)"

definition index_ok :: "(peer_address, ban_record) std_map \<Rightarrow> (int, peer_address std_set) std_map \<Rightarrow> bool" where
  "index_ok bs es \<longleftrightarrow> map_ok bs \<and> map_ok es \<and>
     (\<forall>e ps. map_of es e = Some ps \<longrightarrow> ps \<noteq> [] \<and> set_ok ps) \<and>
     indexed es = banned_until bs"

definition defense_ok :: "defense_config \<Rightarrow> defense \<Rightarrow> bool" where
  "defense_ok cfg s \<longleftrightarrow> table_ok cfg (peers s) (peer_lru s) \<and> index_ok (bans s) (ban_expiries s) \<and>
     length (bans s) \<le> max_active_bans cfg \<and> global_inflight s = total_inflight (peers s) \<and>
     (candidate_global_cap cfg \<noteq> 0 \<longrightarrow> global_inflight s \<le> unat (candidate_global_cap cfg))"

text \<open>
  A peer is covered until an instant when it is in the table with a ban that lasts so long, or when
  the fail-closed interval of a full table does. A fresh ban is the peer's own, made at the given
  time with the configured length, and covers the peer until it expires.
\<close>

definition covered_until :: "peer_address \<Rightarrow> int \<Rightarrow> defense \<Rightarrow> bool" where
  "covered_until p e s \<longleftrightarrow>
     (\<exists>b. map_of (bans s) p = Some b \<and> e \<le> ban_expires b) \<or> (\<exists>t. ban_overflow_until s = Some t \<and> e \<le> t)"

definition fresh_ban :: "defense_config \<Rightarrow> peer_address \<Rightarrow> int \<Rightarrow> ban_record \<Rightarrow> defense \<Rightarrow> bool" where
  "fresh_ban cfg p wall_now b s \<longleftrightarrow> ban_peer b = p \<and> ban_created b = wall_now \<and>
     ban_expires b = wall_now + seconds (ban_seconds cfg) \<and> covered_until p (ban_expires b) s"

lemma total_map_put:
  "map_ok ps \<Longrightarrow> total_inflight (map_put p st ps) + (case map_of ps p of None \<Rightarrow> 0 | Some old \<Rightarrow> candidate_inflight old) =
   total_inflight ps + candidate_inflight st"
proof (induction ps)
  case Nil
  then show ?case by (simp add: total_inflight_def)
next
  case (Cons q ps)
  have none: "map_of ps p = None" if "p \<le> fst q"
    using Cons.prems that by (auto simp: map_ok_Cons map_of_eq_None_iff)
  have "map_ok ps" using Cons.prems by (simp add: map_ok_Cons)
  then show ?case using Cons.IH none by (cases q) (auto simp: total_inflight_def not_less)
qed

lemma total_map_erase:
  "map_ok ps \<Longrightarrow> total_inflight (map_erase p ps) + (case map_of ps p of None \<Rightarrow> 0 | Some old \<Rightarrow> candidate_inflight old) =
   total_inflight ps"
proof (induction ps)
  case Nil
  then show ?case by (simp add: total_inflight_def)
next
  case (Cons q ps)
  have none: "map_of ps p = None" if "p = fst q"
    using Cons.prems that by (auto simp: map_ok_Cons map_of_eq_None_iff)
  have "map_erase p ps = ps" if "p = fst q"
    using none [OF that] by (auto simp: map_erase_def filter_id_conv map_of_eq_None_iff)
  moreover have "map_ok ps" using Cons.prems by (simp add: map_ok_Cons)
  ultimately show ?case using Cons.IH none
    by (cases q) (auto simp: total_inflight_def map_erase_def)
qed

lemma slots_put: "slots_ok cfg ps \<Longrightarrow> within_slots cfg st \<Longrightarrow> slots_ok cfg (map_put p st ps)"
  unfolding slots_ok_def by (metis fun_upd_apply map_of_map_put option.inject)

lemma slots_erase: "slots_ok cfg ps \<Longrightarrow> slots_ok cfg (map_erase p ps)"
  unfolding slots_ok_def by (metis fun_upd_apply map_of_map_erase option.distinct(1))

lemma length_map_erase_le: "length (map_erase p ps) \<le> length ps"
  by (simp add: map_erase_def)

lemma table_erase:
  assumes "table_ok cfg ps (p # lru)"
  shows "table_ok cfg (map_erase p ps) lru"
  using assms le_trans [OF length_map_erase_le [of p ps]]
  by (auto simp: table_ok_def slots_erase)

lemma table_known: "table_ok cfg ps lru \<Longrightarrow> p \<in> set lru \<Longrightarrow> \<exists>st. map_of ps p = Some st"
  by (auto simp: table_ok_def)

lemma drop_idle_ok:
  "table_ok cfg ps lru \<Longrightarrow> drop_idle cutoff ps lru = (ps', lru') \<Longrightarrow>
   table_ok cfg ps' lru' \<and> total_inflight ps' = total_inflight ps \<and> set lru' \<subseteq> set lru"
proof (induction cutoff ps lru rule: drop_idle.induct)
  case (1 cutoff ps)
  then show ?case by simp
next
  case (2 cutoff ps p lru)
  obtain st where st: "map_of ps p = Some st" using table_known [OF "2.prems"(1), of p] by auto
  have "map_ok ps" using "2.prems"(1) by (simp add: table_ok_def)
  then have "total_inflight (map_erase p ps) = total_inflight ps" if "candidate_inflight st = 0"
    using total_map_erase [of ps p] st that by simp
  then show ?case using 2 st table_erase [OF "2.prems"(1)] by (auto split: if_splits)
qed

lemma table_rotate: "table_ok cfg ps (p # lru) \<Longrightarrow> table_ok cfg ps (lru @ [p])"
  by (auto simp: table_ok_def)

lemma make_room_ok:
  "table_ok cfg ps lru \<Longrightarrow> make_room cap examined ps lru = (ps', lru') \<Longrightarrow>
   table_ok cfg ps' lru' \<and> total_inflight ps' = total_inflight ps \<and> set lru' \<subseteq> set lru"
proof (induction cap examined ps lru rule: make_room.induct)
  case (1 cap examined ps lru)
  show ?case
  proof (cases "length ps \<ge> cap \<and> examined < length lru")
    case False
    then show ?thesis using "1.prems" by (subst (asm) make_room.simps) auto
  next
    case True
    then obtain p rest where lru: "lru = p # rest" by (cases lru) auto
    then obtain st where st: "map_of ps p = Some st" using table_known [OF "1.prems"(1), of p] by auto
    show ?thesis
    proof (cases "candidate_inflight st = 0")
      case idle: True
      have "map_ok ps" using "1.prems"(1) by (simp add: table_ok_def)
      then show ?thesis using "1.prems" True lru st idle table_erase [of cfg ps p rest] total_map_erase [of ps p]
        by (subst (asm) make_room.simps) auto
    next
      case False
      have "make_room cap (examined + 1) ps (rest @ [p]) = (ps', lru')"
        using "1.prems"(2) True lru st False by (subst (asm) make_room.simps) auto
      then show ?thesis
        using "1.IH"(2) [OF True lru st False table_rotate] "1.prems"(1) lru by auto
    qed
  qed
qed

lemma table_put:
  assumes "table_ok cfg ps lru" and "map_of ps p \<noteq> None"
    and "within_slots cfg st"
  shows "table_ok cfg (map_put p st ps) lru"
  using assms length_map_put [of ps p st]
  by (auto simp: table_ok_def slots_put map_has_def)

lemma table_add:
  assumes "table_ok cfg ps lru" and "map_of ps p = None" and "length ps < max_peer_states cfg"
    and "candidate_inflight st = 0"
  shows "table_ok cfg (map_put p st ps) (lru @ [p])"
  using assms length_map_put [of ps p st]
  by (auto simp: table_ok_def slots_put within_slots_def map_has_def)

lemma table_touch: "table_ok cfg ps lru \<Longrightarrow> p \<in> set lru \<Longrightarrow> table_ok cfg ps (lru_touch p lru)"
  by (auto simp: table_ok_def lru_touch_def)

lemma table_drop: "table_ok cfg ps lru \<Longrightarrow> table_ok cfg (map_erase p ps) (filter (\<lambda>q. q \<noteq> p) lru)"
  using le_trans [OF length_map_erase_le [of p ps]] by (auto simp: table_ok_def slots_erase)

text \<open>What a call of \<open>find_or_create_peer\<close> leaves: the bans as they were, the slots as they were.\<close>

definition same_bans :: "defense \<Rightarrow> defense \<Rightarrow> bool" where
  "same_bans s s' \<longleftrightarrow> bans s' = bans s \<and> ban_expiries s' = ban_expiries s \<and>
     ban_overflow_until s' = ban_overflow_until s \<and> global_inflight s' = global_inflight s"

lemma create_ok:
  assumes "table_ok cfg (peers s) (peer_lru s)" and "map_of (peers s) p = None"
    and "drop_idle cutoff (peers s) (peer_lru s) = (ps1, lru1)"
    and "make_room (max_peer_states cfg) 0 ps1 lru1 = (ps2, lru2)"
  shows "table_ok cfg ps2 lru2 \<and> total_inflight ps2 = total_inflight (peers s) \<and> map_of ps2 p = None"
proof -
  have 1: "table_ok cfg ps1 lru1 \<and> total_inflight ps1 = total_inflight (peers s) \<and> set lru1 \<subseteq> set (peer_lru s)"
    by (rule drop_idle_ok [OF assms(1,3)])
  then have 2: "table_ok cfg ps2 lru2 \<and> total_inflight ps2 = total_inflight ps1 \<and> set lru2 \<subseteq> set lru1"
    using make_room_ok [OF _ assms(4)] by blast
  have "p \<notin> set (peer_lru s)" using assms(1,2) by (auto simp: table_ok_def)
  then have "p \<notin> set lru2" using 1 2 by blast
  then have "map_of ps2 p = None" using 2 by (auto simp: table_ok_def)
  then show ?thesis using 1 2 by simp
qed

lemma find_or_create_ok:
  assumes "table_ok cfg (peers s) (peer_lru s)" and "find_or_create_peer cfg p now s = (r, s')"
  shows "table_ok cfg (peers s') (peer_lru s') \<and> total_inflight (peers s') = total_inflight (peers s) \<and>
    same_bans s s' \<and> (\<forall>st. r = Some st \<longrightarrow> map_of (peers s') p = Some st)"
proof -
  have created: "table_ok cfg (peers t') (peer_lru t') \<and> total_inflight (peers t') = total_inflight (peers t) \<and>
    same_bans t t' \<and> (\<forall>st. r = Some st \<longrightarrow> map_of (peers t') p = Some st)"
    if t: "table_ok cfg (peers t) (peer_lru t)" "map_of (peers t) p = None" "create_peer cfg p now t = (r, t')" for t t'
  proof -
    obtain ps1 lru1 where d: "drop_idle (now - kPeerStateTtl) (peers t) (peer_lru t) = (ps1, lru1)" by fastforce
    obtain ps2 lru2 where m: "make_room (max_peer_states cfg) 0 ps1 lru1 = (ps2, lru2)" by fastforce
    have c: "table_ok cfg ps2 lru2" "total_inflight ps2 = total_inflight (peers t)" "map_of ps2 p = None"
      using create_ok [OF t(1,2) d m] by simp_all
    have "total_inflight (map_put p (new_peer now) ps2) = total_inflight ps2"
      using total_map_put [of ps2 p "new_peer now"] c by (simp add: table_ok_def new_peer_def)
    then show ?thesis
      using t(3) d m c table_add [OF c(1,3), of "new_peer now"]
      by (auto simp: create_peer_def same_bans_def new_peer_def not_le split: if_splits)
  qed
  have mo: "map_ok (peers s)" using assms(1) by (simp add: table_ok_def)
  show ?thesis
  proof (cases "map_of (peers s) p")
    case None
    then show ?thesis using created [OF assms(1) None] assms(2) by (simp add: find_or_create_peer_def)
  next
    case (Some st)
    show ?thesis
    proof (cases "candidate_inflight st = 0 \<and> last_activity st < now - kPeerStateTtl")
      case True
      have "total_inflight (map_erase p (peers s)) = total_inflight (peers s)"
        using total_map_erase [OF mo, of p] Some True by simp
      then show ?thesis
        using created [of "erase_peer p s" s'] table_drop [OF assms(1), of p] assms(2) Some True
        by (simp add: find_or_create_peer_def erase_peer_def same_bans_def)
    next
      case False
      then have e: "r = Some (st\<lparr>last_activity := now\<rparr>)" "s' = touch_peer p st now s" using assms(2) Some by (auto simp: find_or_create_peer_def)
      have "p \<in> set (peer_lru s)" using Some assms(1) by (auto simp: table_ok_def)
      moreover have "within_slots cfg (st\<lparr>last_activity := now\<rparr>)"
        using Some assms(1) unfolding table_ok_def slots_ok_def by (simp add: within_slots_def)
      ultimately show ?thesis
        using e total_map_put [OF mo, of p "st\<lparr>last_activity := now\<rparr>"] Some
          table_put [OF table_touch [OF assms(1), of p], of p "st\<lparr>last_activity := now\<rparr>"]
        by (simp add: touch_peer_def same_bans_def)
    qed
  qed
qed

section \<open>Bans and their index\<close>

lemma indexed_put: "indexed (map_put e ps es) = (\<lambda>p e'. if e' = e then p \<in> set ps else indexed es p e')"
  by (rule ext)+ (simp add: indexed_def)

lemma indexed_erase: "indexed (map_erase e es) = (\<lambda>p e'. e' \<noteq> e \<and> indexed es p e')"
  by (rule ext)+ (simp add: indexed_def)

lemma banned_until_put:
  "banned_until (map_put q b bs) = (\<lambda>p e. if p = q then ban_expires b = e else banned_until bs p e)"
  by (rule ext)+ (simp add: banned_until_def)

lemma banned_until_erase: "banned_until (map_erase q bs) = (\<lambda>p e. p \<noteq> q \<and> banned_until bs p e)"
  by (rule ext)+ (simp add: banned_until_def)

lemmas index_simps = indexed_put indexed_erase banned_until_put banned_until_erase

lemma index_erase:
  assumes "index_ok (bans s) (ban_expiries s)" and "map_of (bans s) p = Some b"
  shows "index_ok (bans (erase_ban p b s)) (ban_expiries (erase_ban p b s))"
proof -
  let ?e = "ban_expires b"
  have ix: "indexed (ban_expiries s) = banned_until (bans s)" using assms(1) by (simp add: index_ok_def)
  have un: "banned_until (bans s) p e \<longleftrightarrow> e = ?e" for e using assms(2) by (auto simp: banned_until_def)
  then have "indexed (ban_expiries s) p ?e" by (simp add: ix)
  then obtain ps where ps: "map_of (ban_expiries s) ?e = Some ps" "p \<in> set ps"
    by (auto simp: indexed_def split: option.splits)
  have mem: "q \<in> set ps \<longleftrightarrow> banned_until (bans s) q ?e" for q
    using ps by (simp add: ix [symmetric] indexed_def)
  have "indexed (ban_expiries (erase_ban p b s)) = (\<lambda>q e. q \<noteq> p \<and> banned_until (bans s) q e)"
  proof (rule ext)+
    fix q e
    show "indexed (ban_expiries (erase_ban p b s)) q e = (q \<noteq> p \<and> banned_until (bans s) q e)"
      using ps mem un
      by (cases "set_erase p ps = []")
        (auto simp: erase_ban_def index_simps ix set_erase_eq_Nil_iff)
  qed
  then show ?thesis using assms(1) ps
    by (auto simp: index_ok_def erase_ban_def index_simps split: if_splits)
qed

lemma index_add:
  assumes "index_ok (bans s) (ban_expiries s)" and "map_of (bans s) (ban_peer b) = None"
  shows "index_ok (bans (add_ban b s)) (ban_expiries (add_ban b s))"
proof -
  define ps where "ps = (case map_of (ban_expiries s) (ban_expires b) of None \<Rightarrow> [] | Some ps \<Rightarrow> ps)"
  have es: "ban_expiries (add_ban b s) = map_put (ban_expires b) (set_insert (ban_peer b) ps) (ban_expiries s)"
    by (simp add: add_ban_def ps_def)
  have bs: "bans (add_ban b s) = map_put (ban_peer b) b (bans s)" by (simp add: add_ban_def)
  have ok: "set_ok ps" "set_insert (ban_peer b) ps \<noteq> []"
    using assms(1) by (auto simp: ps_def index_ok_def set_insert_def split: option.splits)
  have ix: "indexed (ban_expiries s) = banned_until (bans s)" using assms(1) by (simp add: index_ok_def)
  have mem: "p \<in> set ps \<longleftrightarrow> banned_until (bans s) p (ban_expires b)" for p
    by (simp add: ps_def ix [symmetric] indexed_def split: option.splits)
  have none: "\<not> banned_until (bans s) (ban_peer b) e" for e using assms(2) by (simp add: banned_until_def)
  have "indexed (ban_expiries (add_ban b s)) = banned_until (bans (add_ban b s))"
    by (rule ext)+ (auto simp: es bs index_simps mem ix none)
  then show ?thesis using assms(1) ok by (auto simp: index_ok_def es bs split: if_splits)
qed

lemma insert_ban_ok:
  assumes "index_ok (bans s) (ban_expiries s)" and "length (bans s) \<le> max_active_bans cfg"
    and "insert_ban cfg b s = (ok, s')"
  shows "ok \<and> index_ok (bans s') (ban_expiries s') \<and> length (bans s') \<le> max_active_bans cfg \<and>
    peers s' = peers s \<and> peer_lru s' = peer_lru s \<and> global_inflight s' = global_inflight s \<and>
    covered_until (ban_peer b) (ban_expires b) s'"
proof -
  define t where "t = (case map_of (bans s) (ban_peer b) of None \<Rightarrow> s | Some old \<Rightarrow> erase_ban (ban_peer b) old s)"
  have t: "index_ok (bans t) (ban_expiries t)" "map_of (bans t) (ban_peer b) = None"
    "length (bans t) \<le> max_active_bans cfg" "peers t = peers s" "peer_lru t = peer_lru s"
    "global_inflight t = global_inflight s"
    using assms(1,2) index_erase le_trans [OF length_map_erase_le [of "ban_peer b" "bans s"]]
    by (auto simp: t_def erase_ban_def split: option.splits)
  have "length (bans (add_ban b t)) = Suc (length (bans t))"
    using t(1,2) by (simp add: add_ban_def length_map_put index_ok_def map_has_def)
  then show ?thesis
    using assms(3) t index_add [OF t(1,2)] unfolding insert_ban_def Let_def t_def [symmetric]
    by (auto simp: add_ban_def covered_until_def map_has_def not_le split: if_splits option.splits)
qed

lemma foldl_erase:
  "map_of (foldl (\<lambda>b p. map_erase p b) bs ps) = (\<lambda>p. if p \<in> set ps then None else map_of bs p) \<and>
   (map_ok bs \<longrightarrow> map_ok (foldl (\<lambda>b p. map_erase p b) bs ps)) \<and>
   length (foldl (\<lambda>b p. map_erase p b) bs ps) \<le> length bs"
proof (induction ps arbitrary: bs)
  case Nil
  show ?case by simp
next
  case (Cons q ps)
  show ?case using Cons.IH [of "map_erase q bs"] le_trans [OF _ length_map_erase_le [of q bs]]
    by (auto simp: fun_eq_iff)
qed

definition unexpired :: "int \<Rightarrow> ban_record option \<Rightarrow> ban_record option" where
  "unexpired now r = (case r of None \<Rightarrow> None | Some b \<Rightarrow> if ban_expires b \<le> now then None else Some b)"

lemma expire_loop_ok:
  "index_ok bs es \<Longrightarrow> expire_loop now bs es = (bs', es') \<Longrightarrow>
   index_ok bs' es' \<and> length bs' \<le> length bs \<and> map_of bs' = (\<lambda>p. unexpired now (map_of bs p))"
proof (induction now bs es rule: expire_loop.induct)
  case (1 now bs)
  have none: "map_of bs p = None" for p
  proof (rule ccontr)
    assume "map_of bs p \<noteq> None"
    then obtain b where "map_of bs p = Some b" by auto
    then have "indexed [] p (ban_expires b)" using "1.prems"(1) by (simp add: index_ok_def banned_until_def)
    then show False by (simp add: indexed_def)
  qed
  then show ?case using 1 by (simp add: unexpired_def fun_eq_iff)
next
  case (2 now bs e ps rest)
  have mo: "map_ok ((e, ps) # rest)" and ix: "indexed ((e, ps) # rest) = banned_until bs"
    using "2.prems"(1) by (simp_all add: index_ok_def)
  have later: "e < e'" if "map_of rest e' = Some x" for e' x
    using mo map_of_SomeD [OF that] by (auto simp: map_ok_Cons)
  show ?case
  proof (cases "e \<le> now")
    case False
    have "e \<le> ban_expires b" if "map_of bs p = Some b" for p b
    proof -
      have "indexed ((e, ps) # rest) p (ban_expires b)" using that by (simp add: ix banned_until_def)
      then show ?thesis by (auto simp: indexed_def split: if_splits option.splits dest: later)
    qed
    then have "unexpired now (map_of bs p) = map_of bs p" for p
      using False by (fastforce simp: unexpired_def split: option.splits)
    then show ?thesis using 2 False by simp
  next
    case True
    let ?bs = "foldl (\<lambda>b p. map_erase p b) bs ps"
    have f: "map_of ?bs = (\<lambda>p. if p \<in> set ps then None else map_of bs p)" "map_ok ?bs" "length ?bs \<le> length bs"
      using foldl_erase [of bs ps] "2.prems"(1) by (simp_all add: index_ok_def)
    have mem: "p \<in> set ps \<longleftrightarrow> banned_until bs p e" for p by (simp add: ix [symmetric] indexed_def)
    have "map_of rest e = None" using later [of e] by (cases "map_of rest e") auto
    then have "indexed rest = banned_until ?bs"
    proof (intro ext)
      fix p e'
      have "indexed rest p e' \<longleftrightarrow> e' \<noteq> e \<and> indexed ((e, ps) # rest) p e'"
        using \<open>map_of rest e = None\<close> by (auto simp: indexed_def)
      also have "\<dots> \<longleftrightarrow> banned_until ?bs p e'"
        unfolding ix by (auto simp: f mem banned_until_def split: option.splits)
      finally show "indexed rest p e' = banned_until ?bs p e'" .
    qed
    moreover have "x \<noteq> [] \<and> set_ok x" if "map_of rest e' = Some x" for e' x
      using "2.prems"(1) that later [OF that] by (auto simp: index_ok_def split: if_splits)
    ultimately have "index_ok ?bs rest" using f(2) mo by (auto simp: index_ok_def map_ok_Cons)
    then have "index_ok bs' es'" "length bs' \<le> length ?bs" "map_of bs' = (\<lambda>p. unexpired now (map_of ?bs p))"
      using "2.IH" [OF True] "2.prems"(2) True by simp_all
    moreover have "unexpired now (map_of ?bs p) = unexpired now (map_of bs p)" for p
      using True by (auto simp: f mem unexpired_def banned_until_def split: option.splits)
    ultimately show ?thesis using f(3) by simp
  qed
qed

lemma expire_bans_ok:
  assumes "index_ok (bans s) (ban_expiries s)"
  shows "index_ok (bans (expire_bans now s)) (ban_expiries (expire_bans now s)) \<and>
    length (bans (expire_bans now s)) \<le> length (bans s) \<and>
    map_of (bans (expire_bans now s)) = (\<lambda>p. unexpired now (map_of (bans s) p)) \<and>
    peers (expire_bans now s) = peers s \<and> peer_lru (expire_bans now s) = peer_lru s \<and>
    global_inflight (expire_bans now s) = global_inflight s"
  using expire_loop_ok [OF assms]
  by (cases "expire_loop now (bans s) (ban_expiries s)") (simp add: expire_bans_def)

lemma observe_hammer_ok:
  assumes "index_ok (bans s) (ban_expiries s)" and "length (bans s) \<le> max_active_bans cfg"
    and "observe_hammer rnd cfg p h rate steady_now wall_now count s = (created, h', s')"
  shows "index_ok (bans s') (ban_expiries s') \<and> length (bans s') \<le> max_active_bans cfg \<and>
    peers s' = peers s \<and> peer_lru s' = peer_lru s \<and> global_inflight s' = global_inflight s \<and>
    (\<forall>b. created = Some b \<longrightarrow> fresh_ban cfg p wall_now b s')"
  using assms unfolding observe_hammer_def Let_def
  by (auto simp: fresh_ban_def split: if_splits prod.splits dest!: insert_ban_ok [OF assms(1,2)])

section \<open>Every operation keeps the invariant\<close>

lemma put_inflight:
  assumes "table_ok cfg ps lru" and "map_of ps p = Some st" and "within_slots cfg st'"
  shows "table_ok cfg (map_put p st' ps) lru \<and>
    total_inflight (map_put p st' ps) + candidate_inflight st = total_inflight ps + candidate_inflight st'"
  using table_put [OF assms(1) _ assms(3), of p] total_map_put [of ps p st'] assms
  by (simp add: table_ok_def)

lemma table_within: "table_ok cfg ps lru \<Longrightarrow> map_of ps p = Some st \<Longrightarrow> within_slots cfg st"
  by (auto simp: table_ok_def slots_ok_def)

lemma defense_ok_expire: "defense_ok cfg s \<Longrightarrow> defense_ok cfg (expire_bans now s)"
  using expire_bans_ok [of s now] by (auto simp: defense_ok_def)

lemma defense_ok_find:
  assumes "defense_ok cfg s" and "find_or_create_peer cfg p now s = (r, s')"
  shows "defense_ok cfg s' \<and> bans s' = bans s \<and> ban_overflow_until s' = ban_overflow_until s \<and>
    (\<forall>st. r = Some st \<longrightarrow> map_of (peers s') p = Some st)"
  using find_or_create_ok [OF _ assms(2)] assms(1) by (auto simp: defense_ok_def same_bans_def)

lemma defense_ok_observe:
  assumes "defense_ok cfg s" and "observe_hammer rnd cfg p h rate steady_now wall_now count s = (created, h', s')"
  shows "defense_ok cfg s' \<and> peers s' = peers s \<and> global_inflight s' = global_inflight s \<and>
    (\<forall>b. created = Some b \<longrightarrow> fresh_ban cfg p wall_now b s')"
  using observe_hammer_ok [OF _ _ assms(2)] assms(1) by (auto simp: defense_ok_def)

lemma defense_ok_insert:
  assumes "defense_ok cfg s" and "insert_ban cfg b s = (ok, s')"
  shows "ok \<and> defense_ok cfg s' \<and> covered_until (ban_peer b) (ban_expires b) s'"
  using insert_ban_ok [OF _ _ assms(2)] assms(1) by (auto simp: defense_ok_def)

lemma defense_ok_put:
  assumes "defense_ok cfg s" and "map_of (peers s) p = Some st" and "candidate_inflight st' = candidate_inflight st"
  shows "defense_ok cfg (s\<lparr>peers := map_put p st' (peers s)\<rparr>)"
proof -
  have "within_slots cfg st'"
    using table_within [of cfg "peers s" "peer_lru s" p st] assms by (simp add: defense_ok_def within_slots_def)
  then show ?thesis using put_inflight [of cfg "peers s" "peer_lru s" p st st'] assms
    by (auto simp: defense_ok_def)
qed

lemma defense_ok_admit_rate:
  assumes "defense_ok cfg s" and "\<And>b h st. candidate_inflight (upd b h st) = candidate_inflight st"
    and "admit_rate rnd cfg bkt ham upd rate burst p steady_now wall_now s = (allowed, created, s')"
  shows "defense_ok cfg s' \<and> (\<forall>b. created = Some b \<longrightarrow> \<not> allowed \<and> fresh_ban cfg p wall_now b s')"
proof (cases "enabled cfg \<and> \<not> refused p (expire_bans wall_now s)")
  case False
  then show ?thesis using assms defense_ok_expire [OF assms(1)]
    by (auto simp: admit_rate_def Let_def split: if_splits)
next
  case True
  let ?s = "expire_bans wall_now s"
  obtain r s1 where f: "find_or_create_peer cfg p steady_now ?s = (r, s1)" by fastforce
  have s1: "defense_ok cfg s1" "\<And>st. r = Some st \<Longrightarrow> map_of (peers s1) p = Some st"
    using defense_ok_find [OF defense_ok_expire [OF assms(1)] f] by auto
  show ?thesis
  proof (cases r)
    case None
    then show ?thesis using assms(3) True f s1 by (simp add: admit_rate_def Let_def)
  next
    case (Some st)
    obtain c h s2 where o: "observe_hammer rnd cfg p (ham st) rate steady_now wall_now True s1 = (c, h, s2)"
      by (metis prod_cases3)
    have s2: "defense_ok cfg s2" "map_of (peers s2) p = Some st" "\<And>b. c = Some b \<Longrightarrow> fresh_ban cfg p wall_now b s2"
      using defense_ok_observe [OF s1(1) o] s1(2) [OF Some] by auto
    obtain b where "s' = s2\<lparr>peers := map_put p (upd b h st) (peers s2)\<rparr>" "created = c"
      "allowed \<longrightarrow> c = None"
      using assms(3) True f Some o
      by (auto simp: admit_rate_def Let_def split: if_splits prod.splits)
    then show ?thesis using defense_ok_put [OF s2(1,2) assms(2)] s2(3)
      by (auto simp: fresh_ban_def covered_until_def)
  qed
qed

lemma defense_ok_finished:
  assumes "defense_ok cfg s"
  shows "defense_ok cfg (candidate_finished cfg p now s)"
proof (cases "enabled cfg \<and> (\<exists>st. map_of (peers s) p = Some st \<and> candidate_inflight st \<noteq> 0)")
  case False
  then show ?thesis using assms by (auto simp: candidate_finished_def split: option.splits)
next
  case True
  then obtain st where st: "map_of (peers s) p = Some st" "candidate_inflight st \<noteq> 0" by auto
  let ?st = "st\<lparr>candidate_inflight := candidate_inflight st - 1, last_activity := now\<rparr>"
  have t: "table_ok cfg (peers s) (lru_touch p (peer_lru s))"
    using assms st by (intro table_touch) (auto simp: defense_ok_def table_ok_def)
  have "within_slots cfg ?st" using table_within [OF t st(1)] by (auto simp: within_slots_def)
  then show ?thesis using put_inflight [OF t st(1), of ?st] assms True st
    by (auto simp: candidate_finished_def touch_peer_def defense_ok_def)
qed




lemma covered_insert:
  assumes "covered_until p e s" and "insert_ban cfg b s = (ok, s')"
    and "ban_peer b = p \<Longrightarrow> e \<le> ban_expires b"
  shows "covered_until p e s'"
proof -
  define t where "t = (case map_of (bans s) (ban_peer b) of None \<Rightarrow> s | Some old \<Rightarrow> erase_ban (ban_peer b) old s)"
  have "ban_overflow_until t = ban_overflow_until s" "ban_peer b \<noteq> p \<Longrightarrow> map_of (bans t) p = map_of (bans s) p"
    by (auto simp: t_def erase_ban_def split: option.splits)
  then have "ban_peer b = p \<and> e \<le> ban_expires b \<or> ban_peer b \<noteq> p \<and> covered_until p e t"
    using assms(1,3) by (cases "ban_peer b = p") (simp_all add: covered_until_def)
  then show ?thesis
    using assms(2) unfolding insert_ban_def Let_def t_def [symmetric]
    by (auto simp: add_ban_def covered_until_def split: if_splits option.splits)
qed

lemma covered_observe:
  assumes "covered_until p e s" and "q \<noteq> p"
    and "observe_hammer rnd cfg q h rate steady_now wall_now count s = (created, h', s')"
  shows "covered_until p e s'"
  using assms(1-3) unfolding observe_hammer_def Let_def
  by (auto split: if_splits prod.splits dest!: covered_insert [OF assms(1)])


text \<open>What \<open>admit_candidate\<close> does after it has a peer state.\<close>

lemma admit_candidate_step:
  assumes "defense_ok cfg s" and "enabled cfg" and "\<not> refused p (expire_bans wall_now s)"
    and "find_or_create_peer cfg p steady_now (expire_bans wall_now s) = (Some st, s1)"
    and "admit_candidate rnd cfg p steady_now wall_now s = (allowed, created, s')"
  obtains s3 b h where "defense_ok cfg s3" "peers s3 = peers s1" "global_inflight s3 = global_inflight s1"
    "\<And>x. created = Some x \<Longrightarrow> fresh_ban cfg p wall_now x s3" "allowed \<Longrightarrow> created = None"
    "\<And>q e. q \<noteq> p \<Longrightarrow> covered_until q e s1 \<Longrightarrow> covered_until q e s3"
    "allowed \<Longrightarrow> candidate_global_cap cfg \<noteq> 0 \<Longrightarrow> global_inflight s1 < unat (candidate_global_cap cfg)"
    "allowed \<Longrightarrow> candidate_inflight_per_ip cfg \<noteq> 0 \<Longrightarrow>
       candidate_inflight st < unat (candidate_inflight_per_ip cfg)"
    "s' = s3\<lparr>peers := map_put p (st\<lparr>candidates := b, candidate_hammer := h,
       candidate_inflight := candidate_inflight st + (if allowed then 1 else 0)\<rparr>) (peers s3),
       global_inflight := global_inflight s3 + (if allowed then 1 else 0)\<rparr>"
proof -
  define rate where "rate = rnd (of_nat (unat (candidate_rate_per_minute cfg)) / 60)"
  define limited where "limited = (candidate_rate_per_minute cfg \<noteq> 0)"
  have ok1: "defense_ok cfg s1" using defense_ok_find [OF defense_ok_expire [OF assms(1)] assms(4)] by simp
  obtain c1 h1 s2 where o1: "(if limited
      then observe_hammer rnd cfg p (candidate_hammer st) rate steady_now wall_now False s1
      else (None, candidate_hammer st, s1)) = (c1, h1, s2)"
    by (metis prod_cases3)
  have ok2: "defense_ok cfg s2 \<and> peers s2 = peers s1 \<and> global_inflight s2 = global_inflight s1 \<and>
      (\<forall>b. c1 = Some b \<longrightarrow> fresh_ban cfg p wall_now b s2)"
    using o1 ok1 by (auto split: if_splits dest!: defense_ok_observe [OF ok1])
  define capped where "capped = candidate_capped cfg st s2"
  obtain ra b where c: "(if limited
      then consume rnd (candidates st) rate (of_nat (unat (candidate_burst cfg))) steady_now
      else (True, candidates st)) = (ra, b)"
    by fastforce
  obtain c2 h2 s3 where o2: "(if c1 = None \<and> (capped \<or> \<not> ra) \<and> limited
      then observe_hammer rnd cfg p h1 rate steady_now wall_now True s2 else (c1, h1, s2)) = (c2, h2, s3)"
    by (metis prod_cases3)
  have ok3: "defense_ok cfg s3 \<and> peers s3 = peers s1 \<and> global_inflight s3 = global_inflight s1 \<and>
      (\<forall>b. c2 = Some b \<longrightarrow> fresh_ban cfg p wall_now b s3)"
    using o2 ok2 by (auto split: if_splits dest!: defense_ok_observe [of cfg s2])
  have cov2: "covered_until q e s2" if "q \<noteq> p" "covered_until q e s1" for q e
    using o1 that covered_observe [OF that(2) that(1) [symmetric]] by (auto split: if_splits)
  have cov: "covered_until q e s3" if "q \<noteq> p" "covered_until q e s1" for q e
    using o2 covered_observe [OF cov2 [OF that] that(1) [symmetric]] cov2 [OF that] by (auto split: if_splits)
  define ok where "ok = (c2 = None \<and> \<not> capped \<and> ra)"
  have "admit_candidate rnd cfg p steady_now wall_now s = (ok, c2, s3\<lparr>peers := map_put p
      (st\<lparr>candidates := b, candidate_hammer := h2, candidate_inflight := candidate_inflight st + (if ok then 1 else 0)\<rparr>)
      (peers s3), global_inflight := global_inflight s3 + (if ok then 1 else 0)\<rparr>)"
    unfolding admit_candidate_def Let_def limited_def [symmetric] rate_def [symmetric]
    by (simp add: assms(2-4) o1 c capped_def [symmetric] o2 ok_def [symmetric] split del: if_split)
  then have "allowed = ok" "created = c2" "s' = s3\<lparr>peers := map_put p
      (st\<lparr>candidates := b, candidate_hammer := h2, candidate_inflight := candidate_inflight st + (if ok then 1 else 0)\<rparr>)
      (peers s3), global_inflight := global_inflight s3 + (if ok then 1 else 0)\<rparr>"
    using assms(5) by simp_all
  then show thesis using that [where ?s3.0 = s3 and ?b = b and ?h = h2] ok3 ok2 cov by (auto simp: ok_def capped_def candidate_capped_def)
qed

lemma defense_ok_admit_candidate:
  assumes "defense_ok cfg s" and "admit_candidate rnd cfg p steady_now wall_now s = (allowed, created, s')"
  shows "defense_ok cfg s' \<and> (\<forall>b. created = Some b \<longrightarrow> \<not> allowed \<and> fresh_ban cfg p wall_now b s')"
proof (cases "enabled cfg \<and> \<not> refused p (expire_bans wall_now s)")
  case False
  then show ?thesis using assms defense_ok_expire [OF assms(1)]
    by (auto simp: admit_candidate_def Let_def split: if_splits)
next
  case True
  obtain r s1 where f: "find_or_create_peer cfg p steady_now (expire_bans wall_now s) = (r, s1)" by fastforce
  have s1: "defense_ok cfg s1" "\<And>st. r = Some st \<Longrightarrow> map_of (peers s1) p = Some st"
    using defense_ok_find [OF defense_ok_expire [OF assms(1)] f] by auto
  show ?thesis
  proof (cases r)
    case None
    then show ?thesis using assms(2) True f s1 by (simp add: admit_candidate_def Let_def)
  next
    case (Some st)
    obtain s3 b h where s3: "defense_ok cfg s3" "peers s3 = peers s1" "global_inflight s3 = global_inflight s1"
      "\<And>x. created = Some x \<Longrightarrow> fresh_ban cfg p wall_now x s3" "allowed \<Longrightarrow> created = None"
      "\<And>q e. q \<noteq> p \<Longrightarrow> covered_until q e s1 \<Longrightarrow> covered_until q e s3"
      "allowed \<Longrightarrow> candidate_global_cap cfg \<noteq> 0 \<Longrightarrow> global_inflight s1 < unat (candidate_global_cap cfg)"
      "allowed \<Longrightarrow> candidate_inflight_per_ip cfg \<noteq> 0 \<Longrightarrow>
         candidate_inflight st < unat (candidate_inflight_per_ip cfg)"
      and s': "s' = s3\<lparr>peers := map_put p (st\<lparr>candidates := b, candidate_hammer := h,
         candidate_inflight := candidate_inflight st + (if allowed then 1 else 0)\<rparr>) (peers s3),
         global_inflight := global_inflight s3 + (if allowed then 1 else 0)\<rparr>"
      by (rule admit_candidate_step [OF assms(1) _ _ f [unfolded Some] assms(2)]) (use True in auto)
    let ?st = "st\<lparr>candidates := b, candidate_hammer := h,
       candidate_inflight := candidate_inflight st + (if allowed then 1 else 0)\<rparr>"
    have st: "map_of (peers s3) p = Some st" using s1(2) [OF Some] s3(2) by simp
    have t: "table_ok cfg (peers s3) (peer_lru s3)" using s3(1) by (simp add: defense_ok_def)
    have "within_slots cfg ?st" using table_within [OF t st] s3(8)
      by (cases allowed; cases "candidate_inflight_per_ip cfg = 0") (auto simp: within_slots_def)
    then show ?thesis using put_inflight [OF t st, of ?st] s3(1-5) s3(7) s'
      by (auto simp: defense_ok_def fresh_ban_def covered_until_def)
  qed
qed

lemma defense_ok_record:
  assumes "defense_ok cfg s" and "record_abuse cfg p kind steady_now wall_now s = (created, s')"
  shows "defense_ok cfg s' \<and> (\<forall>b. created = Some b \<longrightarrow> fresh_ban cfg p wall_now b s')"
proof (cases "enabled cfg \<and> \<not> refused p (expire_bans wall_now s)")
  case False
  then show ?thesis using assms defense_ok_expire [OF assms(1)]
    by (auto simp: record_abuse_def Let_def split: if_splits)
next
  case True
  obtain r s1 where f: "find_or_create_peer cfg p steady_now (expire_bans wall_now s) = (r, s1)" by fastforce
  have s1: "defense_ok cfg s1" "\<And>st. r = Some st \<Longrightarrow> map_of (peers s1) p = Some st"
    using defense_ok_find [OF defense_ok_expire [OF assms(1)] f] by auto
  show ?thesis
  proof (cases r)
    case None
    then show ?thesis using assms(2) True f s1 by (simp add: record_abuse_def Let_def)
  next
    case (Some st)
    have "defense_ok cfg (s1\<lparr>peers := map_put p (st\<lparr>evidence := ev\<rparr>) (peers s1)\<rparr>)" for ev
      by (rule defense_ok_put [OF s1(1) s1(2) [OF Some]]) simp
    note ok = this
    show ?thesis using assms(2) True f Some ok
      by (auto simp: record_abuse_def Let_def fresh_ban_def split: if_splits prod.splits dest!: defense_ok_insert [OF ok])
  qed
qed

section \<open>The engine as a state machine\<close>

text \<open>One step per public operation, with the clocks it reads; the label is the ban it reports.\<close>

inductive defense_step :: "(rat \<Rightarrow> rat) \<Rightarrow> defense_config \<Rightarrow> defense \<Rightarrow> ban_record option \<Rightarrow> defense \<Rightarrow> bool"
  for rnd cfg where
  step_connection: "admit_connection rnd cfg p t w s = (a, c, s') \<Longrightarrow> defense_step rnd cfg s c s'"
| step_request: "admit_request rnd cfg p t w s = (a, c, s') \<Longrightarrow> defense_step rnd cfg s c s'"
| step_submit: "admit_submit rnd cfg p t w s = (a, c, s') \<Longrightarrow> defense_step rnd cfg s c s'"
| step_candidate: "admit_candidate rnd cfg p t w s = (a, c, s') \<Longrightarrow> defense_step rnd cfg s c s'"
| step_finished: "defense_step rnd cfg s None (candidate_finished cfg p t s)"
| step_record: "record_abuse cfg p kind t w s = (c, s') \<Longrightarrow> defense_step rnd cfg s c s'"
| step_banned: "banned cfg p w s = (a, s') \<Longrightarrow> defense_step rnd cfg s None s'"
| step_restore: "defense_step rnd cfg s None (restore_ban cfg b w s)"
| step_expire: "defense_step rnd cfg s None (expire_bans w s)"

inductive defense_reachable :: "(rat \<Rightarrow> rat) \<Rightarrow> defense_config \<Rightarrow> defense \<Rightarrow> bool" for rnd cfg where
  reach_start: "make_defense cfg = Inr s \<Longrightarrow> defense_reachable rnd cfg s"
| reach_step: "defense_reachable rnd cfg s \<Longrightarrow> defense_step rnd cfg s c s' \<Longrightarrow> defense_reachable rnd cfg s'"

lemma defense_ok_start: "make_defense cfg = Inr s \<Longrightarrow> defense_ok cfg s"
  by (auto simp: make_defense_def defense_ok_def table_ok_def index_ok_def slots_ok_def indexed_def
      banned_until_def total_inflight_def fun_eq_iff split: if_splits)

lemma defense_ok_step:
  "defense_step rnd cfg s c s' \<Longrightarrow> defense_ok cfg s \<Longrightarrow>
   defense_ok cfg s'"
proof (induction rule: defense_step.induct)
  case (step_connection p t w s a c s')
  show ?case
    using defense_ok_admit_rate [OF step_connection.prems _ step_connection.hyps [unfolded admit_connection_def]] by auto
next
  case (step_request p t w s a c s')
  show ?case
    using defense_ok_admit_rate [OF step_request.prems _ step_request.hyps [unfolded admit_request_def]] by auto
next
  case (step_submit p t w s a c s')
  show ?case
    using defense_ok_admit_rate [OF step_submit.prems _ step_submit.hyps [unfolded admit_submit_def]] by auto
next
  case (step_candidate p t w s a c s')
  show ?case using defense_ok_admit_candidate [OF step_candidate.prems step_candidate.hyps] by auto
next
  case (step_finished s p t)
  then show ?case by (simp add: defense_ok_finished)
next
  case (step_record p kind t w s c s')
  show ?case using defense_ok_record [OF step_record.prems step_record.hyps] by auto
next
  case (step_banned p w s a s')
  then show ?case by (auto simp: banned_def Let_def defense_ok_expire split: if_splits)
next
  case (step_restore s b w)
  then show ?case using defense_ok_insert [of cfg s b] by (cases "insert_ban cfg b s") (auto simp: restore_ban_def)
next
  case (step_expire s w)
  then show ?case by (simp add: defense_ok_expire)
qed

lemma defense_reachable_ok: "defense_reachable rnd cfg s \<Longrightarrow> defense_ok cfg s"
  by (induction rule: defense_reachable.induct) (auto dest: defense_ok_start defense_ok_step)

section \<open>A ban lasts until it expires\<close>
















section \<open>Properties\<close>

text \<open>A configuration with small limits, and the engine it starts.\<close>

definition sample_config :: defense_config where
  "sample_config = \<lparr>enabled = True, ban_seconds = 7200, connection_rate_per_minute = 60,
     connection_burst = 20, request_rate_per_second = 50, request_burst = 100,
     submit_rate_per_second = 20, submit_burst = 40, malformed_limit = 1, auth_failure_limit = 10,
     unknown_job_limit = 20, duplicate_limit = 20, abuse_window_seconds = 60,
     hammer_rate_multiplier = 4, hammer_sustain_seconds = 5, candidate_rate_per_minute = 12,
     candidate_burst = 3, candidate_inflight_per_ip = 2, candidate_global_cap = 64,
     false_candidate_limit = 3, false_candidate_window_seconds = 600,
     trusted_candidate_rejection_limit = 3, trusted_candidate_rejection_window_seconds = 600,
     verification_mismatch_limit = 10, verification_mismatch_window_seconds = 600,
     max_peer_states = 4, max_active_bans = 4\<rparr>"

definition fresh_engine :: defense where
  "fresh_engine = \<lparr>peers = [], peer_lru = [], bans = [], ban_expiries = [], ban_overflow_until = None,
     global_inflight = 0\<rparr>"

definition sample_peer :: peer_address where
  "sample_peer = PeerAddress AF_INET (pad16 [10, 0, 0, 1]) 4"

definition sample_ban :: ban_record where
  "sample_ban = \<lparr>ban_peer = sample_peer, ban_reason = Malformed, ban_created = 5,
     ban_expires = 7200000000005, ban_evidence_start = 5, ban_evidence_end = 5\<rparr>"

definition sample_banned :: defense where
  "sample_banned = snd (record_abuse sample_config sample_peer Malformed 9 5 fresh_engine)"

lemma fresh_reachable: "defense_reachable rnd sample_config fresh_engine"
  by (rule reach_start) (simp add: make_defense_def sample_config_def fresh_engine_def)

lemma sample_record: "record_abuse sample_config sample_peer Malformed 9 5 fresh_engine = (Some sample_ban, sample_banned)"
  unfolding sample_banned_def by code_simp

lemma sample_step: "defense_step rnd sample_config fresh_engine (Some sample_ban) sample_banned"
  by (rule step_record [OF sample_record])

lemma sample_banned_reachable: "defense_reachable rnd sample_config sample_banned"
  by (rule reach_step [OF fresh_reachable sample_step])

text \<open>A run of admissions on one bucket.\<close>

primrec consume_run :: "(rat \<Rightarrow> rat) \<Rightarrow> rat \<Rightarrow> rat \<Rightarrow> int \<Rightarrow> nat \<Rightarrow> token_bucket \<Rightarrow> bool list" where
  "consume_run rnd rate burst now 0 b = []"
| "consume_run rnd rate burst now (Suc n) b =
     (let (ok, b) = consume rnd b rate burst now in ok # consume_run rnd rate burst now n b)"

definition exact_on_integers :: "(rat \<Rightarrow> rat) \<Rightarrow> bool" where
  "exact_on_integers rnd \<longleftrightarrow> (\<forall>i :: int. \<bar>i\<bar> \<le> 2 ^ 53 \<longrightarrow> rnd (of_int i) = of_int i)"

lemma consume_at_once:
  assumes "exact_on_integers rnd" and "n \<le> m" and "m < 2 ^ 32"
    and "bucket_initialized b" and "updated b = now" and "tokens b = of_nat n"
  shows "consume rnd b rate (of_nat m) now =
    (if n = 0 then (False, b) else (True, b\<lparr>tokens := of_nat (n - 1)\<rparr>))"
proof -
  have ex: "rnd (of_nat k) = of_nat k" if "k \<le> m" for k
  proof -
    have "\<bar>int k\<bar> \<le> 2 ^ 53" using that assms(3) by simp
    then have "rnd (of_int (int k)) = of_int (int k)" using assms(1) by (simp only: exact_on_integers_def)
    then show ?thesis by simp
  qed
  have z: "rnd 0 = 0" using ex [of 0] by simp
  have p: "rnd (of_nat n - 1) = of_nat (n - 1)" if "n \<noteq> 0"
    using ex [of "n - 1"] that assms(2) by (simp add: of_nat_diff)
  show ?thesis
  proof (cases "n = 0")
    case True
    then show ?thesis using assms z by (simp add: consume_def)
  next
    case False
    then have "1 \<le> (of_nat n :: rat)" by simp
    then show ?thesis using assms z p ex [OF assms(2)] False by (simp add: consume_def not_less)
  qed
qed

lemma consume_run_count:
  assumes "exact_on_integers rnd" and "m < 2 ^ 32"
  shows "n \<le> m \<Longrightarrow> bucket_initialized b \<Longrightarrow> updated b = now \<Longrightarrow> tokens b = of_nat n \<Longrightarrow>
    length (filter id (consume_run rnd rate (of_nat m) now k b)) = min k n"
proof (induction k arbitrary: b n)
  case 0
  show ?case by simp
next
  case (Suc k)
  note c = consume_at_once [OF assms(1) Suc.prems(1) assms(2) Suc.prems(2-4), of rate]
  show ?case
  proof (cases "n = 0")
    case True
    then show ?thesis using c Suc.IH [of 0 b] Suc.prems by simp
  next
    case False
    then show ?thesis using c Suc.IH [of "n - 1" "b\<lparr>tokens := of_nat (n - 1)\<rparr>"] Suc.prems by auto
  qed
qed

text \<open>
  A burst is exactly a burst. On a bucket that was never used, out of any number of admissions
  asked for at one instant exactly the first \<open>burst\<close> are granted, whatever the rate, for every
  rounding that is exact on integers up to 2^53.
\<close>

theorem burst_admits_exactly:
  assumes "exact_on_integers rnd" and "\<not> bucket_initialized b"
  shows "length (filter id (consume_run rnd rate (of_nat (unat (burst :: u32))) now k b)) = min k (unat burst)"
proof -
  have "unat burst < 2 ^ LENGTH(32)" by (rule unsigned_less)
  then have m: "unat burst < 2 ^ 32" by simp
  let ?b = "b\<lparr>bucket_initialized := True, tokens := of_nat (unat burst), updated := now\<rparr>"
  have "consume rnd b rate (of_nat (unat burst)) now = consume rnd ?b rate (of_nat (unat burst)) now"
    using assms(2) by (simp add: consume_def)
  then have "consume_run rnd rate (of_nat (unat burst)) now k b = consume_run rnd rate (of_nat (unat burst)) now k ?b"
    by (cases k) simp_all
  then show ?thesis using consume_run_count [OF assms(1) m, of "unat burst" ?b now rate k] by simp
qed

text \<open>
  C29: the engine is bounded and its books balance. In every state that any sequence of its
  operations reaches from a fresh engine, under any rounding of its floating point arithmetic and
  any clock readings: the peer table and the ban table stay within their limits; the recency list
  orders exactly the known peers, each once; the global count of candidate slots is the sum over
  the peers and within its cap, as is each peer's own count; and the expiry index lists exactly the
  active bans.
\<close>

theorem defense_bounded:
  assumes "defense_reachable rnd cfg s"
  shows "peer_state_count s \<le> max_peer_states cfg \<and> active_ban_count s \<le> max_active_bans cfg \<and>
    distinct (peer_lru s) \<and> set (peer_lru s) = dom (map_of (peers s)) \<and>
    global_inflight s = (\<Sum>(p, st) \<leftarrow> peers s. candidate_inflight st) \<and>
    (candidate_global_cap cfg \<noteq> 0 \<longrightarrow> global_inflight s \<le> unat (candidate_global_cap cfg)) \<and>
    (candidate_inflight_per_ip cfg \<noteq> 0 \<longrightarrow>
       candidate_peer_inflight p s \<le> unat (candidate_inflight_per_ip cfg)) \<and>
    ((\<exists>ps. map_of (ban_expiries s) e = Some ps \<and> p \<in> set ps) \<longleftrightarrow>
     (\<exists>b. map_of (bans s) p = Some b \<and> ban_expires b = e))"
proof -
  have ok: "defense_ok cfg s" by (rule defense_reachable_ok [OF assms])
  then have "indexed (ban_expiries s) p e = banned_until (bans s) p e"
    by (simp add: defense_ok_def index_ok_def)
  then have "(\<exists>ps. map_of (ban_expiries s) e = Some ps \<and> p \<in> set ps) \<longleftrightarrow>
     (\<exists>b. map_of (bans s) p = Some b \<and> ban_expires b = e)"
    by (auto simp: indexed_def banned_until_def split: option.splits)
  moreover have "candidate_inflight_per_ip cfg \<noteq> 0 \<longrightarrow>
       candidate_peer_inflight p s \<le> unat (candidate_inflight_per_ip cfg)"
    using ok table_within [of cfg "peers s" "peer_lru s" p]
    by (auto simp: defense_ok_def candidate_peer_inflight_def within_slots_def split: option.splits)
  moreover have "total_inflight (peers s) = (\<Sum>(p, st) \<leftarrow> peers s. candidate_inflight st)"
    by (simp add: total_inflight_def case_prod_unfold comp_def)
  ultimately show ?thesis using ok
    by (auto simp: defense_ok_def table_ok_def peer_state_count_def active_ban_count_def)
qed

theorem defense_bounded_witness:
  "defense_reachable (\<lambda>x. x) sample_config sample_banned \<and> active_ban_count sample_banned \<le> 4"
  using defense_bounded [OF sample_banned_reachable [of "\<lambda>x. x"]] sample_banned_reachable [of "\<lambda>x. x"]
  by (simp add: sample_config_def)



text \<open>
  C31: a peer is refused exactly while a ban is active. On a reachable engine the query answers yes
  if and only if the peer has a ban that expires after the reading of the wall clock, or the
  fail-closed interval of a full table lasts beyond it; a disabled engine refuses nobody.
\<close>

theorem banned_exactly_while_active:
  assumes "defense_reachable rnd cfg s"
  shows "fst (banned cfg p now s) \<longleftrightarrow> enabled cfg \<and>
    ((\<exists>b. map_of (bans s) p = Some b \<and> now < ban_expires b) \<or>
     (\<exists>t. ban_overflow_until s = Some t \<and> now < t))"
proof -
  have "index_ok (bans s) (ban_expiries s)" using defense_reachable_ok [OF assms] by (simp add: defense_ok_def)
  then have "map_of (bans (expire_bans now s)) p = unexpired now (map_of (bans s) p)"
    using expire_bans_ok [of s now] by simp
  moreover have "ban_overflow_until (expire_bans now s) =
      (case ban_overflow_until s of Some t \<Rightarrow> if t \<le> now then None else Some t | None \<Rightarrow> None)"
    by (simp add: expire_bans_def split: prod.split)
  ultimately show ?thesis
    by (auto simp: banned_def Let_def refused_def map_has_def unexpired_def split: option.splits if_splits)
qed

theorem banned_exactly_while_active_witness:
  "defense_reachable (\<lambda>x. x) sample_config sample_banned \<and>
   fst (banned sample_config sample_peer 6 sample_banned) \<and>
   \<not> fst (banned sample_config sample_peer 7200000000005 sample_banned)"
proof -
  have s: "map_of (bans sample_banned) sample_peer = Some sample_ban" "ban_overflow_until sample_banned = None"
    unfolding sample_banned_def by code_simp+
  show ?thesis
    using banned_exactly_while_active [OF sample_banned_reachable [of "\<lambda>x. x"], of sample_peer 6]
      banned_exactly_while_active [OF sample_banned_reachable [of "\<lambda>x. x"], of sample_peer 7200000000005]
      sample_banned_reachable [of "\<lambda>x. x"] s
    by (simp add: sample_ban_def sample_config_def)
qed

end
