(* ===== verification/Entropy.thy ===== *)
theory Entropy
  imports Prelude
begin

text \<open>
  The random generator of src/crypto/entropy.cpp: HMAC-DRBG with its reseeding policy. The process
  environment (steady clock, process id, kernel entropy) is an argument that answers one reading
  after another; \<open>hmac\<close> stands for OpenSSL's HMAC-SHA-256, of which only the 32 byte output is used.
\<close>

section \<open>Environment\<close>

text \<open>
  \<open>clock i\<close>, \<open>process i\<close> and \<open>kernel i\<close> are what reading number \<open>i\<close> gives; \<open>Inl\<close> is what a failing entropy
  source throws. Times are nanoseconds.
\<close>

record environment =
  clock :: "nat \<Rightarrow> int"
  process :: "nat \<Rightarrow> int"
  kernel :: "nat \<Rightarrow> bytes result"
  readings :: nat

definition read_now :: "environment \<Rightarrow> int \<times> environment" where
  "read_now e = (clock e (readings e), e\<lparr>readings := Suc (readings e)\<rparr>)"

definition read_pid :: "environment \<Rightarrow> int \<times> environment" where
  "read_pid e = (process e (readings e), e\<lparr>readings := Suc (readings e)\<rparr>)"

definition read_kernel :: "environment \<Rightarrow> bytes result \<times> environment" where
  "read_kernel e = (kernel e (readings e), e\<lparr>readings := Suc (readings e)\<rparr>)"

section \<open>State\<close>

record entropy_config =
  reseed_interval_seconds :: u32
  max_reseed_age_seconds :: u32
  max_generate_calls :: u32

datatype reseed_reason = No_Reseed | Timed_Reseed | Fork_Reseed

record maintenance_result =
  attempted :: bool
  succeeded :: bool
  issuance_ok :: bool
  was_degraded :: bool
  reason :: reseed_reason

record entropy_manager =
  drbg_key :: bytes
  drbg_value :: bytes
  last_successful_reseed :: int
  next_timed_reseed_retry :: int
  generate_calls :: u64
  timed_retry_delay_seconds :: u32
  creator_pid :: int
  degraded :: bool

definition bytes_of :: "string \<Rightarrow> bytes" where
  "bytes_of s = map of_char s"

definition to_ns :: "u32 \<Rightarrow> int" where
  "to_ns s = int (unat s) * 1000000000"

definition kInstantiateDomain :: string where "kInstantiateDomain = ''monero-solo-stratum/HMAC-DRBG-SHA256/v1''"
definition kTimeReason :: string where "kTimeReason = ''reseed/time/v1''"
definition kCountReason :: string where "kCountReason = ''reseed/count/v1''"
definition kForkReason :: string where "kForkReason = ''reseed/fork/v1''"

section \<open>Operations\<close>

type_synonym hmac = "bytes \<Rightarrow> bytes \<Rightarrow> bytes"

definition update_drbg :: "hmac \<Rightarrow> bytes \<Rightarrow> entropy_manager \<Rightarrow> entropy_manager" where
  "update_drbg hmac data m =
     (let key = hmac (drbg_key m) (drbg_value m @ [0] @ data);
          val = hmac key (drbg_value m) in
      if data = [] then m\<lparr>drbg_key := key, drbg_value := val\<rparr>
      else let key' = hmac key (val @ [1] @ data) in
        m\<lparr>drbg_key := key', drbg_value := hmac key' val\<rparr>)"

definition make_entropy :: "hmac \<Rightarrow> entropy_config \<Rightarrow> environment \<Rightarrow> entropy_manager result \<times> environment" where
  "make_entropy hmac cfg e =
     (if reseed_interval_seconds cfg = 0 \<or> max_reseed_age_seconds cfg < reseed_interval_seconds cfg \<or>
         max_generate_calls cfg = 0
      then (Inl (ValidationError ''invalid entropy configuration''), e)
      else let (sample, e) = read_kernel e in
        case sample of Inl err \<Rightarrow> (Inl err, e)
        | Inr sample \<Rightarrow>
          let m = update_drbg hmac (sample @ bytes_of kInstantiateDomain)
                    \<lparr>drbg_key = replicate 32 0, drbg_value = replicate 32 1, last_successful_reseed = 0,
                     next_timed_reseed_retry = 0, generate_calls = 0, timed_retry_delay_seconds = 1,
                     creator_pid = 0, degraded = False\<rparr>;
              (t, e) = read_now e;
              (pid, e) = read_pid e in
          (Inr (m\<lparr>last_successful_reseed := t,
                  next_timed_reseed_retry := t + to_ns (reseed_interval_seconds cfg),
                  creator_pid := pid\<rparr>), e))"

definition reseed :: "hmac \<Rightarrow> entropy_config \<Rightarrow> bytes \<Rightarrow> string \<Rightarrow> entropy_manager \<Rightarrow> environment \<Rightarrow>
    entropy_manager \<times> environment" where
  "reseed hmac cfg sample why m e =
     (let m = update_drbg hmac (sample @ bytes_of why) m;
          (t, e) = read_now e;
          (pid, e) = read_pid e in
      (m\<lparr>last_successful_reseed := t, generate_calls := 0, creator_pid := pid,
         timed_retry_delay_seconds := 1,
         next_timed_reseed_retry := t + to_ns (reseed_interval_seconds cfg), degraded := False\<rparr>, e))"

definition mandatory_reseed :: "hmac \<Rightarrow> entropy_config \<Rightarrow> string \<Rightarrow> entropy_manager \<Rightarrow> environment \<Rightarrow>
    unit result \<times> entropy_manager \<times> environment" where
  "mandatory_reseed hmac cfg why m e =
     (let (sample, e) = read_kernel e in
      case sample of Inl err \<Rightarrow> (Inl err, m, e)
      | Inr sample \<Rightarrow> let (m, e) = reseed hmac cfg sample why m e in (Inr (), m, e))"

definition try_timed_reseed :: "hmac \<Rightarrow> entropy_config \<Rightarrow> int \<Rightarrow> entropy_manager \<Rightarrow> environment \<Rightarrow>
    bool \<times> entropy_manager \<times> environment" where
  "try_timed_reseed hmac cfg current m e =
     (let (sample, e) = read_kernel e in
      case sample of
        Inr sample \<Rightarrow> let (m, e) = reseed hmac cfg sample kTimeReason m e in (True, m, e)
      | Inl _ \<Rightarrow>
        (False, m\<lparr>degraded := True,
           next_timed_reseed_retry := current + to_ns (timed_retry_delay_seconds m),
           timed_retry_delay_seconds := min (timed_retry_delay_seconds m * 2) 60\<rparr>, e))"

text \<open>The output loop; the fuel is the number of bytes wanted, since every round adds 32.\<close>

primrec output_loop :: "hmac \<Rightarrow> nat \<Rightarrow> nat \<Rightarrow> bytes \<Rightarrow> bytes \<Rightarrow> bytes \<Rightarrow> bytes \<times> bytes" where
  "output_loop hmac 0 n key val out = (out, val)"
| "output_loop hmac (Suc fuel) n key val out =
     (if length out < n
      then let val = hmac key val; count = min (length val) (n - length out) in
           output_loop hmac fuel n key val (out @ take count val)
      else (out, val))"

text \<open>The part of \<open>generate\<close> after the reseeding decisions.\<close>

definition produce :: "hmac \<Rightarrow> nat \<Rightarrow> string \<Rightarrow> entropy_manager \<Rightarrow> bytes \<times> entropy_manager" where
  "produce hmac n domain m =
     (let m = update_drbg hmac (bytes_of domain) m;
          (out, val) = output_loop hmac n n (drbg_key m) (drbg_value m) [];
          m = update_drbg hmac (bytes_of domain) (m\<lparr>drbg_value := val\<rparr>) in
      (out, m\<lparr>generate_calls := generate_calls m + 1\<rparr>))"

text \<open>A reseed that is due after a fork, or after the last permitted call.\<close>

definition forced_reseeds :: "hmac \<Rightarrow> entropy_config \<Rightarrow> entropy_manager \<Rightarrow> environment \<Rightarrow>
    unit result \<times> entropy_manager \<times> environment" where
  "forced_reseeds hmac cfg m e =
     (let (pid, e) = read_pid e;
          (r, m, e) = (if pid \<noteq> creator_pid m then mandatory_reseed hmac cfg kForkReason m e else (Inr (), m, e)) in
      case r of Inl err \<Rightarrow> (Inl err, m, e)
      | Inr _ \<Rightarrow>
        if generate_calls m \<ge> ucast (max_generate_calls cfg)
        then mandatory_reseed hmac cfg kCountReason m e else (Inr (), m, e))"

definition timed_reseed_due :: "entropy_config \<Rightarrow> int \<Rightarrow> entropy_manager \<Rightarrow> bool" where
  "timed_reseed_due cfg current m \<longleftrightarrow>
     current - last_successful_reseed m \<ge> to_ns (reseed_interval_seconds cfg) \<and>
     current \<ge> next_timed_reseed_retry m"

definition generate :: "hmac \<Rightarrow> entropy_config \<Rightarrow> nat \<Rightarrow> string \<Rightarrow> entropy_manager \<Rightarrow> environment \<Rightarrow>
    bytes result \<times> entropy_manager \<times> environment" where
  "generate hmac cfg n domain m e =
     (if domain = [] then (Inl (ValidationError ''HMAC-DRBG additional domain must be nonempty''), m, e)
      else case forced_reseeds hmac cfg m e of (Inl err, m, e) \<Rightarrow> (Inl err, m, e)
      | (Inr _, m, e) \<Rightarrow>
        let (current, e) = read_now e;
            (current, m, e) = (if timed_reseed_due cfg current m
              then let (_, m, e) = try_timed_reseed hmac cfg current m e; (current, e) = read_now e in (current, m, e)
              else (current, m, e)) in
        if current - last_successful_reseed m \<ge> to_ns (max_reseed_age_seconds cfg)
        then (Inl (EntropyError ''HMAC-DRBG maximum reseed age exceeded''), m, e)
        else let (out, m) = produce hmac n domain m in (Inr out, m, e))"

definition generate_id where
  "generate_id hmac cfg = generate hmac cfg 16"

definition private_template_entropy where
  "private_template_entropy hmac cfg = generate_id hmac cfg ''private-template-entropy/v1''"

definition private_job_id where
  "private_job_id hmac cfg = generate_id hmac cfg ''private-job-id/v1''"

definition issuance_allowed :: "entropy_config \<Rightarrow> int \<Rightarrow> entropy_manager \<Rightarrow> environment \<Rightarrow> bool \<times> environment" where
  "issuance_allowed cfg current m e =
     (let (pid, e) = read_pid e in
      (pid = creator_pid m \<and> current - last_successful_reseed m < to_ns (max_reseed_age_seconds cfg), e))"

definition maintain :: "hmac \<Rightarrow> entropy_config \<Rightarrow> entropy_manager \<Rightarrow> environment \<Rightarrow>
    maintenance_result result \<times> entropy_manager \<times> environment" where
  "maintain hmac cfg m e =
     (let (pid, e) = read_pid e in
      if pid \<noteq> creator_pid m
      then (case mandatory_reseed hmac cfg kForkReason m e of
          (Inl err, m, e) \<Rightarrow> (Inl err, m, e)
        | (Inr _, m, e) \<Rightarrow>
          let (current, e) = read_now e; (allowed, e) = issuance_allowed cfg current m e in
          (Inr \<lparr>attempted = True, succeeded = True, issuance_ok = allowed,
                was_degraded = degraded m, reason = Fork_Reseed\<rparr>, m, e))
      else let (current, e) = read_now e in
        if timed_reseed_due cfg current m
        then let (ok, m, e) = try_timed_reseed hmac cfg current m e;
                 (current, e) = read_now e; (allowed, e) = issuance_allowed cfg current m e in
          (Inr \<lparr>attempted = True, succeeded = ok, issuance_ok = allowed,
                was_degraded = degraded m, reason = Timed_Reseed\<rparr>, m, e)
        else let (allowed, e) = issuance_allowed cfg current m e in
          (Inr \<lparr>attempted = False, succeeded = False, issuance_ok = allowed,
                was_degraded = degraded m, reason = No_Reseed\<rparr>, m, e))"

section \<open>The generator against its specification\<close>

text \<open>
  The reference is the generate function of HMAC-DRBG: update with the additional input, iterate
  the MAC on \<open>V\<close> and concatenate, truncate, update again.
\<close>

fun v_chain :: "hmac \<Rightarrow> bytes \<Rightarrow> bytes \<Rightarrow> nat \<Rightarrow> bytes list" where
  "v_chain hmac key v 0 = []"
| "v_chain hmac key v (Suc n) = hmac key v # v_chain hmac key (hmac key v) n"

definition spec_output :: "hmac \<Rightarrow> nat \<Rightarrow> string \<Rightarrow> entropy_manager \<Rightarrow> bytes" where
  "spec_output hmac n domain m =
     (let m = update_drbg hmac (bytes_of domain) m in
      take n (concat (v_chain hmac (drbg_key m) (drbg_value m) ((n + 31) div 32))))"

lemma output_loop_chain:
  assumes "\<And>k v. length (hmac k v) = 32" and "length out \<le> n" and "n - length out \<le> fuel"
  shows "fst (output_loop hmac fuel n key val out) =
    take n (out @ concat (v_chain hmac key val ((n - length out + 31) div 32)))"
  using assms(2,3)
proof (induction fuel arbitrary: out val)
  case 0
  then show ?case by simp
next
  case (Suc fuel)
  show ?case
  proof (cases "length out < n")
    case False
    then show ?thesis using Suc.prems by simp
  next
    case True
    let ?v = "hmac key val"
    have len: "length ?v = 32" by (rule assms(1))
    let ?c = "min 32 (n - length out)"
    have k: "(n - length out + 31) div 32 = Suc ((n - (length out + ?c) + 31) div 32)"
      using True by (auto simp: min_def) 
    have "fst (output_loop hmac (Suc fuel) n key val out) = fst (output_loop hmac fuel n key ?v (out @ take ?c ?v))"
      using True len by (simp add: Let_def)
    also have "\<dots> = take n ((out @ take ?c ?v) @ concat (v_chain hmac key ?v ((n - length (out @ take ?c ?v) + 31) div 32)))"
      using Suc.prems True len by (intro Suc.IH) auto
    also have "\<dots> = take n (out @ ?v @ concat (v_chain hmac key ?v ((n - (length out + ?c) + 31) div 32)))"
      using len True by (cases "32 \<le> n - length out") (auto simp: min_def)
    finally show ?thesis unfolding k by simp
  qed
qed

lemma length_v_chain:
  assumes "\<And>k v. length (hmac k v) = 32"
  shows "n \<le> length (concat (v_chain hmac key val ((n + 31) div 32)))"
proof -
  have "length (concat (v_chain hmac key v m)) = 32 * m" for m v
    by (induction m arbitrary: v) (simp_all add: assms)
  then show ?thesis by simp
qed

section \<open>The reseeding policy\<close>

lemmas reading_defs = read_now_def read_pid_def read_kernel_def

text \<open>What a stage of an operation does to the environment: it only reads on.\<close>

definition reads_on :: "environment \<Rightarrow> environment \<Rightarrow> bool" where
  "reads_on e e' \<longleftrightarrow> clock e' = clock e \<and> process e' = process e \<and> kernel e' = kernel e \<and> readings e \<le> readings e'"

text \<open>The generator is owned by the process whose id was read in a range of readings.\<close>

definition owned :: "environment \<Rightarrow> environment \<Rightarrow> entropy_manager \<Rightarrow> bool" where
  "owned e e' m \<longleftrightarrow> (\<exists>i. readings e \<le> i \<and> i < readings e' \<and> process e i = creator_pid m)"

lemma reads_on_trans: "reads_on a b \<Longrightarrow> reads_on b c \<Longrightarrow> reads_on a c"
  by (auto simp: reads_on_def)

lemma owned_mono: "owned b c m \<Longrightarrow> reads_on a b \<Longrightarrow> reads_on c d \<Longrightarrow> owned a d m"
  unfolding owned_def reads_on_def by (metis le_trans less_le_trans)

lemma update_drbg_keeps [simp]:
  "last_successful_reseed (update_drbg hmac d m) = last_successful_reseed m"
  "generate_calls (update_drbg hmac d m) = generate_calls m"
  "creator_pid (update_drbg hmac d m) = creator_pid m"
  "timed_retry_delay_seconds (update_drbg hmac d m) = timed_retry_delay_seconds m"
  by (simp_all add: update_drbg_def Let_def)

lemma reseed_stage:
  assumes "reseed hmac cfg sample why m e = (m', e')"
  shows "reads_on e e' \<and> owned e e' m' \<and> generate_calls m' = 0 \<and> timed_retry_delay_seconds m' = 1 \<and>
    (\<exists>i. readings e \<le> i \<and> i < readings e' \<and> last_successful_reseed m' = clock e i)"
proof -
  have m: "creator_pid m' = process e (Suc (readings e))" "last_successful_reseed m' = clock e (readings e)"
    "generate_calls m' = 0" "timed_retry_delay_seconds m' = 1"
    and e: "e' = e\<lparr>readings := Suc (Suc (readings e))\<rparr>"
    using assms by (auto simp: reseed_def reading_defs Let_def)
  have "owned e e' m'" unfolding owned_def by (rule exI [of _ "Suc (readings e)"]) (simp add: m e)
  moreover have "\<exists>i. readings e \<le> i \<and> i < readings e' \<and> last_successful_reseed m' = clock e i"
    by (rule exI [of _ "readings e"]) (simp add: m e)
  ultimately show ?thesis using m by (simp add: e reads_on_def)
qed

lemma mandatory_stage:
  assumes "mandatory_reseed hmac cfg why m e = (r, m', e')"
  shows "reads_on e e' \<and> (r = Inr () \<longrightarrow> owned e e' m' \<and> generate_calls m' = 0)"
proof (cases "kernel e (readings e)")
  case (Inl err)
  then show ?thesis using assms by (auto simp: mandatory_reseed_def read_kernel_def reads_on_def)
next
  case (Inr sample)
  let ?e = "e\<lparr>readings := Suc (readings e)\<rparr>"
  have "reseed hmac cfg sample why m ?e = (m', e')" "r = Inr ()"
    using assms Inr by (auto simp: mandatory_reseed_def read_kernel_def split: prod.splits)
  from reseed_stage [OF this(1)] have "reads_on ?e e'" "owned ?e e' m'" "generate_calls m' = 0" by auto
  moreover have "reads_on e ?e" by (simp add: reads_on_def)
  ultimately show ?thesis using reads_on_trans owned_mono [of ?e e' m' e e'] by (auto simp: reads_on_def)
qed

lemma timed_stage:
  assumes "try_timed_reseed hmac cfg current m e = (ok, m', e')"
  shows "reads_on e e' \<and> (if ok then owned e e' m' \<and> generate_calls m' = 0
    else creator_pid m' = creator_pid m \<and> generate_calls m' = generate_calls m \<and>
      last_successful_reseed m' = last_successful_reseed m)"
proof (cases "kernel e (readings e)")
  case (Inl err)
  then show ?thesis using assms by (auto simp: try_timed_reseed_def read_kernel_def reads_on_def)
next
  case (Inr sample)
  let ?e = "e\<lparr>readings := Suc (readings e)\<rparr>"
  have "reseed hmac cfg sample kTimeReason m ?e = (m', e')" "ok"
    using assms Inr by (auto simp: try_timed_reseed_def read_kernel_def split: prod.splits)
  from reseed_stage [OF this(1)] have "reads_on ?e e'" "owned ?e e' m'" "generate_calls m' = 0" by auto
  moreover have "reads_on e ?e" by (simp add: reads_on_def)
  ultimately show ?thesis using \<open>ok\<close> reads_on_trans owned_mono [of ?e e' m' e e'] by (auto simp: reads_on_def)
qed

lemma forced_stage:
  assumes "forced_reseeds hmac cfg m e = (Inr u, m', e')" and "max_generate_calls cfg \<noteq> 0"
  shows "reads_on e e' \<and> owned e e' m' \<and> generate_calls m' < ucast (max_generate_calls cfg)"
proof -
  let ?e = "e\<lparr>readings := Suc (readings e)\<rparr>"
  have e: "reads_on e ?e" by (simp add: reads_on_def)
  have zero: "(0 :: u64) < ucast (max_generate_calls cfg)"
    using assms(2) by (simp add: word_less_nat_alt unat_gt_0)
  obtain r m1 e1 where f: "(if process e (readings e) \<noteq> creator_pid m
      then mandatory_reseed hmac cfg kForkReason m ?e else (Inr (), m, ?e)) = (r, m1, e1)"
    by (metis prod_cases3)
  have r: "r = Inr ()" using assms(1) f
    by (cases r) (auto simp: forced_reseeds_def read_pid_def Let_def split: if_splits)
  have s1: "reads_on e e1" "owned e e1 m1"
  proof -
    show "reads_on e e1"
      using f e reads_on_trans [OF e] mandatory_stage [of hmac cfg kForkReason m ?e r m1 e1] by (auto split: if_splits)
    show "owned e e1 m1"
      using f r e owned_mono [of ?e e1 m1 e e1] mandatory_stage [of hmac cfg kForkReason m ?e r m1 e1]
      by (auto simp: owned_def reads_on_def split: if_splits)
  qed
  have rest: "(if generate_calls m1 \<ge> ucast (max_generate_calls cfg)
      then mandatory_reseed hmac cfg kCountReason m1 e1 else (Inr (), m1, e1)) = (Inr u, m', e')"
    using assms(1) f r by (simp add: forced_reseeds_def read_pid_def Let_def)
  show ?thesis
  proof (cases "generate_calls m1 \<ge> ucast (max_generate_calls cfg)")
    case True
    then have "mandatory_reseed hmac cfg kCountReason m1 e1 = (Inr u, m', e')" using rest by simp
    from mandatory_stage [OF this] s1 zero show ?thesis
      using reads_on_trans owned_mono [of e1 e' m' e e'] by (auto simp: reads_on_def)
  next
    case False
    then show ?thesis using rest s1 by auto
  qed
qed

section \<open>Properties\<close>

text \<open>
  C33: no identifier is drawn from a stale generator. When \<open>generate\<close> returns bytes, for a valid
  configuration and whatever the environment answers: there are exactly as many as asked for, and
  they are the output HMAC-DRBG specifies for the state that produced them; that state was reseeded
  less than the maximum age before the last clock reading, has made fewer calls than permitted, and
  belongs to the process whose id was read during this very call.
\<close>

theorem generate_is_fresh:
  assumes "\<And>k v. length (hmac k v) = 32" and "max_generate_calls cfg \<noteq> 0"
    and "generate hmac cfg n domain m e = (Inr out, m', e')"
  shows "length out = n \<and> domain \<noteq> [] \<and>
    (\<exists>seeded. out = spec_output hmac n domain seeded \<and>
       clock e (readings e' - 1) - last_successful_reseed seeded < to_ns (max_reseed_age_seconds cfg) \<and>
       generate_calls seeded < ucast (max_generate_calls cfg) \<and>
       (\<exists>i. readings e \<le> i \<and> i < readings e' \<and> process e i = creator_pid seeded) \<and>
       m' = snd (produce hmac n domain seeded))"
proof -
  have dom: "domain \<noteq> []" using assms(3) by (auto simp: generate_def)
  obtain r m1 e1 where f: "forced_reseeds hmac cfg m e = (r, m1, e1)" by (metis prod_cases3)
  have "r = Inr ()" using assms(3) dom f by (cases r) (auto simp: generate_def)
  note s1 = forced_stage [OF f [unfolded this] assms(2)]
  let ?t = "clock e1 (readings e1)" and ?e = "e1\<lparr>readings := Suc (readings e1)\<rparr>"
  obtain t m2 e2 where d: "(if timed_reseed_due cfg ?t m1
      then let (_, m, e) = try_timed_reseed hmac cfg ?t m1 ?e; (current, e) = read_now e in (current, m, e)
      else (?t, m1, ?e)) = (t, m2, e2)"
    by (metis prod_cases3)
  have out: "\<not> t - last_successful_reseed m2 \<ge> to_ns (max_reseed_age_seconds cfg)"
    "produce hmac n domain m2 = (out, m')" "e' = e2"
    using assms(3) dom f \<open>r = Inr ()\<close> d
    by (auto simp: generate_def read_now_def Let_def split: if_splits prod.splits)
  have s2: "reads_on e1 e2" "t = clock e1 (readings e2 - 1)" "owned e e2 m2"
    "generate_calls m2 < ucast (max_generate_calls cfg)"
  proof -
    have *: "reads_on e1 e2 \<and> t = clock e1 (readings e2 - 1) \<and> owned e e2 m2 \<and>
        generate_calls m2 < ucast (max_generate_calls cfg)"
    proof (cases "timed_reseed_due cfg ?t m1")
      case False
      then show ?thesis using d s1 by (auto simp: reads_on_def owned_def)
    next
      case True
      obtain ok m3 e3 where t: "try_timed_reseed hmac cfg ?t m1 ?e = (ok, m3, e3)" by (metis prod_cases3)
      then have "m2 = m3" "t = clock e3 (readings e3)" "e2 = e3\<lparr>readings := Suc (readings e3)\<rparr>"
        using d True by (auto simp: read_now_def)
      moreover have "(0 :: u64) < ucast (max_generate_calls cfg)"
        using assms(2) by (simp add: word_less_nat_alt unat_gt_0)
      moreover have r: "reads_on e ?e" "reads_on e3 e2" "reads_on e1 e2" "reads_on e e"
        using s1 timed_stage [OF t] calculation by (auto simp: reads_on_def)
      moreover have "owned e e2 m3"
      proof (cases ok)
        case True
        then show ?thesis using timed_stage [OF t] owned_mono [OF _ r(1,2)] by simp
      next
        case False
        then have "creator_pid m3 = creator_pid m1" using timed_stage [OF t] by simp
        then show ?thesis using owned_mono [OF _ r(4,3), of m1] s1 by (simp add: owned_def)
      qed
      ultimately show ?thesis using timed_stage [OF t] s1 by (auto simp: reads_on_def split: if_splits)
    qed
    then show "reads_on e1 e2" "t = clock e1 (readings e2 - 1)" "owned e e2 m2"
      "generate_calls m2 < ucast (max_generate_calls cfg)" by simp_all
  qed
  have "out = spec_output hmac n domain m2"
    using out(2) output_loop_chain [where hmac = hmac and out = "[]" and fuel = n and n = n, OF assms(1)]
    by (auto simp: produce_def spec_output_def Let_def split: prod.splits dest: arg_cong [where f = fst])
  moreover have "length (spec_output hmac n domain m2) = n"
    using assms(1) by (simp add: spec_output_def Let_def length_v_chain)
  ultimately show ?thesis
    using dom out s2 s1 by (auto simp: owned_def reads_on_def)
qed

theorem generate_is_fresh_witness:
  "\<exists>m e out m' e'. generate (\<lambda>k v. replicate 32 7) \<lparr>reseed_interval_seconds = 1200, max_reseed_age_seconds = 1260,
       max_generate_calls = 4\<rparr> 2 ''d'' m e = (Inr out, m', e') \<and> length out = 2"
proof -
  let ?h = "(\<lambda>k v. replicate 32 7) :: hmac"
  let ?c = "\<lparr>reseed_interval_seconds = 1200, max_reseed_age_seconds = 1260, max_generate_calls = 4\<rparr>"
  let ?m = "\<lparr>drbg_key = [], drbg_value = [], last_successful_reseed = 0, next_timed_reseed_retry = 0,
    generate_calls = 0, timed_retry_delay_seconds = 1, creator_pid = 1, degraded = False\<rparr>"
  let ?e = "\<lparr>clock = (\<lambda>_. 0), process = (\<lambda>_. 1), kernel = (\<lambda>_. Inr []), readings = 0\<rparr>"
  have f: "forced_reseeds ?h ?c ?m ?e = (Inr (), ?m, ?e\<lparr>readings := 1\<rparr>)"
    by (simp add: forced_reseeds_def read_pid_def)
  obtain out m' where p: "produce ?h 2 ''d'' ?m = (out, m')" by fastforce
  have g: "generate ?h ?c 2 ''d'' ?m ?e = (Inr out, m', ?e\<lparr>readings := 2\<rparr>)"
    by (simp add: generate_def f read_now_def timed_reseed_due_def to_ns_def p)
  have "length out = 2" using generate_is_fresh [OF _ _ g] by simp
  with g show ?thesis by (intro exI conjI)
qed

end
