(* ===== verification/Submission_Table.thy ===== *)
theory Submission_Table
  imports Prelude
begin

text \<open>
  The correlation table of src/verifier/verifier.cpp: a hash table with open addressing, linear
  probing and tombstones that maps the tag of every outstanding proof-of-work submission to its
  ticket, seed and kind. It is allocated once and never resized. The probing invariant makes it a
  refinement of a finite map; the locale \<open>tag_table\<close> is the contract the verifier relies on.
\<close>

section \<open>Slots, hashing and sizing\<close>

datatype slot_state = Slot_Empty | Slot_Occupied | Slot_Tombstone

datatype submission_kind = Hash_Only | Verify_Claim

record submission_slot =
  slot_state :: slot_state
  slot_tag :: u64
  slot_ticket :: u64
  slot_seed :: u64
  slot_kind :: submission_kind

type_synonym slots = "submission_slot list"

definition empty_slot :: submission_slot where
  "empty_slot = \<lparr>slot_state = Slot_Empty, slot_tag = 0, slot_ticket = 0, slot_seed = 0, slot_kind = Verify_Claim\<rparr>"

text \<open>
  The doubling loop of \<open>submission_table_size\<close>; \<open>wanted\<close> stays below \<open>2 ^ 34\<close>, far from the width of
  \<open>size_t\<close>.
\<close>

function double_until :: "nat \<Rightarrow> nat \<Rightarrow> nat" where
  "double_until wanted r = (if 0 < r \<and> r < wanted then double_until wanted (2 * r) else r)"
  by pat_completeness auto

termination
  by (relation "measure (\<lambda>(wanted, r). wanted - r)") auto

declare double_until.simps [simp del]

definition submission_table_size :: "u32 \<Rightarrow> nat" where
  "submission_table_size max_outstanding = double_until (max 8 (unat max_outstanding * 2)) 1"

definition mix64 :: "u64 \<Rightarrow> u64" where
  "mix64 v =
     (let v = v + 0x9e3779b97f4a7c15;
          v = (v XOR drop_bit 30 v) * 0xbf58476d1ce4e5b9;
          v = (v XOR drop_bit 27 v) * 0x94d049bb133111eb in
      v XOR drop_bit 31 v)"

section \<open>Operations\<close>

text \<open>The first index a tag is looked for at, and the one after an index.\<close>

definition home :: "slots \<Rightarrow> u64 \<Rightarrow> nat" where
  "home T tag = unat (mix64 tag) AND (length T - 1)"

definition probe_next :: "slots \<Rightarrow> nat \<Rightarrow> nat" where
  "probe_next T i = (i + 1) AND (length T - 1)"

primrec find_loop :: "slots \<Rightarrow> u64 \<Rightarrow> nat \<Rightarrow> nat \<Rightarrow> nat" where
  "find_loop T tag 0 i = length T"
| "find_loop T tag (Suc left) i =
     (if slot_state (T ! i) = Slot_Empty then length T
      else if slot_state (T ! i) = Slot_Occupied \<and> slot_tag (T ! i) = tag then i
      else find_loop T tag left (probe_next T i))"

definition find_submission_slot :: "slots \<Rightarrow> u64 \<Rightarrow> nat" where
  "find_submission_slot T tag = (if T = [] then length T else find_loop T tag (length T) (home T tag))"

text \<open>The insertion scan also returns \<open>already_present\<close>.\<close>

primrec insert_loop :: "slots \<Rightarrow> u64 \<Rightarrow> nat \<Rightarrow> nat \<Rightarrow> nat \<Rightarrow> nat \<times> bool" where
  "insert_loop T tag 0 i first_tombstone = (first_tombstone, False)"
| "insert_loop T tag (Suc left) i first_tombstone =
     (case slot_state (T ! i) of
        Slot_Occupied \<Rightarrow>
          if slot_tag (T ! i) = tag then (i, True)
          else insert_loop T tag left (probe_next T i) first_tombstone
      | Slot_Tombstone \<Rightarrow>
          insert_loop T tag left (probe_next T i)
            (if first_tombstone = length T then i else first_tombstone)
      | Slot_Empty \<Rightarrow>
          (if first_tombstone = length T then i else first_tombstone, False))"

definition find_submission_insert_slot :: "slots \<Rightarrow> u64 \<Rightarrow> nat \<times> bool" where
  "find_submission_insert_slot T tag = insert_loop T tag (length T) (home T tag) (length T)"

definition occupy_slot :: "slots \<Rightarrow> nat \<Rightarrow> u64 \<Rightarrow> u64 \<Rightarrow> submission_kind \<Rightarrow> slots" where
  "occupy_slot T i tag seed kind =
     T[i := \<lparr>slot_state = Slot_Occupied, slot_tag = tag, slot_ticket = 0, slot_seed = seed, slot_kind = kind\<rparr>]"

definition set_ticket :: "slots \<Rightarrow> nat \<Rightarrow> u64 \<Rightarrow> slots" where
  "set_ticket T i ticket = T[i := (T ! i)\<lparr>slot_ticket := ticket\<rparr>]"

definition clear_slot :: "slots \<Rightarrow> nat \<Rightarrow> slots" where
  "clear_slot T i =
     T[i := \<lparr>slot_state = Slot_Tombstone, slot_tag = 0, slot_ticket = 0, slot_seed = 0, slot_kind = Verify_Claim\<rparr>]"

section \<open>The probing invariant\<close>

definition occupied :: "submission_slot \<Rightarrow> bool" where
  "occupied s \<longleftrightarrow> slot_state s = Slot_Occupied"

definition holds :: "slots \<Rightarrow> nat \<Rightarrow> u64 \<Rightarrow> bool" where
  "holds T i tag \<longleftrightarrow> i < length T \<and> occupied (T ! i) \<and> slot_tag (T ! i) = tag"

text \<open>The index examined after \<open>k\<close> steps.\<close>

definition probe :: "slots \<Rightarrow> u64 \<Rightarrow> nat \<Rightarrow> nat" where
  "probe T tag k = (unat (mix64 tag) + k) mod length T"

definition power_table :: "slots \<Rightarrow> bool" where
  "power_table T \<longleftrightarrow> (\<exists>p. length T = 2 ^ p)"

text \<open>A slot is reachable for a tag when no empty slot stops the probe before it.\<close>

definition probed :: "slots \<Rightarrow> u64 \<Rightarrow> nat \<Rightarrow> bool" where
  "probed T tag i \<longleftrightarrow>
     (\<exists>k < length T. i = probe T tag k \<and> (\<forall>m < k. slot_state (T ! probe T tag m) \<noteq> Slot_Empty))"

definition table_ok :: "slots \<Rightarrow> bool" where
  "table_ok T \<longleftrightarrow> power_table T \<and>
     (\<forall>i tag. holds T i tag \<longrightarrow> probed T tag i) \<and>
     (\<forall>i j tag. holds T i tag \<longrightarrow> holds T j tag \<longrightarrow> i = j)"

definition used_slots :: "slots \<Rightarrow> nat set" where
  "used_slots T = {i. i < length T \<and> occupied (T ! i)}"

definition used :: "slots \<Rightarrow> nat" where
  "used T = length (filter occupied T)"

text \<open>The map the table stands for.\<close>

definition table_map :: "slots \<Rightarrow> u64 \<Rightarrow> submission_slot option" where
  "table_map T = map_of (map (\<lambda>s. (slot_tag s, s)) (filter occupied T))"

lemma used_card: "used T = card (used_slots T)"
  by (simp add: used_def used_slots_def length_filter_conv_card)

lemma finite_used_slots [simp]: "finite (used_slots T)"
  by (simp add: used_slots_def)

lemma double_until_power:
  assumes "0 < r"
  shows "\<exists>p. double_until wanted r = r * 2 ^ p" and "wanted \<le> double_until wanted r"
    and "r < wanted \<longrightarrow> double_until wanted r < 2 * wanted"
proof -
  have "(\<exists>p. double_until wanted r = r * 2 ^ p) \<and> wanted \<le> double_until wanted r \<and>
      (r < wanted \<longrightarrow> double_until wanted r < 2 * wanted)"
    using assms
  proof (induction wanted r rule: double_until.induct)
    case (1 wanted r)
    show ?case
    proof (cases "r < wanted")
      case False
      then show ?thesis by (auto simp: double_until.simps [of wanted r] intro: exI [of _ 0])
    next
      case True
      note ih = "1.IH" [OF conjI [OF "1.prems" True]]
      obtain p where p: "double_until wanted (2 * r) = 2 * r * 2 ^ p" using ih "1.prems" by auto
      have e: "double_until wanted r = double_until wanted (2 * r)"
        using True "1.prems" by (subst double_until.simps) simp
      have "double_until wanted (2 * r) < 2 * wanted"
        using ih "1.prems" True by (cases "2 * r < wanted") (auto simp: double_until.simps [of wanted "2 * r"])
      then show ?thesis using ih "1.prems" p unfolding e by (auto intro!: exI [of _ "Suc p"])
    qed
  qed
  then show "\<exists>p. double_until wanted r = r * 2 ^ p" "wanted \<le> double_until wanted r"
    "r < wanted \<longrightarrow> double_until wanted r < 2 * wanted" by simp_all
qed

lemma and_power_mod: "length T = 2 ^ p \<Longrightarrow> n AND (length T - 1) = n mod length T"
  by (metis mask_eq_exp_minus_1 take_bit_eq_mask take_bit_eq_mod)

lemma probe_home:
  assumes "power_table T" shows "home T tag = probe T tag 0"
  using assms and_power_mod [of T] by (auto simp: power_table_def home_def probe_def)

lemma probe_step:
  assumes "power_table T" shows "probe_next T (probe T tag k) = probe T tag (Suc k)"
  using assms and_power_mod [of T] by (auto simp: power_table_def probe_next_def probe_def mod_Suc_eq)

lemma power_table_pos: "power_table T \<Longrightarrow> 0 < length T"
  by (auto simp: power_table_def)

lemma probe_less: "power_table T \<Longrightarrow> probe T tag k < length T"
  using power_table_pos [of T] unfolding probe_def by (rule mod_less_divisor)

lemma probe_onto:
  assumes "power_table T" and "i < length T"
  shows "\<exists>k < length T. probe T tag k = i"
proof (intro exI conjI)
  let ?n = "length T" and ?h = "unat (mix64 tag)"
  let ?k = "(i + (?n - ?h mod ?n)) mod ?n"
  show "?k < ?n" using power_table_pos [OF assms(1)] by (rule mod_less_divisor)
  have "?h mod ?n \<le> ?n" using power_table_pos [OF assms(1)] by (intro less_imp_le mod_less_divisor)
  then have "(?h mod ?n + (i + (?n - ?h mod ?n))) mod ?n = i" using assms(2) by simp
  then show "probe T tag ?k = i" unfolding probe_def by (simp add: mod_simps)
qed


section \<open>Lookup and insertion\<close>

lemma holds_lessD: "holds T i tag \<Longrightarrow> i < length T"
  by (simp add: holds_def)

lemma table_okD:
  assumes "table_ok T"
  shows "power_table T" and "holds T i tag \<Longrightarrow> probed T tag i"
    and "holds T i tag \<Longrightarrow> holds T j tag \<Longrightarrow> i = j"
  using assms by (auto simp: table_ok_def)

lemma find_loop_sound:
  assumes "power_table T" and "find_loop T tag left (probe T tag m) < length T"
  shows "holds T (find_loop T tag left (probe T tag m)) tag"
  using assms(2)
proof (induction left arbitrary: m)
  case 0
  then show ?case by simp
next
  case (Suc left)
  then show ?case
    using probe_less [OF assms(1)] by (auto simp: holds_def occupied_def probe_step [OF assms(1)] split: if_splits)
qed

lemma find_loop_complete:
  assumes "table_ok T" and "holds T i tag" and "i = probe T tag k"
    and "\<forall>m < k. slot_state (T ! probe T tag m) \<noteq> Slot_Empty"
    and "m \<le> k" and "k < left + m"
  shows "find_loop T tag left (probe T tag m) = i"
  using assms(5,6)
proof (induction left arbitrary: m)
  case 0
  then show ?case by simp
next
  case (Suc left)
  have pw: "power_table T" using assms(1) by (rule table_okD)
  show ?case
  proof (cases "m = k")
    case True
    then show ?thesis using assms(2,3) by (auto simp: holds_def occupied_def)
  next
    case False
    then have ne: "slot_state (T ! probe T tag m) \<noteq> Slot_Empty" using assms(4) Suc.prems by simp
    have "probe T tag m = i" if "slot_state (T ! probe T tag m) = Slot_Occupied" "slot_tag (T ! probe T tag m) = tag"
      using table_okD(3) [OF assms(1) _ assms(2)] that probe_less [OF pw] by (auto simp: holds_def occupied_def)
    then show ?thesis using ne Suc.IH [of "Suc m"] Suc.prems False by (auto simp: probe_step [OF pw])
  qed
qed

lemma insert_loop_present:
  assumes "table_ok T" and "holds T i tag" and "i = probe T tag k"
    and "\<forall>m < k. slot_state (T ! probe T tag m) \<noteq> Slot_Empty"
    and "m \<le> k" and "k < left + m"
  shows "insert_loop T tag left (probe T tag m) ft = (i, True)"
  using assms(5,6)
proof (induction left arbitrary: m ft)
  case 0
  then show ?case by simp
next
  case (Suc left)
  have pw: "power_table T" using assms(1) by (rule table_okD)
  show ?case
  proof (cases "m = k")
    case True
    then show ?thesis using assms(2,3) by (auto simp: holds_def occupied_def)
  next
    case False
    then have ne: "slot_state (T ! probe T tag m) \<noteq> Slot_Empty" using assms(4) Suc.prems by simp
    have "probe T tag m = i" if "slot_state (T ! probe T tag m) = Slot_Occupied" "slot_tag (T ! probe T tag m) = tag"
      using table_okD(3) [OF assms(1) _ assms(2)] that probe_less [OF pw] by (auto simp: holds_def occupied_def)
    then show ?thesis using ne Suc.IH [of "Suc m"] Suc.prems False
      by (auto simp: probe_step [OF pw] split: slot_state.split)
  qed
qed

text \<open>
  What the insertion scan knows after \<open>m\<close> steps: nothing empty so far, and either everything is
  occupied or the first tombstone is a free slot within reach.
\<close>

definition scanned :: "slots \<Rightarrow> u64 \<Rightarrow> nat \<Rightarrow> nat \<Rightarrow> bool" where
  "scanned T tag m ft \<longleftrightarrow>
     (\<forall>j < m. slot_state (T ! probe T tag j) \<noteq> Slot_Empty) \<and>
     (if ft = length T then \<forall>j < m. occupied (T ! probe T tag j)
      else ft < length T \<and> \<not> occupied (T ! ft) \<and> probed T tag ft)"

lemma scanned_step:
  assumes "power_table T" and "scanned T tag m ft" and "m < length T"
    and "slot_state (T ! probe T tag m) \<noteq> Slot_Empty"
    and "ft' = (if slot_state (T ! probe T tag m) = Slot_Tombstone \<and> ft = length T then probe T tag m else ft)"
  shows "scanned T tag (Suc m) ft'"
proof -
  have lt: "probe T tag m < length T" using assms(1) by (rule probe_less)
  have all: "\<forall>j < Suc m. slot_state (T ! probe T tag j) \<noteq> Slot_Empty"
    using assms(2,4) by (auto simp: scanned_def less_Suc_eq)
  have "probed T tag (probe T tag m)"
    unfolding probed_def using assms(2,3) by (auto simp: scanned_def)
  moreover have "slot_state (T ! probe T tag m) = Slot_Occupied \<or> slot_state (T ! probe T tag m) = Slot_Tombstone"
    using assms(4) by (cases "slot_state (T ! probe T tag m)") auto
  ultimately show ?thesis
    using all lt assms(2,5) by (auto simp: scanned_def occupied_def less_Suc_eq split: if_splits)
qed

lemma insert_loop_absent:
  assumes "power_table T" and "\<And>i. \<not> holds T i tag"
    and "scanned T tag m ft" and "m + left = length T"
  shows "\<exists>i. insert_loop T tag left (probe T tag m) ft = (i, False) \<and>
    (i < length T \<longrightarrow> \<not> occupied (T ! i) \<and> probed T tag i) \<and>
    (i < length T \<or> i = length T \<and> (\<forall>k < length T. occupied (T ! probe T tag k)))"
  using assms(3,4)
proof (induction left arbitrary: m ft)
  case 0
  then show ?case by (auto simp: scanned_def split: if_splits)
next
  case (Suc left)
  let ?p = "probe T tag m"
  have lt: "?p < length T" using assms(1) by (rule probe_less)
  have m: "m < length T" using Suc.prems by simp
  note step = scanned_step [OF assms(1) Suc.prems(1) m]
  show ?case
  proof (cases "slot_state (T ! ?p)")
    case Slot_Empty
    have "probed T tag ?p" unfolding probed_def using Suc.prems(1) m by (auto simp: scanned_def)
    then show ?thesis using Slot_Empty Suc.prems(1) lt
      by (auto simp: scanned_def occupied_def split: if_splits)
  next
    case Slot_Occupied
    then have "slot_tag (T ! ?p) \<noteq> tag" using assms(2) [of ?p] lt by (auto simp: holds_def occupied_def)
    then show ?thesis using Slot_Occupied Suc.IH [of "Suc m" ft] step [of ft] Suc.prems(2)
      by (simp add: probe_step [OF assms(1)])
  next
    case Slot_Tombstone
    then show ?thesis using Suc.IH [of "Suc m" "if ft = length T then ?p else ft"] step Suc.prems(2)
      by (simp add: probe_step [OF assms(1)])
  qed
qed

lemma distinct_map_filter_nth:
  assumes "\<And>i j. \<lbrakk>i < length xs; j < length xs; P (xs ! i); P (xs ! j); f (xs ! i) = f (xs ! j)\<rbrakk> \<Longrightarrow> i = j"
  shows "distinct (map f (filter P xs))"
  using assms
proof (induction xs)
  case Nil
  show ?case by simp
next
  case (Cons x xs)
  have "distinct (map f (filter P xs))"
    by (rule Cons.IH) (use Cons.prems [of "Suc _" "Suc _"] in auto)
  moreover have "f x \<notin> f ` set (filter P xs)" if "P x"
    using Cons.prems [of 0 "Suc _"] that by (auto simp: in_set_conv_nth)
  ultimately show ?case by auto
qed

lemma table_map_Some:
  assumes "table_ok T"
  shows "table_map T tag = Some s \<longleftrightarrow> (\<exists>i. holds T i tag \<and> s = T ! i)"
proof -
  have "distinct (map slot_tag (filter occupied T))"
    by (rule distinct_map_filter_nth) (use table_okD(3) [OF assms] in \<open>auto simp: holds_def\<close>)
  then have "distinct (map fst (map (\<lambda>s. (slot_tag s, s)) (filter occupied T)))" by (simp add: comp_def)
  then have "table_map T tag = Some s \<longleftrightarrow> s \<in> set T \<and> occupied s \<and> slot_tag s = tag"
    unfolding table_map_def by (subst map_of_eq_Some_iff) auto
  then show ?thesis by (auto simp: holds_def in_set_conv_nth)
qed

lemma table_map_None:
  "table_ok T \<Longrightarrow> table_map T tag = None \<longleftrightarrow> (\<forall>i. \<not> holds T i tag)"
  using table_map_Some [of T tag] by (metis not_None_eq)

lemma find_submission_slot_miss:
  assumes "table_ok T" and "table_map T tag = None"
  shows "find_submission_slot T tag = length T"
proof -
  have pw: "power_table T" using assms(1) by (rule table_okD)
  have le: "find_loop T tag n i \<le> length T" if "i < length T" for n i
    using that
  proof (induction n arbitrary: i)
    case (Suc n)
    then show ?case using power_table_pos [OF pw] pw and_power_mod [of T]
      by (auto simp: probe_next_def power_table_def intro!: Suc.IH)
  qed simp
  have "\<not> find_loop T tag (length T) (probe T tag 0) < length T"
    using find_loop_sound [OF pw] assms by (auto simp: table_map_None)
  then have "find_loop T tag (length T) (probe T tag 0) = length T"
    using le [OF probe_less [OF pw]] by (simp add: not_less le_antisym)
  then show ?thesis by (simp add: find_submission_slot_def probe_home [OF pw])
qed

lemma find_submission_slot_hit:
  assumes "table_ok T" and "holds T i tag"
  shows "find_submission_slot T tag = i"
proof -
  obtain k where "k < length T" "i = probe T tag k" "\<forall>m < k. slot_state (T ! probe T tag m) \<noteq> Slot_Empty"
    using table_okD(2) [OF assms] by (auto simp: probed_def)
  then have "find_loop T tag (length T) (probe T tag 0) = i"
    using find_loop_complete [OF assms] by simp
  then show ?thesis
    using table_okD(1) [OF assms(1)] holds_lessD [OF assms(2)] by (auto simp: find_submission_slot_def probe_home)
qed

lemma insert_slot_present:
  assumes "table_ok T" and "table_map T tag \<noteq> None"
  shows "snd (find_submission_insert_slot T tag)"
proof -
  obtain i where i: "holds T i tag" using assms by (auto simp: table_map_None)
  obtain k where "k < length T" "i = probe T tag k" "\<forall>m < k. slot_state (T ! probe T tag m) \<noteq> Slot_Empty"
    using table_okD(2) [OF assms(1) i] by (auto simp: probed_def)
  then show ?thesis
    using insert_loop_present [OF assms(1) i, of k 0] table_okD(1) [OF assms(1)]
    by (simp add: find_submission_insert_slot_def probe_home)
qed

lemma used_full:
  assumes "power_table T" and "\<forall>k < length T. occupied (T ! probe T tag k)"
  shows "used T = length T"
proof -
  have "\<forall>i < length T. occupied (T ! i)" using probe_onto [OF assms(1)] assms(2) by metis
  then show ?thesis by (simp add: used_def all_set_conv_all_nth filter_True)
qed

lemma insert_slot_absent:
  assumes "table_ok T" and "table_map T tag = None"
  shows "\<not> snd (find_submission_insert_slot T tag)"
    and "fst (find_submission_insert_slot T tag) \<noteq> length T \<Longrightarrow>
      fst (find_submission_insert_slot T tag) < length T \<and>
      \<not> occupied (T ! fst (find_submission_insert_slot T tag)) \<and> probed T tag (fst (find_submission_insert_slot T tag))"
    and "used T < length T \<Longrightarrow> fst (find_submission_insert_slot T tag) \<noteq> length T"
proof -
  have pw: "power_table T" using assms(1) by (rule table_okD)
  have "scanned T tag 0 (length T)" by (simp add: scanned_def)
  from insert_loop_absent [OF pw _ this, of "length T"] assms
  obtain i where i: "find_submission_insert_slot T tag = (i, False)"
    "i < length T \<longrightarrow> \<not> occupied (T ! i) \<and> probed T tag i"
    "i < length T \<or> i = length T \<and> (\<forall>k < length T. occupied (T ! probe T tag k))"
    by (auto simp: table_map_None find_submission_insert_slot_def probe_home [OF pw])
  then show "\<not> snd (find_submission_insert_slot T tag)"
    "fst (find_submission_insert_slot T tag) \<noteq> length T \<Longrightarrow>
      fst (find_submission_insert_slot T tag) < length T \<and>
      \<not> occupied (T ! fst (find_submission_insert_slot T tag)) \<and> probed T tag (fst (find_submission_insert_slot T tag))"
    "used T < length T \<Longrightarrow> fst (find_submission_insert_slot T tag) \<noteq> length T"
    using used_full [OF pw] by auto
qed

section \<open>Writing a slot\<close>

text \<open>Overwriting a slot with one that is not empty never shortens a probe.\<close>

lemma probed_update:
  assumes "probed T tag j" and "slot_state s \<noteq> Slot_Empty"
  shows "probed (T[i := s]) tag j"
proof -
  have st: "slot_state (T[i := s] ! x) \<noteq> Slot_Empty" if "slot_state (T ! x) \<noteq> Slot_Empty" for x
    using that assms(2) by (cases "i < length T") (auto simp: nth_list_update list_update_beyond)
  obtain k where "k < length T" "j = probe T tag k" "\<forall>m < k. slot_state (T ! probe T tag m) \<noteq> Slot_Empty"
    using assms(1) by (auto simp: probed_def)
  then show ?thesis using st unfolding probed_def by (intro exI [of _ k]) (simp add: probe_def)
qed

lemma holds_update:
  assumes "i < length T"
  shows "holds (T[i := s]) j tag \<longleftrightarrow> (if j = i then occupied s \<and> slot_tag s = tag else holds T j tag)"
  using assms by (auto simp: holds_def nth_list_update)

lemma count_filter_update:
  assumes "i < length xs"
  shows "length (filter P (xs[i := y])) + (if P (xs ! i) then 1 else 0) =
    length (filter P xs) + (if P y then 1 else 0)"
  using assms
proof (induction xs arbitrary: i)
  case (Cons x xs)
  then show ?case by (cases i) auto
qed simp

lemma table_ok_update:
  assumes "table_ok T" and "i < length T" and "slot_state s \<noteq> Slot_Empty"
    and "occupied s \<Longrightarrow> probed T (slot_tag s) i \<and> (\<forall>j. holds T j (slot_tag s) \<longrightarrow> j = i)"
  shows "table_ok (T[i := s])"
  unfolding table_ok_def
proof (intro conjI allI impI)
  show "power_table (T[i := s])" using table_okD(1) [OF assms(1)] by (simp add: power_table_def)
next
  fix j tag assume h: "holds (T[i := s]) j tag"
  have "probed T tag j"
  proof (cases "j = i")
    case True
    then have "occupied s" "tag = slot_tag s" using h by (simp_all add: holds_update [OF assms(2)])
    then show ?thesis using assms(4) True by blast
  next
    case False
    then show ?thesis using h table_okD(2) [OF assms(1)] by (simp add: holds_update [OF assms(2)])
  qed
  then show "probed (T[i := s]) tag j" by (rule probed_update) (rule assms(3))
next
  fix j k tag assume jk: "holds (T[i := s]) j tag" "holds (T[i := s]) k tag"
  have old: "j' = i" if "occupied s" "slot_tag s = tag" "holds T j' tag" for j'
    using assms(4) [OF that(1)] that(2,3) by blast
  show "j = k"
  proof (cases "j = i")
    case True
    then have "occupied s" "slot_tag s = tag" using jk(1) by (simp_all add: holds_update [OF assms(2)])
    then show ?thesis using True jk(2) old [of k] by (simp add: holds_update [OF assms(2)] split: if_splits)
  next
    case False
    then have j: "holds T j tag" using jk(1) by (simp add: holds_update [OF assms(2)])
    show ?thesis
    proof (cases "k = i")
      case True
      then show ?thesis using jk(2) j old [of j] by (simp add: holds_update [OF assms(2)])
    next
      case False
      then have "holds T k tag" using jk(2) by (simp add: holds_update [OF assms(2)])
      then show ?thesis by (rule table_okD(3) [OF assms(1) j])
    qed
  qed
qed

lemma table_map_update:
  assumes "table_ok T" and "table_ok (T[i := s])" and "i < length T" and "slot_tag s = tag"
    and "occupied s" and "\<forall>j. holds T j tag \<longrightarrow> j = i" and "occupied (T ! i) \<longrightarrow> slot_tag (T ! i) = tag"
  shows "table_map (T[i := s]) = (table_map T)(tag \<mapsto> s)"
proof
  fix t
  show "table_map (T[i := s]) t = ((table_map T)(tag \<mapsto> s)) t"
  proof (cases "t = tag")
    case True
    have "holds (T[i := s]) i tag" using assms by (simp add: holds_update)
    then have "table_map (T[i := s]) tag = Some s" using assms(3) by (auto simp: table_map_Some [OF assms(2)])
    then show ?thesis using True by simp
  next
    case False
    have "holds (T[i := s]) j t = holds T j t" for j
      using False assms(3,4,7) by (auto simp: holds_update) (auto simp: holds_def)
    moreover have "holds T j t \<Longrightarrow> T[i := s] ! j = T ! j" for j
      using False assms(7) by (cases "j = i") (auto simp: holds_def)
    ultimately have "table_map (T[i := s]) t = Some x \<longleftrightarrow> table_map T t = Some x" for x
      by (auto simp: table_map_Some [OF assms(1)] table_map_Some [OF assms(2)])
    then have "table_map (T[i := s]) t = table_map T t" by (metis not_None_eq)
    then show ?thesis using False by simp
  qed
qed

lemma table_map_clear:
  assumes "table_ok T" and "table_ok (T[i := s])" and "holds T i tag" and "\<not> occupied s"
  shows "table_map (T[i := s]) = (table_map T)(tag := None)"
proof
  fix t
  have i: "i < length T" using assms(3) by (rule holds_lessD)
  show "table_map (T[i := s]) t = ((table_map T)(tag := None)) t"
  proof (cases "t = tag")
    case True
    have "\<not> holds (T[i := s]) j tag" for j
      using table_okD(3) [OF assms(1) assms(3), of j] assms(4) i by (auto simp: holds_update)
    then show ?thesis using True by (simp add: table_map_None [OF assms(2)])
  next
    case False
    then have "holds (T[i := s]) j t = holds T j t" for j
      using assms(3,4) i by (auto simp: holds_update) (auto simp: holds_def)
    moreover have "holds T j t \<Longrightarrow> T[i := s] ! j = T ! j" for j
      using False assms(3) by (cases "j = i") (auto simp: holds_def)
    ultimately have "table_map (T[i := s]) t = Some x \<longleftrightarrow> table_map T t = Some x" for x
      by (auto simp: table_map_Some [OF assms(1)] table_map_Some [OF assms(2)])
    then have "table_map (T[i := s]) t = table_map T t" by (metis not_None_eq)
    then show ?thesis using False by simp
  qed
qed

section \<open>The contract\<close>

text \<open>
  What the verifier relies on: a lookup by tag that is exact, an insertion scan that reports a
  present tag and finds a slot whenever one is left, and writes that change one entry only.
\<close>

locale tag_table =
  fixes good :: "'t \<Rightarrow> bool"
    and lookup :: "'t \<Rightarrow> 'k \<Rightarrow> 's option"
    and find :: "'t \<Rightarrow> 'k \<Rightarrow> nat"
    and place :: "'t \<Rightarrow> 'k \<Rightarrow> nat \<times> bool"
    and entry :: "'t \<Rightarrow> nat \<Rightarrow> 's"
    and put :: "'t \<Rightarrow> nat \<Rightarrow> 's \<Rightarrow> 't"
    and del :: "'t \<Rightarrow> nat \<Rightarrow> 't"
    and key :: "'s \<Rightarrow> 'k"
    and proper :: "'s \<Rightarrow> bool"
    and capacity :: "'t \<Rightarrow> nat"
    and size_of :: "'t \<Rightarrow> nat"
  assumes find_miss: "good t \<Longrightarrow> lookup t k = None \<Longrightarrow> find t k = capacity t"
    and find_hit: "good t \<Longrightarrow> lookup t k = Some s \<Longrightarrow> find t k < capacity t \<and> entry t (find t k) = s"
    and place_present: "good t \<Longrightarrow> snd (place t k) \<longleftrightarrow> lookup t k \<noteq> None"
    and place_room: "good t \<Longrightarrow> lookup t k = None \<Longrightarrow> size_of t < capacity t \<Longrightarrow> fst (place t k) \<noteq> capacity t"
    and put_new: "good t \<Longrightarrow> lookup t (key s) = None \<Longrightarrow> fst (place t (key s)) \<noteq> capacity t \<Longrightarrow> proper s \<Longrightarrow>
      good (put t (fst (place t (key s))) s) \<and>
      lookup (put t (fst (place t (key s))) s) = (lookup t)(key s \<mapsto> s) \<and>
      find (put t (fst (place t (key s))) s) (key s) = fst (place t (key s)) \<and>
      size_of (put t (fst (place t (key s))) s) = Suc (size_of t) \<and>
      capacity (put t (fst (place t (key s))) s) = capacity t"
    and put_same: "good t \<Longrightarrow> lookup t (key s) \<noteq> None \<Longrightarrow> proper s \<Longrightarrow>
      good (put t (find t (key s)) s) \<and> lookup (put t (find t (key s)) s) = (lookup t)(key s \<mapsto> s) \<and>
      size_of (put t (find t (key s)) s) = size_of t \<and> capacity (put t (find t (key s)) s) = capacity t"
    and del_present: "good t \<Longrightarrow> lookup t k \<noteq> None \<Longrightarrow>
      good (del t (find t k)) \<and> lookup (del t (find t k)) = (lookup t)(k := None) \<and>
      size_of t = Suc (size_of (del t (find t k))) \<and> capacity (del t (find t k)) = capacity t"
begin

text \<open>Insertion into the slot the scan chose, then completion of that slot, is one insertion.\<close>

lemma put_twice:
  assumes "good t" and "lookup t (key s) = None" and "fst (place t (key s)) \<noteq> capacity t"
    and "proper s" and "proper s'" and "key s' = key s"
  defines "i \<equiv> fst (place t (key s))"
  shows "good (put (put t i s) i s') \<and> lookup (put (put t i s) i s') = (lookup t)(key s \<mapsto> s') \<and>
    size_of (put (put t i s) i s') = Suc (size_of t) \<and> capacity (put (put t i s) i s') = capacity t"
proof -
  let ?t = "put t i s"
  have 1: "good ?t" "lookup ?t = (lookup t)(key s \<mapsto> s)" "find ?t (key s) = i" "size_of ?t = Suc (size_of t)"
    "capacity ?t = capacity t"
    using put_new [OF assms(1-4)] by (simp_all add: i_def)
  show ?thesis using put_same [of ?t s'] assms(5,6) 1 by simp
qed

text \<open>Insertion followed by removal of the same slot restores the map.\<close>

lemma put_del:
  assumes "good t" and "lookup t (key s) = None" and "fst (place t (key s)) \<noteq> capacity t" and "proper s"
  defines "i \<equiv> fst (place t (key s))"
  shows "good (del (put t i s) i) \<and> lookup (del (put t i s) i) = lookup t \<and>
    size_of (del (put t i s) i) = size_of t \<and> capacity (del (put t i s) i) = capacity t"
proof -
  let ?t = "put t i s"
  have 1: "good ?t" "lookup ?t = (lookup t)(key s \<mapsto> s)" "find ?t (key s) = i" "size_of ?t = Suc (size_of t)"
    "capacity ?t = capacity t"
    using put_new [OF assms(1-4)] by (simp_all add: i_def)
  show ?thesis using del_present [of ?t "key s"] 1 assms(2) by (simp add: fun_upd_idem)
qed

end

lemma put_new_slot:
  assumes "table_ok T" and "table_map T (slot_tag s) = None"
    and "fst (find_submission_insert_slot T (slot_tag s)) \<noteq> length T" and "occupied s"
  defines "i \<equiv> fst (find_submission_insert_slot T (slot_tag s))"
  shows "table_ok (T[i := s])" and "table_map (T[i := s]) = (table_map T)(slot_tag s \<mapsto> s)"
    and "find_submission_slot (T[i := s]) (slot_tag s) = i" and "used (T[i := s]) = Suc (used T)"
proof -
  have i: "i < length T" "\<not> occupied (T ! i)" "probed T (slot_tag s) i"
    using insert_slot_absent(2) [OF assms(1,2,3)] by (simp_all add: i_def)
  have st: "slot_state s \<noteq> Slot_Empty" using assms(4) by (simp add: occupied_def)
  have absent: "\<not> holds T j (slot_tag s)" for j using assms(1,2) by (simp add: table_map_None)
  show ok: "table_ok (T[i := s])" using table_ok_update [OF assms(1) i(1) st] i(3) absent by blast
  show "table_map (T[i := s]) = (table_map T)(slot_tag s \<mapsto> s)"
    using table_map_update [OF assms(1) ok i(1)] assms(4) absent i(2) by blast
  show "find_submission_slot (T[i := s]) (slot_tag s) = i"
    by (rule find_submission_slot_hit [OF ok]) (simp add: holds_update [OF i(1)] assms(4))
  show "used (T[i := s]) = Suc (used T)"
    using count_filter_update [OF i(1), of occupied s] i(2) assms(4) by (simp add: used_def)
qed

lemma put_same_slot:
  assumes "table_ok T" and "holds T i (slot_tag s)" and "occupied s"
  shows "table_ok (T[i := s])" and "table_map (T[i := s]) = (table_map T)(slot_tag s \<mapsto> s)"
    and "used (T[i := s]) = used T"
proof -
  have i: "i < length T" "occupied (T ! i)" "slot_tag (T ! i) = slot_tag s" using assms(2) by (simp_all add: holds_def)
  have st: "slot_state s \<noteq> Slot_Empty" using assms(3) by (simp add: occupied_def)
  have only: "holds T j (slot_tag s) \<Longrightarrow> j = i" for j by (rule table_okD(3) [OF assms(1) _ assms(2)])
  show ok: "table_ok (T[i := s])"
    using table_ok_update [OF assms(1) i(1) st] table_okD(2) [OF assms(1,2)] only by blast
  show "table_map (T[i := s]) = (table_map T)(slot_tag s \<mapsto> s)"
    using table_map_update [OF assms(1) ok i(1)] assms(3) only i(3) by blast
  show "used (T[i := s]) = used T"
    using count_filter_update [OF i(1), of occupied s] i(2) assms(3) by (simp add: used_def)
qed

lemma clear_present_slot:
  assumes "table_ok T" and "holds T i tag"
  shows "table_ok (clear_slot T i)" and "table_map (clear_slot T i) = (table_map T)(tag := None)"
    and "used T = Suc (used (clear_slot T i))"
proof -
  have i: "i < length T" "occupied (T ! i)" using assms(2) by (simp_all add: holds_def)
  show ok: "table_ok (clear_slot T i)" unfolding clear_slot_def
    by (rule table_ok_update [OF assms(1) i(1)]) (simp_all add: occupied_def)
  then show "table_map (clear_slot T i) = (table_map T)(tag := None)" unfolding clear_slot_def
    by (rule table_map_clear [OF assms(1) _ assms(2)]) (simp add: occupied_def)
  show "used T = Suc (used (clear_slot T i))"
    using count_filter_update [OF i(1), of occupied] i(2) by (simp add: used_def clear_slot_def occupied_def)
qed

lemma length_clear_slot [simp]: "length (clear_slot T i) = length T"
  by (simp add: clear_slot_def)

lemma find_holds:
  assumes "table_ok T" and "table_map T tag \<noteq> None"
  shows "holds T (find_submission_slot T tag) tag"
  using assms find_submission_slot_hit [OF assms(1)] by (auto simp: table_map_None)

interpretation tags: tag_table table_ok table_map find_submission_slot find_submission_insert_slot
  "(!)" "\<lambda>T i s. T[i := s]" clear_slot slot_tag occupied length used
proof
  fix T :: slots and tag s
  assume ok: "table_ok T"
  show "table_map T tag = None \<Longrightarrow> find_submission_slot T tag = length T"
    by (rule find_submission_slot_miss [OF ok])
  show "find_submission_slot T tag < length T \<and> T ! find_submission_slot T tag = s" if "table_map T tag = Some s"
    using that find_holds [OF ok, of tag] find_submission_slot_hit [OF ok]
    by (auto simp: table_map_Some [OF ok] holds_def)
  show "snd (find_submission_insert_slot T tag) = (table_map T tag \<noteq> None)"
    using insert_slot_present [OF ok] insert_slot_absent(1) [OF ok] by blast
  show "table_map T tag = None \<Longrightarrow> used T < length T \<Longrightarrow> fst (find_submission_insert_slot T tag) \<noteq> length T"
    by (rule insert_slot_absent(3) [OF ok])
  show "table_ok (clear_slot T (find_submission_slot T tag)) \<and>
      table_map (clear_slot T (find_submission_slot T tag)) = (table_map T)(tag := None) \<and>
      used T = Suc (used (clear_slot T (find_submission_slot T tag))) \<and>
      length (clear_slot T (find_submission_slot T tag)) = length T" if "table_map T tag \<noteq> None"
    using clear_present_slot [OF ok find_holds [OF ok that]] by simp
next
  fix T s
  assume "table_ok T" "table_map T (slot_tag s) = None" "fst (find_submission_insert_slot T (slot_tag s)) \<noteq> length T"
    "occupied s"
  note new = put_new_slot [OF this]
  show "table_ok (T[fst (find_submission_insert_slot T (slot_tag s)) := s]) \<and>
      table_map (T[fst (find_submission_insert_slot T (slot_tag s)) := s]) = (table_map T)(slot_tag s \<mapsto> s) \<and>
      find_submission_slot (T[fst (find_submission_insert_slot T (slot_tag s)) := s]) (slot_tag s) =
        fst (find_submission_insert_slot T (slot_tag s)) \<and>
      used (T[fst (find_submission_insert_slot T (slot_tag s)) := s]) = Suc (used T) \<and>
      length (T[fst (find_submission_insert_slot T (slot_tag s)) := s]) = length T"
    using new by simp
next
  fix T s
  assume ok: "table_ok T" and "table_map T (slot_tag s) \<noteq> None" and "occupied s"
  from put_same_slot [OF ok find_holds [OF this(1,2)] this(3)]
  show "table_ok (T[find_submission_slot T (slot_tag s) := s]) \<and>
      table_map (T[find_submission_slot T (slot_tag s) := s]) = (table_map T)(slot_tag s \<mapsto> s) \<and>
      used (T[find_submission_slot T (slot_tag s) := s]) = used T \<and>
      length (T[find_submission_slot T (slot_tag s) := s]) = length T" by simp
qed

lemma submission_table_size_bounds:
  "\<exists>p. submission_table_size n = 2 ^ p" "8 \<le> submission_table_size n" "2 * unat n \<le> submission_table_size n"
  "submission_table_size n < 2 * max 8 (2 * unat n)"
  using double_until_power [of 1 "max 8 (unat n * 2)"]
  by (auto simp: submission_table_size_def mult.commute [of 2] less_max_iff_disj)

lemma fresh_table:
  "table_ok (replicate (submission_table_size n) empty_slot)"
  "table_map (replicate (submission_table_size n) empty_slot) = Map.empty"
  "used (replicate (submission_table_size n) empty_slot) = 0"
proof -
  have no: "\<not> holds (replicate (submission_table_size n) empty_slot) i tag" for i tag
    by (auto simp: holds_def occupied_def empty_slot_def)
  show ok: "table_ok (replicate (submission_table_size n) empty_slot)"
    using submission_table_size_bounds(1) [of n] no by (auto simp: table_ok_def power_table_def)
  show "table_map (replicate (submission_table_size n) empty_slot) = Map.empty"
    by (rule ext) (simp add: table_map_None [OF ok] no)
  show "used (replicate (submission_table_size n) empty_slot) = 0"
    by (simp add: used_def occupied_def empty_slot_def)
qed

text \<open>
  The table is sized to the least power of two that is at least eight and at least twice the
  permitted number of outstanding submissions; the doubling loop ends for every 32 bit limit.
\<close>

theorem submission_table_size_least:
  "(\<exists>p. submission_table_size n = 2 ^ p) \<and> max 8 (2 * unat n) \<le> submission_table_size n \<and>
   (\<forall>q. max 8 (2 * unat n) \<le> 2 ^ q \<longrightarrow> submission_table_size n \<le> 2 ^ q)"
proof (intro conjI allI impI)
  show pow: "\<exists>p. submission_table_size n = 2 ^ p" by (rule submission_table_size_bounds)
  show "max 8 (2 * unat n) \<le> submission_table_size n" using submission_table_size_bounds [of n] by simp
  fix q :: nat assume q: "max 8 (2 * unat n) \<le> 2 ^ q"
  obtain p where p: "submission_table_size n = 2 ^ p" using pow by blast
  have "(2 :: nat) ^ p < 2 * max 8 (2 * unat n)" using submission_table_size_bounds(4) [of n] unfolding p .
  also have "\<dots> \<le> 2 ^ Suc q" using q by simp
  finally have "(2 :: nat) ^ p < 2 ^ Suc q" .
  then have "p \<le> q" using power_less_imp_less_exp [of "2 :: nat" p "Suc q"] by simp
  then show "submission_table_size n \<le> 2 ^ q" unfolding p by (rule power_increasing) simp
qed

end
