(* ===== verification/Verifier.thy ===== *)
theory Verifier
  imports Submission_Table
begin

text \<open>
  The proof-of-work verifier adapter of src/verifier/verifier.cpp: seed life cycle with reference
  counts, submissions, correlation of completions and shutdown. The native library MSPV is not
  part of the sources: every answer of one of its functions is an argument of the operation that
  calls it, and the calls that change its state are recorded in the order they are issued. The
  adapter's mutex makes every operation atomic.
\<close>

section \<open>The native library's types\<close>

text \<open>docs/VERIFIER.md lists them; identifiers and tickets are 64 bit words.\<close>

datatype mspv_status =
    MSPV_OK | MSPV_INVALID_ARGUMENT | MSPV_INVALID_CONFIG | MSPV_NO_MEMORY | MSPV_NOT_RUNNING
  | MSPV_ALREADY_RUNNING | MSPV_CLOSED | MSPV_SEED_NOT_FOUND | MSPV_SEED_NOT_READY
  | MSPV_SEED_RELEASING | MSPV_SEED_ACTIVE | MSPV_SEED_CAPACITY | MSPV_QUEUE_FULL | MSPV_TIMEOUT
  | MSPV_CANCELLED | MSPV_UNSUPPORTED | MSPV_RANDOMX_ERROR | MSPV_INTERNAL_ERROR

datatype mspv_seed_state =
  MSPV_SEED_PREPARING | MSPV_SEED_READY | MSPV_SEED_CURRENT | MSPV_SEED_RELEASING_STATE | MSPV_SEED_FAILED

datatype mspv_result = MSPV_RESULT_OK | MSPV_RESULT_CANCELLED | MSPV_RESULT_FAILED

datatype mspv_comparison = MSPV_COMPARISON_NOT_REQUESTED | MSPV_COMPARISON_MATCH | MSPV_COMPARISON_MISMATCH

datatype mspv_memory_mode = MSPV_MEMORY_LIGHT | MSPV_MEMORY_FAST

datatype mspv_large_page_mode = MSPV_LARGE_PAGES_DISABLED | MSPV_LARGE_PAGES_TRY | MSPV_LARGE_PAGES_REQUIRE

datatype mspv_log_level = MSPV_LOG_ERROR | MSPV_LOG_WARNING | MSPV_LOG_INFO | MSPV_LOG_DEBUG | MSPV_LOG_TRACE

datatype mspv_shutdown_mode = MSPV_SHUTDOWN_DRAIN | MSPV_SHUTDOWN_CANCEL_PENDING

datatype mspv_option = MSPV_OPTION_DISABLE_JIT | MSPV_OPTION_SECURE_JIT | MSPV_OPTION_DISABLE_HARD_AES

record mspv_seed_info =
  info_state :: mspv_seed_state
  info_last_error :: mspv_status
  info_key_size :: u32
  info_queued_jobs :: u32
  info_running_jobs :: u32
  info_prepare_ns :: u64
  info_memory_uses_large_pages :: u32
  info_all_vms_use_large_pages :: u32

record mspv_completion =
  nat_result :: mspv_result
  nat_error :: mspv_status
  nat_comparison :: mspv_comparison
  nat_ticket :: u64
  nat_user_tag :: u64
  nat_seed_id :: u64
  nat_hash :: bytes
  nat_queue_ns :: u64
  nat_hash_ns :: u64
  nat_total_ns :: u64

text \<open>The native calls that change the library's state.\<close>

datatype native_call =
    Call_Prepare bytes
  | Call_Activate u64
  | Call_Deactivate
  | Call_Release u64
  | Call_Submit submission_kind u64 bytes u64
  | Call_Shutdown mspv_shutdown_mode
  | Call_Destroy

section \<open>Configuration\<close>

datatype memory_mode = Memory_Light | Memory_Fast
datatype large_pages = Pages_Disabled | Pages_Try | Pages_Require
datatype jit_mode = Jit_Disabled | Jit_Enabled | Jit_Secure
datatype aes_mode = Aes_Automatic | Aes_Software
datatype log_level = Log_Error | Log_Warning | Log_Info | Log_Debug | Log_Trace
datatype shutdown_mode = Drain | Cancel_Pending

record verifier_config =
  workers :: u32
  seed_init_threads :: u32
  pending_capacity :: u32
  max_outstanding :: u32
  max_input_size :: u32
  max_seeds :: u32
  max_buffered_input_bytes :: u64
  cfg_memory_mode :: memory_mode
  cfg_large_pages :: large_pages
  cfg_jit :: jit_mode
  cfg_aes :: aes_mode
  cfg_log_level :: log_level

record native_config_snapshot =
  abi_version :: u32
  n_worker_count :: u32
  n_seed_init_threads :: u32
  n_pending_capacity :: u32
  n_max_outstanding :: u32
  n_max_input_size :: u32
  n_max_seed_key_size :: u32
  n_max_seeds :: u32
  n_max_buffered_input_bytes :: u64
  n_memory_mode :: mspv_memory_mode
  n_large_pages :: mspv_large_page_mode
  n_options :: "mspv_option set"
  n_log_level :: mspv_log_level

definition kMaximumWorkers :: u32 where "kMaximumWorkers = 256"
definition kMaximumCapacity :: u32 where "kMaximumCapacity = 1000000"
definition kMaximumInputSize :: u32 where "kMaximumInputSize = 64 * 1024 * 1024"
definition kMaximumSeeds :: u32 where "kMaximumSeeds = 64"
definition kMaximumBufferedInputBytes :: u64 where "kMaximumBufferedInputBytes = 16 * 1024 * 1024 * 1024"
definition kSeedHashSize :: u32 where "kSeedHashSize = 32"

text \<open>\<open>verifier::Error\<close>: the operation, its status and the status of the cleanup.\<close>

datatype verifier_error = Verifier_Error string mspv_status mspv_status

fun map_memory_mode :: "memory_mode \<Rightarrow> mspv_memory_mode" where
  "map_memory_mode Memory_Light = MSPV_MEMORY_LIGHT"
| "map_memory_mode Memory_Fast = MSPV_MEMORY_FAST"

fun map_large_pages :: "large_pages \<Rightarrow> mspv_large_page_mode" where
  "map_large_pages Pages_Disabled = MSPV_LARGE_PAGES_DISABLED"
| "map_large_pages Pages_Try = MSPV_LARGE_PAGES_TRY"
| "map_large_pages Pages_Require = MSPV_LARGE_PAGES_REQUIRE"

fun map_log_level :: "log_level \<Rightarrow> mspv_log_level" where
  "map_log_level Log_Error = MSPV_LOG_ERROR"
| "map_log_level Log_Warning = MSPV_LOG_WARNING"
| "map_log_level Log_Info = MSPV_LOG_INFO"
| "map_log_level Log_Debug = MSPV_LOG_DEBUG"
| "map_log_level Log_Trace = MSPV_LOG_TRACE"

fun unmap_log_level :: "mspv_log_level \<Rightarrow> log_level" where
  "unmap_log_level MSPV_LOG_ERROR = Log_Error"
| "unmap_log_level MSPV_LOG_WARNING = Log_Warning"
| "unmap_log_level MSPV_LOG_INFO = Log_Info"
| "unmap_log_level MSPV_LOG_DEBUG = Log_Debug"
| "unmap_log_level MSPV_LOG_TRACE = Log_Trace"

text \<open>The option bits as a set of flags.\<close>

definition map_options :: "jit_mode \<Rightarrow> aes_mode \<Rightarrow> mspv_option set" where
  "map_options jit aes =
     (case jit of Jit_Disabled \<Rightarrow> {MSPV_OPTION_DISABLE_JIT} | Jit_Enabled \<Rightarrow> {} | Jit_Secure \<Rightarrow> {MSPV_OPTION_SECURE_JIT}) \<union>
     (case aes of Aes_Automatic \<Rightarrow> {} | Aes_Software \<Rightarrow> {MSPV_OPTION_DISABLE_HARD_AES})"

fun map_shutdown_mode :: "shutdown_mode \<Rightarrow> mspv_shutdown_mode" where
  "map_shutdown_mode Drain = MSPV_SHUTDOWN_DRAIN"
| "map_shutdown_mode Cancel_Pending = MSPV_SHUTDOWN_CANCEL_PENDING"

definition config_invalid :: "verifier_config \<Rightarrow> bool" where
  "config_invalid c \<longleftrightarrow>
     workers c = 0 \<or> workers c > kMaximumWorkers \<or>
     seed_init_threads c = 0 \<or> seed_init_threads c > kMaximumWorkers \<or>
     pending_capacity c = 0 \<or> pending_capacity c > kMaximumCapacity \<or>
     max_outstanding c < pending_capacity c \<or> max_outstanding c > kMaximumCapacity \<or>
     max_input_size c = 0 \<or> max_input_size c > kMaximumInputSize \<or>
     max_seeds c < 2 \<or> max_seeds c > kMaximumSeeds \<or>
     max_buffered_input_bytes c < ucast (max_input_size c) \<or>
     max_buffered_input_bytes c > kMaximumBufferedInputBytes"

definition map_config :: "mspv_status \<Rightarrow> verifier_config \<Rightarrow> verifier_error + native_config_snapshot" where
  "map_config init_status c =
     (if config_invalid c then Inl (Verifier_Error ''verifier configuration'' MSPV_INVALID_CONFIG MSPV_OK)
      else if init_status \<noteq> MSPV_OK then Inl (Verifier_Error ''mspv_config_init'' init_status MSPV_OK)
      else Inr \<lparr>abi_version = 1, n_worker_count = workers c, n_seed_init_threads = seed_init_threads c,
        n_pending_capacity = pending_capacity c, n_max_outstanding = max_outstanding c,
        n_max_input_size = max_input_size c, n_max_seed_key_size = kSeedHashSize, n_max_seeds = max_seeds c,
        n_max_buffered_input_bytes = max_buffered_input_bytes c,
        n_memory_mode = map_memory_mode (cfg_memory_mode c), n_large_pages = map_large_pages (cfg_large_pages c),
        n_options = map_options (cfg_jit c) (cfg_aes c), n_log_level = map_log_level (cfg_log_level c)\<rparr>)"

section \<open>State\<close>

record seed_record =
  seed_hash :: bytes
  seed_id :: u64
  seed_state :: mspv_seed_state
  last_error :: mspv_status
  key_size :: u32
  queued_jobs :: u32
  running_jobs :: u32
  prepare_ns :: u64
  memory_uses_large_pages :: bool
  all_vms_use_large_pages :: bool
  retained_job_references :: u64
  tracked_verifications :: u64
  release_requested :: bool
  release_started :: bool
  removed :: bool

text \<open>A snapshot is the record without its \<open>removed\<close> mark.\<close>

record seed_snapshot_record =
  snap_seed_id :: u64
  snap_seed_hash :: bytes
  snap_state :: mspv_seed_state
  snap_last_error :: mspv_status
  snap_key_size :: u32
  snap_queued_jobs :: u32
  snap_running_jobs :: u32
  snap_prepare_ns :: u64
  snap_memory_uses_large_pages :: bool
  snap_all_vms_use_large_pages :: bool
  snap_retained_job_references :: u64
  snap_tracked_verifications :: u64
  snap_release_requested :: bool
  snap_release_started :: bool

type_synonym seed_query = "mspv_status \<times> seed_snapshot_record"

datatype lifecycle = Running | Shut_Down | Failed

datatype correlation =
  Matched | Unknown_User_Tag | Ticket_Mismatch | Seed_Mismatch | Ticket_And_Seed_Mismatch

record completion =
  c_result :: mspv_result
  c_error :: mspv_status
  c_comparison :: mspv_comparison
  c_ticket :: u64
  c_user_tag :: u64
  c_seed_id :: u64
  c_hash :: bytes
  c_queue_ns :: u64
  c_hash_ns :: u64
  c_total_ns :: u64
  c_submission_kind :: submission_kind
  c_correlation :: correlation
  c_expected_ticket :: u64
  c_expected_seed_id :: u64

record verifier =
  has_context :: bool
  lifecycle :: lifecycle
  current_seed_id :: u64
  seeds :: "seed_record list"
  submissions :: slots
  tracked_submissions :: nat
  wake_pending :: bool
  callback_exceptions :: u64
  calls :: "native_call list"

definition new_seed :: "bytes \<Rightarrow> seed_record" where
  "new_seed hash = \<lparr>seed_hash = hash, seed_id = 0, seed_state = MSPV_SEED_PREPARING, last_error = MSPV_OK,
     key_size = kSeedHashSize, queued_jobs = 0, running_jobs = 0, prepare_ns = 0,
     memory_uses_large_pages = False, all_vms_use_large_pages = False, retained_job_references = 0,
     tracked_verifications = 0, release_requested = False, release_started = False, removed = False\<rparr>"

definition empty_snapshot :: seed_snapshot_record where
  "empty_snapshot = \<lparr>snap_seed_id = 0, snap_seed_hash = replicate 32 0, snap_state = MSPV_SEED_PREPARING,
     snap_last_error = MSPV_OK, snap_key_size = 0, snap_queued_jobs = 0, snap_running_jobs = 0,
     snap_prepare_ns = 0, snap_memory_uses_large_pages = False, snap_all_vms_use_large_pages = False,
     snap_retained_job_references = 0, snap_tracked_verifications = 0,
     snap_release_requested = False, snap_release_started = False\<rparr>"

definition is_running :: "verifier \<Rightarrow> bool" where
  "is_running v \<longleftrightarrow> lifecycle v = Running"

definition is_shutdown :: "verifier \<Rightarrow> bool" where
  "is_shutdown v \<longleftrightarrow> lifecycle v = Shut_Down"

definition usable :: "verifier \<Rightarrow> bool" where
  "usable v \<longleftrightarrow> lifecycle v = Running \<and> has_context v"

definition issue :: "native_call \<Rightarrow> verifier \<Rightarrow> verifier" where
  "issue c v = v\<lparr>calls := calls v @ [c]\<rparr>"

text \<open>
  The constructor: the answers are those of \<open>mspv_config_init\<close> (twice), \<open>mspv_create\<close>, \<open>mspv_start\<close> and,
  after a failed start, \<open>mspv_shutdown\<close>.
\<close>

definition make_verifier ::
    "mspv_status \<Rightarrow> mspv_status \<Rightarrow> mspv_status \<Rightarrow> mspv_status \<Rightarrow> mspv_status \<Rightarrow> verifier_config \<Rightarrow> verifier_error + verifier" where
  "make_verifier init1 init2 create start cleanup c =
     (case map_config init1 c of Inl e \<Rightarrow> Inl e
      | Inr mapped \<Rightarrow>
        if init2 \<noteq> MSPV_OK then Inl (Verifier_Error ''mspv_config_init'' init2 MSPV_OK)
        else if create \<noteq> MSPV_OK then Inl (Verifier_Error ''mspv_create'' create MSPV_OK)
        else if start \<noteq> MSPV_OK then Inl (Verifier_Error ''mspv_start'' start cleanup)
        else Inr \<lparr>has_context = True, lifecycle = Running, current_seed_id = 0, seeds = [],
          submissions = replicate (submission_table_size (max_outstanding c)) empty_slot,
          tracked_submissions = 0, wake_pending = False, callback_exceptions = 0, calls = []\<rparr>)"

section \<open>Seeds\<close>

text \<open>The seed list is searched for the first resident record; a reference to it stays valid while the
  operation runs, so writing through it replaces that same record.\<close>

definition named :: "u64 \<Rightarrow> seed_record \<Rightarrow> bool" where
  "named sid r \<longleftrightarrow> seed_id r = sid \<and> \<not> removed r"

definition find_seed :: "verifier \<Rightarrow> u64 \<Rightarrow> seed_record option" where
  "find_seed v sid = find (named sid) (seeds v)"

definition find_resident_seed_by_hash :: "verifier \<Rightarrow> bytes \<Rightarrow> seed_record option" where
  "find_resident_seed_by_hash v hash = find (\<lambda>r. seed_hash r = hash \<and> \<not> removed r) (rev (seeds v))"

fun replace_first :: "('a \<Rightarrow> bool) \<Rightarrow> 'a \<Rightarrow> 'a list \<Rightarrow> 'a list" where
  "replace_first P y [] = []"
| "replace_first P y (x # xs) = (if P x then y # xs else x # replace_first P y xs)"

definition set_seed :: "u64 \<Rightarrow> seed_record \<Rightarrow> verifier \<Rightarrow> verifier" where
  "set_seed sid r v = v\<lparr>seeds := replace_first (named sid) r (seeds v)\<rparr>"

type_synonym info_answer = "mspv_status \<times> mspv_seed_info"

definition refresh_record :: "info_answer \<Rightarrow> seed_record \<Rightarrow> seed_record" where
  "refresh_record ans r =
     (let (status, info) = ans in
      if status = MSPV_OK
      then r\<lparr>seed_state := info_state info, last_error := info_last_error info, key_size := info_key_size info,
             queued_jobs := info_queued_jobs info, running_jobs := info_running_jobs info,
             prepare_ns := info_prepare_ns info,
             memory_uses_large_pages := (info_memory_uses_large_pages info \<noteq> 0),
             all_vms_use_large_pages := (info_all_vms_use_large_pages info \<noteq> 0)\<rparr>
      else if status = MSPV_SEED_NOT_FOUND \<and> release_started r then r\<lparr>removed := True\<rparr>
      else r)"

definition snapshot_of :: "seed_record \<Rightarrow> seed_snapshot_record" where
  "snapshot_of r = \<lparr>snap_seed_id = seed_id r, snap_seed_hash = seed_hash r, snap_state = seed_state r,
     snap_last_error = last_error r, snap_key_size = key_size r, snap_queued_jobs = queued_jobs r,
     snap_running_jobs = running_jobs r, snap_prepare_ns = prepare_ns r,
     snap_memory_uses_large_pages = memory_uses_large_pages r,
     snap_all_vms_use_large_pages = all_vms_use_large_pages r,
     snap_retained_job_references = retained_job_references r,
     snap_tracked_verifications = tracked_verifications r,
     snap_release_requested = release_requested r, snap_release_started = release_started r\<rparr>"

definition seed_snapshot_locked :: "info_answer \<Rightarrow> seed_record \<Rightarrow> verifier \<Rightarrow> seed_query \<times> verifier" where
  "seed_snapshot_locked ans r v =
     (let r' = refresh_record ans r in ((fst ans, snapshot_of r'), set_seed (seed_id r) r' v))"

text \<open>The last argument of the native answers is the status of \<open>mspv_seed_release\<close> throughout.\<close>

definition maybe_begin_seed_release :: "mspv_status \<Rightarrow> seed_record \<Rightarrow> verifier \<Rightarrow> mspv_status \<times> verifier" where
  "maybe_begin_seed_release rel r v =
     (if \<not> release_requested r \<or> release_started r \<or> removed r then (MSPV_OK, v)
      else if seed_id r = current_seed_id v \<or> retained_job_references r \<noteq> 0 \<or> tracked_verifications r \<noteq> 0
      then (MSPV_OK, v)
      else if lifecycle v \<noteq> Running then (MSPV_OK, v)
      else let v = issue (Call_Release (seed_id r)) v in
        if rel = MSPV_OK \<or> rel = MSPV_SEED_RELEASING
        then (MSPV_OK, set_seed (seed_id r) (r\<lparr>release_started := True, seed_state := MSPV_SEED_RELEASING_STATE\<rparr>) v)
        else if rel = MSPV_SEED_NOT_FOUND
        then (MSPV_OK, set_seed (seed_id r) (r\<lparr>release_started := True, removed := True\<rparr>) v)
        else (rel, v))"

text \<open>
  Preparing a resident seed again cancels a pending release request. A new record is appended
  before the native call and dropped again when that fails or names a resident seed.
\<close>

definition prepare_resident :: "info_answer \<Rightarrow> seed_record \<Rightarrow> verifier \<Rightarrow> seed_query \<times> verifier" where
  "prepare_resident info r v =
     (if release_started r
      then let (q, v) = seed_snapshot_locked info r v in ((MSPV_SEED_RELEASING, snd q), v)
      else let r = r\<lparr>release_requested := False\<rparr> in
        seed_snapshot_locked info r (set_seed (seed_id r) r v))"

definition prepare_new :: "info_answer \<Rightarrow> mspv_status \<times> u64 \<Rightarrow> bytes \<Rightarrow> verifier \<Rightarrow> seed_query \<times> verifier" where
  "prepare_new info prep hash v =
     (let (status, sid) = prep; v = issue (Call_Prepare hash) v in
      if status \<noteq> MSPV_OK then ((status, empty_snapshot), v)
      else case find_seed v sid of
        Some existing \<Rightarrow> seed_snapshot_locked info existing v
      | None \<Rightarrow>
          ((MSPV_OK, empty_snapshot\<lparr>snap_seed_id := sid, snap_seed_hash := hash, snap_state := MSPV_SEED_PREPARING,
                       snap_key_size := kSeedHashSize\<rparr>),
           v\<lparr>seeds := seeds v @ [(new_seed hash)\<lparr>seed_id := sid\<rparr>]\<rparr>))"

definition prepare_seed :: "info_answer \<Rightarrow> mspv_status \<times> u64 \<Rightarrow> bytes \<Rightarrow> verifier \<Rightarrow> seed_query \<times> verifier" where
  "prepare_seed info prep hash v =
     (if \<not> usable v then ((MSPV_NOT_RUNNING, empty_snapshot), v)
      else let v = v\<lparr>seeds := filter (\<lambda>r. \<not> removed r) (seeds v)\<rparr> in
      case find_resident_seed_by_hash v hash of
        Some r \<Rightarrow> prepare_resident info r v
      | None \<Rightarrow> prepare_new info prep hash v)"

definition wait_seed_ready :: "mspv_status \<Rightarrow> info_answer \<Rightarrow> u64 \<Rightarrow> verifier \<Rightarrow> mspv_status \<times> verifier" where
  "wait_seed_ready waited info sid v =
     (if \<not> usable v then (MSPV_NOT_RUNNING, v)
      else case find_seed v sid of None \<Rightarrow> (MSPV_SEED_NOT_FOUND, v)
      | Some r \<Rightarrow> (waited, snd (seed_snapshot_locked info r v)))"

definition seed_snapshot :: "info_answer \<Rightarrow> u64 \<Rightarrow> verifier \<Rightarrow> seed_query \<times> verifier" where
  "seed_snapshot info sid v =
     (if \<not> usable v then ((MSPV_NOT_RUNNING, empty_snapshot), v)
      else case find_seed v sid of None \<Rightarrow> ((MSPV_SEED_NOT_FOUND, empty_snapshot), v)
      | Some r \<Rightarrow> seed_snapshot_locked info r v)"

definition refresh_all :: "(u64 \<Rightarrow> info_answer) \<Rightarrow> seed_record list \<Rightarrow> seed_record list" where
  "refresh_all info rs = map (\<lambda>r. if removed r then r else refresh_record (info (seed_id r)) r) rs"

definition seed_snapshots :: "(u64 \<Rightarrow> info_answer) \<Rightarrow> verifier \<Rightarrow> seed_snapshot_record list \<times> verifier" where
  "seed_snapshots info v =
     (if \<not> usable v then ([], v)
      else let rs = refresh_all info (seeds v) in
        (sort_key snap_seed_id (map snapshot_of (filter (\<lambda>r. \<not> removed r) rs)), v\<lparr>seeds := rs\<rparr>))"

text \<open>The seed that stops being current becomes ready, and its requested release may begin.\<close>

definition retire_former :: "mspv_status \<Rightarrow> u64 \<Rightarrow> verifier \<Rightarrow> verifier" where
  "retire_former rel former v =
     (case find_seed v former of None \<Rightarrow> v
      | Some r \<Rightarrow> let r = r\<lparr>seed_state := MSPV_SEED_READY\<rparr> in
          snd (maybe_begin_seed_release rel r (set_seed former r v)))"

definition activate_seed ::
    "info_answer \<Rightarrow> mspv_status \<Rightarrow> mspv_status \<Rightarrow> u64 \<Rightarrow> verifier \<Rightarrow> mspv_status \<times> verifier" where
  "activate_seed info act rel sid v =
     (if \<not> usable v then (MSPV_NOT_RUNNING, v)
      else case find_seed v sid of None \<Rightarrow> (MSPV_SEED_NOT_FOUND, v)
      | Some r \<Rightarrow>
        if release_requested r \<or> release_started r then (MSPV_SEED_RELEASING, v)
        else let r' = refresh_record info r; v = snd (seed_snapshot_locked info r v) in
        if fst info \<noteq> MSPV_OK then (fst info, v)
        else if seed_state r' \<noteq> MSPV_SEED_READY \<and> seed_state r' \<noteq> MSPV_SEED_CURRENT then (MSPV_SEED_NOT_READY, v)
        else let former = current_seed_id v; v = issue (Call_Activate sid) v in
        if act \<noteq> MSPV_OK then (act, v)
        else let v = set_seed sid (r'\<lparr>seed_state := MSPV_SEED_CURRENT\<rparr>) (v\<lparr>current_seed_id := sid\<rparr>) in
        (MSPV_OK, if former \<noteq> 0 \<and> former \<noteq> sid then retire_former rel former v else v))"

definition deactivate_seed :: "mspv_status \<Rightarrow> mspv_status \<Rightarrow> verifier \<Rightarrow> mspv_status \<times> verifier" where
  "deactivate_seed deact rel v =
     (if \<not> usable v then (MSPV_NOT_RUNNING, v)
      else if current_seed_id v = 0 then (MSPV_OK, v)
      else let former = current_seed_id v; v = issue Call_Deactivate v in
      if deact \<noteq> MSPV_OK then (deact, v)
      else (MSPV_OK, retire_former rel former (v\<lparr>current_seed_id := 0\<rparr>)))"

definition retain_seed :: "u64 \<Rightarrow> verifier \<Rightarrow> mspv_status \<times> verifier" where
  "retain_seed sid v =
     (if \<not> usable v then (MSPV_NOT_RUNNING, v)
      else case find_seed v sid of None \<Rightarrow> (MSPV_SEED_NOT_FOUND, v)
      | Some r \<Rightarrow>
        if release_started r then (MSPV_SEED_RELEASING, v)
        else if retained_job_references r = - 1 then (MSPV_INTERNAL_ERROR, v)
        else (MSPV_OK, set_seed sid (r\<lparr>retained_job_references := retained_job_references r + 1\<rparr>) v))"

definition drop_seed_reference :: "mspv_status \<Rightarrow> u64 \<Rightarrow> verifier \<Rightarrow> mspv_status \<times> verifier" where
  "drop_seed_reference rel sid v =
     (if \<not> usable v then (MSPV_NOT_RUNNING, v)
      else case find_seed v sid of None \<Rightarrow> (MSPV_SEED_NOT_FOUND, v)
      | Some r \<Rightarrow>
        if retained_job_references r = 0 then (MSPV_INVALID_ARGUMENT, v)
        else let r = r\<lparr>retained_job_references := retained_job_references r - 1\<rparr> in
          maybe_begin_seed_release rel r (set_seed sid r v))"

definition request_seed_release :: "mspv_status \<Rightarrow> u64 \<Rightarrow> verifier \<Rightarrow> mspv_status \<times> verifier" where
  "request_seed_release rel sid v =
     (if \<not> usable v then (MSPV_NOT_RUNNING, v)
      else case find_seed v sid of
        None \<Rightarrow>
          if list_ex (\<lambda>r. seed_id r = sid \<and> removed r) (seeds v)
          then (MSPV_OK, v\<lparr>seeds := filter (\<lambda>r. \<not> (seed_id r = sid \<and> removed r)) (seeds v)\<rparr>)
          else (MSPV_SEED_NOT_FOUND, v)
      | Some r \<Rightarrow> let r = r\<lparr>release_requested := True\<rparr> in
          maybe_begin_seed_release rel r (set_seed sid r v))"

text \<open>
  \<open>wait_seed_released\<close> reads the record again after the attempt; an attempt that found no native
  seed has marked it removed, and the record it refers to is then the removed one.
\<close>

definition started_now :: "mspv_status \<Rightarrow> seed_record \<Rightarrow> verifier \<Rightarrow> bool" where
  "started_now rel r v \<longleftrightarrow> release_started r \<or>
     (\<not> removed r \<and> seed_id r \<noteq> current_seed_id v \<and> retained_job_references r = 0 \<and> tracked_verifications r = 0 \<and>
      lifecycle v = Running \<and> (rel = MSPV_OK \<or> rel = MSPV_SEED_RELEASING \<or> rel = MSPV_SEED_NOT_FOUND))"

definition wait_seed_released :: "mspv_status \<Rightarrow> mspv_status \<Rightarrow> u64 \<Rightarrow> verifier \<Rightarrow> mspv_status \<times> verifier" where
  "wait_seed_released rel waited sid v =
     (if \<not> usable v then (MSPV_NOT_RUNNING, v)
      else case find_seed v sid of None \<Rightarrow> (MSPV_SEED_NOT_FOUND, v)
      | Some r \<Rightarrow>
        let r = r\<lparr>release_requested := True\<rparr>;
            started = started_now rel r v;
            (begin_status, v) = maybe_begin_seed_release rel r (set_seed sid r v) in
        if begin_status \<noteq> MSPV_OK then (begin_status, v)
        else if sid = current_seed_id v then (MSPV_SEED_ACTIVE, v)
        else if \<not> started then (MSPV_SEED_NOT_READY, v)
        else if waited = MSPV_OK \<or> waited = MSPV_SEED_NOT_FOUND
        then (MSPV_OK, v\<lparr>seeds := filter (\<lambda>s. seed_id s \<noteq> sid) (seeds v)\<rparr>)
        else (waited, v))"

section \<open>Submissions and completions\<close>

definition erase_submission_slot :: "nat \<Rightarrow> verifier \<Rightarrow> verifier" where
  "erase_submission_slot i v =
     v\<lparr>submissions := clear_slot (submissions v) i,
       tracked_submissions := (if tracked_submissions v \<noteq> 0 then tracked_submissions v - 1 else 0)\<rparr>"

definition admit_submission ::
    "verifier_config \<Rightarrow> mspv_status \<times> u64 \<Rightarrow> submission_kind \<Rightarrow> seed_record \<Rightarrow> bytes \<Rightarrow> u64 \<Rightarrow> verifier \<Rightarrow>
     (mspv_status \<times> u64) \<times> verifier" where
  "admit_submission cfg native kind r input tag v =
     (if tracked_submissions v \<ge> unat (max_outstanding cfg) then ((MSPV_QUEUE_FULL, 0), v)
      else let (i, already_present) = find_submission_insert_slot (submissions v) tag in
      if already_present then ((MSPV_INVALID_ARGUMENT, 0), v)
      else if i = length (submissions v) then ((MSPV_QUEUE_FULL, 0), v)
      else let v = v\<lparr>submissions := occupy_slot (submissions v) i tag (seed_id r) kind,
                     tracked_submissions := tracked_submissions v + 1\<rparr>;
               v = issue (Call_Submit kind (seed_id r) input tag) v;
               (status, ticket) = native in
      if status \<noteq> MSPV_OK then ((status, 0), erase_submission_slot i v)
      else ((MSPV_OK, ticket),
            set_seed (seed_id r) (r\<lparr>tracked_verifications := tracked_verifications r + 1\<rparr>)
              (v\<lparr>submissions := set_ticket (submissions v) i ticket\<rparr>)))"

definition submit_locked ::
    "verifier_config \<Rightarrow> info_answer \<Rightarrow> mspv_status \<times> u64 \<Rightarrow> submission_kind \<Rightarrow> u64 \<Rightarrow> bytes \<Rightarrow> bytes option \<Rightarrow> u64 \<Rightarrow>
     verifier \<Rightarrow> (mspv_status \<times> u64) \<times> verifier" where
  "submit_locked cfg info native kind sid input claimed tag v =
     (if \<not> usable v then ((MSPV_NOT_RUNNING, 0), v)
      else if tag = 0 \<or> input = [] \<or> length input > unat (max_input_size cfg) \<or> (kind = Verify_Claim \<and> claimed = None)
      then ((MSPV_INVALID_ARGUMENT, 0), v)
      else case find_seed v sid of None \<Rightarrow> ((MSPV_SEED_NOT_FOUND, 0), v)
      | Some r \<Rightarrow>
        if release_started r then ((MSPV_SEED_RELEASING, 0), v)
        else let r' = refresh_record info r; v = snd (seed_snapshot_locked info r v) in
        if fst info \<noteq> MSPV_OK then ((fst info, 0), v)
        else if seed_state r' \<noteq> MSPV_SEED_READY \<and> seed_state r' \<noteq> MSPV_SEED_CURRENT then ((MSPV_SEED_NOT_READY, 0), v)
        else admit_submission cfg native kind r' input tag v)"

definition submit_verify where
  "submit_verify cfg info native sid input claimed tag = submit_locked cfg info native Verify_Claim sid input (Some claimed) tag"

definition submit_hash where
  "submit_hash cfg info native sid input tag = submit_locked cfg info native Hash_Only sid input None tag"

definition plain_completion :: "mspv_completion \<Rightarrow> completion" where
  "plain_completion n =
     (let good = (nat_result n = MSPV_RESULT_OK \<and> nat_error n = MSPV_OK) in
      \<lparr>c_result = nat_result n, c_error = nat_error n,
       c_comparison = (if good then nat_comparison n else MSPV_COMPARISON_NOT_REQUESTED),
       c_ticket = nat_ticket n, c_user_tag = nat_user_tag n, c_seed_id = nat_seed_id n,
       c_hash = (if good then nat_hash n else replicate 32 0),
       c_queue_ns = (if good then nat_queue_ns n else 0), c_hash_ns = (if good then nat_hash_ns n else 0),
       c_total_ns = (if good then nat_total_ns n else 0),
       c_submission_kind = Verify_Claim, c_correlation = Unknown_User_Tag,
       c_expected_ticket = 0, c_expected_seed_id = 0\<rparr>)"

definition correlate :: "submission_slot \<Rightarrow> mspv_completion \<Rightarrow> correlation" where
  "correlate s n =
     (if slot_ticket s = nat_ticket n \<and> slot_seed s = nat_seed_id n then Matched
      else if slot_ticket s \<noteq> nat_ticket n \<and> slot_seed s \<noteq> nat_seed_id n then Ticket_And_Seed_Mismatch
      else if slot_ticket s \<noteq> nat_ticket n then Ticket_Mismatch
      else Seed_Mismatch)"

definition drop_verification :: "mspv_status \<Rightarrow> u64 \<Rightarrow> verifier \<Rightarrow> verifier" where
  "drop_verification rel sid v =
     (case find_seed v sid of None \<Rightarrow> v
      | Some r \<Rightarrow>
        let r = (if tracked_verifications r \<noteq> 0 then r\<lparr>tracked_verifications := tracked_verifications r - 1\<rparr> else r) in
        snd (maybe_begin_seed_release rel r (set_seed sid r v)))"

definition correlate_completion :: "mspv_status \<Rightarrow> mspv_completion \<Rightarrow> verifier \<Rightarrow> completion \<times> verifier" where
  "correlate_completion rel n v =
     (let i = find_submission_slot (submissions v) (nat_user_tag n) in
      if i = length (submissions v) then (plain_completion n, v)
      else let s = submissions v ! i in
        ((plain_completion n)\<lparr>c_submission_kind := slot_kind s, c_expected_ticket := slot_ticket s,
           c_expected_seed_id := slot_seed s, c_correlation := correlate s n\<rparr>,
         drop_verification rel (slot_seed s) (erase_submission_slot i v)))"

text \<open>Poll number \<open>i\<close> of the native queue answers \<open>polls i\<close>; \<open>rels i\<close> answers a release begun by it.\<close>

primrec drain_loop ::
    "(nat \<Rightarrow> mspv_status \<times> mspv_completion) \<Rightarrow> (nat \<Rightarrow> mspv_status) \<Rightarrow> nat \<Rightarrow> nat \<Rightarrow> completion list \<Rightarrow> verifier \<Rightarrow>
     (completion list \<times> mspv_status) \<times> verifier" where
  "drain_loop polls rels 0 i acc v = ((acc, MSPV_OK), v)"
| "drain_loop polls rels (Suc left) i acc v =
     (let (status, n) = polls i in
      if status \<noteq> MSPV_OK then ((acc, status), v)
      else let (c, v) = correlate_completion (rels i) n v in
        drain_loop polls rels left (Suc i) (acc @ [c]) v)"

definition drain_completions ::
    "(nat \<Rightarrow> mspv_status \<times> mspv_completion) \<Rightarrow> (nat \<Rightarrow> mspv_status) \<Rightarrow> nat \<Rightarrow> verifier \<Rightarrow>
     (completion list \<times> mspv_status) \<times> verifier" where
  "drain_completions polls rels max_count v =
     (let v = v\<lparr>wake_pending := False\<rparr> in
      if \<not> has_context v then (([], MSPV_NOT_RUNNING), v)
      else drain_loop polls rels max_count 0 [] v)"

text \<open>The unbounded drain at destruction, over the completions polled before the first other status.\<close>

primrec discard_completions :: "(mspv_completion \<times> mspv_status) list \<Rightarrow> verifier \<Rightarrow> verifier" where
  "discard_completions [] v = v"
| "discard_completions (p # ps) v = discard_completions ps (snd (correlate_completion (snd p) (fst p) v))"

definition stats :: "mspv_status \<times> 'a \<Rightarrow> 'a \<Rightarrow> verifier \<Rightarrow> mspv_status \<times> 'a" where
  "stats native zero v = (if \<not> usable v then (MSPV_NOT_RUNNING, zero) else native)"

definition shutdown :: "mspv_status \<Rightarrow> shutdown_mode \<Rightarrow> verifier \<Rightarrow> mspv_status \<times> verifier" where
  "shutdown native mode v =
     (if \<not> has_context v then (MSPV_NOT_RUNNING, v)
      else if lifecycle v = Shut_Down then (MSPV_OK, v)
      else if lifecycle v \<noteq> Running then (MSPV_NOT_RUNNING, v)
      else let v = issue (Call_Shutdown (map_shutdown_mode mode)) v in
        (native, if native = MSPV_OK then v\<lparr>lifecycle := Shut_Down\<rparr> else v))"

definition destroy :: "mspv_status \<Rightarrow> mspv_status \<Rightarrow> (mspv_completion \<times> mspv_status) list \<Rightarrow> verifier \<Rightarrow> verifier" where
  "destroy drained cancelled polled v =
     (if \<not> has_context v then v
      else let v = (if lifecycle v = Running
          then let v = issue (Call_Shutdown MSPV_SHUTDOWN_DRAIN) v;
                   (status, v) = (if drained \<noteq> MSPV_OK
                     then (cancelled, issue (Call_Shutdown MSPV_SHUTDOWN_CANCEL_PENDING) v) else (drained, v)) in
            if status = MSPV_OK then v\<lparr>lifecycle := Shut_Down\<rparr> else v
          else v);
        v = (if lifecycle v = Shut_Down then discard_completions polled v else v);
        v = issue Call_Destroy v in
      v\<lparr>has_context := False, lifecycle := Failed\<rparr>)"

text \<open>The callbacks: \<open>throws\<close> is \<open>None\<close> without a callback, otherwise whether it threw.\<close>

definition native_notify :: "bool option \<Rightarrow> verifier \<Rightarrow> verifier" where
  "native_notify throws v =
     (let v = v\<lparr>wake_pending := True\<rparr> in
      if throws = Some True then v\<lparr>callback_exceptions := callback_exceptions v + 1\<rparr> else v)"

definition native_log :: "bool option \<Rightarrow> verifier \<Rightarrow> verifier" where
  "native_log throws v = (if throws = Some True then v\<lparr>callback_exceptions := callback_exceptions v + 1\<rparr> else v)"

definition consume_wakeup :: "verifier \<Rightarrow> bool \<times> verifier" where
  "consume_wakeup v = (wake_pending v, v\<lparr>wake_pending := False\<rparr>)"

section \<open>Seeds and submissions as maps\<close>

lemma find_named_Some: "find (named i) rs = Some r \<Longrightarrow> seed_id r = i \<and> \<not> removed r \<and> r \<in> set rs"
  by (induction rs) (auto simp: named_def split: if_splits)

lemma find_named_None: "find (named i) rs = None \<longleftrightarrow> i \<notin> seed_id ` set (filter (\<lambda>r. \<not> removed r) rs)"
  by (induction rs) (auto simp: named_def)

definition unique_seeds :: "seed_record list \<Rightarrow> bool" where
  "unique_seeds rs \<longleftrightarrow> distinct (map seed_id (filter (\<lambda>r. \<not> removed r) rs))"

lemma find_named_member:
  "unique_seeds rs \<Longrightarrow> r \<in> set rs \<Longrightarrow> \<not> removed r \<Longrightarrow> find (named (seed_id r)) rs = Some r"
  by (induction rs) (auto simp: unique_seeds_def named_def split: if_splits)

lemma seed_ids_replace:
  assumes "find (named i) rs = Some r0" and "seed_id r = i"
  shows "seed_id ` set (filter (\<lambda>r. \<not> removed r) (replace_first (named i) r rs)) \<subseteq> seed_id ` set (filter (\<lambda>r. \<not> removed r) rs)"
  using assms by (induction rs) (auto simp: named_def split: if_splits)

lemma unique_replace:
  assumes "unique_seeds rs" and "find (named i) rs = Some r0" and "seed_id r = i"
  shows "unique_seeds (replace_first (named i) r rs)"
  using assms
proof (induction rs)
  case (Cons x rs)
  show ?case
  proof (cases "named i x")
    case True
    then show ?thesis using Cons.prems by (auto simp: unique_seeds_def named_def)
  next
    case False
    then have "unique_seeds (replace_first (named i) r rs)"
      using Cons by (auto simp: unique_seeds_def split: if_splits)
    moreover have "seed_id x \<notin> seed_id ` set (filter (\<lambda>r. \<not> removed r) rs)" if "\<not> removed x"
      using Cons.prems(1) that by (auto simp: unique_seeds_def)
    ultimately show ?thesis using False Cons.prems(2,3) seed_ids_replace [of i rs r0 r]
      by (auto simp: unique_seeds_def)
  qed
qed simp

lemma find_replace:
  assumes "unique_seeds rs" and "find (named i) rs = Some r0" and "seed_id r = i"
  shows "find (named j) (replace_first (named i) r rs) =
    (if j = i then if removed r then None else Some r else find (named j) rs)"
  using assms
proof (induction rs)
  case (Cons x rs)
  show ?case
  proof (cases "named i x")
    case True
    have "find (named i) rs = None" using Cons.prems(1) True by (auto simp: find_named_None unique_seeds_def named_def)
    then have "find (named j) rs = None" if "j = i" using that by simp
    then show ?thesis using True Cons.prems(3) by (cases "j = i") (simp_all add: named_def [of _ x] named_def [of _ r])
  next
    case False
    moreover have "unique_seeds rs" using Cons.prems(1) by (auto simp: unique_seeds_def split: if_splits)
    ultimately show ?thesis using Cons.IH Cons.prems(2,3) by (cases "j = i") auto
  qed
qed simp

text \<open>The number of outstanding submissions that use a seed.\<close>

definition refs :: "(u64 \<rightharpoonup> submission_slot) \<Rightarrow> u64 \<Rightarrow> nat" where
  "refs M sid = card {tag. \<exists>s. M tag = Some s \<and> slot_seed s = sid}"

lemma finite_refs: "finite (dom M) \<Longrightarrow> finite {tag. \<exists>s. M tag = Some s \<and> slot_seed s = sid}"
  by (erule rev_finite_subset) auto

lemma refs_new:
  assumes "finite (dom M)" and "M tag = None"
  shows "refs (M(tag \<mapsto> s)) sid = (if slot_seed s = sid then Suc (refs M sid) else refs M sid)"
proof -
  let ?R = "{t. \<exists>x. M t = Some x \<and> slot_seed x = sid}"
  have "{t. \<exists>x. (M(tag \<mapsto> s)) t = Some x \<and> slot_seed x = sid} = (if slot_seed s = sid then insert tag ?R else ?R)"
    using assms(2) by auto
  moreover have "tag \<notin> ?R" using assms(2) by simp
  ultimately show ?thesis using finite_refs [OF assms(1), of sid] by (simp add: refs_def)
qed

lemma refs_drop:
  assumes "finite (dom M)" and "M tag = Some s"
  shows "refs M sid = (if slot_seed s = sid then Suc (refs (M(tag := None)) sid) else refs (M(tag := None)) sid)"
  using refs_new [of "M(tag := None)" tag s sid] assms by (simp add: fun_upd_idem)

lemma refs_zero: "finite (dom M) \<Longrightarrow> refs M sid = 0 \<longleftrightarrow> (\<forall>tag s. M tag = Some s \<longrightarrow> slot_seed s \<noteq> sid)"
  using finite_refs [of M sid] by (auto simp: refs_def)

section \<open>The abstract state\<close>

text \<open>
  The contract over the map of seeds, the map of submissions and the current seed: the counter of
  every resident seed is the number of submissions that use it, a seed whose release has begun is
  unused and not current, and every submission and the current seed are resident.
\<close>

definition seed_good :: "(u64 \<rightharpoonup> submission_slot) \<Rightarrow> u64 \<Rightarrow> seed_record \<Rightarrow> bool" where
  "seed_good M c r \<longleftrightarrow> unat (tracked_verifications r) = refs M (seed_id r) \<and>
     (release_started r \<longrightarrow> retained_job_references r = 0 \<and> tracked_verifications r = 0 \<and> (c \<noteq> 0 \<longrightarrow> seed_id r \<noteq> c))"

definition abstract_ok :: "(u64 \<rightharpoonup> seed_record) \<Rightarrow> (u64 \<rightharpoonup> submission_slot) \<Rightarrow> u64 \<Rightarrow> bool" where
  "abstract_ok S M c \<longleftrightarrow> finite (dom M) \<and> card (dom M) < 2 ^ 64 \<and>
     (\<forall>sid r. S sid = Some r \<longrightarrow> seed_id r = sid \<and> seed_good M c r) \<and>
     (\<forall>tag s. M tag = Some s \<longrightarrow> S (slot_seed s) \<noteq> None) \<and>
     (c \<noteq> 0 \<longrightarrow> S c \<noteq> None)"

lemma abstract_okD:
  assumes "abstract_ok S M c"
  shows "finite (dom M)" and "S sid = Some r \<Longrightarrow> seed_id r = sid" and "S sid = Some r \<Longrightarrow> seed_good M c r"
    and "M tag = Some s \<Longrightarrow> S (slot_seed s) \<noteq> None" and "c \<noteq> 0 \<Longrightarrow> S c \<noteq> None" and "card (dom M) < 2 ^ 64"
  using assms by (auto simp: abstract_ok_def)

lemma refs_absent: "abstract_ok S M c \<Longrightarrow> S sid = None \<Longrightarrow> refs M sid = 0"
  using refs_zero [of M sid] abstract_okD(1,4) [of S M c] by blast

text \<open>Writing to a seed without touching its counters.\<close>

lemma abstract_touch:
  assumes "abstract_ok S M c" and "S sid = Some r0" and "seed_id r = sid" and "seed_good M c r"
  shows "abstract_ok (S(sid \<mapsto> r)) M c"
  using assms by (auto simp: abstract_ok_def)

lemma abstract_remove:
  assumes "abstract_ok S M c" and "refs M sid = 0" and "c \<noteq> 0 \<longrightarrow> sid \<noteq> c"
  shows "abstract_ok (S(sid := None)) M c"
proof -
  have "slot_seed s \<noteq> sid" if "M tag = Some s" for tag s
    using assms(2) refs_zero [OF abstract_okD(1) [OF assms(1)]] that by blast
  then show ?thesis using assms by (auto simp: abstract_ok_def)
qed

lemma abstract_new:
  assumes "abstract_ok S M c" and "S sid = None" and "seed_id r = sid"
    and "tracked_verifications r = 0" and "\<not> release_started r"
  shows "abstract_ok (S(sid \<mapsto> r)) M c"
  using assms refs_absent [OF assms(1,2)] by (auto simp: abstract_ok_def seed_good_def)

lemma abstract_activate:
  assumes "abstract_ok S M c" and "c' \<noteq> 0 \<longrightarrow> (\<exists>r. S c' = Some r \<and> \<not> release_started r)"
  shows "abstract_ok S M c'"
  using assms by (auto simp: abstract_ok_def seed_good_def)

lemma abstract_submit:
  assumes "abstract_ok S M c" and "S sid = Some r" and "\<not> release_started r" and "M tag = None"
    and "slot_seed s = sid" and "Suc (card (dom M)) < 2 ^ 64"
  shows "abstract_ok (S(sid \<mapsto> r\<lparr>tracked_verifications := tracked_verifications r + 1\<rparr>)) (M(tag \<mapsto> s)) c"
proof -
  note fin = abstract_okD(1) [OF assms(1)]
  have r: "seed_id r = sid" "unat (tracked_verifications r) = refs M sid"
    using abstract_okD(2,3) [OF assms(1,2)] by (auto simp: seed_good_def)
  have "refs M sid \<le> card (dom M)" unfolding refs_def by (rule card_mono [OF fin]) auto
  then have "unat (tracked_verifications r + 1) = Suc (refs M sid)"
    using r(2) assms(6) by (simp add: unat_word_ariths)
  then have "seed_good (M(tag \<mapsto> s)) c (r\<lparr>tracked_verifications := tracked_verifications r + 1\<rparr>)"
    using r(1) assms(3,5) by (simp add: seed_good_def refs_new [OF fin assms(4)])
  moreover have "seed_good (M(tag \<mapsto> s)) c r'" if "S i = Some r'" "i \<noteq> sid" for i r'
    using abstract_okD(2,3) [OF assms(1) that(1)] that(2) assms(5) by (auto simp: seed_good_def refs_new [OF fin assms(4)])
  moreover have "card (insert tag (dom M)) < 2 ^ 64" using assms(4,6) fin by (simp add: domIff)
  ultimately show ?thesis using assms(1,4,5) r(1) by (auto simp: abstract_ok_def)
qed

lemma abstract_complete:
  assumes "abstract_ok S M c" and "M tag = Some s"
  shows "\<exists>r. S (slot_seed s) = Some r \<and> tracked_verifications r \<noteq> 0 \<and>
    abstract_ok (S(slot_seed s \<mapsto> r\<lparr>tracked_verifications := tracked_verifications r - 1\<rparr>)) (M(tag := None)) c"
proof -
  note fin = abstract_okD(1) [OF assms(1)]
  obtain r where r: "S (slot_seed s) = Some r" using abstract_okD(4) [OF assms] by blast
  note good = abstract_okD(2,3) [OF assms(1) r]
  have t: "unat (tracked_verifications r) = Suc (refs (M(tag := None)) (slot_seed s))"
    using good refs_drop [OF fin assms(2)] by (simp add: seed_good_def)
  then have nz: "tracked_verifications r \<noteq> 0" by auto
  then have "unat (tracked_verifications r - 1) = refs (M(tag := None)) (slot_seed s)"
    using t by (simp add: unat_minus_one)
  then have "seed_good (M(tag := None)) c (r\<lparr>tracked_verifications := tracked_verifications r - 1\<rparr>)"
    using good nz by (auto simp: seed_good_def)
  moreover have "seed_good (M(tag := None)) c r'" if "S i = Some r'" "i \<noteq> slot_seed s" for i r'
    using abstract_okD(2,3) [OF assms(1) that(1)] that(2) by (auto simp: seed_good_def refs_drop [OF fin assms(2)])
  moreover have "card (dom (M(tag := None))) < 2 ^ 64"
    using abstract_okD(6) [OF assms(1)] card_mono [OF fin, of "dom M - {tag}"] by (auto intro: le_less_trans)
  ultimately have "abstract_ok (S(slot_seed s \<mapsto> r\<lparr>tracked_verifications := tracked_verifications r - 1\<rparr>)) (M(tag := None)) c"
    using assms(1) good(1) by (auto simp: abstract_ok_def)
  then show ?thesis using r nz by blast
qed

section \<open>The invariant of the adapter\<close>

definition outstanding :: "verifier \<Rightarrow> u64 \<rightharpoonup> submission_slot" where
  "outstanding v = table_map (submissions v)"

definition verifier_ok :: "verifier_config \<Rightarrow> verifier \<Rightarrow> bool" where
  "verifier_ok cfg v \<longleftrightarrow>
     table_ok (submissions v) \<and> length (submissions v) = submission_table_size (max_outstanding cfg) \<and>
     tracked_submissions v = used (submissions v) \<and> used (submissions v) \<le> unat (max_outstanding cfg) \<and>
     unique_seeds (seeds v) \<and> abstract_ok (find_seed v) (outstanding v) (current_seed_id v)"

lemma verifier_okD:
  assumes "verifier_ok cfg v"
  shows "table_ok (submissions v)" and "length (submissions v) = submission_table_size (max_outstanding cfg)"
    and "tracked_submissions v = used (submissions v)" and "used (submissions v) \<le> unat (max_outstanding cfg)"
    and "unique_seeds (seeds v)" and "abstract_ok (find_seed v) (outstanding v) (current_seed_id v)"
  using assms by (simp_all add: verifier_ok_def)

lemma used_card_dom:
  assumes "table_ok T" shows "used T = card (dom (table_map T))"
proof -
  have d: "distinct (map slot_tag (filter occupied T))"
    by (rule distinct_map_filter_nth) (use table_okD(3) [OF assms] in \<open>auto simp: holds_def\<close>)
  have "dom (table_map T) = set (map slot_tag (filter occupied T))"
    by (auto simp: table_map_def dom_map_of_conv_image_fst image_image)
  then show ?thesis using distinct_card [OF d] by (simp add: used_def)
qed

lemma room_below_limit:
  assumes "verifier_ok cfg v" and "tracked_submissions v < unat (max_outstanding cfg)"
  shows "used (submissions v) < length (submissions v)" and "Suc (card (dom (outstanding v))) < 2 ^ 64"
proof -
  show "used (submissions v) < length (submissions v)"
    using assms(2) verifier_okD [OF assms(1)] submission_table_size_bounds(3) [of "max_outstanding cfg"] by simp
  have "card (dom (outstanding v)) = used (submissions v)"
    using used_card_dom [OF verifier_okD(1) [OF assms(1)]] by (simp add: outstanding_def)
  then have "Suc (card (dom (outstanding v))) \<le> unat (max_outstanding cfg)"
    using assms(2) verifier_okD(3) [OF assms(1)] by simp
  also have "unat (max_outstanding cfg) < 2 ^ 32" by (rule unat_u32_less)
  finally show "Suc (card (dom (outstanding v))) < 2 ^ 64" by simp
qed

lemma find_seed_SomeD: "find_seed v sid = Some r \<Longrightarrow> seed_id r = sid \<and> \<not> removed r"
  by (auto simp: find_seed_def dest: find_named_Some)

lemma find_seed_good:
  assumes "verifier_ok cfg v" and "find_seed v sid = Some r"
  shows "seed_good (outstanding v) (current_seed_id v) r"
  using abstract_okD(3) [OF verifier_okD(6) [OF assms(1)] assms(2)] .

lemma find_seed_fun: "find_seed v = (\<lambda>i. find (named i) (seeds v))"
  by (simp add: find_seed_def fun_eq_iff)

text \<open>Fields that a write to a seed, a native call or a flag leaves alone.\<close>

lemma set_seed_simps [simp]:
  "submissions (set_seed sid r v) = submissions v" "tracked_submissions (set_seed sid r v) = tracked_submissions v"
  "current_seed_id (set_seed sid r v) = current_seed_id v" "lifecycle (set_seed sid r v) = lifecycle v"
  "has_context (set_seed sid r v) = has_context v" "calls (set_seed sid r v) = calls v"
  "outstanding (set_seed sid r v) = outstanding v" "usable (set_seed sid r v) = usable v"
  by (simp_all add: set_seed_def outstanding_def usable_def)

lemma issue_simps [simp]:
  "submissions (issue c v) = submissions v" "tracked_submissions (issue c v) = tracked_submissions v"
  "current_seed_id (issue c v) = current_seed_id v" "lifecycle (issue c v) = lifecycle v" "seeds (issue c v) = seeds v"
  "has_context (issue c v) = has_context v" "calls (issue c v) = calls v @ [c]"
  "outstanding (issue c v) = outstanding v" "usable (issue c v) = usable v"
  "find_seed (issue c v) = find_seed v" "verifier_ok cfg (issue c v) = verifier_ok cfg v"
  by (simp_all add: issue_def outstanding_def usable_def verifier_ok_def find_seed_fun)

lemma find_set_seed:
  assumes "unique_seeds (seeds v)" and "find_seed v sid = Some r0" and "seed_id r = sid"
  shows "find_seed (set_seed sid r v) = (find_seed v)(sid := (if removed r then None else Some r))"
  using find_replace [OF assms(1) _ assms(3)] assms(2) by (auto simp: find_seed_def set_seed_def fun_eq_iff)

lemma set_seed_ok:
  assumes "verifier_ok cfg v" and "find_seed v sid = Some r0" and "seed_id r = sid"
    and "seed_good (outstanding v) (current_seed_id v) r" and "removed r \<longrightarrow> release_started r"
  shows "verifier_ok cfg (set_seed sid r v)"
proof -
  note ok = verifier_okD [OF assms(1)]
  have u: "unique_seeds (seeds (set_seed sid r v))"
    using unique_replace [OF ok(5) _ assms(3)] assms(2) by (simp add: set_seed_def find_seed_def)
  have "abstract_ok (find_seed (set_seed sid r v)) (outstanding v) (current_seed_id v)"
  proof (cases "removed r")
    case True
    then have "refs (outstanding v) sid = 0" "current_seed_id v \<noteq> 0 \<longrightarrow> sid \<noteq> current_seed_id v"
      using assms(3,4,5) by (auto simp: seed_good_def)
    then show ?thesis
      using abstract_remove [OF ok(6)] True by (simp add: find_set_seed [OF ok(5) assms(2,3)])
  next
    case False
    then show ?thesis
      using abstract_touch [OF ok(6) assms(2,3,4)] by (simp add: find_set_seed [OF ok(5) assms(2,3)])
  qed
  then show ?thesis using ok u by (simp add: verifier_ok_def)
qed

section \<open>Preservation, operation by operation\<close>

lemma refresh_record_simps [simp]:
  "seed_id (refresh_record a r) = seed_id r" "retained_job_references (refresh_record a r) = retained_job_references r"
  "tracked_verifications (refresh_record a r) = tracked_verifications r"
  "release_requested (refresh_record a r) = release_requested r" "release_started (refresh_record a r) = release_started r"
  by (simp_all add: refresh_record_def split: prod.split)

lemma removed_refresh: "removed (refresh_record a r) \<longleftrightarrow> removed r \<or> (fst a = MSPV_SEED_NOT_FOUND \<and> release_started r)"
  by (auto simp: refresh_record_def split: prod.split)

lemma seed_good_cong:
  "seed_id r = seed_id r' \<Longrightarrow> tracked_verifications r = tracked_verifications r' \<Longrightarrow>
   retained_job_references r = retained_job_references r' \<Longrightarrow> release_started r = release_started r' \<Longrightarrow>
   seed_good M c r = seed_good M c r'"
  by (simp add: seed_good_def)

lemma refresh_ok:
  assumes "verifier_ok cfg v" and "find_seed v sid = Some r"
  shows "verifier_ok cfg (set_seed sid (refresh_record a r) v)"
  using find_seed_SomeD [OF assms(2)] find_seed_good [OF assms]
  by (intro set_seed_ok [OF assms]) (auto simp: removed_refresh seed_good_cong [of "refresh_record a r" r])

lemma snapshot_locked_ok:
  assumes "verifier_ok cfg v" and "find_seed v sid = Some r"
  shows "verifier_ok cfg (snd (seed_snapshot_locked a r v))"
  using refresh_ok [OF assms] find_seed_SomeD [OF assms(2)] by (simp add: seed_snapshot_locked_def Let_def)

text \<open>A seed nobody uses any more; what a release has to wait for.\<close>

definition idle :: "verifier \<Rightarrow> u64 \<Rightarrow> bool" where
  "idle v sid \<longleftrightarrow> sid \<noteq> current_seed_id v \<and> refs (outstanding v) sid = 0 \<and>
     (\<forall>r. find_seed v sid = Some r \<longrightarrow> retained_job_references r = 0)"

text \<open>The native calls of a step, and that its releases hit idle seeds only.\<close>

definition releases_idle :: "verifier \<Rightarrow> verifier \<Rightarrow> bool" where
  "releases_idle v v' \<longleftrightarrow> (\<exists>cs. calls v' = calls v @ cs \<and> (\<forall>sid. Call_Release sid \<in> set cs \<longrightarrow> idle v' sid))"

lemma releases_idle_refl [simp]: "releases_idle v v" "calls v' = calls v \<Longrightarrow> releases_idle v v'"
  by (auto simp: releases_idle_def)

lemma maybe_begin_keeps [simp]:
  "submissions (snd (maybe_begin_seed_release rel r v)) = submissions v"
  "tracked_submissions (snd (maybe_begin_seed_release rel r v)) = tracked_submissions v"
  "current_seed_id (snd (maybe_begin_seed_release rel r v)) = current_seed_id v"
  "outstanding (snd (maybe_begin_seed_release rel r v)) = outstanding v"
  "lifecycle (snd (maybe_begin_seed_release rel r v)) = lifecycle v"
  by (simp_all add: maybe_begin_seed_release_def outstanding_def Let_def)

lemma maybe_begin_ok:
  assumes "verifier_ok cfg v" and "find_seed v (seed_id r) = Some r"
  shows "verifier_ok cfg (snd (maybe_begin_seed_release rel r v))"
proof -
  have good: "seed_good (outstanding v) (current_seed_id v) r" using find_seed_good [OF assms] .
  let ?v = "issue (Call_Release (seed_id r)) v"
  have ok: "verifier_ok cfg ?v" "find_seed ?v (seed_id r) = Some r" using assms by simp_all
  show ?thesis
    using assms(1) good
    by (auto simp: maybe_begin_seed_release_def Let_def seed_good_def intro!: set_seed_ok [OF ok])
qed

lemma maybe_begin_releases:
  assumes "verifier_ok cfg v" and "find_seed v (seed_id r) = Some r"
  shows "releases_idle v (snd (maybe_begin_seed_release rel r v))"
proof (cases "calls (snd (maybe_begin_seed_release rel r v)) = calls v")
  case True
  then show ?thesis by simp
next
  case False
  let ?v = "snd (maybe_begin_seed_release rel r v)"
  have guards: "seed_id r \<noteq> current_seed_id v" "retained_job_references r = 0" "tracked_verifications r = 0"
    and c: "calls ?v = calls v @ [Call_Release (seed_id r)]"
    using False by (auto simp: maybe_begin_seed_release_def Let_def split: if_splits)
  have "unique_seeds (seeds (issue (Call_Release (seed_id r)) v))" using verifier_okD(5) [OF assms(1)] by simp
  note fs = find_set_seed [OF this, of "seed_id r" r]
  have "retained_job_references r' = 0" if "find_seed ?v (seed_id r) = Some r'" for r'
    using that guards(2) assms(2) fs by (auto simp: maybe_begin_seed_release_def Let_def split: if_splits)
  moreover have "refs (outstanding v) (seed_id r) = 0"
    using find_seed_good [OF assms] guards(3) by (simp add: seed_good_def)
  ultimately have "idle ?v (seed_id r)" using guards(1) by (simp add: idle_def)
  then show ?thesis using c by (auto simp: releases_idle_def)
qed

text \<open>Write a seed, then try its release: what most operations end with.\<close>

lemma write_then_release:
  assumes "verifier_ok cfg v" and "find_seed v sid = Some r0" and "seed_id r = sid" and "\<not> removed r"
    and "seed_good (outstanding v) (current_seed_id v) r"
  shows "verifier_ok cfg (snd (maybe_begin_seed_release rel r (set_seed sid r v)))"
    and "releases_idle v (snd (maybe_begin_seed_release rel r (set_seed sid r v)))"
proof -
  have ok: "verifier_ok cfg (set_seed sid r v)" using assms(4) by (intro set_seed_ok [OF assms(1,2,3,5)]) simp
  have f: "find_seed (set_seed sid r v) (seed_id r) = Some r"
    using find_set_seed [OF verifier_okD(5) [OF assms(1)] assms(2,3)] assms(3,4) by simp
  show "verifier_ok cfg (snd (maybe_begin_seed_release rel r (set_seed sid r v)))" by (rule maybe_begin_ok [OF ok f])
  show "releases_idle v (snd (maybe_begin_seed_release rel r (set_seed sid r v)))"
    using maybe_begin_releases [OF ok f] by (simp add: releases_idle_def)
qed

lemma verifier_ok_flags [simp]:
  "verifier_ok cfg (v\<lparr>wake_pending := b\<rparr>) = verifier_ok cfg v"
  "verifier_ok cfg (v\<lparr>callback_exceptions := e\<rparr>) = verifier_ok cfg v"
  "verifier_ok cfg (v\<lparr>lifecycle := l\<rparr>) = verifier_ok cfg v"
  "verifier_ok cfg (v\<lparr>has_context := b\<rparr>) = verifier_ok cfg v"
  by (simp_all add: verifier_ok_def outstanding_def find_seed_fun)

text \<open>Dropping removed records from the list is not visible through the map.\<close>

lemma find_named_filter:
  "(\<And>r. named i r \<Longrightarrow> P r) \<Longrightarrow> find (named i) (filter P rs) = find (named i) rs"
  by (induction rs) auto

lemma unique_filter: "unique_seeds rs \<Longrightarrow> unique_seeds (filter P rs)"
  by (induction rs) (auto simp: unique_seeds_def)

lemma drop_removed_ok:
  assumes "verifier_ok cfg v" and "\<And>r. \<not> P r \<Longrightarrow> removed r"
  shows "verifier_ok cfg (v\<lparr>seeds := filter P (seeds v)\<rparr>)"
    and "find_seed (v\<lparr>seeds := filter P (seeds v)\<rparr>) = find_seed v"
proof -
  have "P r" if "named i r" for i r using that assms(2) [of r] by (auto simp: named_def)
  then show *: "find_seed (v\<lparr>seeds := filter P (seeds v)\<rparr>) = find_seed v"
    unfolding find_seed_fun by (simp add: fun_eq_iff find_named_filter)
  show "verifier_ok cfg (v\<lparr>seeds := filter P (seeds v)\<rparr>)"
    using verifier_okD [OF assms(1)] unique_filter * by (simp add: verifier_ok_def outstanding_def)
qed

lemma find_resident_Some:
  assumes "unique_seeds (seeds v)" and "find_resident_seed_by_hash v hash = Some r"
  shows "find_seed v (seed_id r) = Some r"
  using assms(2) find_named_member [OF assms(1), of r]
  by (auto simp: find_resident_seed_by_hash_def find_Some_iff find_seed_def) (metis nth_mem set_rev length_rev)

lemma prepare_resident_ok:
  assumes "verifier_ok cfg v" and "find_seed v sid = Some r"
  shows "verifier_ok cfg (snd (prepare_resident info r v))" and "releases_idle v (snd (prepare_resident info r v))"
proof -
  let ?r = "r\<lparr>release_requested := False\<rparr>"
  have r: "seed_id r = sid" "\<not> removed r" using find_seed_SomeD [OF assms(2)] by auto
  have ok: "verifier_ok cfg (set_seed sid ?r v)"
    using r find_seed_good [OF assms] by (intro set_seed_ok [OF assms]) (auto simp: seed_good_def)
  have "find_seed (set_seed sid ?r v) sid = Some ?r"
    using find_set_seed [OF verifier_okD(5) [OF assms(1)] assms(2), of ?r] r by simp
  from snapshot_locked_ok [OF ok this] snapshot_locked_ok [OF assms]
  show "verifier_ok cfg (snd (prepare_resident info r v))"
    using r by (simp add: prepare_resident_def Let_def split: prod.split) (auto simp: prod_eq_iff)
  show "releases_idle v (snd (prepare_resident info r v))"
    by (rule releases_idle_refl) (simp add: prepare_resident_def seed_snapshot_locked_def Let_def)
qed

lemma find_append: "find P (xs @ ys) = (case find P xs of None \<Rightarrow> find P ys | Some x \<Rightarrow> Some x)"
  by (induction xs) auto

lemma prepare_new_ok:
  assumes "verifier_ok cfg v"
  shows "verifier_ok cfg (snd (prepare_new info prep hash v))" and "releases_idle v (snd (prepare_new info prep hash v))"
proof -
  obtain status sid where prep: "prep = (status, sid)" by fastforce
  let ?v = "issue (Call_Prepare hash) v" and ?r = "(new_seed hash)\<lparr>seed_id := sid\<rparr>"
  have ok: "verifier_ok cfg ?v" using assms by simp
  show "releases_idle v (snd (prepare_new info prep hash v))"
    by (auto simp: prepare_new_def prep seed_snapshot_locked_def Let_def releases_idle_def split: option.split)
  show "verifier_ok cfg (snd (prepare_new info prep hash v))"
  proof (cases "find_seed v sid")
    case (Some r)
    then show ?thesis using snapshot_locked_ok [OF ok] assms by (simp add: prepare_new_def prep Let_def)
  next
    case None
    let ?v' = "?v\<lparr>seeds := seeds ?v @ [?r]\<rparr>"
    have find: "find_seed ?v' = (find_seed v)(sid \<mapsto> ?r)"
    proof
      fix i
      have "named i ?r \<longleftrightarrow> i = sid" by (auto simp: named_def new_seed_def)
      then show "find_seed ?v' i = ((find_seed v)(sid \<mapsto> ?r)) i"
        using None by (auto simp: find_seed_def find_append split: option.split)
    qed
    have "abstract_ok (find_seed ?v') (outstanding v) (current_seed_id v)"
      unfolding find by (rule abstract_new [OF verifier_okD(6) [OF assms] None]) (simp_all add: new_seed_def)
    moreover have "unique_seeds (seeds ?v')"
      using verifier_okD(5) [OF assms] None find_named_None [of sid "seeds v"]
      by (auto simp: unique_seeds_def find_seed_def new_seed_def)
    ultimately have "verifier_ok cfg ?v'" using verifier_okD [OF assms] by (simp add: verifier_ok_def outstanding_def)
    then show ?thesis using None assms by (simp add: prepare_new_def prep Let_def)
  qed
qed

lemma prepare_seed_ok:
  assumes "verifier_ok cfg v"
  shows "verifier_ok cfg (snd (prepare_seed info prep hash v))" and "releases_idle v (snd (prepare_seed info prep hash v))"
proof -
  let ?v = "v\<lparr>seeds := filter (\<lambda>r. \<not> removed r) (seeds v)\<rparr>"
  have ok: "verifier_ok cfg ?v" by (rule drop_removed_ok(1) [OF assms]) simp
  have "verifier_ok cfg (snd (prepare_seed info prep hash v)) \<and> releases_idle v (snd (prepare_seed info prep hash v))"
  proof (cases "find_resident_seed_by_hash ?v hash")
    case None
    then show ?thesis using assms prepare_new_ok [OF ok, of info prep hash]
      by (simp add: prepare_seed_def releases_idle_def)
  next
    case (Some r)
    from find_resident_Some [OF verifier_okD(5) [OF ok] Some] Some show ?thesis
      using assms prepare_resident_ok [OF ok, of _ r info] by (simp add: prepare_seed_def releases_idle_def)
  qed
  then show "verifier_ok cfg (snd (prepare_seed info prep hash v))" "releases_idle v (snd (prepare_seed info prep hash v))"
    by simp_all
qed

lemma wait_seed_ready_ok:
  assumes "verifier_ok cfg v"
  shows "verifier_ok cfg (snd (wait_seed_ready waited info sid v))" and "releases_idle v (snd (wait_seed_ready waited info sid v))"
  using assms snapshot_locked_ok [OF assms, of sid]
  by (auto simp: wait_seed_ready_def seed_snapshot_locked_def Let_def split: option.split)

lemma seed_snapshot_ok:
  assumes "verifier_ok cfg v"
  shows "verifier_ok cfg (snd (seed_snapshot info sid v))" and "releases_idle v (snd (seed_snapshot info sid v))"
  using assms snapshot_locked_ok [OF assms, of sid]
  by (auto simp: seed_snapshot_def seed_snapshot_locked_def Let_def split: option.split)

lemma retain_seed_ok:
  assumes "verifier_ok cfg v"
  shows "verifier_ok cfg (snd (retain_seed sid v))" and "releases_idle v (snd (retain_seed sid v))"
proof -
  have "verifier_ok cfg (set_seed sid (r\<lparr>retained_job_references := n\<rparr>) v)"
    if "find_seed v sid = Some r" "\<not> release_started r" for r n
    using find_seed_SomeD [OF that(1)] find_seed_good [OF assms that(1)] that(2)
    by (intro set_seed_ok [OF assms that(1)]) (auto simp: seed_good_def)
  then show "verifier_ok cfg (snd (retain_seed sid v))" using assms by (auto simp: retain_seed_def split: option.split)
  show "releases_idle v (snd (retain_seed sid v))" by (auto simp: retain_seed_def split: option.split)
qed

lemma drop_seed_reference_ok:
  assumes "verifier_ok cfg v"
  shows "verifier_ok cfg (snd (drop_seed_reference rel sid v))" and "releases_idle v (snd (drop_seed_reference rel sid v))"
proof -
  have *: "verifier_ok cfg (snd (maybe_begin_seed_release rel r' (set_seed sid r' v))) \<and>
      releases_idle v (snd (maybe_begin_seed_release rel r' (set_seed sid r' v)))"
    if "find_seed v sid = Some r" "retained_job_references r \<noteq> 0" "r' = r\<lparr>retained_job_references := retained_job_references r - 1\<rparr>" for r r'
    using find_seed_SomeD [OF that(1)] find_seed_good [OF assms that(1)] that(2,3)
      write_then_release [OF assms that(1), of r'] by (auto simp: seed_good_def)
  then show "verifier_ok cfg (snd (drop_seed_reference rel sid v))" "releases_idle v (snd (drop_seed_reference rel sid v))"
    using assms by (auto simp: drop_seed_reference_def Let_def split: option.split)
qed

lemma request_seed_release_ok:
  assumes "verifier_ok cfg v"
  shows "verifier_ok cfg (snd (request_seed_release rel sid v))" and "releases_idle v (snd (request_seed_release rel sid v))"
proof -
  have *: "verifier_ok cfg (snd (maybe_begin_seed_release rel r' (set_seed sid r' v))) \<and>
      releases_idle v (snd (maybe_begin_seed_release rel r' (set_seed sid r' v)))"
    if "find_seed v sid = Some r" "r' = r\<lparr>release_requested := True\<rparr>" for r r'
    using find_seed_SomeD [OF that(1)] find_seed_good [OF assms that(1)] that(2)
      write_then_release [OF assms that(1), of r'] by (auto simp: seed_good_def)
  then show "verifier_ok cfg (snd (request_seed_release rel sid v))" "releases_idle v (snd (request_seed_release rel sid v))"
    using assms drop_removed_ok(1) [OF assms, of "\<lambda>r. \<not> (seed_id r = sid \<and> removed r)"]
    by (auto simp: request_seed_release_def Let_def split: option.split)
qed

lemma retire_former_ok:
  assumes "verifier_ok cfg v"
  shows "verifier_ok cfg (retire_former rel sid v)" and "releases_idle v (retire_former rel sid v)"
proof -
  have *: "verifier_ok cfg (snd (maybe_begin_seed_release rel r' (set_seed sid r' v))) \<and>
      releases_idle v (snd (maybe_begin_seed_release rel r' (set_seed sid r' v)))"
    if "find_seed v sid = Some r" "r' = r\<lparr>seed_state := MSPV_SEED_READY\<rparr>" for r r'
    using find_seed_SomeD [OF that(1)] find_seed_good [OF assms that(1)] that(2)
      write_then_release [OF assms that(1), of r'] by (auto simp: seed_good_def)
  then show "verifier_ok cfg (retire_former rel sid v)" "releases_idle v (retire_former rel sid v)"
    using assms by (auto simp: retire_former_def Let_def split: option.split)
qed

lemma set_current_ok:
  assumes "verifier_ok cfg v" and "sid \<noteq> 0 \<longrightarrow> (\<exists>r. find_seed v sid = Some r \<and> \<not> release_started r)"
  shows "verifier_ok cfg (v\<lparr>current_seed_id := sid\<rparr>)"
  using verifier_okD [OF assms(1)] abstract_activate [OF verifier_okD(6) [OF assms(1)] assms(2)]
  by (simp add: verifier_ok_def outstanding_def find_seed_fun)

lemma releases_idle_trans:
  "releases_idle v w \<Longrightarrow> calls v = calls u @ cs \<Longrightarrow> (\<And>sid. Call_Release sid \<notin> set cs) \<Longrightarrow> releases_idle u w"
  by (auto simp: releases_idle_def)

lemma deactivate_seed_ok:
  assumes "verifier_ok cfg v"
  shows "verifier_ok cfg (snd (deactivate_seed deact rel v))" and "releases_idle v (snd (deactivate_seed deact rel v))"
proof -
  let ?v = "(issue Call_Deactivate v)\<lparr>current_seed_id := 0\<rparr>"
  have ok: "verifier_ok cfg ?v" by (rule set_current_ok) (use assms in simp_all)
  note retire = retire_former_ok [OF ok, of rel "current_seed_id v"]
  show "verifier_ok cfg (snd (deactivate_seed deact rel v))"
    using assms retire(1) by (simp add: deactivate_seed_def Let_def)
  have "releases_idle v (retire_former rel (current_seed_id v) ?v)"
    by (rule releases_idle_trans [OF retire(2), of _ "[Call_Deactivate]"]) simp_all
  then show "releases_idle v (snd (deactivate_seed deact rel v))"
    by (auto simp: deactivate_seed_def Let_def releases_idle_def)
qed

text \<open>The state in which a resident seed has become current.\<close>

lemma make_current_ok:
  assumes "verifier_ok cfg v" and "find_seed v sid = Some r" and "\<not> release_started r"
    and "r' = (refresh_record info r)\<lparr>seed_state := MSPV_SEED_CURRENT\<rparr>"
  shows "verifier_ok cfg (set_seed sid r' ((issue (Call_Activate sid) (set_seed sid (refresh_record info r) v))\<lparr>current_seed_id := sid\<rparr>))"
proof -
  let ?r = "refresh_record info r"
  let ?w = "issue (Call_Activate sid) (set_seed sid ?r v)"
  have r: "seed_id r = sid" "\<not> removed r" using find_seed_SomeD [OF assms(2)] by auto
  have nr: "\<not> removed ?r" using r(2) assms(3) by (simp add: removed_refresh)
  have w: "verifier_ok cfg ?w" using refresh_ok [OF assms(1,2)] by simp
  have fw: "find_seed ?w sid = Some ?r"
    using find_set_seed [OF verifier_okD(5) [OF assms(1)] assms(2), of ?r] r nr by simp
  have c: "verifier_ok cfg (?w\<lparr>current_seed_id := sid\<rparr>)"
    by (rule set_current_ok [OF w]) (use fw assms(3) in simp)
  have fc: "find_seed (?w\<lparr>current_seed_id := sid\<rparr>) sid = Some ?r" using fw by (simp add: find_seed_def)
  show ?thesis
    using find_seed_good [OF c fc] r nr assms(3) unfolding assms(4)
    by (intro set_seed_ok [OF c fc]) (auto simp: seed_good_def)
qed

lemma activate_seed_ok:
  assumes "verifier_ok cfg v"
  shows "verifier_ok cfg (snd (activate_seed info act rel sid v))" and "releases_idle v (snd (activate_seed info act rel sid v))"
proof -
  have "verifier_ok cfg (snd (activate_seed info act rel sid v)) \<and> releases_idle v (snd (activate_seed info act rel sid v))"
  proof (cases "find_seed v sid")
    case None
    then show ?thesis using assms by (simp add: activate_seed_def)
  next
    case (Some r)
    show ?thesis
    proof (cases "release_requested r \<or> release_started r")
      case True
      then show ?thesis using Some assms by (simp add: activate_seed_def)
    next
      case False
      let ?r = "refresh_record info r"
      let ?w = "set_seed sid ?r v"
      let ?c = "set_seed sid (?r\<lparr>seed_state := MSPV_SEED_CURRENT\<rparr>) ((issue (Call_Activate sid) ?w)\<lparr>current_seed_id := sid\<rparr>)"
      have id: "seed_id r = sid" using find_seed_SomeD [OF Some] by simp
      have w: "verifier_ok cfg ?w" by (rule refresh_ok [OF assms Some])
      have c: "verifier_ok cfg ?c" using make_current_ok [OF assms Some] False by simp
      note retire = retire_former_ok [OF c, of rel "current_seed_id v"]
      have "releases_idle v (retire_former rel (current_seed_id v) ?c)"
        by (rule releases_idle_trans [OF retire(2), of _ "[Call_Activate sid]"]) simp_all
      moreover have "releases_idle v ?c" "releases_idle v (issue (Call_Activate sid) ?w)" "releases_idle v ?w"
        by (auto simp: releases_idle_def)
      ultimately show ?thesis
        using Some False assms w c retire(1) id
        by (simp add: activate_seed_def seed_snapshot_locked_def Let_def)
    qed
  qed
  then show "verifier_ok cfg (snd (activate_seed info act rel sid v))" "releases_idle v (snd (activate_seed info act rel sid v))"
    by simp_all
qed

lemma refresh_all_find:
  assumes "unique_seeds rs"
  shows "unique_seeds (refresh_all info rs)"
    and "find (named i) (refresh_all info rs) =
      (case find (named i) rs of None \<Rightarrow> None
       | Some r \<Rightarrow> if removed (refresh_record (info i) r) then None else Some (refresh_record (info i) r))"
proof -
  have sub: "seed_id ` set (filter (\<lambda>r. \<not> removed r) (refresh_all info rs)) \<subseteq> seed_id ` set (filter (\<lambda>r. \<not> removed r) rs)" for rs
    by (auto simp: refresh_all_def removed_refresh split: if_splits)
  show "unique_seeds (refresh_all info rs)" using assms
  proof (induction rs)
    case (Cons x rs)
    then show ?case using sub [of rs]
      by (auto simp: unique_seeds_def removed_refresh refresh_all_def split: if_splits)
  qed (simp add: refresh_all_def)
  show "find (named i) (refresh_all info rs) =
      (case find (named i) rs of None \<Rightarrow> None
       | Some r \<Rightarrow> if removed (refresh_record (info i) r) then None else Some (refresh_record (info i) r))" using assms
  proof (induction rs)
    case (Cons x rs)
    have u: "unique_seeds rs" using Cons.prems by (auto simp: unique_seeds_def split: if_splits)
    have none: "find (named i) (refresh_all info rs) = None" if "named i x"
      using that Cons.prems sub [of rs] unfolding find_named_None by (auto simp: unique_seeds_def named_def)
    let ?y = "if removed x then x else refresh_record (info (seed_id x)) x"
    have split: "refresh_all info (x # rs) = ?y # refresh_all info rs" by (simp add: refresh_all_def)
    have y: "named i ?y \<longleftrightarrow> named i x \<and> \<not> removed (refresh_record (info i) x)"
      by (auto simp: named_def removed_refresh)
    show ?case
    proof (cases "named i x")
      case True
      then have "?y = refresh_record (info i) x" by (auto simp: named_def)
      then show ?thesis using True none y unfolding split by simp
    next
      case False
      then show ?thesis using Cons.IH [OF u] y unfolding split by simp
    qed
  qed (simp add: refresh_all_def)
qed

lemma seed_snapshots_ok:
  assumes "verifier_ok cfg v"
  shows "verifier_ok cfg (snd (seed_snapshots info v))" and "releases_idle v (snd (seed_snapshots info v))"
proof -
  let ?v = "v\<lparr>seeds := refresh_all info (seeds v)\<rparr>"
  note ok = verifier_okD [OF assms]
  have find: "find_seed ?v i = (case find_seed v i of None \<Rightarrow> None
      | Some r \<Rightarrow> if removed (refresh_record (info i) r) then None else Some (refresh_record (info i) r))" for i
    using refresh_all_find(2) [OF ok(5)] by (simp add: find_seed_def)
  have gone: "refs (outstanding v) i = 0 \<and> (current_seed_id v \<noteq> 0 \<longrightarrow> i \<noteq> current_seed_id v)"
    if "find_seed v i = Some r" "find_seed ?v i = None" for i r
  proof -
    have "release_started r" using that find_seed_SomeD [OF that(1)] by (auto simp: find removed_refresh split: if_splits)
    then show ?thesis using find_seed_good [OF assms that(1)] find_seed_SomeD [OF that(1)] by (auto simp: seed_good_def)
  qed
  have "seed_id r' = i \<and> seed_good (outstanding v) (current_seed_id v) r'" if "find_seed ?v i = Some r'" for i r'
    using that find_seed_SomeD [of v i] find_seed_good [OF assms, of i]
    by (auto simp: find seed_good_def split: option.splits if_splits)
  moreover have "find_seed ?v (slot_seed s) \<noteq> None" if out: "outstanding v tag = Some s" for tag s
  proof
    assume none: "find_seed ?v (slot_seed s) = None"
    obtain r where "find_seed v (slot_seed s) = Some r" using abstract_okD(4) [OF ok(6) out] by blast
    from gone [OF this none] show False using refs_zero [OF abstract_okD(1) [OF ok(6)]] out by blast
  qed
  moreover have "find_seed ?v (current_seed_id v) \<noteq> None" if "current_seed_id v \<noteq> 0"
    using abstract_okD(5) [OF ok(6) that] gone that by blast
  ultimately have "abstract_ok (find_seed ?v) (outstanding v) (current_seed_id v)"
    using abstract_okD(1,6) [OF ok(6)] unfolding abstract_ok_def by blast
  then have "verifier_ok cfg ?v"
    using ok refresh_all_find(1) [OF ok(5)] by (simp add: verifier_ok_def outstanding_def)
  then show "verifier_ok cfg (snd (seed_snapshots info v))" "releases_idle v (snd (seed_snapshots info v))"
    using assms by (simp_all add: seed_snapshots_def Let_def)
qed

text \<open>The seed of a successful wait is idle, so erasing its records loses nothing.\<close>

lemma find_erase_seed:
  "find_seed (v\<lparr>seeds := filter (\<lambda>s. seed_id s \<noteq> sid) (seeds v)\<rparr>) = (find_seed v)(sid := None)"
proof
  fix i
  show "find_seed (v\<lparr>seeds := filter (\<lambda>s. seed_id s \<noteq> sid) (seeds v)\<rparr>) i = ((find_seed v)(sid := None)) i"
  proof (cases "i = sid")
    case True
    then show ?thesis by (auto simp: find_seed_def find_None_iff named_def)
  next
    case False
    then have "named i r \<Longrightarrow> seed_id r \<noteq> sid" for r by (simp add: named_def)
    then show ?thesis using False by (simp add: find_seed_def find_named_filter)
  qed
qed

lemma erase_seed_ok:
  assumes "verifier_ok cfg v" and "refs (outstanding v) sid = 0" and "sid \<noteq> current_seed_id v"
  shows "verifier_ok cfg (v\<lparr>seeds := filter (\<lambda>s. seed_id s \<noteq> sid) (seeds v)\<rparr>)"
proof -
  let ?v = "v\<lparr>seeds := filter (\<lambda>s. seed_id s \<noteq> sid) (seeds v)\<rparr>"
  have "abstract_ok (find_seed ?v) (outstanding v) (current_seed_id v)"
    unfolding find_erase_seed by (rule abstract_remove [OF verifier_okD(6) [OF assms(1)] assms(2)]) (use assms(3) in simp)
  then show ?thesis using verifier_okD [OF assms(1)] unique_filter by (simp add: verifier_ok_def outstanding_def)
qed

lemma wait_seed_released_ok:
  assumes "verifier_ok cfg v"
  shows "verifier_ok cfg (snd (wait_seed_released rel waited sid v))" and "releases_idle v (snd (wait_seed_released rel waited sid v))"
proof -
  have "verifier_ok cfg (snd (wait_seed_released rel waited sid v)) \<and> releases_idle v (snd (wait_seed_released rel waited sid v))"
  proof (cases "find_seed v sid")
    case None
    then show ?thesis using assms by (simp add: wait_seed_released_def)
  next
    case (Some r)
    let ?r = "r\<lparr>release_requested := True\<rparr>"
    let ?w = "snd (maybe_begin_seed_release rel ?r (set_seed sid ?r v))"
    let ?e = "?w\<lparr>seeds := filter (\<lambda>s. seed_id s \<noteq> sid) (seeds ?w)\<rparr>"
    have r: "seed_id r = sid" "\<not> removed r" using find_seed_SomeD [OF Some] by auto
    have good: "seed_good (outstanding v) (current_seed_id v) ?r" using find_seed_good [OF assms Some] by (simp add: seed_good_def)
    note w = write_then_release [OF assms Some _ _ good, of rel]
    have ok: "verifier_ok cfg ?w" and rel: "releases_idle v ?w" using w r by simp_all
    have erased: "verifier_ok cfg ?e \<and> releases_idle v ?e" if "started_now rel ?r v" "sid \<noteq> current_seed_id v"
    proof
      have "refs (outstanding v) sid = 0" using good r(1) that(1) by (auto simp: seed_good_def started_now_def)
      then show "verifier_ok cfg ?e" by (intro erase_seed_ok [OF ok]) (use that in simp_all)
      have "idle ?w i \<Longrightarrow> idle ?e i" for i
        by (auto simp: idle_def outstanding_def find_erase_seed)
      then show "releases_idle v ?e" using rel by (auto simp: releases_idle_def)
    qed
    have cur: "current_seed_id ?w = current_seed_id v" by simp
    obtain st w where m: "maybe_begin_seed_release rel ?r (set_seed sid ?r v) = (st, w)" by fastforce
    show ?thesis
      using assms ok rel erased cur unfolding wait_seed_released_def Let_def m Some option.case snd_conv prod.case
      by (simp add: m)
  qed
  then show "verifier_ok cfg (snd (wait_seed_released rel waited sid v))" "releases_idle v (snd (wait_seed_released rel waited sid v))"
    by simp_all
qed

section \<open>Submissions\<close>

definition new_slot :: "u64 \<Rightarrow> u64 \<Rightarrow> u64 \<Rightarrow> submission_kind \<Rightarrow> submission_slot" where
  "new_slot tag ticket sid kind =
     \<lparr>slot_state = Slot_Occupied, slot_tag = tag, slot_ticket = ticket, slot_seed = sid, slot_kind = kind\<rparr>"

lemma new_slot_simps [simp]:
  "slot_tag (new_slot tag ticket sid kind) = tag" "slot_seed (new_slot tag ticket sid kind) = sid"
  "slot_ticket (new_slot tag ticket sid kind) = ticket" "slot_kind (new_slot tag ticket sid kind) = kind"
  "occupied (new_slot tag ticket sid kind)"
  by (simp_all add: new_slot_def occupied_def)

text \<open>What \<open>admit_submission\<close> answers: the branch for a table without a free slot is never taken.\<close>

definition admit_answer :: "verifier_config \<Rightarrow> mspv_status \<times> u64 \<Rightarrow> u64 \<Rightarrow> verifier \<Rightarrow> mspv_status \<times> u64" where
  "admit_answer cfg native tag v =
     (if tracked_submissions v \<ge> unat (max_outstanding cfg) then (MSPV_QUEUE_FULL, 0)
      else if outstanding v tag \<noteq> None then (MSPV_INVALID_ARGUMENT, 0)
      else if fst native \<noteq> MSPV_OK then (fst native, 0) else (MSPV_OK, snd native))"

lemma admit_refused:
  assumes "verifier_ok cfg v"
    and "tracked_submissions v \<ge> unat (max_outstanding cfg) \<or> outstanding v tag \<noteq> None"
  shows "admit_submission cfg native kind r input tag v = (admit_answer cfg native tag v, v)"
proof (cases "tracked_submissions v \<ge> unat (max_outstanding cfg)")
  case True
  then show ?thesis by (simp add: admit_submission_def admit_answer_def)
next
  case False
  then have "snd (find_submission_insert_slot (submissions v) tag)"
    using assms tags.place_present [OF verifier_okD(1) [OF assms(1)], of tag] by (simp add: outstanding_def)
  then show ?thesis using False assms(2) by (auto simp: admit_submission_def admit_answer_def split: prod.split)
qed

lemma admit_placed:
  assumes "verifier_ok cfg v" and "tracked_submissions v < unat (max_outstanding cfg)" and "outstanding v tag = None"
    and "fst (find_submission_insert_slot (submissions v) tag) = i"
  shows "find_submission_insert_slot (submissions v) tag = (i, False)" and "i \<noteq> length (submissions v)" and "i < length (submissions v)"
proof -
  note ok = verifier_okD(1) [OF assms(1)]
  have none: "table_map (submissions v) tag = None" using assms(3) by (simp add: outstanding_def)
  have "\<not> snd (find_submission_insert_slot (submissions v) tag)" using tags.place_present [OF ok] none by simp
  then show "find_submission_insert_slot (submissions v) tag = (i, False)" using assms(4) by (simp add: prod_eq_iff)
  show ne: "i \<noteq> length (submissions v)"
    using tags.place_room [OF ok none] room_below_limit(1) [OF assms(1,2)] assms(4) by simp
  show "i < length (submissions v)" using insert_slot_absent(2) [OF ok none] ne assms(4) by simp
qed

lemma admit_failed:
  assumes "verifier_ok cfg v" and "tracked_submissions v < unat (max_outstanding cfg)" and "outstanding v tag = None"
    and "fst native \<noteq> MSPV_OK" and "admit_submission cfg native kind r input tag v = (a, v')"
  shows "verifier_ok cfg v' \<and> outstanding v' = outstanding v \<and> find_seed v' = find_seed v \<and>
    calls v' = calls v @ [Call_Submit kind (seed_id r) input tag] \<and> a = admit_answer cfg native tag v"
proof -
  note ok = verifier_okD [OF assms(1)]
  have none: "table_map (submissions v) tag = None" using assms(3) by (simp add: outstanding_def)
  define i where "i = fst (find_submission_insert_slot (submissions v) tag)"
  note placed = admit_placed [OF assms(1,2,3) i_def [symmetric]]
  let ?s = "new_slot tag 0 (seed_id r) kind"
  have occ: "occupy_slot (submissions v) i tag (seed_id r) kind = (submissions v)[i := ?s]"
    by (simp add: occupy_slot_def new_slot_def)
  have t: "table_ok (clear_slot ((submissions v)[i := ?s]) i)"
    "table_map (clear_slot ((submissions v)[i := ?s]) i) = table_map (submissions v)"
    "used (clear_slot ((submissions v)[i := ?s]) i) = used (submissions v)"
    using tags.put_del [OF ok(1), of ?s] none placed(2) by (simp_all add: i_def)
  have v': "v' = erase_submission_slot i (issue (Call_Submit kind (seed_id r) input tag)
      (v\<lparr>submissions := (submissions v)[i := ?s], tracked_submissions := tracked_submissions v + 1\<rparr>))"
    and a: "a = admit_answer cfg native tag v"
    using assms(2-5) placed occ by (auto simp: admit_submission_def admit_answer_def Let_def split: prod.splits)
  have f: "find_seed v' = find_seed v" "current_seed_id v' = current_seed_id v" "seeds v' = seeds v"
    "submissions v' = clear_slot ((submissions v)[i := ?s]) i" "tracked_submissions v' = tracked_submissions v"
    unfolding v' by (simp_all add: erase_submission_slot_def issue_def find_seed_fun)
  show ?thesis
    using ok t f a unfolding verifier_ok_def outstanding_def
    by (simp add: v' erase_submission_slot_def issue_def)
qed

lemma admit_accepted:
  assumes "verifier_ok cfg v" and "tracked_submissions v < unat (max_outstanding cfg)" and "outstanding v tag = None"
    and "find_seed v (seed_id r) = Some r" and "\<not> release_started r"
    and "fst native = MSPV_OK" and "admit_submission cfg native kind r input tag v = (a, v')"
  shows "verifier_ok cfg v' \<and> outstanding v' = (outstanding v)(tag \<mapsto> new_slot tag (snd native) (seed_id r) kind) \<and>
    calls v' = calls v @ [Call_Submit kind (seed_id r) input tag] \<and> a = admit_answer cfg native tag v"
proof -
  note ok = verifier_okD [OF assms(1)]
  have none: "table_map (submissions v) tag = None" using assms(3) by (simp add: outstanding_def)
  define i where "i = fst (find_submission_insert_slot (submissions v) tag)"
  note placed = admit_placed [OF assms(1,2,3) i_def [symmetric]]
  let ?s = "new_slot tag 0 (seed_id r) kind" and ?s' = "new_slot tag (snd native) (seed_id r) kind"
  let ?T = "(submissions v)[i := ?s, i := ?s']"
  let ?r = "r\<lparr>tracked_verifications := tracked_verifications r + 1\<rparr>"
  have t: "table_ok ?T" "table_map ?T = (table_map (submissions v))(tag \<mapsto> ?s')" "used ?T = Suc (used (submissions v))"
    using tags.put_twice [OF ok(1), of ?s ?s'] none placed(2) by (simp_all add: i_def)
  let ?w = "(issue (Call_Submit kind (seed_id r) input tag) (v\<lparr>tracked_submissions := tracked_submissions v + 1\<rparr>))\<lparr>submissions := ?T\<rparr>"
  have v': "v' = set_seed (seed_id r) ?r ?w"
    and a: "a = admit_answer cfg native tag v"
    using assms(2,3,6,7) placed
    by (auto simp: admit_submission_def admit_answer_def Let_def occupy_slot_def set_ticket_def new_slot_def issue_def
        split: prod.splits)
  have f: "find_seed v' = (find_seed v)(seed_id r \<mapsto> ?r)"
    using find_set_seed [of ?w "seed_id r" r ?r] ok(5) assms(4)
      find_seed_SomeD [OF assms(4)] unfolding v' by (simp add: find_seed_fun issue_def)
  have u: "unique_seeds (seeds v')"
    using unique_replace [OF ok(5), of "seed_id r" r ?r] assms(4) unfolding v' by (simp add: set_seed_def issue_def find_seed_def)
  have "abstract_ok (find_seed v') ((outstanding v)(tag \<mapsto> ?s')) (current_seed_id v)"
    unfolding f by (rule abstract_submit [OF ok(6) assms(4,5,3)]) (use room_below_limit(2) [OF assms(1,2)] in simp_all)
  then show ?thesis
    using ok t u a assms(2) unfolding verifier_ok_def outstanding_def
    by (simp add: v' outstanding_def issue_def)
qed

text \<open>All three cases together; an accepted submission is the only one that changes the outstanding ones.\<close>

lemma admit_submission_ok:
  assumes "verifier_ok cfg v" and "find_seed v (seed_id r) = Some r" and "\<not> release_started r"
    and "admit_submission cfg native kind r input tag v = (a, v')"
  shows "verifier_ok cfg v' \<and> a = admit_answer cfg native tag v \<and>
    (\<exists>cs. calls v' = calls v @ cs \<and> (\<forall>sid. Call_Release sid \<notin> set cs)) \<and>
    outstanding v' = (if fst a = MSPV_OK then (outstanding v)(tag \<mapsto> new_slot tag (snd a) (seed_id r) kind) else outstanding v)"
proof (cases "tracked_submissions v \<ge> unat (max_outstanding cfg) \<or> outstanding v tag \<noteq> None")
  case True
  then show ?thesis using admit_refused [OF assms(1) True] assms(1,4) by (auto simp: admit_answer_def)
next
  case False
  then have free: "tracked_submissions v < unat (max_outstanding cfg)" "outstanding v tag = None" by auto
  show ?thesis
  proof (cases "fst native = MSPV_OK")
    case True
    from admit_accepted [OF assms(1) free assms(2,3) True assms(4)] True free show ?thesis
      by (auto simp: admit_answer_def)
  next
    case False
    from admit_failed [OF assms(1) free False assms(4)] False free show ?thesis by (auto simp: admit_answer_def)
  qed
qed

definition submit_answer ::
    "verifier_config \<Rightarrow> info_answer \<Rightarrow> mspv_status \<times> u64 \<Rightarrow> submission_kind \<Rightarrow> u64 \<Rightarrow> bytes \<Rightarrow> bytes option \<Rightarrow> u64 \<Rightarrow>
     verifier \<Rightarrow> mspv_status \<times> u64" where
  "submit_answer cfg info native kind sid input claimed tag v =
     (if \<not> usable v then (MSPV_NOT_RUNNING, 0)
      else if tag = 0 \<or> input = [] \<or> length input > unat (max_input_size cfg) \<or> (kind = Verify_Claim \<and> claimed = None)
      then (MSPV_INVALID_ARGUMENT, 0)
      else case find_seed v sid of None \<Rightarrow> (MSPV_SEED_NOT_FOUND, 0)
      | Some r \<Rightarrow>
        if release_started r then (MSPV_SEED_RELEASING, 0)
        else if fst info \<noteq> MSPV_OK then (fst info, 0)
        else if info_state (snd info) \<noteq> MSPV_SEED_READY \<and> info_state (snd info) \<noteq> MSPV_SEED_CURRENT
        then (MSPV_SEED_NOT_READY, 0)
        else admit_answer cfg native tag v)"

lemma seed_state_refresh: "fst a = MSPV_OK \<Longrightarrow> seed_state (refresh_record a r) = info_state (snd a)"
  by (auto simp: refresh_record_def split: prod.split)

lemma submit_locked_ok:
  assumes "verifier_ok cfg v"
    and "submit_locked cfg info native kind sid input claimed tag v = (a, v')"
  shows "verifier_ok cfg v' \<and> releases_idle v v' \<and> a = submit_answer cfg info native kind sid input claimed tag v \<and>
    outstanding v' = (if fst a = MSPV_OK then (outstanding v)(tag \<mapsto> new_slot tag (snd a) sid kind) else outstanding v)"
proof (cases "usable v \<and> \<not> (tag = 0 \<or> input = [] \<or> length input > unat (max_input_size cfg) \<or> (kind = Verify_Claim \<and> claimed = None))")
  case False
  then show ?thesis using assms by (auto simp: submit_locked_def submit_answer_def)
next
  case args: True
  show ?thesis
  proof (cases "find_seed v sid")
    case None
    then show ?thesis using assms args by (auto simp: submit_locked_def submit_answer_def)
  next
    case (Some r)
    have id: "seed_id r = sid" "\<not> removed r" using find_seed_SomeD [OF Some] by auto
    show ?thesis
    proof (cases "release_started r")
      case True
      then show ?thesis using assms args Some by (auto simp: submit_locked_def submit_answer_def)
    next
      case False
      let ?r = "refresh_record info r"
      let ?w = "set_seed sid ?r v"
      have w: "verifier_ok cfg ?w" by (rule refresh_ok [OF assms(1) Some])
      have fw: "find_seed ?w (seed_id ?r) = Some ?r"
        using find_set_seed [OF verifier_okD(5) [OF assms(1)] Some, of ?r] id False by (simp add: removed_refresh)
      have eq: "admit_answer cfg native tag ?w = admit_answer cfg native tag v" by (simp add: admit_answer_def)
      show ?thesis
      proof (cases "fst info = MSPV_OK \<and> (info_state (snd info) = MSPV_SEED_READY \<or> info_state (snd info) = MSPV_SEED_CURRENT)")
        case ready: False
        then have "v' = ?w" "a = submit_answer cfg info native kind sid input claimed tag v" "fst a \<noteq> MSPV_OK"
          using assms(2) args Some False id
          by (auto simp: submit_locked_def submit_answer_def seed_snapshot_locked_def seed_state_refresh Let_def split: if_splits)
        then show ?thesis using w by simp
      next
        case ready: True
        then have "admit_submission cfg native kind ?r input tag ?w = (a, v')"
          using assms(2) args Some False id
          by (auto simp: submit_locked_def seed_snapshot_locked_def seed_state_refresh Let_def)
        from admit_submission_ok [OF w fw _ this] False have
          "verifier_ok cfg v'" "a = admit_answer cfg native tag v" "releases_idle v v'"
          "outstanding v' = (if fst a = MSPV_OK then (outstanding v)(tag \<mapsto> new_slot tag (snd a) sid kind) else outstanding v)"
          using id by (auto simp: eq releases_idle_def)
        moreover have "submit_answer cfg info native kind sid input claimed tag v = admit_answer cfg native tag v"
          using args Some False ready by (auto simp: submit_answer_def)
        ultimately show ?thesis by simp
      qed
    qed
  qed
qed

section \<open>Completions\<close>

lemma correlate_unknown:
  assumes "verifier_ok cfg v" and "outstanding v (nat_user_tag n) = None"
  shows "correlate_completion rel n v = (plain_completion n, v)"
  using tags.find_miss [OF verifier_okD(1) [OF assms(1)]] assms(2)
  by (simp add: correlate_completion_def outstanding_def)

lemma drop_verification_ok:
  assumes "verifier_ok cfg v" and "outstanding v tag = Some s"
  defines "w \<equiv> erase_submission_slot (find_submission_slot (submissions v) tag) v"
  shows "verifier_ok cfg (drop_verification rel (slot_seed s) w)"
    and "outstanding (drop_verification rel (slot_seed s) w) = (outstanding v)(tag := None)"
    and "releases_idle v (drop_verification rel (slot_seed s) w)"
proof -
  note ok = verifier_okD [OF assms(1)]
  let ?T = "clear_slot (submissions v) (find_submission_slot (submissions v) tag)" and ?sid = "slot_seed s"
  have t: "table_ok ?T" "table_map ?T = (outstanding v)(tag := None)" "used (submissions v) = Suc (used ?T)" "length ?T = length (submissions v)"
    using tags.del_present [OF ok(1), of tag] assms(2) by (auto simp: outstanding_def)
  have w: "submissions w = ?T" "tracked_submissions w = used ?T" "seeds w = seeds v" "current_seed_id w = current_seed_id v"
    "calls w = calls v" "find_seed w = find_seed v" "outstanding w = (outstanding v)(tag := None)"
    using ok(3) t by (simp_all add: w_def erase_submission_slot_def find_seed_fun outstanding_def)
  obtain r where r: "find_seed v ?sid = Some r" "tracked_verifications r \<noteq> 0"
    and abs: "abstract_ok ((find_seed v)(?sid \<mapsto> r\<lparr>tracked_verifications := tracked_verifications r - 1\<rparr>)) ((outstanding v)(tag := None)) (current_seed_id v)"
    using abstract_complete [OF ok(6) assms(2)] by blast
  let ?r = "r\<lparr>tracked_verifications := tracked_verifications r - 1\<rparr>"
  have id: "seed_id r = ?sid" "\<not> removed r" using find_seed_SomeD [OF r(1)] by auto
  have fw: "find_seed (set_seed ?sid ?r w) = (find_seed v)(?sid \<mapsto> ?r)"
    using find_set_seed [of w ?sid r ?r] ok(5) w r(1) id by simp
  have u: "unique_seeds (seeds (set_seed ?sid ?r w))"
    using unique_replace [OF ok(5), of ?sid r ?r] r(1) id w(3) by (simp add: set_seed_def find_seed_def)
  have "verifier_ok cfg (set_seed ?sid ?r w)"
    using abs ok u t w by (simp add: verifier_ok_def fw)
  moreover have "find_seed (set_seed ?sid ?r w) (seed_id ?r) = Some ?r" using fw id by simp
  ultimately have *: "verifier_ok cfg (snd (maybe_begin_seed_release rel ?r (set_seed ?sid ?r w)))"
    "releases_idle (set_seed ?sid ?r w) (snd (maybe_begin_seed_release rel ?r (set_seed ?sid ?r w)))"
    by (rule maybe_begin_ok, rule maybe_begin_releases)
  have d: "drop_verification rel ?sid w = snd (maybe_begin_seed_release rel ?r (set_seed ?sid ?r w))"
    using r w(6) by (simp add: drop_verification_def Let_def)
  show "verifier_ok cfg (drop_verification rel (slot_seed s) w)" using * d by simp
  show "outstanding (drop_verification rel (slot_seed s) w) = (outstanding v)(tag := None)" using d w(7) by simp
  show "releases_idle v (drop_verification rel (slot_seed s) w)" using *(2) d w(5) by (simp add: releases_idle_def)
qed

lemma correlate_known:
  assumes "verifier_ok cfg v" and "outstanding v (nat_user_tag n) = Some s"
    and "correlate_completion rel n v = (c, v')"
  shows "c = (plain_completion n)\<lparr>c_submission_kind := slot_kind s, c_expected_ticket := slot_ticket s,
      c_expected_seed_id := slot_seed s, c_correlation := correlate s n\<rparr>"
    and "verifier_ok cfg v'" and "outstanding v' = (outstanding v)(nat_user_tag n := None)" and "releases_idle v v'"
proof -
  have f: "find_submission_slot (submissions v) (nat_user_tag n) < length (submissions v)"
    "submissions v ! find_submission_slot (submissions v) (nat_user_tag n) = s"
    using tags.find_hit [OF verifier_okD(1) [OF assms(1)]] assms(2) by (auto simp: outstanding_def)
  show "c = (plain_completion n)\<lparr>c_submission_kind := slot_kind s, c_expected_ticket := slot_ticket s,
      c_expected_seed_id := slot_seed s, c_correlation := correlate s n\<rparr>"
    using assms(3) f by (auto simp: correlate_completion_def Let_def)
  have v': "v' = drop_verification rel (slot_seed s) (erase_submission_slot (find_submission_slot (submissions v) (nat_user_tag n)) v)"
    using assms(3) f by (auto simp: correlate_completion_def Let_def)
  show "verifier_ok cfg v'" "outstanding v' = (outstanding v)(nat_user_tag n := None)" "releases_idle v v'"
    unfolding v' by (rule drop_verification_ok [OF assms(1,2)])+
qed

lemma correlate_completion_ok:
  assumes "verifier_ok cfg v"
  shows "verifier_ok cfg (snd (correlate_completion rel n v))" and "releases_idle v (snd (correlate_completion rel n v))"
    and "outstanding (snd (correlate_completion rel n v)) = (outstanding v)(nat_user_tag n := None)"
proof -
  obtain c v' where e: "correlate_completion rel n v = (c, v')" by fastforce
  have "verifier_ok cfg v' \<and> releases_idle v v' \<and> outstanding v' = (outstanding v)(nat_user_tag n := None)"
  proof (cases "outstanding v (nat_user_tag n)")
    case None
    then show ?thesis using correlate_unknown [OF assms None, of rel] e assms by (auto simp: fun_upd_idem)
  next
    case (Some s)
    then show ?thesis using correlate_known [OF assms Some e] by simp
  qed
  then show "verifier_ok cfg (snd (correlate_completion rel n v))" "releases_idle v (snd (correlate_completion rel n v))"
    "outstanding (snd (correlate_completion rel n v)) = (outstanding v)(nat_user_tag n := None)" using e by simp_all
qed

section \<open>Histories\<close>

text \<open>
  One operation of the adapter with the native answers it receives. A drain is a sequence of
  completions, see \<open>drain_is_a_run\<close> below.
\<close>

datatype verifier_op =
    Prepare info_answer "mspv_status \<times> u64" bytes
  | Wait_Ready mspv_status info_answer u64
  | Snapshot info_answer u64
  | Snapshots "u64 \<Rightarrow> info_answer"
  | Activate info_answer mspv_status mspv_status u64
  | Deactivate mspv_status mspv_status
  | Retain u64
  | Drop_Reference mspv_status u64
  | Request_Release mspv_status u64
  | Wait_Released mspv_status mspv_status u64
  | Submit info_answer "mspv_status \<times> u64" submission_kind u64 bytes "bytes option" u64
  | Complete mspv_status mspv_completion
  | Shut mspv_status shutdown_mode
  | Notify "bool option"
  | Log_Line "bool option"
  | Consume_Wakeup

primrec run_op :: "verifier_config \<Rightarrow> verifier_op \<Rightarrow> verifier \<Rightarrow> verifier" where
  "run_op cfg (Prepare info prep hash) v = snd (prepare_seed info prep hash v)"
| "run_op cfg (Wait_Ready waited info sid) v = snd (wait_seed_ready waited info sid v)"
| "run_op cfg (Snapshot info sid) v = snd (seed_snapshot info sid v)"
| "run_op cfg (Snapshots info) v = snd (seed_snapshots info v)"
| "run_op cfg (Activate info act rel sid) v = snd (activate_seed info act rel sid v)"
| "run_op cfg (Deactivate deact rel) v = snd (deactivate_seed deact rel v)"
| "run_op cfg (Retain sid) v = snd (retain_seed sid v)"
| "run_op cfg (Drop_Reference rel sid) v = snd (drop_seed_reference rel sid v)"
| "run_op cfg (Request_Release rel sid) v = snd (request_seed_release rel sid v)"
| "run_op cfg (Wait_Released rel waited sid) v = snd (wait_seed_released rel waited sid v)"
| "run_op cfg (Submit info native kind sid input claimed tag) v = snd (submit_locked cfg info native kind sid input claimed tag v)"
| "run_op cfg (Complete rel n) v = snd (correlate_completion rel n v)"
| "run_op cfg (Shut native mode) v = snd (shutdown native mode v)"
| "run_op cfg (Notify throws) v = native_notify throws v"
| "run_op cfg (Log_Line throws) v = native_log throws v"
| "run_op cfg Consume_Wakeup v = snd (consume_wakeup v)"

inductive verifier_reachable :: "verifier_config \<Rightarrow> verifier \<Rightarrow> bool" for cfg where
  constructed: "make_verifier init1 init2 create start cleanup cfg = Inr v \<Longrightarrow> verifier_reachable cfg v"
| operated: "verifier_reachable cfg v \<Longrightarrow> verifier_reachable cfg (run_op cfg op v)"

lemma shutdown_ok:
  assumes "verifier_ok cfg v"
  shows "verifier_ok cfg (snd (shutdown native mode v))" and "releases_idle v (snd (shutdown native mode v))"
  using assms by (simp_all add: shutdown_def Let_def releases_idle_def)

lemma callbacks_ok:
  assumes "verifier_ok cfg v"
  shows "verifier_ok cfg (native_notify throws v)" and "releases_idle v (native_notify throws v)"
    and "verifier_ok cfg (native_log throws v)" and "releases_idle v (native_log throws v)"
    and "verifier_ok cfg (snd (consume_wakeup v))" and "releases_idle v (snd (consume_wakeup v))"
  using assms by (simp_all add: native_notify_def native_log_def consume_wakeup_def Let_def)

lemma run_op_ok:
  assumes "verifier_ok cfg v"
  shows "verifier_ok cfg (run_op cfg op v)" and "releases_idle v (run_op cfg op v)"
proof -
  have sub: "verifier_ok cfg (snd (submit_locked cfg info native kind sid input claimed tag v)) \<and>
      releases_idle v (snd (submit_locked cfg info native kind sid input claimed tag v))" for info native kind sid input claimed tag
    using submit_locked_ok [OF assms] by (metis prod.collapse)
  show "verifier_ok cfg (run_op cfg op v)"
    by (cases op) (simp_all add: sub prepare_seed_ok wait_seed_ready_ok seed_snapshot_ok seed_snapshots_ok activate_seed_ok
        deactivate_seed_ok retain_seed_ok drop_seed_reference_ok request_seed_release_ok wait_seed_released_ok
        correlate_completion_ok shutdown_ok callbacks_ok assms)
  show "releases_idle v (run_op cfg op v)"
    by (cases op) (simp_all add: sub prepare_seed_ok [OF assms] wait_seed_ready_ok [OF assms] seed_snapshot_ok [OF assms]
        seed_snapshots_ok [OF assms] activate_seed_ok [OF assms] deactivate_seed_ok [OF assms] retain_seed_ok [OF assms]
        drop_seed_reference_ok [OF assms] request_seed_release_ok [OF assms] wait_seed_released_ok [OF assms]
        correlate_completion_ok [OF assms] shutdown_ok [OF assms] callbacks_ok [OF assms])
qed

lemma make_verifier_ok:
  assumes "make_verifier init1 init2 create start cleanup cfg = Inr v"
  shows "verifier_ok cfg v"
proof -
  have v: "submissions v = replicate (submission_table_size (max_outstanding cfg)) empty_slot"
    "tracked_submissions v = 0" "seeds v = []" "current_seed_id v = 0"
    using assms by (auto simp: make_verifier_def split: sum.splits if_splits)
  show ?thesis
    using v by (simp add: verifier_ok_def outstanding_def fresh_table find_seed_fun unique_seeds_def abstract_ok_def)
qed

lemma reachable_ok: "verifier_reachable cfg v \<Longrightarrow> verifier_ok cfg v"
  by (induction rule: verifier_reachable.induct) (auto simp: make_verifier_ok run_op_ok)

text \<open>Only a completion that names the tag ends an outstanding submission.\<close>

lemma outstanding_frames [simp]:
  "outstanding (snd (seed_snapshot_locked a r v)) = outstanding v"
  "outstanding (v\<lparr>seeds := rs\<rparr>) = outstanding v" "outstanding (v\<lparr>current_seed_id := sid\<rparr>) = outstanding v"
  "outstanding (v\<lparr>wake_pending := b\<rparr>) = outstanding v" "outstanding (v\<lparr>callback_exceptions := e\<rparr>) = outstanding v"
  "outstanding (v\<lparr>lifecycle := l\<rparr>) = outstanding v" "outstanding (retire_former rel sid v) = outstanding v"
  by (simp_all add: outstanding_def seed_snapshot_locked_def Let_def retire_former_def split: option.split)

lemma outstanding_seed_ops [simp]:
  "outstanding (snd (prepare_seed info prep hash v)) = outstanding v"
  "outstanding (snd (wait_seed_released rel waited sid v)) = outstanding v"
  by (simp_all add: prepare_seed_def prepare_resident_def prepare_new_def wait_seed_released_def Let_def split_beta
      split: option.split)

lemma outstanding_kept:
  assumes "verifier_ok cfg v" and "outstanding v tag = Some s" and "\<And>rel n. op = Complete rel n \<Longrightarrow> nat_user_tag n \<noteq> tag"
  shows "outstanding (run_op cfg op v) tag = Some s"
proof (cases op)
  case (Submit info native kind sid input claimed tag')
  obtain a v' where e: "submit_locked cfg info native kind sid input claimed tag' v = (a, v')" by fastforce
  note sub = submit_locked_ok [OF assms(1) e]
  have "fst a = MSPV_OK \<Longrightarrow> tag' \<noteq> tag"
    using sub assms(2) by (auto simp: submit_answer_def admit_answer_def split: if_splits option.splits)
  then show ?thesis using sub assms(2) Submit e by auto
next
  case (Complete rel n)
  then show ?thesis using assms correlate_completion_ok(3) [OF assms(1), of rel n] by simp
qed (use assms(2) in \<open>simp_all add: wait_seed_ready_def seed_snapshot_def
    seed_snapshots_def activate_seed_def deactivate_seed_def retain_seed_def drop_seed_reference_def request_seed_release_def
    shutdown_def native_notify_def native_log_def consume_wakeup_def Let_def split: option.splits\<close>)

lemma drain_is_a_run:
  "\<exists>ns. snd (drain_loop polls rels left i acc v) = fold (\<lambda>p. run_op cfg (Complete (fst p) (snd p))) ns v \<and>
    map snd ns = map (\<lambda>j. snd (polls (i + j))) [0..<length ns] \<and>
    length (fst (fst (drain_loop polls rels left i acc v))) = length acc + length ns \<and> length ns \<le> left \<and>
    (\<forall>j < length ns. fst (polls (i + j)) = MSPV_OK) \<and>
    (length ns < left \<longrightarrow> fst (polls (i + length ns)) \<noteq> MSPV_OK) \<and>
    snd (fst (drain_loop polls rels left i acc v)) = (if length ns < left then fst (polls (i + length ns)) else MSPV_OK)"
proof (induction left arbitrary: i acc v)
  case 0
  show ?case by (intro exI [of _ "[]"]) simp
next
  case (Suc left)
  obtain status n where p: "polls i = (status, n)" by fastforce
  show ?case
  proof (cases "status = MSPV_OK")
    case False
    then show ?thesis using p by (intro exI [of _ "[]"]) simp
  next
    case True
    obtain c w where c: "correlate_completion (rels i) n v = (c, w)" by fastforce
    let ?d = "drain_loop polls rels left (Suc i) (acc @ [c]) w"
    have d: "drain_loop polls rels (Suc left) i acc v = ?d"
      using p True c by simp
    have step: "run_op cfg (Complete (rels i) n) v = w" using c by simp
    obtain ns where ns: "snd ?d = fold (\<lambda>p. run_op cfg (Complete (fst p) (snd p))) ns w"
      "map snd ns = map (\<lambda>j. snd (polls (Suc i + j))) [0..<length ns]"
      "length (fst (fst ?d)) = length (acc @ [c]) + length ns" "length ns \<le> left"
      "\<forall>j < length ns. fst (polls (Suc i + j)) = MSPV_OK"
      "length ns < left \<longrightarrow> fst (polls (Suc i + length ns)) \<noteq> MSPV_OK"
      "snd (fst ?d) = (if length ns < left then fst (polls (Suc i + length ns)) else MSPV_OK)"
      using Suc.IH [of "Suc i" "acc @ [c]" w] by blast
    have "map snd ((rels i, n) # ns) = map (\<lambda>j. snd (polls (i + j))) [0..<length ((rels i, n) # ns)]"
      using ns(2) p by (simp add: upt_conv_Cons map_Suc_upt [symmetric] comp_def del: upt_Suc)
    moreover have "\<forall>j < length ((rels i, n) # ns). fst (polls (i + j)) = MSPV_OK"
      using ns(5) p True by (auto simp: less_Suc_eq_0_disj)
    ultimately show ?thesis unfolding d
      using ns by (intro exI [of _ "(rels i, n) # ns"]) (simp add: step del: run_op.simps)
  qed
qed

section \<open>Properties\<close>

text \<open>
  C38: in every reachable state of the verifier adapter the number of tracked submissions is the
  number of occupied slots and at most the configured limit, the table still has its initial size
  and can be probed, the resident seeds have distinct identifiers, each seed's counter of tracked
  verifications is the number of outstanding submissions that name it, every outstanding submission
  names a resident seed, and no seed that is current, retained or in use has been handed to native
  release.
\<close>

theorem verifier_reachable_invariant:
  assumes "verifier_reachable cfg v"
  shows "tracked_submissions v = length (filter occupied (submissions v)) \<and>
    tracked_submissions v \<le> unat (max_outstanding cfg) \<and>
    length (submissions v) = submission_table_size (max_outstanding cfg) \<and> table_ok (submissions v) \<and>
    distinct (map seed_id (filter (\<lambda>r. \<not> removed r) (seeds v))) \<and>
    (\<forall>sid r. find_seed v sid = Some r \<longrightarrow> unat (tracked_verifications r) = refs (outstanding v) sid \<and>
       (release_started r \<longrightarrow> retained_job_references r = 0 \<and> refs (outstanding v) sid = 0 \<and>
          (current_seed_id v \<noteq> 0 \<longrightarrow> sid \<noteq> current_seed_id v))) \<and>
    (\<forall>tag s. outstanding v tag = Some s \<longrightarrow> find_seed v (slot_seed s) \<noteq> None) \<and>
    (current_seed_id v \<noteq> 0 \<longrightarrow> find_seed v (current_seed_id v) \<noteq> None)"
proof -
  note ok = verifier_okD [OF reachable_ok [OF assms]]
  have "unat (tracked_verifications r) = refs (outstanding v) sid \<and>
       (release_started r \<longrightarrow> retained_job_references r = 0 \<and> refs (outstanding v) sid = 0 \<and>
          (current_seed_id v \<noteq> 0 \<longrightarrow> sid \<noteq> current_seed_id v))" if "find_seed v sid = Some r" for sid r
    using abstract_okD(2,3) [OF ok(6) that] by (auto simp: seed_good_def)
  then show ?thesis
    using ok(1-5) abstract_okD(4,5) [OF ok(6)] by (simp add: unique_seeds_def used_def)
qed

definition sample_config :: verifier_config where
  "sample_config = \<lparr>workers = 1, seed_init_threads = 1, pending_capacity = 1, max_outstanding = 2, max_input_size = 64,
     max_seeds = 2, max_buffered_input_bytes = 64, cfg_memory_mode = Memory_Light, cfg_large_pages = Pages_Disabled,
     cfg_jit = Jit_Secure, cfg_aes = Aes_Automatic, cfg_log_level = Log_Info\<rparr>"

definition sample_info :: info_answer where
  "sample_info = (MSPV_OK, \<lparr>info_state = MSPV_SEED_READY, info_last_error = MSPV_OK, info_key_size = 32, info_queued_jobs = 0,
     info_running_jobs = 0, info_prepare_ns = 0, info_memory_uses_large_pages = 0, info_all_vms_use_large_pages = 0\<rparr>)"

definition sample_completion :: mspv_completion where
  "sample_completion = \<lparr>nat_result = MSPV_RESULT_OK, nat_error = MSPV_OK, nat_comparison = MSPV_COMPARISON_NOT_REQUESTED,
       nat_ticket = 5, nat_user_tag = 9, nat_seed_id = 7, nat_hash = [], nat_queue_ns = 0, nat_hash_ns = 0, nat_total_ns = 0\<rparr>"

lemma sample_config_valid: "\<not> config_invalid sample_config"
  by (simp add: config_invalid_def sample_config_def kMaximumWorkers_def kMaximumCapacity_def kMaximumInputSize_def
      kMaximumSeeds_def kMaximumBufferedInputBytes_def word_less_nat_alt)

lemma sample_start: "\<exists>v. make_verifier MSPV_OK MSPV_OK MSPV_OK MSPV_OK MSPV_OK sample_config = Inr v \<and> usable v \<and> seeds v = []
    \<and> outstanding v = Map.empty \<and> tracked_submissions v = 0"
  using sample_config_valid fresh_table(2) by (simp add: make_verifier_def map_config_def usable_def outstanding_def)

lemma sample_prepared:
  "\<exists>v. verifier_reachable sample_config v \<and> usable v \<and> (\<exists>r. find_seed v 7 = Some r \<and> \<not> release_started r)
    \<and> outstanding v = Map.empty \<and> tracked_submissions v = 0"
proof -
  obtain v where v: "make_verifier MSPV_OK MSPV_OK MSPV_OK MSPV_OK MSPV_OK sample_config = Inr v" "usable v" "seeds v = []"
    "outstanding v = Map.empty" "tracked_submissions v = 0" using sample_start by blast
  let ?w = "run_op sample_config (Prepare sample_info (MSPV_OK, 7) []) v"
  have "verifier_reachable sample_config ?w" using v(1) by (intro operated constructed)
  moreover have "usable ?w" "find_seed ?w 7 = Some ((new_seed [])\<lparr>seed_id := 7\<rparr>)" "tracked_submissions ?w = 0"
    using v by (simp_all add: prepare_seed_def prepare_new_def find_resident_seed_by_hash_def find_seed_def usable_def
        issue_def named_def new_seed_def Let_def)
  moreover have "outstanding ?w = Map.empty" using v(4) by simp
  ultimately show ?thesis by (intro exI [of _ ?w]) (auto simp: new_seed_def)
qed

theorem verifier_reachable_invariant_witness:
  "\<exists>v. verifier_reachable sample_config v \<and> tracked_submissions v \<le> 2 \<and> length (submissions v) = submission_table_size 2"
proof -
  obtain v where v: "verifier_reachable sample_config v" using sample_prepared by blast
  then show ?thesis using verifier_reachable_invariant [OF v] by (auto simp: sample_config_def)
qed

text \<open>
  C37: a seed is handed to native release only when nothing needs it. Whatever operation runs in a
  reachable state, and whatever the native library answers, every release call it issues is for a
  seed that is not current, that no outstanding submission uses and that no retained job refers to;
  earlier native calls are never reordered or dropped.
\<close>

theorem release_only_idle_seeds:
  assumes "verifier_reachable cfg v"
  shows "\<exists>cs. calls (run_op cfg op v) = calls v @ cs \<and>
    (\<forall>sid. Call_Release sid \<in> set cs \<longrightarrow>
       sid \<noteq> current_seed_id (run_op cfg op v) \<and>
       (\<forall>tag s. outstanding (run_op cfg op v) tag = Some s \<longrightarrow> slot_seed s \<noteq> sid) \<and>
       (\<forall>r. find_seed (run_op cfg op v) sid = Some r \<longrightarrow> retained_job_references r = 0))"
proof -
  note ok = run_op_ok [OF reachable_ok [OF assms], of op]
  have fin: "finite (dom (outstanding (run_op cfg op v)))" using abstract_okD(1) [OF verifier_okD(6) [OF ok(1)]] .
  show ?thesis using ok(2) unfolding releases_idle_def idle_def refs_zero [OF fin] by blast
qed

theorem release_only_idle_seeds_witness:
  "\<exists>v. verifier_reachable sample_config v \<and>
     Call_Release 7 \<in> set (calls (run_op sample_config (Request_Release MSPV_OK 7) v)) \<and>
     7 \<noteq> current_seed_id (run_op sample_config (Request_Release MSPV_OK 7) v)"
proof -
  obtain v where v: "make_verifier MSPV_OK MSPV_OK MSPV_OK MSPV_OK MSPV_OK sample_config = Inr v" "usable v" "seeds v = []"
    "outstanding v = Map.empty" "tracked_submissions v = 0" using sample_start by blast
  let ?w = "run_op sample_config (Prepare sample_info (MSPV_OK, 7) []) v"
  have w: "verifier_reachable sample_config ?w" using v(1) by (intro operated constructed)
  have c: "current_seed_id v = 0" "calls v = []"
    using v(1) sample_config_valid by (auto simp: make_verifier_def map_config_def)
  have "calls ?w = [Call_Prepare []]" "calls (run_op sample_config (Request_Release MSPV_OK 7) ?w) = [Call_Prepare [], Call_Release 7]"
    using v c by (simp_all add: prepare_seed_def prepare_new_def find_resident_seed_by_hash_def find_seed_def usable_def
        issue_def named_def new_seed_def Let_def request_seed_release_def maybe_begin_seed_release_def set_seed_def)
  with release_only_idle_seeds [OF w, of "Request_Release MSPV_OK 7"] w show ?thesis by (intro exI [of _ ?w]) auto
qed

text \<open>
  What a submission answers, on every branch. In a reachable state the guards are tried in the
  order of the code; a submission that passes them is refused for capacity exactly when the limit of
  outstanding submissions is reached, is refused as invalid exactly when its tag is still
  outstanding, and otherwise gets the native answer: the fixed table never runs out of slots first.
  Only an accepted submission becomes outstanding, under its tag, with its ticket, seed and kind.
\<close>

theorem submit_outcomes:
  assumes "verifier_reachable cfg v"
    and "submit_locked cfg info native kind sid input claimed tag v = (a, v')"
  shows "a = (if \<not> usable v then (MSPV_NOT_RUNNING, 0)
      else if tag = 0 \<or> input = [] \<or> length input > unat (max_input_size cfg) \<or> (kind = Verify_Claim \<and> claimed = None)
      then (MSPV_INVALID_ARGUMENT, 0)
      else case find_seed v sid of None \<Rightarrow> (MSPV_SEED_NOT_FOUND, 0)
      | Some r \<Rightarrow>
        if release_started r then (MSPV_SEED_RELEASING, 0)
        else if fst info \<noteq> MSPV_OK then (fst info, 0)
        else if info_state (snd info) \<noteq> MSPV_SEED_READY \<and> info_state (snd info) \<noteq> MSPV_SEED_CURRENT
        then (MSPV_SEED_NOT_READY, 0)
        else if length (filter occupied (submissions v)) \<ge> unat (max_outstanding cfg) then (MSPV_QUEUE_FULL, 0)
        else if outstanding v tag \<noteq> None then (MSPV_INVALID_ARGUMENT, 0)
        else if fst native \<noteq> MSPV_OK then (fst native, 0) else (MSPV_OK, snd native)) \<and>
    outstanding v' = (if fst a = MSPV_OK
      then (outstanding v)(tag \<mapsto> \<lparr>slot_state = Slot_Occupied, slot_tag = tag, slot_ticket = snd a, slot_seed = sid, slot_kind = kind\<rparr>)
      else outstanding v)"
proof -
  note ok = submit_locked_ok [OF reachable_ok [OF assms(1)] assms(2)]
  have t: "tracked_submissions v = length (filter occupied (submissions v))"
    using verifier_okD(3) [OF reachable_ok [OF assms(1)]] by (simp add: used_def)
  have a: "a = submit_answer cfg info native kind sid input claimed tag v"
    and m: "outstanding v' = (if fst a = MSPV_OK then (outstanding v)(tag \<mapsto> new_slot tag (snd a) sid kind) else outstanding v)"
    using ok by simp_all
  show ?thesis
    by (rule conjI [OF a [unfolded submit_answer_def admit_answer_def t] m [unfolded new_slot_def]])
qed

lemma sample_submit:
  assumes "verifier_ok sample_config v" and "usable v" and "find_seed v 7 = Some r" and "\<not> release_started r"
    and "outstanding v = Map.empty" and "tracked_submissions v = 0"
  shows "\<exists>v'. submit_locked sample_config sample_info (MSPV_OK, 5) Hash_Only 7 [1] None 9 v = ((MSPV_OK, 5), v')"
proof -
  obtain a v' where e: "submit_locked sample_config sample_info (MSPV_OK, 5) Hash_Only 7 [1] None 9 v = (a, v')" by fastforce
  have "a = (MSPV_OK, 5)"
    using submit_locked_ok [OF assms(1) e] assms(2-6)
    by (simp add: submit_answer_def admit_answer_def sample_config_def sample_info_def)
  then show ?thesis using e by simp
qed

text \<open>
  C36: every accepted submission is correlated exactly once. After a submission is accepted, let any
  operations run except completions that name its tag. The first completion that names the tag
  reports the ticket, the seed and the kind of that submission and is marked as matched exactly when
  the native ticket and seed are the ones issued; any further completion for the tag is reported
  as unknown.
\<close>

theorem completion_matches_submission:
  assumes "verifier_reachable cfg v"
    and "submit_locked cfg info native kind sid input claimed tag v = ((MSPV_OK, ticket), v1)"
    and "\<forall>op \<in> set ops. \<forall>rel n. op = Complete rel n \<longrightarrow> nat_user_tag n \<noteq> tag"
    and "correlate_completion rel1 n1 (fold (run_op cfg) ops v1) = (c1, v2)" and "nat_user_tag n1 = tag"
    and "correlate_completion rel2 n2 v2 = (c2, v3)" and "nat_user_tag n2 = tag"
  shows "c_expected_ticket c1 = ticket \<and> c_expected_seed_id c1 = sid \<and> c_submission_kind c1 = kind \<and>
    (c_correlation c1 = Matched \<longleftrightarrow> nat_ticket n1 = ticket \<and> nat_seed_id n1 = sid) \<and>
    c_correlation c1 \<noteq> Unknown_User_Tag \<and> c_correlation c2 = Unknown_User_Tag"
proof -
  note sub = submit_locked_ok [OF reachable_ok [OF assms(1)] assms(2)]
  let ?s = "new_slot tag ticket sid kind"
  have start: "verifier_ok cfg v1 \<and> outstanding v1 tag = Some ?s" using sub by simp
  have "verifier_ok cfg (fold (run_op cfg) ops w) \<and> outstanding (fold (run_op cfg) ops w) tag = Some ?s"
    if "verifier_ok cfg w \<and> outstanding w tag = Some ?s" for w
    using assms(3) that
  proof (induction ops arbitrary: w)
    case (Cons op ops)
    have "verifier_ok cfg (run_op cfg op w) \<and> outstanding (run_op cfg op w) tag = Some ?s"
      using Cons.prems run_op_ok(1) outstanding_kept [of cfg w tag ?s op] by auto
    then show ?case using Cons.IH Cons.prems(1) by simp
  qed simp
  from this [OF start] have w: "verifier_ok cfg (fold (run_op cfg) ops v1)"
    "outstanding (fold (run_op cfg) ops v1) (nat_user_tag n1) = Some ?s" using assms(5) by auto
  note known = correlate_known [OF w assms(4)]
  have "outstanding v2 (nat_user_tag n2) = None" using known(3) assms(5,7) by simp
  from correlate_unknown [OF known(2) this, of rel2] have "c2 = plain_completion n2" using assms(6) by simp
  then show ?thesis using known(1) by (auto simp: correlate_def plain_completion_def Let_def)
qed

theorem completion_matches_submission_witness:
  "\<exists>v v1 c1 v2 c2 v3. verifier_reachable sample_config v \<and>
     submit_locked sample_config sample_info (MSPV_OK, 5) Hash_Only 7 [1] None 9 v = ((MSPV_OK, 5), v1) \<and>
     correlate_completion MSPV_OK sample_completion
       (run_op sample_config (Retain 7) v1) = (c1, v2) \<and> c_correlation c1 = Matched \<and>
     correlate_completion MSPV_OK sample_completion
       v2 = (c2, v3) \<and> c_correlation c2 = Unknown_User_Tag"
proof -
  obtain v r where v: "verifier_reachable sample_config v" "usable v" "find_seed v 7 = Some r" "\<not> release_started r"
    "outstanding v = Map.empty" "tracked_submissions v = 0" using sample_prepared by blast
  obtain v1 where e: "submit_locked sample_config sample_info (MSPV_OK, 5) Hash_Only 7 [1] None 9 v = ((MSPV_OK, 5), v1)"
    using sample_submit [OF reachable_ok [OF v(1)] v(2-6)] by blast
  obtain c1 v2 where c1: "correlate_completion MSPV_OK sample_completion (run_op sample_config (Retain 7) v1) = (c1, v2)" by fastforce
  obtain c2 v3 where c2: "correlate_completion MSPV_OK sample_completion v2 = (c2, v3)" by fastforce
  have "c_correlation c1 = Matched \<and> c_correlation c2 = Unknown_User_Tag"
    using completion_matches_submission [OF v(1) e, of "[Retain 7]", simplified fold_simps, OF _ c1 _ c2] by (simp add: sample_completion_def)
  then show ?thesis using v(1) e c1 c2 by blast
qed

text \<open>
  A drain takes the native completions in order and stops where the code says. Whatever the
  native queue answers, it returns one completion per successful poll, polls on until the first
  other status or until \<open>max_count\<close> completions are collected, and reports that status, or success
  when the limit stopped it; the state afterwards is the one after correlating exactly those
  completions one by one.
\<close>

theorem drain_takes_completions_in_order:
  assumes "has_context v" and "drain_completions polls rels max_count v = ((cs, terminal), v')"
  shows "length cs \<le> max_count \<and> (\<forall>j < length cs. fst (polls j) = MSPV_OK) \<and>
    terminal = (if length cs < max_count then fst (polls (length cs)) else MSPV_OK) \<and>
    (length cs < max_count \<longrightarrow> terminal \<noteq> MSPV_OK) \<and>
    (\<exists>ns. map snd ns = map (\<lambda>j. snd (polls j)) [0..<length cs] \<and>
      v' = fold (\<lambda>p w. snd (correlate_completion (fst p) (snd p) w)) ns (v\<lparr>wake_pending := False\<rparr>))"
proof -
  have d: "drain_loop polls rels max_count 0 [] (v\<lparr>wake_pending := False\<rparr>) = ((cs, terminal), v')"
    using assms by (simp add: drain_completions_def)
  obtain ns where "v' = fold (\<lambda>p. run_op undefined (Complete (fst p) (snd p))) ns (v\<lparr>wake_pending := False\<rparr>)"
    "map snd ns = map (\<lambda>j. snd (polls j)) [0..<length ns]" "length cs = length ns" "length ns \<le> max_count"
    "\<forall>j < length ns. fst (polls j) = MSPV_OK" "length ns < max_count \<longrightarrow> fst (polls (length ns)) \<noteq> MSPV_OK"
    "terminal = (if length ns < max_count then fst (polls (length ns)) else MSPV_OK)"
    using drain_is_a_run [of polls rels max_count 0 "[]" "v\<lparr>wake_pending := False\<rparr>" undefined] unfolding d by auto
  moreover have "(\<lambda>p. run_op undefined (Complete (fst p) (snd p))) = (\<lambda>p w. snd (correlate_completion (fst p) (snd p) w))"
    by (simp add: fun_eq_iff)
  ultimately show ?thesis by (auto intro!: exI [of _ ns])
qed

end
