(* ===== verification/Mailbox.thy ===== *)
theory Mailbox
  imports Std_Map Verifier
begin

text \<open>
  The completion mailbox of src/verifier/completion_mailbox.cpp, through which the drain thread hands
  one verified completion to the thread that waits for it, and the two decisions of
  include/monero_solo/share_policy.hpp about a share whose hash has been computed. The slots
  are keyed by tag; their iteration order is never used, so an ordered map stands for the unordered
  one. Every operation holds the mutex; a wait is the step that runs when the condition variable
  returns.
\<close>

section \<open>State and operations\<close>

record mailbox =
  box_capacity :: nat
  box_slots :: "(u64, completion option) std_map"
  box_closed :: bool

definition make_mailbox :: "nat \<Rightarrow> mailbox result" where
  "make_mailbox capacity =
     (if capacity = 0 then Inl (InvalidArgument ''completion mailbox capacity is zero'')
      else Inr \<lparr>box_capacity = capacity, box_slots = [], box_closed = True\<rparr>)"

definition box_open :: "mailbox \<Rightarrow> mailbox result" where
  "box_open b =
     (if box_slots b \<noteq> [] then Inl (LogicError ''completion mailbox opened with live slots'')
      else Inr (b\<lparr>box_closed := False\<rparr>))"

definition box_close :: "mailbox \<Rightarrow> mailbox" where
  "box_close b = b\<lparr>box_closed := True, box_slots := []\<rparr>"

definition register_waiter :: "u64 \<Rightarrow> mailbox \<Rightarrow> bool \<times> mailbox" where
  "register_waiter tag b =
     (if box_closed b \<or> length (box_slots b) \<ge> box_capacity b then (False, b)
      else if map_has (box_slots b) tag then (False, b)
      else (True, b\<lparr>box_slots := map_put tag None (box_slots b)\<rparr>))"

definition cancel :: "u64 \<Rightarrow> mailbox \<Rightarrow> mailbox" where
  "cancel tag b = b\<lparr>box_slots := map_erase tag (box_slots b)\<rparr>"

text \<open>\<open>stored\<close> says whether storing the completion succeeded; a failed allocation drops the slot.\<close>

definition publish :: "bool \<Rightarrow> completion \<Rightarrow> mailbox \<Rightarrow> bool \<times> mailbox" where
  "publish stored c b =
     (if \<not> box_closed b \<and> map_of (box_slots b) (c_user_tag c) = Some None
      then if stored then (True, b\<lparr>box_slots := map_put (c_user_tag c) (Some c) (box_slots b)\<rparr>)
           else (False, b\<lparr>box_slots := map_erase (c_user_tag c) (box_slots b)\<rparr>)
      else (False, b))"

text \<open>The predicate the condition variable waits for.\<close>

definition wait_finished :: "u64 \<Rightarrow> mailbox \<Rightarrow> bool" where
  "wait_finished tag b \<longleftrightarrow>
     box_closed b \<or> (case map_of (box_slots b) tag of None \<Rightarrow> True | Some c \<Rightarrow> c \<noteq> None)"

text \<open>\<open>wait_for\<close> returns the value of the predicate; the slot is consumed in either case.\<close>

definition wait_timed :: "u64 \<Rightarrow> mailbox \<Rightarrow> completion option \<times> mailbox" where
  "wait_timed tag b =
     (let finished = wait_finished tag b in
      case map_of (box_slots b) tag of
        None \<Rightarrow> (None, b)
      | Some None \<Rightarrow> (None, b\<lparr>box_slots := map_erase tag (box_slots b)\<rparr>)
      | Some (Some c) \<Rightarrow>
          if \<not> finished then (None, b\<lparr>box_slots := map_erase tag (box_slots b)\<rparr>)
          else (Some c, b\<lparr>box_slots := map_erase tag (box_slots b)\<rparr>))"

definition wait_blocking :: "u64 \<Rightarrow> mailbox \<Rightarrow> completion option \<times> mailbox" where
  "wait_blocking tag b =
     (case map_of (box_slots b) tag of
        None \<Rightarrow> (None, b)
      | Some None \<Rightarrow> (None, b\<lparr>box_slots := map_erase tag (box_slots b)\<rparr>)
      | Some (Some c) \<Rightarrow> (Some c, b\<lparr>box_slots := map_erase tag (box_slots b)\<rparr>))"

definition box_size :: "mailbox \<Rightarrow> nat" where
  "box_size b = length (box_slots b)"

section \<open>After the hash\<close>

datatype duplicate_terminal = No_Terminal | Duplicate_Terminal | Capacity_Terminal

record post_hash_plan =
  journal_computed_candidate :: bool
  plan_terminal :: duplicate_terminal

definition continue_verification_after_claimed_capacity :: "bool \<Rightarrow> bool \<Rightarrow> bool" where
  "continue_verification_after_claimed_capacity claimed_capacity claimed_network_candidate \<longleftrightarrow>
     \<not> claimed_capacity \<or> claimed_network_candidate"

definition verified_post_hash_plan :: "bool \<Rightarrow> bool \<Rightarrow> bool \<Rightarrow> bool \<Rightarrow> post_hash_plan" where
  "verified_post_hash_plan computed_network_candidate computed_duplicate claimed_capacity computed_capacity =
     \<lparr>journal_computed_candidate = computed_network_candidate,
      plan_terminal = (if computed_duplicate then Duplicate_Terminal
        else if claimed_capacity \<or> computed_capacity then Capacity_Terminal else No_Terminal)\<rparr>"

text \<open>
  A network block candidate is never lost to a full duplicate registry. Verification continues
  past a full registry when the claimed hash is a candidate, the computed candidate is journaled
  whatever the registry says, and the share itself ends as a duplicate before it ends for capacity.
\<close>

lemma candidate_survives_capacity:
  "continue_verification_after_claimed_capacity capacity True \<and>
   journal_computed_candidate (verified_post_hash_plan True duplicate capacity computed_capacity) \<and>
   (plan_terminal (verified_post_hash_plan candidate duplicate capacity computed_capacity) = Duplicate_Terminal \<longleftrightarrow> duplicate) \<and>
   (plan_terminal (verified_post_hash_plan candidate duplicate capacity computed_capacity) = No_Terminal \<longleftrightarrow>
      \<not> duplicate \<and> \<not> capacity \<and> \<not> computed_capacity)"
  by (simp add: continue_verification_after_claimed_capacity_def verified_post_hash_plan_def)

section \<open>Histories\<close>

datatype mailbox_op =
    Open_Box
  | Close_Box
  | Register u64
  | Cancel u64
  | Publish bool completion
  | Wait_Timed u64
  | Wait_Blocking u64

primrec box_op :: "mailbox_op \<Rightarrow> mailbox \<Rightarrow> mailbox" where
  "box_op Open_Box b = (case box_open b of Inl _ \<Rightarrow> b | Inr b' \<Rightarrow> b')"
| "box_op Close_Box b = box_close b"
| "box_op (Register tag) b = snd (register_waiter tag b)"
| "box_op (Cancel tag) b = cancel tag b"
| "box_op (Publish stored c) b = snd (publish stored c b)"
| "box_op (Wait_Timed tag) b = snd (wait_timed tag b)"
| "box_op (Wait_Blocking tag) b = snd (wait_blocking tag b)"

text \<open>A blocking wait returns only once its predicate holds.\<close>

definition enabled :: "mailbox_op \<Rightarrow> mailbox \<Rightarrow> bool" where
  "enabled op b = (case op of Wait_Blocking tag \<Rightarrow> wait_finished tag b | _ \<Rightarrow> True)"

inductive mailbox_reachable :: "mailbox \<Rightarrow> bool" where
  made: "make_mailbox n = Inr b \<Longrightarrow> mailbox_reachable b"
| stepped: "mailbox_reachable b \<Longrightarrow> enabled op b \<Longrightarrow> mailbox_reachable (box_op op b)"

definition mailbox_ok :: "mailbox \<Rightarrow> bool" where
  "mailbox_ok b \<longleftrightarrow> map_ok (box_slots b) \<and> 0 < box_capacity b \<and> length (box_slots b) \<le> box_capacity b \<and>
     (box_closed b \<longrightarrow> box_slots b = []) \<and>
     (\<forall>tag c. map_of (box_slots b) tag = Some (Some c) \<longrightarrow> c_user_tag c = tag)"

lemma erase_slot_ok:
  "mailbox_ok b \<Longrightarrow> mailbox_ok (b\<lparr>box_slots := map_erase tag (box_slots b)\<rparr>)"
  using length_map_erase [of "box_slots b" tag] by (auto simp: mailbox_ok_def split: if_splits)

lemma box_op_ok:
  assumes "mailbox_ok b" shows "mailbox_ok (box_op op b)"
proof (cases op)
  case (Register tag)
  then show ?thesis using assms length_map_put [of "box_slots b" tag None]
    by (auto simp: register_waiter_def mailbox_ok_def split: if_splits)
next
  case (Publish stored c)
  have "map_of (box_slots b) (c_user_tag c) = Some None \<Longrightarrow> length (map_put (c_user_tag c) (Some c) (box_slots b)) = length (box_slots b)"
    using assms length_map_put [of "box_slots b" "c_user_tag c" "Some c"] by (simp add: mailbox_ok_def map_has_def)
  then show ?thesis using assms Publish erase_slot_ok [OF assms]
    by (auto simp: publish_def) (auto simp: mailbox_ok_def split: if_splits)
next
  case Close_Box
  then show ?thesis using assms by (simp add: box_close_def mailbox_ok_def)
next
  case Open_Box
  then show ?thesis using assms by (simp add: box_open_def mailbox_ok_def)
qed (use assms erase_slot_ok [OF assms] in \<open>simp_all add: cancel_def wait_timed_def wait_blocking_def Let_def split: option.splits\<close>)

lemma mailbox_reachable_ok: "mailbox_reachable b \<Longrightarrow> mailbox_ok b"
  by (induction rule: mailbox_reachable.induct)
    (auto simp: make_mailbox_def mailbox_ok_def [of "\<lparr>box_capacity = _, box_slots = [], box_closed = True\<rparr>"] box_op_ok split: if_splits)

text \<open>What the waiter of a tag sees of a history: the completions stored for it.\<close>

fun stored_for :: "u64 \<Rightarrow> mailbox_op list \<Rightarrow> completion list" where
  "stored_for tag [] = []"
| "stored_for tag (Publish stored c # ops) = (if c_user_tag c = tag then c # stored_for tag ops else stored_for tag ops)"
| "stored_for tag (_ # ops) = stored_for tag ops"

text \<open>An operation that neither ends the registration of the tag nor fails to store a completion for it.\<close>

definition leaves_slot :: "u64 \<Rightarrow> mailbox_op \<Rightarrow> bool" where
  "leaves_slot tag op = (case op of Close_Box \<Rightarrow> False | Cancel t \<Rightarrow> t \<noteq> tag | Wait_Timed t \<Rightarrow> t \<noteq> tag
     | Wait_Blocking t \<Rightarrow> t \<noteq> tag | Publish stored c \<Rightarrow> c_user_tag c = tag \<longrightarrow> stored | _ \<Rightarrow> True)"

definition first_of :: "completion option \<Rightarrow> completion list \<Rightarrow> completion option" where
  "first_of held cs = (case held of Some c \<Rightarrow> Some c | None \<Rightarrow> (case cs of [] \<Rightarrow> None | c # _ \<Rightarrow> Some c))"

lemma slot_kept:
  assumes "leaves_slot tag op" and "\<not> box_closed b" and "map_of (box_slots b) tag = Some held"
  shows "\<not> box_closed (box_op op b)"
    and "map_of (box_slots (box_op op b)) tag = Some (first_of held (stored_for tag [op]))"
  using assms
  by (cases op; auto simp: leaves_slot_def first_of_def box_open_def register_waiter_def cancel_def publish_def wait_timed_def
      wait_blocking_def map_has_def Let_def split: option.splits)+

lemma first_of_append: "first_of (first_of held xs) ys = first_of held (xs @ ys)"
  by (auto simp: first_of_def split: option.splits list.splits)

lemma stored_for_Cons: "stored_for tag (op # ops) = stored_for tag [op] @ stored_for tag ops"
  by (cases op) auto

lemma slot_after:
  assumes "\<forall>op \<in> set ops. leaves_slot tag op" and "\<not> box_closed b" and "map_of (box_slots b) tag = Some held"
  shows "\<not> box_closed (fold box_op ops b) \<and> map_of (box_slots (fold box_op ops b)) tag = Some (first_of held (stored_for tag ops))"
  using assms
proof (induction ops arbitrary: b held)
  case Nil
  then show ?case by (auto simp: first_of_def split: option.split)
next
  case (Cons op ops)
  have "leaves_slot tag op" using Cons.prems(1) by simp
  note k = slot_kept [OF this Cons.prems(2,3)]
  show ?case using Cons.IH [OF _ k] Cons.prems(1) by (simp add: first_of_append stored_for_Cons [of tag op ops])
qed

section \<open>Properties\<close>

text \<open>
  The mailbox keeps at most its capacity of waiters, holds nothing while closed, and every
  completion it holds lies in the slot of its own tag.
\<close>

theorem mailbox_bounded:
  assumes "mailbox_reachable b"
  shows "box_size b \<le> box_capacity b \<and> (box_closed b \<longrightarrow> box_size b = 0) \<and> distinct (map fst (box_slots b)) \<and>
    (\<forall>tag c. map_of (box_slots b) tag = Some (Some c) \<longrightarrow> c_user_tag c = tag)"
  using mailbox_reachable_ok [OF assms] by (auto simp: mailbox_ok_def box_size_def map_ok_distinct)

lemma sample_box: "mailbox_reachable \<lparr>box_capacity = 1, box_slots = [], box_closed = False\<rparr>"
proof -
  have "mailbox_reachable (box_op Open_Box \<lparr>box_capacity = 1, box_slots = [], box_closed = True\<rparr>)"
    by (rule stepped, rule made [of 1]) (simp_all add: make_mailbox_def enabled_def)
  then show ?thesis by (simp add: box_open_def)
qed

text \<open>
  C39: a waiter that registered receives the first completion published for its tag, no matter how
  the publication and the wait are ordered and what other threads do meanwhile, and every other
  completion for the tag is dropped: a wait after any operations that do not end the registration
  returns that first completion, nothing when there was none, and frees the slot; a later
  publication for the tag is not delivered.
\<close>

theorem waiter_receives_first_completion:
  assumes "register_waiter tag b = (True, b1)"
    and "\<forall>op \<in> set ops. leaves_slot tag op"
    and "wait_timed tag (fold box_op ops b1) = (r, b2)"
  shows "r = (case stored_for tag ops of [] \<Rightarrow> None | c # _ \<Rightarrow> Some c) \<and> map_of (box_slots b2) tag = None \<and>
    (\<forall>stored c. c_user_tag c = tag \<longrightarrow> publish stored c b2 = (False, b2)) \<and>
    (wait_finished tag (fold box_op ops b1) \<longrightarrow> wait_blocking tag (fold box_op ops b1) = (r, b2))"
proof -
  have "\<not> box_closed b1" "map_of (box_slots b1) tag = Some None"
    using assms(1) by (auto simp: register_waiter_def split: if_splits)
  note s = slot_after [OF assms(2) this]
  show ?thesis
  proof (cases "stored_for tag ops")
    case Nil
    then show ?thesis using s assms(3)
      by (auto simp: first_of_def wait_timed_def wait_finished_def wait_blocking_def publish_def)
  next
    case (Cons c cs)
    then show ?thesis using s assms(3)
      by (auto simp: first_of_def wait_timed_def wait_finished_def wait_blocking_def publish_def)
  qed
qed

theorem waiter_receives_first_completion_witness:
  "\<exists>b1 b2. register_waiter 9 \<lparr>box_capacity = 1, box_slots = [], box_closed = False\<rparr> = (True, b1) \<and>
     wait_timed 9 (fold box_op [Publish True (plain_completion sample_completion), Publish True (plain_completion sample_completion)] b1) =
       (Some (plain_completion sample_completion), b2)"
proof -
  let ?c = "plain_completion sample_completion"
  obtain b1 where r: "register_waiter 9 \<lparr>box_capacity = 1, box_slots = [], box_closed = False\<rparr> = (True, b1)"
    by (simp add: register_waiter_def map_has_def)
  obtain x b2 where w: "wait_timed 9 (fold box_op [Publish True ?c, Publish True ?c] b1) = (x, b2)" by fastforce
  have "c_user_tag ?c = 9" by (simp add: plain_completion_def sample_completion_def)
  then have "x = Some ?c"
    using waiter_receives_first_completion [OF r _ w] by (simp add: leaves_slot_def)
  with r w show ?thesis by blast
qed

end
