(* ===== verification/Stratum_Wire.thy ===== *)
theory Stratum_Wire
  imports Targets Hex_Codec Defense
begin

unbundle bit_operations_syntax

text \<open>
  The wire level of src/stratum/stratum.cpp: request identifiers, the compact targets of rental
  clients, the difficulty a login asks for, the memory of issued jobs, and the encoding of replies.
  JSON text is parsed and printed by the nlohmann library; a parsed document is a value of \<open>json\<close>
  and the printer is an argument of the operations that reply.
\<close>

section \<open>Documents and request identifiers\<close>

text \<open>
  The library keeps an integer literal that is not negative as \<open>number_unsigned\<close> and any other as
  \<open>number_integer\<close>; \<open>is_number_integer()\<close> holds for both.
\<close>

datatype json =
    JNull
  | JBool bool
  | JInteger int
  | JUnsigned u64
  | JFloat
  | JString string
  | JArray "json list"
  | JObject "(string \<times> json) list"

datatype miner_request_id = Number_Id int | Text_Id string

definition is_object :: "json \<Rightarrow> bool" where
  "is_object j = (case j of JObject _ \<Rightarrow> True | _ \<Rightarrow> False)"

definition is_string :: "json \<Rightarrow> bool" where
  "is_string j = (case j of JString _ \<Rightarrow> True | _ \<Rightarrow> False)"

text \<open>\<open>find\<close> of a document that is no object finds nothing.\<close>

definition jfind :: "json \<Rightarrow> string \<Rightarrow> json option" where
  "jfind j k = (case j of JObject kvs \<Rightarrow> map_of kvs k | _ \<Rightarrow> None)"

definition jstring :: "json option \<Rightarrow> string" where
  "jstring j = (case j of Some (JString s) \<Rightarrow> s | _ \<Rightarrow> [])"

definition strict_keys :: "json \<Rightarrow> string list \<Rightarrow> bool" where
  "strict_keys j allowed = (case j of JObject kvs \<Rightarrow> list_all (\<lambda>kv. fst kv \<in> set allowed) kvs | _ \<Rightarrow> False)"

definition nul :: char where "nul = CHR 0x00"

definition parse_id :: "json \<Rightarrow> miner_request_id option" where
  "parse_id document =
     (case jfind document ''id'' of None \<Rightarrow> None
      | Some (JInteger i) \<Rightarrow> Some (Number_Id i)
      | Some (JUnsigned u) \<Rightarrow> Some (Number_Id (sint u))
      | Some (JString v) \<Rightarrow> if v \<noteq> [] \<and> length v \<le> 128 \<and> nul \<notin> set v then Some (Text_Id v) else None
      | Some _ \<Rightarrow> None)"

text \<open>\<open>std::to_string\<close>.\<close>

fun nat_text :: "nat \<Rightarrow> string" where
  "nat_text n = (if n < 10 then [char_of (48 + n)] else nat_text (n div 10) @ [char_of (48 + n mod 10)])"

declare nat_text.simps [simp del]

definition int_text :: "int \<Rightarrow> string" where
  "int_text i = (if i < 0 then ''-'' @ nat_text (nat (- i)) else nat_text (nat i))"

definition id_key :: "miner_request_id \<Rightarrow> string" where
  "id_key rid = (case rid of Number_Id i \<Rightarrow> ''i:'' @ int_text i | Text_Id s \<Rightarrow> ''s:'' @ s)"

definition id_json :: "miner_request_id \<Rightarrow> json" where
  "id_json rid = (case rid of Number_Id i \<Rightarrow> JInteger i | Text_Id s \<Rightarrow> JString s)"

section \<open>Targets on the wire\<close>

fun prefix_matches :: "string \<Rightarrow> string \<Rightarrow> bool" where
  "prefix_matches [] text \<longleftrightarrow> True"
| "prefix_matches (m # ms) (c # cs) \<longleftrightarrow> tolower c = m \<and> prefix_matches ms cs"
| "prefix_matches (m # ms) [] \<longleftrightarrow> False"

fun search_folded :: "string \<Rightarrow> string \<Rightarrow> bool" where
  "search_folded marker [] \<longleftrightarrow> prefix_matches marker []"
| "search_folded marker (c # cs) \<longleftrightarrow> prefix_matches marker (c # cs) \<or> search_folded marker cs"

definition is_nicehash_agent :: "string \<Rightarrow> bool" where
  "is_nicehash_agent agent = search_folded ''nicehash'' agent"

definition compact_target :: "u64 \<Rightarrow> u32 option" where
  "compact_target difficulty =
     (if difficulty = 0 \<or> difficulty > 0xffffffff then None
      else let target = ucast (0xffffffff div difficulty) :: u32 in
        if target = 0 then None else Some target)"

definition compact_target_hex :: "u32 \<Rightarrow> string" where
  "compact_target_hex target =
     concat (map (\<lambda>i. let b = ucast (drop_bit (i * 8) target) :: byte in
                      [kHex ! unat (drop_bit 4 b), kHex ! unat (b AND 0x0f)]) [0..<4])"

record stratum_job =
  job_blob :: string
  job_id :: string
  job_target :: string
  job_seed_hash :: string
  job_height :: u64
  network_difficulty :: string

record miner_connection =
  public_id :: string
  miner_peer :: peer_address
  peer_port :: nat
  listen_address :: string
  miner_login :: string
  miner_rigid :: string
  miner_agent :: string
  assigned_difficulty :: u64
  last_sent_height :: u64
  request_sequence :: u64

text \<open>The wire target and its encoding.\<close>

definition wire_target :: "stratum_job \<Rightarrow> miner_connection \<Rightarrow> string \<times> string" where
  "wire_target job c =
     (case (if is_nicehash_agent (miner_agent c) then compact_target (assigned_difficulty c) else None) of
        Some target \<Rightarrow> (compact_target_hex target, ''le32'')
      | None \<Rightarrow> (job_target job, ''le64''))"

section \<open>The difficulty of a login\<close>

text \<open>\<open>std::from_chars\<close> on an unsigned 64 bit value: the longest run of digits, and the rest.\<close>

definition digit :: "char \<Rightarrow> bool" where
  "digit c \<longleftrightarrow> CHR ''0'' \<le> c \<and> c \<le> CHR ''9''"

definition from_chars :: "string \<Rightarrow> (u64 \<times> string) option" where
  "from_chars s =
     (let ds = takeWhile digit s in
      if ds = [] \<or> decimal_value ds \<ge> 2 ^ 64 then None else Some (of_nat (decimal_value ds), dropWhile digit s))"

definition rfind :: "char \<Rightarrow> string \<Rightarrow> nat option" where
  "rfind c s = (if c \<in> set s then Some (length s - 1 - length (takeWhile (\<lambda>x. x \<noteq> c) (rev s))) else None)"

text \<open>
  The login may end in \<open>+difficulty\<close> when the pool allows it; \<open>None\<close> is the reply \<open>Invalid login\<close>.
\<close>

definition requested_difficulty :: "u64 \<Rightarrow> string \<Rightarrow> nat \<Rightarrow> (u64 \<times> string) option" where
  "requested_difficulty base login pos =
     (if pos = 0 \<or> pos + 1 = length login then None
      else case from_chars (drop (pos + 1) login) of None \<Rightarrow> None
      | Some (requested, rest) \<Rightarrow>
          if rest \<noteq> [] \<or> requested = 0 then None else Some (max base requested, take pos login))"

definition login_difficulty :: "u64 \<Rightarrow> bool \<Rightarrow> string \<Rightarrow> (u64 \<times> string) option" where
  "login_difficulty base minimum login =
     (if \<not> minimum then Some (base, login)
      else case rfind CHR ''+'' login of None \<Rightarrow> Some (base, login)
      | Some pos \<Rightarrow> requested_difficulty base login pos)"

text \<open>The difficulty assigned: quantized to what a compact target can carry for a rental client.\<close>

definition assign_difficulty :: "string \<Rightarrow> u64 \<Rightarrow> u64 option" where
  "assign_difficulty agent difficulty =
     (if is_nicehash_agent agent
      then (case compact_target difficulty of None \<Rightarrow> None | Some target \<Rightarrow> Some (0xffffffff div ucast target))
      else Some difficulty)"

section \<open>Issued jobs\<close>

text \<open>The difficulties of the jobs a connection was sent, and the order they came in.\<close>

type_synonym job_memory = "(string, string) std_map \<times> string list"

function evict_jobs :: "job_memory \<Rightarrow> job_memory" where
  "evict_jobs (m, order) =
     (if length order > 64 then evict_jobs (map_erase (hd order) m, tl order) else (m, order))"
  by pat_completeness auto

termination
  by (relation "measure (\<lambda>(m, order). length order)") auto

declare evict_jobs.simps [simp del]

definition remember_job :: "stratum_job \<Rightarrow> job_memory \<Rightarrow> job_memory" where
  "remember_job job mem =
     (if network_difficulty job = [] then mem
      else let (m, order) = mem;
               order = (if map_has m (job_id job) then order else order @ [job_id job]) in
        evict_jobs (map_put (job_id job) (network_difficulty job) m, order))"

section \<open>Replies\<close>

datatype share_disposition =
    Accepted | Stale | Duplicate_Share | Low_Difficulty | Invalid_Result | Unknown_Job | Server_Busy
  | Verifier_Failed | Cancelled

fun share_disposition_message :: "share_disposition \<Rightarrow> string" where
  "share_disposition_message Accepted = ''OK''"
| "share_disposition_message Stale = ''Stale share''"
| "share_disposition_message Duplicate_Share = ''Duplicate share''"
| "share_disposition_message Low_Difficulty = ''Low difficulty share''"
| "share_disposition_message Invalid_Result = ''Invalid result''"
| "share_disposition_message Unknown_Job = ''Unknown job''"
| "share_disposition_message Server_Busy = ''Server busy''"
| "share_disposition_message Verifier_Failed = ''Server busy''"
| "share_disposition_message Cancelled = ''Server busy''"

definition error_reply :: "miner_request_id \<Rightarrow> int \<Rightarrow> string \<Rightarrow> json" where
  "error_reply rid code message =
     JObject [(''id'', id_json rid), (''jsonrpc'', JString ''2.0''),
       (''error'', JObject [(''code'', JInteger code), (''message'', JString message)]), (''result'', JNull)]"

definition status_reply :: "miner_request_id \<Rightarrow> string \<Rightarrow> json" where
  "status_reply rid status =
     JObject [(''id'', id_json rid), (''jsonrpc'', JString ''2.0''), (''error'', JNull),
       (''result'', JObject [(''status'', JString status)])]"

definition encoded_job :: "stratum_job \<Rightarrow> miner_connection \<Rightarrow> json" where
  "encoded_job job c =
     JObject [(''blob'', JString (job_blob job)), (''job_id'', JString (job_id job)),
       (''target'', JString (fst (wire_target job c))), (''algo'', JString ''rx/0''),
       (''height'', JUnsigned (job_height job)), (''seed_hash'', JString (job_seed_hash job))]"

definition login_reply :: "miner_request_id \<Rightarrow> stratum_job \<Rightarrow> miner_connection \<Rightarrow> json" where
  "login_reply rid job c =
     JObject [(''id'', id_json rid), (''jsonrpc'', JString ''2.0''), (''error'', JNull),
       (''result'', JObject [(''id'', JString (public_id c)), (''job'', encoded_job job c),
          (''extensions'', JArray [JString ''algo'', JString ''keepalive'']), (''status'', JString ''OK'')])]"

definition job_notification :: "stratum_job \<Rightarrow> miner_connection \<Rightarrow> json" where
  "job_notification job c =
     JObject [(''jsonrpc'', JString ''2.0''), (''method'', JString ''job''), (''params'', encoded_job job c)]"

section \<open>Identifiers are kept apart\<close>

lemma decimal_value_append: "decimal_value (xs @ [c]) = 10 * decimal_value xs + (of_char c - 48)"
  by (simp add: decimal_value_def)

lemma digit_char: "n < 10 \<Longrightarrow> of_char (char_of (48 + n) :: char) = (48 + n :: nat)"
  by (simp add: char_of_nat)

lemma decimal_nat_text: "decimal_value (nat_text n) = n"
proof (induction n rule: nat_text.induct)
  case (1 n)
  show ?case
  proof (cases "n < 10")
    case True
    then show ?thesis by (simp add: nat_text.simps [of n] decimal_value_def digit_char)
  next
    case False
    then show ?thesis using 1 by (simp add: nat_text.simps [of n] decimal_value_append digit_char)
  qed
qed

lemma nat_text_digits: "c \<in> set (nat_text n) \<Longrightarrow> 48 \<le> (of_char c :: nat)"
proof (induction n rule: nat_text.induct)
  case (1 n)
  then show ?case by (cases "n < 10") (auto simp: nat_text.simps [of n] digit_char)
qed

lemma nat_text_nonempty: "nat_text n \<noteq> []"
  by (subst nat_text.simps) simp

lemma int_text_inj: "int_text i = int_text j \<Longrightarrow> i = j"
proof -
  assume eq: "int_text i = int_text j"
  have sign: "nat_text n \<noteq> ''-'' @ xs" for n xs
    using nat_text_digits [of "CHR ''-''" n] by auto
  show ?thesis
  proof (cases "i < 0 \<longleftrightarrow> j < 0")
    case True
    then have "nat_text (nat \<bar>i\<bar>) = nat_text (nat \<bar>j\<bar>)" using eq by (auto simp: int_text_def split: if_splits)
    then have "nat \<bar>i\<bar> = nat \<bar>j\<bar>" by (metis decimal_nat_text)
    then show ?thesis using True by linarith
  next
    case False
    then show ?thesis using eq sign [of "nat i" "nat_text (nat (- j))"] sign [of "nat j" "nat_text (nat (- i))"]
      by (auto simp: int_text_def split: if_splits)
  qed
qed

section \<open>Compact targets\<close>

lemma unat_max32: "unat (0xffffffff :: u64) = 0xffffffff" by simp

lemma compact_target_Some:
  "compact_target d = Some t \<longleftrightarrow> d \<noteq> 0 \<and> unat d \<le> 0xffffffff \<and> unat t = 0xffffffff div unat d"
proof (cases "d = 0 \<or> d > 0xffffffff")
  case True
  then show ?thesis by (auto simp: compact_target_def word_less_nat_alt)
next
  case False
  then have d: "0 < unat d" "unat d \<le> 0xffffffff" by (auto simp: word_less_nat_alt unat_gt_0 not_less)
  let ?q = "0xffffffff div d :: u64"
  have q: "unat ?q = 0xffffffff div unat d" by (simp add: unat_div)
  have "0xffffffff div unat d < (2 ^ 32 :: nat)"
    by (rule le_less_trans [OF div_le_dividend]) simp
  then have u: "unat (ucast ?q :: u32) = 0xffffffff div unat d"
    by (simp add: unsigned_ucast_eq q take_bit_nat_eq_self)
  have pos: "0 < 0xffffffff div unat d" using d by (simp add: div_greater_zero_iff)
  then have nz: "ucast ?q \<noteq> (0 :: u32)" using u by (metis unat_0 less_irrefl)
  have "compact_target d = Some (ucast ?q)" using False nz by (simp add: compact_target_def Let_def)
  then show ?thesis using False d u by (auto simp: word_unat_eq_iff)
qed

lemma quantized:
  fixes M d :: nat
  assumes "0 < d" and "d \<le> M"
  shows "M div (M div (M div d)) = M div d" and "d \<le> M div (M div d)"
proof -
  let ?t = "M div d" and ?e = "M div (M div d)"
  have t: "0 < ?t" using assms by (simp add: div_greater_zero_iff)
  have "d * ?t \<le> M" by simp
  then show le: "d \<le> ?e" using t by (simp add: less_eq_div_iff_mult_less_eq)
  then have "M div ?e \<le> ?t" using assms(1) by (intro div_le_mono2)
  moreover have "?t * ?e \<le> M" by simp
  then have "?t \<le> M div ?e" using le assms(1) by (simp add: less_eq_div_iff_mult_less_eq)
  ultimately show "M div ?e = ?t" by simp
qed

lemma unat_max32_div: "unat (0xffffffff div (w :: u64)) = 0xffffffff div unat w"
  by (simp add: unat_div)

lemma compact_target_hex_encode: "compact_target_hex t = hex_encode (map (\<lambda>i. ucast (drop_bit (8 * i) t)) [0..<4])"
  by (simp add: compact_target_hex_def hex_encode_def hex_digits_of_def mult.commute [of _ 8] comp_def Let_def)

section \<open>The memory of jobs\<close>

definition memory_ok :: "job_memory \<Rightarrow> bool" where
  "memory_ok mem \<longleftrightarrow> map_ok (fst mem) \<and> distinct (snd mem) \<and> dom (map_of (fst mem)) = set (snd mem) \<and> length (snd mem) \<le> 64"

lemma evict_small: "length order \<le> 64 \<Longrightarrow> evict_jobs (m, order) = (m, order)"
  by (subst evict_jobs.simps) simp

lemma evict_one: "length order = 64 \<Longrightarrow> evict_jobs (m, k # order) = (map_erase k m, order)"
  by (subst evict_jobs.simps) (simp add: evict_small)

lemma remember_job_cases:
  assumes "memory_ok mem" and "network_difficulty job \<noteq> []"
  shows "remember_job job mem =
    (if job_id job \<in> set (snd mem) then (map_put (job_id job) (network_difficulty job) (fst mem), snd mem)
     else if length (snd mem) < 64 then (map_put (job_id job) (network_difficulty job) (fst mem), snd mem @ [job_id job])
     else (map_erase (hd (snd mem)) (map_put (job_id job) (network_difficulty job) (fst mem)), tl (snd mem) @ [job_id job]))"
proof -
  obtain m order where mem: "mem = (m, order)" by fastforce
  have o: "length order \<le> 64" "map_has m k \<longleftrightarrow> k \<in> set order" for k
    using assms(1) by (auto simp: memory_ok_def mem map_has_iff)
  show ?thesis
  proof (cases "job_id job \<in> set order \<or> length order < 64")
    case True
    then show ?thesis using assms(2) o by (auto simp: remember_job_def mem evict_small)
  next
    case False
    then have len: "length order = 64" using o(1) by simp
    then obtain k ks where ks: "order = k # ks" by (cases order) auto
    have "evict_jobs (map_put (job_id job) (network_difficulty job) m, (k # ks) @ [job_id job]) =
        (map_erase k (map_put (job_id job) (network_difficulty job) m), ks @ [job_id job])"
      using evict_one [of "ks @ [job_id job]"] len ks by simp
    then show ?thesis using False assms(2) o ks by (simp add: remember_job_def mem)
  qed
qed

lemma remember_job_ok:
  assumes "memory_ok mem" shows "memory_ok (remember_job job mem)"
proof (cases "network_difficulty job = []")
  case True
  then show ?thesis using assms by (simp add: remember_job_def)
next
  case False
  note c = remember_job_cases [OF assms False]
  show ?thesis
  proof (cases "job_id job \<in> set (snd mem) \<or> length (snd mem) < 64")
    case True
    then show ?thesis unfolding c using assms by (auto simp: memory_ok_def)
  next
    case full: False
    obtain k ks where ks: "snd mem = k # ks" using full assms by (cases "snd mem") (auto simp: memory_ok_def)
    then show ?thesis unfolding c using full assms by (auto simp: memory_ok_def)
  qed
qed

section \<open>Properties\<close>

text \<open>
  Two requests of a connection collide in the set of live identifiers exactly when they carry
  the same identifier: a number is never confused with a text, and distinct numbers have distinct
  keys.
\<close>

theorem id_key_injective: "id_key a = id_key b \<longleftrightarrow> a = b"
  using int_text_inj by (auto simp: id_key_def split: miner_request_id.splits)

text \<open>
  C40: an identifier above the largest signed 64 bit number is accepted and answered under another one. Every unsigned literal is
  read through \<open>is_number_integer\<close>, so the range check that follows it is never reached: whatever else the
  request contains, the identifier \<open>u\<close> becomes the negative number \<open>u - 2 ^ 64\<close>. Every reply to the request (an error,
  a status, a login) carries that negative number as its identifier, and the key under which the
  request is live is the key of a request that really uses the negative number.
\<close>

theorem oversized_id_wraps:
  assumes "jfind document ''id'' = Some (JUnsigned u)" and "2 ^ 63 \<le> unat u" and "i = int (unat u) - 2 ^ 64"
    and "jfind other ''id'' = Some (JInteger i)"
  shows "\<exists>rid. parse_id document = Some rid \<and> i < 0 \<and>
    jfind (error_reply rid code message) ''id'' = Some (JInteger i) \<and>
    jfind (status_reply rid status) ''id'' = Some (JInteger i) \<and>
    jfind (login_reply rid job c) ''id'' = Some (JInteger i) \<and>
    (\<exists>rid'. parse_id other = Some rid' \<and> id_key rid' = id_key rid)"
proof -
  have "unat u < 2 ^ 64" using unsigned_less [of u] by simp
  then have hi: "int (unat u) < 2 ^ 64" using of_nat_less_iff [of "unat u" "2 ^ 64", where 'a = int] by simp
  have lo: "2 ^ 63 \<le> int (unat u)" using assms(2) of_nat_le_iff [of "2 ^ 63" "unat u", where 'a = int] by simp
  have "(int (unat u) + 2 ^ 63) mod 2 ^ 64 = ((int (unat u) + 2 ^ 63 - 2 ^ 64) + 2 ^ 64) mod 2 ^ 64" by (simp add: add.commute)
  also have "\<dots> = (int (unat u) + 2 ^ 63 - 2 ^ 64) mod 2 ^ 64" by (rule mod_add_self2)
  also have "\<dots> = int (unat u) + 2 ^ 63 - 2 ^ 64" using hi lo by (intro mod_pos_pos_trivial) auto
  finally have wrapped: "sint u = i"
    by (simp add: assms(3) sint_uint signed_take_bit_eq_take_bit_shift take_bit_eq_mod)
  have rids: "parse_id document = Some (Number_Id i)" "parse_id other = Some (Number_Id i)"
    using assms(1,4) wrapped by (simp_all add: parse_id_def)
  have "i < 0" using assms(3) hi by simp
  moreover have "jfind (error_reply (Number_Id i) code message) ''id'' = Some (JInteger i)"
    "jfind (status_reply (Number_Id i) status) ''id'' = Some (JInteger i)"
    "jfind (login_reply (Number_Id i) job c) ''id'' = Some (JInteger i)"
    by (simp_all add: jfind_def error_reply_def status_reply_def login_reply_def id_json_def)
  ultimately show ?thesis using rids by blast
qed

theorem oversized_id_wraps_witness:
  "\<exists>rid. parse_id (JObject [(''method'', JString ''keepalived''), (''id'', JUnsigned 0xffffffffffffffff)]) = Some rid \<and>
    jfind (status_reply rid ''KEEPALIVED'') ''id'' = Some (JInteger (- 1)) \<and>
    jfind (error_reply rid (- 1) ''Unauthenticated'') ''id'' = Some (JInteger (- 1))"
  using oversized_id_wraps [of "JObject [(''method'', JString ''keepalived''), (''id'', JUnsigned 0xffffffffffffffff)]"
      "0xffffffffffffffff" "- 1" "JObject [(''id'', JInteger (- 1))]" "- 1" "''Unauthenticated''" "''KEEPALIVED''"]
  by (auto simp: jfind_def)

text \<open>
  A rental client works at exactly the difficulty it is credited for. The difficulty assigned
  to it is at least the one its login resulted in, its wire target is the little-endian spelling of
  the compact target of that assigned difficulty, and no higher difficulty has the same compact
  target.
\<close>

theorem nicehash_difficulty_exact:
  assumes "is_nicehash_agent (miner_agent c)" and "assign_difficulty (miner_agent c) difficulty = Some (assigned_difficulty c)"
  shows "difficulty \<le> assigned_difficulty c \<and>
    (\<exists>t. compact_target difficulty = Some t \<and> compact_target (assigned_difficulty c) = Some t \<and>
       wire_target job c = (hex_encode (map (\<lambda>i. ucast (drop_bit (8 * i) t)) [0..<4]), ''le32'') \<and>
       (\<forall>d. compact_target d = Some t \<longrightarrow> d \<le> assigned_difficulty c))"
proof -
  obtain t where t: "compact_target difficulty = Some t" and a: "assigned_difficulty c = 0xffffffff div ucast t"
    using assms by (auto simp: assign_difficulty_def split: option.splits)
  have d: "0 < unat difficulty" "unat difficulty \<le> 0xffffffff" "unat t = 0xffffffff div unat difficulty"
    using t by (auto simp: compact_target_Some unat_gt_0)
  have ua: "unat (assigned_difficulty c) = 0xffffffff div (0xffffffff div unat difficulty)"
    unfolding a by (simp add: unat_max32_div d(3))
  note q = quantized [OF d(1,2)]
  have le: "difficulty \<le> assigned_difficulty c" using q(2) by (simp add: word_le_nat_alt ua)
  have nz: "assigned_difficulty c \<noteq> 0"
  proof
    assume "assigned_difficulty c = 0"
    then show False using ua q(2) d(1) by simp
  qed
  have t': "compact_target (assigned_difficulty c) = Some t"
    unfolding compact_target_Some using q(1) d(3) nz by (simp add: ua)
  have "d' \<le> assigned_difficulty c" if "compact_target d' = Some t" for d'
  proof -
    have "unat t = 0xffffffff div unat d'" "0 < unat d'" "unat d' \<le> 0xffffffff" using that by (auto simp: compact_target_Some unat_gt_0)
    then show ?thesis using quantized(2) [of "unat d'" "0xffffffff"] d(3) by (simp add: word_le_nat_alt ua)
  qed
  then show ?thesis using le t t' assms(1) by (auto simp: wire_target_def compact_target_hex_encode)
qed

text \<open>
  A connection remembers the network difficulty of its latest jobs, at most 64 of them. In every
  state built by remembering jobs the order list and the map name the same jobs, a job just
  remembered is found with its own difficulty, and of the others only the oldest may be forgotten,
  and only when 64 are already kept.
\<close>

theorem remember_job_bounded:
  assumes "mem = fold remember_job jobs ([], [])" and "network_difficulty job \<noteq> []"
  shows "length (snd (remember_job job mem)) \<le> 64 \<and> distinct (snd (remember_job job mem)) \<and>
    dom (map_of (fst (remember_job job mem))) = set (snd (remember_job job mem)) \<and>
    map_of (fst (remember_job job mem)) (job_id job) = Some (network_difficulty job) \<and>
    (\<forall>k. k \<noteq> job_id job \<longrightarrow> map_of (fst (remember_job job mem)) k = map_of (fst mem) k \<or>
       length (snd mem) = 64 \<and> k = hd (snd mem) \<and> job_id job \<notin> set (snd mem))"
proof -
  have "memory_ok (fold remember_job js x)" if "memory_ok x" for js x
    using that by (induction js arbitrary: x) (auto simp: remember_job_ok)
  moreover have "memory_ok ([], [])" by (simp add: memory_ok_def)
  ultimately have ok: "memory_ok mem" using assms(1) by blast
  have ok': "memory_ok (remember_job job mem)" by (rule remember_job_ok [OF ok])
  show ?thesis
  proof (cases "job_id job \<in> set (snd mem) \<or> length (snd mem) < 64")
    case True
    then show ?thesis using ok' remember_job_cases [OF ok assms(2)] by (auto simp: memory_ok_def)
  next
    case False
    then have "length (snd mem) = 64" using ok by (simp add: memory_ok_def)
    moreover have "hd (snd mem) \<noteq> job_id job" using False by (cases "snd mem") auto
    ultimately show ?thesis using False ok' remember_job_cases [OF ok assms(2)] by (auto simp: memory_ok_def)
  qed
qed

end
