(* ===== verification/Stratum_Server.thy ===== *)
theory Stratum_Server
  imports Stratum_Wire "HOL-Library.Multiset"
begin

text \<open>
  The Stratum server of src/stratum/stratum.cpp as a state machine: admission of connections, the
  bounded output queue, the three request handlers, the two submit lanes with their workers, the
  delivery of results, job refresh, timeouts and shutdown. The event loop runs the handlers one
  after another; workers take from and append to the queues under their mutex, so a history is a
  sequence of these steps. What the outside answers (sockets, the JSON library, the defense engine,
  the job provider, the submit handler, clocks) comes in the arguments of a step. Observer callbacks
  have no influence on the state and are left out.
\<close>

section \<open>Configuration and state\<close>

record stratum_config =
  listen_endpoints :: "string list"
  access_password :: string
  max_connections :: nat
  max_connections_per_ip :: nat
  login_timeout_ms :: u32
  idle_timeout_ms :: u32
  max_line_bytes :: nat
  max_output_bytes :: nat
  max_json_depth :: nat
  difficulty_floor :: u64
  minimum_difficulty :: bool
  submit_workers :: nat
  candidate_submit_workers :: nat
  max_pending_submits :: nat
  candidate_submit_reserve :: nat
  max_pending_per_connection :: nat
  has_defense :: bool

definition clamp :: "nat \<Rightarrow> nat \<Rightarrow> nat \<Rightarrow> nat" where
  "clamp x low high = (if x < low then low else if high < x then high else x)"

definition normalize_config :: "stratum_config \<Rightarrow> stratum_config result" where
  "normalize_config cfg =
     (if listen_endpoints cfg = [] \<or> max_connections cfg = 0 \<or> max_connections_per_ip cfg = 0 \<or>
         max_line_bytes cfg < 1024 \<or> max_output_bytes cfg < 4096 \<or> difficulty_floor cfg = 0 \<or>
         max_pending_submits cfg = 0 \<or> max_pending_per_connection cfg = 0
      then Inl (InvalidArgument ''invalid Stratum server configuration'')
      else Inr (cfg\<lparr>submit_workers := clamp (submit_workers cfg) 1 256,
                    candidate_submit_workers := clamp (candidate_submit_workers cfg) 1 16,
                    candidate_submit_reserve := min (candidate_submit_reserve cfg) (max_pending_submits cfg),
                    max_pending_per_connection := min (max_pending_per_connection cfg) (max_pending_submits cfg)\<rparr>))"

record output_chunk =
  chunk_data :: string
  chunk_offset :: nat

record connection =
  descriptor :: int
  conn_info :: miner_connection
  authenticated :: bool
  closing :: bool
  close_after_flush :: bool
  close_after_flush_reason :: string
  uncreditable_work_results :: nat
  conn_input :: string
  conn_output :: "output_chunk list"
  output_bytes :: nat
  live_request_ids :: "string std_set"
  job_memory :: job_memory
  conn_pending :: nat
  latest_queued_height :: u64
  opened :: int
  last_activity :: int

record stratum_submission =
  sub_connection :: miner_connection
  sub_request_id :: miner_request_id
  sub_sequence :: u64
  sub_received :: int
  sub_job_id :: string
  sub_nonce :: bytes
  sub_claimed_hash :: bytes
  sub_claimed_hex :: string

record pending_submit =
  p_conn :: nat
  p_submission :: stratum_submission
  p_key :: string

record completed_submit =
  d_conn :: nat
  d_id :: miner_request_id
  d_key :: string
  d_disposition :: share_disposition
  d_code :: string

text \<open>
  Connection objects are named by numbers; \<open>connections\<close> is the table by descriptor
  (an unordered map in the code, whose iteration order is unspecified; here it iterates in ascending order). \<open>working\<close> holds
  what the worker threads have taken and not yet completed.
\<close>

record stratum_server =
  srv_running :: bool
  next_conn :: nat
  objects :: "(nat, connection) std_map"
  connections :: "(int, nat) std_map"
  peer_connections :: "(peer_address, nat) std_map"
  ordinary_lane :: "pending_submit list"
  candidate_lane :: "pending_submit list"
  working :: "pending_submit list"
  completed_submits :: "completed_submit list"
  evidence :: "(peer_address \<times> abuse_kind) list"

definition start_server :: stratum_server where
  "start_server = \<lparr>srv_running = True, next_conn = 0, objects = [], connections = [], peer_connections = [],
     ordinary_lane = [], candidate_lane = [], working = [], completed_submits = [], evidence = []\<rparr>"

definition conn :: "stratum_server \<Rightarrow> nat \<Rightarrow> connection option" where
  "conn s cid = map_of (objects s) cid"

definition upd :: "nat \<Rightarrow> (connection \<Rightarrow> connection) \<Rightarrow> stratum_server \<Rightarrow> stratum_server" where
  "upd cid f s = (case conn s cid of None \<Rightarrow> s | Some c \<Rightarrow> s\<lparr>objects := map_put cid (f c) (objects s)\<rparr>)"

section \<open>Closing and queueing\<close>

definition drop_peer :: "peer_address \<Rightarrow> (peer_address, nat) std_map \<Rightarrow> (peer_address, nat) std_map" where
  "drop_peer p m = (case map_of m p of None \<Rightarrow> m | Some n \<Rightarrow> if n - 1 = 0 then map_erase p m else map_put p (n - 1) m)"

definition close_connection :: "nat \<Rightarrow> stratum_server \<Rightarrow> stratum_server" where
  "close_connection cid s =
     (case conn s cid of None \<Rightarrow> s
      | Some c \<Rightarrow>
        if closing c then s
        else s\<lparr>objects := map_put cid (c\<lparr>closing := True, descriptor := - 1\<rparr>) (objects s),
               connections := map_erase (descriptor c) (connections s),
               peer_connections := drop_peer (miner_peer (conn_info c)) (peer_connections s)\<rparr>)"

text \<open>A frame in the output queue; the request identifier it answers becomes free.\<close>

definition push_frame :: "string \<Rightarrow> string option \<Rightarrow> u64 option \<Rightarrow> connection \<Rightarrow> connection" where
  "push_frame data release sent_height c =
     (let c = c\<lparr>output_bytes := output_bytes c + length data,
                conn_output := conn_output c @ [\<lparr>chunk_data = data, chunk_offset = 0\<rparr>]\<rparr>;
          c = (case release of None \<Rightarrow> c | Some key \<Rightarrow> c\<lparr>live_request_ids := set_erase key (live_request_ids c)\<rparr>) in
      case sent_height of None \<Rightarrow> c
      | Some h \<Rightarrow> c\<lparr>conn_info := (conn_info c)\<lparr>last_sent_height := h\<rparr>, latest_queued_height := h\<rparr>)"

definition queue_fits :: "stratum_config \<Rightarrow> connection \<Rightarrow> string \<Rightarrow> bool" where
  "queue_fits cfg c data \<longleftrightarrow> \<not> (closing c \<or> length data > max_output_bytes cfg \<or>
     output_bytes c > max_output_bytes cfg - length data)"

definition queue_frame ::
    "stratum_config \<Rightarrow> nat \<Rightarrow> string \<Rightarrow> string option \<Rightarrow> u64 option \<Rightarrow> stratum_server \<Rightarrow> bool \<times> stratum_server" where
  "queue_frame cfg cid data release sent_height s =
     (case conn s cid of None \<Rightarrow> (False, s)
      | Some c \<Rightarrow>
        if queue_fits cfg c data then (True, upd cid (push_frame data release sent_height) s)
        else (False, close_connection cid s))"

type_synonym printer = "json \<Rightarrow> string"

definition newline :: char where "newline = CHR 0x0A"

definition queue_error ::
    "stratum_config \<Rightarrow> printer \<Rightarrow> nat \<Rightarrow> miner_request_id \<Rightarrow> int \<Rightarrow> string \<Rightarrow> string option \<Rightarrow> stratum_server \<Rightarrow> stratum_server" where
  "queue_error cfg dump cid rid code message release s =
     snd (queue_frame cfg cid (dump (error_reply rid code message) @ [newline]) release None s)"

definition record_evidence :: "stratum_config \<Rightarrow> nat \<Rightarrow> abuse_kind \<Rightarrow> stratum_server \<Rightarrow> stratum_server" where
  "record_evidence cfg cid kind s =
     (case conn s cid of None \<Rightarrow> s
      | Some c \<Rightarrow> if has_defense cfg then s\<lparr>evidence := evidence s @ [(miner_peer (conn_info c), kind)]\<rparr> else s)"

text \<open>An exception that reaches the event loop stops the server.\<close>

definition report_event_loop_failure :: "stratum_server \<Rightarrow> stratum_server" where
  "report_event_loop_failure s = s\<lparr>srv_running := False\<rparr>"

section \<open>Requests\<close>

text \<open>What the outside answers while one line is processed; a job provider may throw.\<close>

datatype parse_event = Object_Start | Object_Key string | Object_End | Other_Event

record line_env =
  admits_request :: bool
  admits_submit :: bool
  parse_events :: "(int \<times> parse_event) list"
  parsed :: "json option"
  provided_job :: "stratum_job option result"
  job_persisted :: bool
  env_now :: int
  env_received :: int
  resolver :: "string option option"

text \<open>The parser callback: nesting depth, and repeated keys within one object.\<close>

fun scan_events :: "nat \<Rightarrow> (int \<times> parse_event) list \<Rightarrow> string std_set list \<Rightarrow> bool \<times> bool \<Rightarrow> bool \<times> bool" where
  "scan_events limit [] keys flags = flags"
| "scan_events limit ((depth, e) # es) keys (duplicate, deep) =
     (let deep = (deep \<or> depth < 0 \<or> nat depth > limit) in
      case e of
        Object_Start \<Rightarrow> scan_events limit es ([] # keys) (duplicate, deep)
      | Object_Key k \<Rightarrow>
          (case keys of [] \<Rightarrow> scan_events limit es keys (duplicate, deep)
           | here # rest \<Rightarrow> scan_events limit es (set_insert k here # rest) (duplicate \<or> k \<in> set here, deep))
      | Object_End \<Rightarrow> scan_events limit es (tl keys) (duplicate, deep)
      | Other_Event \<Rightarrow> scan_events limit es keys (duplicate, deep))"

definition algo_supported :: "json option \<Rightarrow> bool" where
  "algo_supported j =
     (case j of None \<Rightarrow> True
      | Some (JString a) \<Rightarrow> a = ''rx/0''
      | Some (JArray xs) \<Rightarrow> xs \<noteq> [] \<and> list_all is_string xs \<and> distinct xs \<and> JString ''rx/0'' \<in> set xs
      | Some _ \<Rightarrow> False)"

definition optional_string :: "json option \<Rightarrow> bool" where
  "optional_string j = (case j of None \<Rightarrow> True | Some v \<Rightarrow> is_string v)"

definition required_string :: "json option \<Rightarrow> bool" where
  "required_string j = (case j of None \<Rightarrow> False | Some v \<Rightarrow> is_string v)"

text \<open>The first two guards of \<open>handle_login\<close>, both answered \<open>Invalid login\<close>.\<close>

definition login_valid :: "json \<Rightarrow> bool" where
  "login_valid params \<longleftrightarrow>
     strict_keys params [''login'', ''pass'', ''agent'', ''rigid'', ''algo''] \<and>
     required_string (jfind params ''login'') \<and> required_string (jfind params ''pass'') \<and>
     optional_string (jfind params ''agent'') \<and> optional_string (jfind params ''rigid'') \<and>
     (let login = jstring (jfind params ''login''); pass = jstring (jfind params ''pass'');
          agent = jstring (jfind params ''agent''); rigid = jstring (jfind params ''rigid'') in
      login \<noteq> [] \<and> length login \<le> 256 \<and> length rigid \<le> 256 \<and> length agent \<le> 512 \<and>
      nul \<notin> set login \<and> nul \<notin> set rigid \<and> nul \<notin> set agent \<and> nul \<notin> set pass)"

text \<open>\<open>constant_equal\<close>: \<open>CRYPTO_memcmp\<close> compares as many bytes as the first string has.\<close>

definition constant_equal :: "string \<Rightarrow> string \<Rightarrow> bool" where
  "constant_equal first second =
     (if length first \<noteq> length second then False else take (length first) first = take (length first) second)"

definition set_info :: "(miner_connection \<Rightarrow> miner_connection) \<Rightarrow> connection \<Rightarrow> connection" where
  "set_info f c = c\<lparr>conn_info := f (conn_info c)\<rparr>"

text \<open>The reply to a login that has got a job.\<close>

definition send_login ::
    "stratum_config \<Rightarrow> printer \<Rightarrow> line_env \<Rightarrow> nat \<Rightarrow> stratum_job \<Rightarrow> miner_connection \<Rightarrow> miner_request_id \<Rightarrow> string \<Rightarrow>
     stratum_server \<Rightarrow> stratum_server" where
  "send_login cfg dump env cid job info rid key s =
     (let (queued, s) = queue_frame cfg cid (dump (login_reply rid job info) @ [newline]) (Some key) (Some (job_height job)) s in
      if \<not> queued then s
      else let s = upd cid (\<lambda>c. c\<lparr>job_memory := remember_job job (job_memory c)\<rparr>) s in
        if \<not> job_persisted env then close_connection cid s
        else upd cid (\<lambda>c. set_info (\<lambda>i. i\<lparr>last_sent_height := job_height job\<rparr>) (c\<lparr>authenticated := True\<rparr>)) s)"

definition finish_login ::
    "stratum_config \<Rightarrow> printer \<Rightarrow> line_env \<Rightarrow> nat \<Rightarrow> json \<Rightarrow> u64 \<Rightarrow> string \<Rightarrow> miner_request_id \<Rightarrow> string \<Rightarrow> stratum_server \<Rightarrow> stratum_server" where
  "finish_login cfg dump env cid params difficulty login rid key s =
     (let rigid = jstring (jfind params ''rigid''); agent = jstring (jfind params ''agent'');
          s = upd cid (set_info (\<lambda>i. i\<lparr>miner_login := login, miner_rigid := rigid, miner_agent := agent\<rparr>)) s in
      case assign_difficulty agent difficulty of
        None \<Rightarrow> queue_error cfg dump cid rid (- 1) ''NiceHash difficulty is not representable'' (Some key) s
      | Some d \<Rightarrow>
          let s = upd cid (set_info (\<lambda>i. i\<lparr>assigned_difficulty := d\<rparr>)) s in
          (case (provided_job env, conn s cid) of
             (Inl _, _) \<Rightarrow> report_event_loop_failure s
           | (Inr (Some job), Some c) \<Rightarrow> send_login cfg dump env cid job (conn_info c) rid key s
           | _ \<Rightarrow> queue_error cfg dump cid rid (- 1) ''Server busy'' (Some key) s))"

definition handle_login ::
    "stratum_config \<Rightarrow> printer \<Rightarrow> line_env \<Rightarrow> nat \<Rightarrow> connection \<Rightarrow> json \<Rightarrow> miner_request_id \<Rightarrow> string \<Rightarrow> stratum_server \<Rightarrow> stratum_server" where
  "handle_login cfg dump env cid c params rid key s =
     (if authenticated c then queue_error cfg dump cid rid (- 1) ''Already authenticated'' (Some key) s
      else if \<not> login_valid params then queue_error cfg dump cid rid (- 1) ''Invalid login'' (Some key) s
      else if access_password cfg \<noteq> [] \<and> \<not> constant_equal (jstring (jfind params ''pass'')) (access_password cfg)
      then record_evidence cfg cid Authentication_Failure
             (queue_error cfg dump cid rid (- 1) ''Unauthenticated'' (Some key) s)
      else if \<not> algo_supported (jfind params ''algo'')
      then queue_error cfg dump cid rid (- 1) ''Unsupported algorithm'' (Some key) s
      else case login_difficulty (difficulty_floor cfg) (minimum_difficulty cfg) (jstring (jfind params ''login'')) of
        None \<Rightarrow> queue_error cfg dump cid rid (- 1) ''Invalid login'' (Some key) s
      | Some (difficulty, login) \<Rightarrow> finish_login cfg dump env cid params difficulty login rid key s)"

definition submit_valid :: "connection \<Rightarrow> json \<Rightarrow> bool" where
  "submit_valid c params \<longleftrightarrow>
     strict_keys params [''id'', ''job_id'', ''nonce'', ''result'', ''algo''] \<and>
     jfind params ''id'' = Some (JString (public_id (conn_info c))) \<and>
     required_string (jfind params ''job_id'') \<and> required_string (jfind params ''nonce'') \<and>
     required_string (jfind params ''result'') \<and>
     (jfind params ''algo'' = None \<or> jfind params ''algo'' = Some (JString ''rx/0''))"

text \<open>The submission itself, when its three fields decode.\<close>

definition decode_submission :: "line_env \<Rightarrow> connection \<Rightarrow> json \<Rightarrow> miner_request_id \<Rightarrow> stratum_submission option" where
  "decode_submission env c params rid =
     (let job = normalize_hex (jstring (jfind params ''job_id''));
          nonce = decode_hex 4 (jstring (jfind params ''nonce''));
          claimed = decode_hex 32 (jstring (jfind params ''result'')) in
      case (decode_hex 16 job, nonce, claimed) of
        (Some _, Some n, Some h) \<Rightarrow>
          Some \<lparr>sub_connection = conn_info c, sub_request_id = rid, sub_sequence = 0, sub_received = env_received env,
                sub_job_id = job, sub_nonce = n, sub_claimed_hash = h,
                sub_claimed_hex = normalize_hex (jstring (jfind params ''result''))\<rparr>
      | _ \<Rightarrow> None)"

text \<open>The network difficulty of the job: from the resolver if there is one, else from memory.\<close>

definition admitted_difficulty :: "line_env \<Rightarrow> connection \<Rightarrow> string \<Rightarrow> string option" where
  "admitted_difficulty env c job =
     (case resolver env of
        Some answer \<Rightarrow> answer
      | None \<Rightarrow> Some (case map_of (fst (job_memory c)) job of None \<Rightarrow> [] | Some d \<Rightarrow> d))"

definition claimed_candidate :: "bytes \<Rightarrow> string \<Rightarrow> bool result" where
  "claimed_candidate hash difficulty = (if difficulty = [] then Inr False else meets_network_target hash difficulty)"

definition lane_full :: "stratum_config \<Rightarrow> connection \<Rightarrow> bool \<Rightarrow> stratum_server \<Rightarrow> bool" where
  "lane_full cfg c candidate s \<longleftrightarrow>
     conn_pending c \<ge> max_pending_per_connection cfg \<or>
     length (ordinary_lane s) + length (candidate_lane s) \<ge> max_pending_submits cfg \<or>
     (\<not> candidate \<and> length (ordinary_lane s) \<ge> max_pending_submits cfg - candidate_submit_reserve cfg)"

definition enqueue_submit :: "nat \<Rightarrow> connection \<Rightarrow> bool \<Rightarrow> stratum_submission \<Rightarrow> string \<Rightarrow> stratum_server \<Rightarrow> stratum_server" where
  "enqueue_submit cid c candidate sub key s =
     (let q = request_sequence (conn_info c) + 1;
          p = \<lparr>p_conn = cid, p_submission = sub\<lparr>sub_sequence := q\<rparr>, p_key = key\<rparr>;
          s = upd cid (\<lambda>c. set_info (\<lambda>i. i\<lparr>request_sequence := q\<rparr>) (c\<lparr>conn_pending := conn_pending c + 1\<rparr>)) s in
      if candidate then s\<lparr>candidate_lane := candidate_lane s @ [p]\<rparr> else s\<lparr>ordinary_lane := ordinary_lane s @ [p]\<rparr>)"

definition admit_submission ::
    "stratum_config \<Rightarrow> printer \<Rightarrow> line_env \<Rightarrow> nat \<Rightarrow> connection \<Rightarrow> stratum_submission \<Rightarrow> miner_request_id \<Rightarrow> string \<Rightarrow>
     stratum_server \<Rightarrow> stratum_server" where
  "admit_submission cfg dump env cid c sub rid key s =
     (case admitted_difficulty env c (sub_job_id sub) of
        None \<Rightarrow> queue_error cfg dump cid rid (- 1) ''Server busy'' (Some key) s
      | Some difficulty \<Rightarrow>
          (case claimed_candidate (sub_claimed_hash sub) difficulty of
             Inl _ \<Rightarrow> report_event_loop_failure s
           | Inr candidate \<Rightarrow>
               if \<not> srv_running s then s
               else if lane_full cfg c candidate s
               then queue_error cfg dump cid rid (- 1) ''Server busy'' (Some key) s
               else enqueue_submit cid c candidate sub key s))"

definition handle_submit ::
    "stratum_config \<Rightarrow> printer \<Rightarrow> line_env \<Rightarrow> nat \<Rightarrow> connection \<Rightarrow> json \<Rightarrow> miner_request_id \<Rightarrow> string \<Rightarrow> stratum_server \<Rightarrow> stratum_server" where
  "handle_submit cfg dump env cid c params rid key s =
     (if \<not> srv_running s then s
      else if has_defense cfg \<and> \<not> admits_submit env
      then queue_error cfg dump cid rid (- 1) ''Server busy'' (Some key) s
      else if \<not> submit_valid c params then queue_error cfg dump cid rid (- 1) ''Invalid result'' (Some key) s
      else case decode_submission env c params rid of
        None \<Rightarrow> queue_error cfg dump cid rid (- 1) ''Invalid result'' (Some key) s
      | Some sub \<Rightarrow> admit_submission cfg dump env cid c sub rid key s)"

definition handle_keepalive ::
    "stratum_config \<Rightarrow> printer \<Rightarrow> line_env \<Rightarrow> nat \<Rightarrow> connection \<Rightarrow> json \<Rightarrow> miner_request_id \<Rightarrow> string \<Rightarrow> stratum_server \<Rightarrow> stratum_server" where
  "handle_keepalive cfg dump env cid c params rid key s =
     (if \<not> (strict_keys params [''id''] \<and> jfind params ''id'' = Some (JString (public_id (conn_info c))))
      then queue_error cfg dump cid rid (- 1) ''Unauthenticated'' (Some key) s
      else upd cid (\<lambda>c. c\<lparr>last_activity := env_now env\<rparr>)
             (snd (queue_frame cfg cid (dump (status_reply rid ''KEEPALIVED'') @ [newline]) (Some key) None s)))"

definition dispatch ::
    "stratum_config \<Rightarrow> printer \<Rightarrow> line_env \<Rightarrow> nat \<Rightarrow> connection \<Rightarrow> string \<Rightarrow> json \<Rightarrow> miner_request_id \<Rightarrow> string \<Rightarrow> stratum_server \<Rightarrow> stratum_server" where
  "dispatch cfg dump env cid c name params rid key s =
     (if \<not> authenticated c \<and> name \<noteq> ''login''
      then record_evidence cfg cid Malformed (queue_error cfg dump cid rid (- 1) ''Unauthenticated'' (Some key) s)
      else if name = ''login'' then handle_login cfg dump env cid c params rid key s
      else if name = ''submit'' then handle_submit cfg dump env cid c params rid key s
      else if name = ''keepalived'' then handle_keepalive cfg dump env cid c params rid key s
      else record_evidence cfg cid Malformed (queue_error cfg dump cid rid (- 32601) ''Method not found'' (Some key) s))"

text \<open>A document that is an object with an identifier.\<close>

definition process_request ::
    "stratum_config \<Rightarrow> printer \<Rightarrow> line_env \<Rightarrow> nat \<Rightarrow> connection \<Rightarrow> json \<Rightarrow> miner_request_id \<Rightarrow> stratum_server \<Rightarrow> stratum_server" where
  "process_request cfg dump env cid c document rid s =
     (if (case jfind document ''jsonrpc'' of None \<Rightarrow> False | Some v \<Rightarrow> v \<noteq> JString ''2.0'')
      then queue_error cfg dump cid rid (- 32600) ''Invalid Request'' None s
      else case (jfind document ''method'', jfind document ''params'') of
        (Some (JString name), Some params) \<Rightarrow>
          if \<not> is_object params then queue_error cfg dump cid rid (- 32600) ''Invalid Request'' None s
          else if id_key rid \<in> set (live_request_ids c)
          then queue_error cfg dump cid rid (- 1) ''Server busy'' None s
          else let s = upd cid (\<lambda>c. c\<lparr>live_request_ids := set_insert (id_key rid) (live_request_ids c)\<rparr>) s in
            dispatch cfg dump env cid c name params rid (id_key rid) s
      | _ \<Rightarrow> queue_error cfg dump cid rid (- 32600) ''Invalid Request'' None s)"

definition process_line ::
    "stratum_config \<Rightarrow> printer \<Rightarrow> line_env \<Rightarrow> nat \<Rightarrow> string \<Rightarrow> stratum_server \<Rightarrow> stratum_server" where
  "process_line cfg dump env cid line s =
     (case conn s cid of None \<Rightarrow> s
      | Some c \<Rightarrow>
        if line = [] \<or> nul \<in> set line then close_connection cid (record_evidence cfg cid Malformed s)
        else if has_defense cfg \<and> \<not> admits_request env then close_connection cid s
        else let (duplicate, deep) = scan_events (max_json_depth cfg) (parse_events env) [] (False, False) in
          (case parsed env of None \<Rightarrow> close_connection cid (record_evidence cfg cid Malformed s)
           | Some document \<Rightarrow>
               (case parse_id document of None \<Rightarrow> close_connection cid (record_evidence cfg cid Malformed s)
                | Some rid \<Rightarrow>
                    if duplicate \<or> deep \<or> \<not> is_object document
                    then close_connection cid (record_evidence cfg cid Malformed s)
                    else process_request cfg dump env cid c document rid s)))"

section \<open>Sockets\<close>

text \<open>
  One accepted socket whose peer address could be read; \<open>admitted\<close> is the answer of the defense
  engine and \<open>observed\<close> whether the observer took the connection.
\<close>

definition new_connection :: "int \<Rightarrow> string \<Rightarrow> peer_address \<Rightarrow> nat \<Rightarrow> string \<Rightarrow> int \<Rightarrow> connection" where
  "new_connection fd pid peer port endpoint now =
     \<lparr>descriptor = fd,
      conn_info = \<lparr>public_id = pid, miner_peer = peer, peer_port = port, listen_address = endpoint, miner_login = [],
        miner_rigid = [], miner_agent = [], assigned_difficulty = 0, last_sent_height = 0, request_sequence = 0\<rparr>,
      authenticated = False, closing = False, close_after_flush = False, close_after_flush_reason = [],
      uncreditable_work_results = 0, conn_input = [], conn_output = [], output_bytes = 0, live_request_ids = [],
      job_memory = ([], []), conn_pending = 0, latest_queued_height = 0, opened = now, last_activity = now\<rparr>"

definition peer_count :: "stratum_server \<Rightarrow> peer_address \<Rightarrow> nat" where
  "peer_count s p = (case map_of (peer_connections s) p of None \<Rightarrow> 0 | Some n \<Rightarrow> n)"

definition add_connection :: "connection \<Rightarrow> stratum_server \<Rightarrow> stratum_server" where
  "add_connection c s =
     s\<lparr>next_conn := next_conn s + 1, objects := map_put (next_conn s) c (objects s),
       connections := (if map_has (connections s) (descriptor c) then connections s
                       else map_put (descriptor c) (next_conn s) (connections s)),
       peer_connections := map_put (miner_peer (conn_info c)) (peer_count s (miner_peer (conn_info c)) + 1) (peer_connections s)\<rparr>"

definition accept_connection ::
    "stratum_config \<Rightarrow> bool \<Rightarrow> bool \<Rightarrow> int \<Rightarrow> string \<Rightarrow> peer_address \<Rightarrow> nat \<Rightarrow> string \<Rightarrow> int \<Rightarrow> stratum_server \<Rightarrow> stratum_server" where
  "accept_connection cfg admitted observed fd pid peer port endpoint now s =
     (let capped = (length (connections s) \<ge> max_connections cfg \<or>
            (map_has (peer_connections s) peer \<and> peer_count s peer \<ge> max_connections_per_ip cfg));
          rate_limited = (access_password cfg = [] \<and> has_defense cfg \<and> \<not> admitted) in
      if capped \<or> rate_limited then s
      else let cid = next_conn s; s = add_connection (new_connection fd pid peer port endpoint now) s in
        if observed then s else close_connection cid s)"

text \<open>
  The lines of the input buffer; each iteration takes one line off, so their number bounds the loop.
  An exception out of a line leaves the loop, which is what the test of \<open>srv_running\<close> stands for.
\<close>

definition strip_return :: "string \<Rightarrow> string" where
  "strip_return line = (if line \<noteq> [] \<and> last line = CHR 0x0D then butlast line else line)"

definition oversized :: "stratum_config \<Rightarrow> nat \<Rightarrow> stratum_server \<Rightarrow> stratum_server" where
  "oversized cfg cid s = close_connection cid (record_evidence cfg cid Oversized_Line s)"

primrec read_lines ::
    "stratum_config \<Rightarrow> printer \<Rightarrow> nat \<Rightarrow> (nat \<Rightarrow> line_env) \<Rightarrow> nat \<Rightarrow> stratum_server \<Rightarrow> stratum_server" where
  "read_lines cfg dump cid envs 0 s = s"
| "read_lines cfg dump cid envs (Suc left) s =
     (case conn s cid of None \<Rightarrow> s
      | Some c \<Rightarrow>
        if newline \<notin> set (conn_input c) then s
        else let line = takeWhile (\<lambda>x. x \<noteq> newline) (conn_input c) in
        if length line > max_line_bytes cfg then oversized cfg cid s
        else let s = upd cid (\<lambda>c. c\<lparr>conn_input := drop (length line + 1) (conn_input c)\<rparr>) s;
                 s = process_line cfg dump (envs left) cid (strip_return line) s in
          (case conn s cid of None \<Rightarrow> s
           | Some c \<Rightarrow> if closing c \<or> \<not> srv_running s then s else read_lines cfg dump cid envs left s))"

definition receive_bytes ::
    "stratum_config \<Rightarrow> printer \<Rightarrow> (nat \<Rightarrow> line_env) \<Rightarrow> int \<Rightarrow> nat \<Rightarrow> string \<Rightarrow> stratum_server \<Rightarrow> stratum_server" where
  "receive_bytes cfg dump envs now cid data s =
     (let s = upd cid (\<lambda>c. c\<lparr>last_activity := now, conn_input := conn_input c @ data\<rparr>) s in
      case conn s cid of None \<Rightarrow> s
      | Some c \<Rightarrow>
        if length (conn_input c) > max_line_bytes cfg \<and> newline \<notin> set (conn_input c) then oversized cfg cid s
        else read_lines cfg dump cid envs (length (filter (\<lambda>x. x = newline) (conn_input c))) s)"

text \<open>The outcome of one \<open>recv\<close>: some bytes (at least one), nothing for now, or the end.\<close>

datatype read_result = Received "nat \<Rightarrow> line_env" int string | Read_Blocked | Peer_Closed

fun read_ready :: "stratum_config \<Rightarrow> printer \<Rightarrow> nat \<Rightarrow> read_result list \<Rightarrow> stratum_server \<Rightarrow> stratum_server" where
  "read_ready cfg dump cid [] s = s"
| "read_ready cfg dump cid (Received envs now data # rs) s =
     (let s = receive_bytes cfg dump envs now cid data s in
      case conn s cid of None \<Rightarrow> s
      | Some c \<Rightarrow> if closing c \<or> \<not> srv_running s then s else read_ready cfg dump cid rs s)"
| "read_ready cfg dump cid (Read_Blocked # rs) s = s"
| "read_ready cfg dump cid (Peer_Closed # rs) s = close_connection cid s"

text \<open>\<open>send\<close> takes at most what it is given; zero bytes count as a failure.\<close>

datatype send_result = Sent nat | Send_Blocked | Send_Failed

definition advance_output :: "nat \<Rightarrow> connection \<Rightarrow> connection" where
  "advance_output n c =
     (case conn_output c of [] \<Rightarrow> c
      | ch # rest \<Rightarrow>
        let amount = min n (length (chunk_data ch) - chunk_offset ch);
            ch' = ch\<lparr>chunk_offset := chunk_offset ch + amount\<rparr> in
        c\<lparr>output_bytes := output_bytes c - amount,
          conn_output := (if chunk_offset ch' = length (chunk_data ch') then rest else ch' # rest)\<rparr>)"

fun write_ready :: "nat \<Rightarrow> send_result list \<Rightarrow> stratum_server \<Rightarrow> stratum_server" where
  "write_ready cid rs s =
     (case conn s cid of None \<Rightarrow> s
      | Some c \<Rightarrow>
        if conn_output c = [] then (if close_after_flush c then close_connection cid s else s)
        else (case rs of [] \<Rightarrow> s
              | Sent n # rs' \<Rightarrow> if n = 0 then close_connection cid s else write_ready cid rs' (upd cid (advance_output n) s)
              | Send_Blocked # _ \<Rightarrow> s
              | Send_Failed # _ \<Rightarrow> close_connection cid s))"

declare write_ready.simps [simp del]

section \<open>Workers and results\<close>

definition take_submit :: "bool \<Rightarrow> stratum_server \<Rightarrow> stratum_server" where
  "take_submit candidate s =
     (if candidate
      then (case candidate_lane s of [] \<Rightarrow> s | p # ps \<Rightarrow> s\<lparr>candidate_lane := ps, working := working s @ [p]\<rparr>)
      else (case ordinary_lane s of [] \<Rightarrow> s | p # ps \<Rightarrow> s\<lparr>ordinary_lane := ps, working := working s @ [p]\<rparr>))"

text \<open>The worker that took entry \<open>i\<close> has an answer; a handler that throws answers \<open>Verifier_Failed\<close>.\<close>

definition finish_submit :: "nat \<Rightarrow> (share_disposition \<times> string) option \<Rightarrow> stratum_server \<Rightarrow> stratum_server" where
  "finish_submit i answer s =
     (if i < length (working s)
      then let p = working s ! i;
               (disposition, code) = (case answer of None \<Rightarrow> (Verifier_Failed, ''submit_handler_failed'') | Some a \<Rightarrow> a) in
        s\<lparr>working := take i (working s) @ drop (Suc i) (working s),
          completed_submits := completed_submits s @ [\<lparr>d_conn = p_conn p, d_id = sub_request_id (p_submission p),
            d_key = p_key p, d_disposition = disposition, d_code = code\<rparr>]\<rparr>
      else s)"

definition flush_reason :: "completed_submit \<Rightarrow> connection \<Rightarrow> connection" where
  "flush_reason d c =
     (let counted = (d_disposition d = Low_Difficulty \<or> d_disposition d = Stale);
          c = (if counted then c\<lparr>uncreditable_work_results := uncreditable_work_results c + 1\<rparr> else c);
          repeated = (counted \<and> uncreditable_work_results c \<ge> 64);
          full = (d_code d = ''duplicate_registry_full'') in
      if (repeated \<or> full) \<and> \<not> closing c
      then c\<lparr>close_after_flush := True,
             close_after_flush_reason := (if full then ''duplicate registry capacity'' else ''repeated uncreditable work'')\<rparr>
      else c)"

definition deliver_result :: "stratum_config \<Rightarrow> printer \<Rightarrow> completed_submit \<Rightarrow> stratum_server \<Rightarrow> stratum_server" where
  "deliver_result cfg dump d s =
     (case conn s (d_conn d) of None \<Rightarrow> s
      | Some c \<Rightarrow>
        if closing c then s
        else let cid = d_conn d;
                 s = upd cid (\<lambda>c. if conn_pending c \<noteq> 0 then c\<lparr>conn_pending := conn_pending c - 1\<rparr> else c) s in
          if d_disposition d = Accepted
          then snd (queue_frame cfg cid (dump (status_reply (d_id d) ''OK'') @ [newline]) (Some (d_key d)) None s)
          else let s = queue_error cfg dump cid (d_id d) (- 1) (share_disposition_message (d_disposition d)) (Some (d_key d)) s;
                   s = upd cid (flush_reason d) s;
                   s = (if d_disposition d = Duplicate_Share then record_evidence cfg cid abuse_kind.Duplicate_Share s else s) in
            (if d_disposition d = Unknown_Job then record_evidence cfg cid abuse_kind.Unknown_Job s else s))"

definition drain_submit_results :: "stratum_config \<Rightarrow> printer \<Rightarrow> stratum_server \<Rightarrow> stratum_server" where
  "drain_submit_results cfg dump s =
     fold (deliver_result cfg dump) (completed_submits s) (s\<lparr>completed_submits := []\<rparr>)"

section \<open>Jobs, timeouts and shutdown\<close>

text \<open>The provider's answer for a connection, and whether persisting the job succeeded.\<close>

definition refresh_one :: "stratum_config \<Rightarrow> printer \<Rightarrow> (nat \<Rightarrow> stratum_job option result \<times> bool) \<Rightarrow> nat \<Rightarrow> stratum_server \<Rightarrow> stratum_server" where
  "refresh_one cfg dump provider cid s =
     (case conn s cid of None \<Rightarrow> s
      | Some c \<Rightarrow>
        if \<not> srv_running s \<or> \<not> authenticated c \<or> closing c then s
        else (case provider cid of
            (Inl _, _) \<Rightarrow> report_event_loop_failure s
          | (Inr None, _) \<Rightarrow> close_connection cid s
          | (Inr (Some job), persisted) \<Rightarrow>
              let (queued, s) = queue_frame cfg cid (dump (job_notification job (conn_info c)) @ [newline]) None (Some (job_height job)) s in
              if \<not> queued then s
              else let s = upd cid (\<lambda>c. c\<lparr>job_memory := remember_job job (job_memory c)\<rparr>) s in
                if persisted then s else close_connection cid s))"

definition refresh_jobs_now :: "stratum_config \<Rightarrow> printer \<Rightarrow> (nat \<Rightarrow> stratum_job option result \<times> bool) \<Rightarrow> stratum_server \<Rightarrow> stratum_server" where
  "refresh_jobs_now cfg dump provider s = fold (refresh_one cfg dump provider) (map snd (connections s)) s"

definition expired :: "stratum_config \<Rightarrow> int \<Rightarrow> (peer_address \<Rightarrow> bool) \<Rightarrow> connection \<Rightarrow> bool" where
  "expired cfg now is_banned c \<longleftrightarrow>
     (has_defense cfg \<and> is_banned (miner_peer (conn_info c))) \<or>
     (let limit = (if authenticated c then idle_timeout_ms cfg else login_timeout_ms cfg);
          since = (if authenticated c then last_activity c else opened c) in
      now - since \<ge> int (unat limit) * 1000000)"

definition close_expired :: "stratum_config \<Rightarrow> int \<Rightarrow> (peer_address \<Rightarrow> bool) \<Rightarrow> stratum_server \<Rightarrow> stratum_server" where
  "close_expired cfg now is_banned s =
     fold close_connection
       (filter (\<lambda>cid. case conn s cid of None \<Rightarrow> False | Some c \<Rightarrow> expired cfg now is_banned c) (map snd (connections s))) s"

text \<open>
  What the event loop does with one polled connection. A connection that is already closing has no
  descriptor: \<open>recv\<close> fails on it and closing it again changes nothing.
\<close>

record poll_event =
  pe_conn :: nat
  pe_error :: bool
  pe_read :: "read_result list option"
  pe_write :: "send_result list option"

definition serve_event :: "stratum_config \<Rightarrow> printer \<Rightarrow> poll_event \<Rightarrow> stratum_server \<Rightarrow> stratum_server" where
  "serve_event cfg dump e s =
     (case conn s (pe_conn e) of None \<Rightarrow> s
      | Some c \<Rightarrow>
        if closing c then s
        else if pe_error e then close_connection (pe_conn e) s
        else let s = (case pe_read e of None \<Rightarrow> s | Some rs \<Rightarrow> read_ready cfg dump (pe_conn e) rs s) in
          (case (pe_write e, conn s (pe_conn e)) of
             (Some rs, Some c) \<Rightarrow> if closing c \<or> \<not> srv_running s then s else write_ready (pe_conn e) rs s
           | _ \<Rightarrow> s))"

definition stop_server :: "stratum_server \<Rightarrow> stratum_server" where
  "stop_server s =
     s\<lparr>srv_running := False, ordinary_lane := [], candidate_lane := [], working := [], completed_submits := [],
       objects := map (\<lambda>(cid, c). (cid, if cid \<in> set (map snd (connections s)) then c\<lparr>closing := True, descriptor := - 1\<rparr> else c)) (objects s),
       connections := [], peer_connections := []\<rparr>"

section \<open>Histories\<close>

text \<open>
  The steps of the event loop are taken while the server runs; workers go on until their lane is
  empty. \<open>accept4\<close> returns a descriptor that is not open.
\<close>

inductive server_step :: "stratum_config \<Rightarrow> printer \<Rightarrow> stratum_server \<Rightarrow> stratum_server \<Rightarrow> bool" for cfg dump where
  step_accept: "srv_running s \<Longrightarrow> map_of (connections s) fd = None \<Longrightarrow>
    server_step cfg dump s (accept_connection cfg admitted observed fd pid peer port endpoint now s)"
| step_serve: "srv_running s \<Longrightarrow> server_step cfg dump s (serve_event cfg dump e s)"
| step_drain: "srv_running s \<Longrightarrow> server_step cfg dump s (drain_submit_results cfg dump s)"
| step_refresh: "srv_running s \<Longrightarrow> server_step cfg dump s (refresh_jobs_now cfg dump provider s)"
| step_expire: "srv_running s \<Longrightarrow> server_step cfg dump s (close_expired cfg now is_banned s)"
| step_take: "server_step cfg dump s (take_submit candidate s)"
| step_finish: "server_step cfg dump s (finish_submit i answer s)"
| step_stop: "server_step cfg dump s (stop_server s)"

inductive server_reach :: "stratum_config \<Rightarrow> printer \<Rightarrow> stratum_server \<Rightarrow> bool" for cfg dump where
  reach_start: "server_reach cfg dump start_server"
| reach_step: "server_reach cfg dump s \<Longrightarrow> server_step cfg dump s s' \<Longrightarrow> server_reach cfg dump s'"

inductive_cases server_stepE: "server_step cfg dump s s'"

section \<open>Invariants\<close>

text \<open>The open connections of a peer, and what the tables say about them.\<close>

definition open_of :: "stratum_server \<Rightarrow> peer_address \<Rightarrow> nat set" where
  "open_of s p = {cid. \<exists>c. conn s cid = Some c \<and> \<not> closing c \<and> miner_peer (conn_info c) = p}"

definition tables_ok :: "stratum_config \<Rightarrow> stratum_server \<Rightarrow> bool" where
  "tables_ok cfg s \<longleftrightarrow>
     map_ok (objects s) \<and> map_ok (connections s) \<and> map_ok (peer_connections s) \<and>
     (\<forall>cid c. conn s cid = Some c \<longrightarrow> cid < next_conn s) \<and>
     (\<forall>fd cid. map_of (connections s) fd = Some cid \<longleftrightarrow> (\<exists>c. conn s cid = Some c \<and> \<not> closing c \<and> descriptor c = fd)) \<and>
     (\<forall>p. peer_count s p = card (open_of s p)) \<and> (\<forall>p. map_of (peer_connections s) p \<noteq> Some 0) \<and>
     length (connections s) \<le> max_connections cfg \<and> (\<forall>p. card (open_of s p) \<le> max_connections_per_ip cfg)"

definition chunk_left :: "output_chunk \<Rightarrow> nat" where
  "chunk_left ch = length (chunk_data ch) - chunk_offset ch"

definition conn_good :: "stratum_config \<Rightarrow> connection \<Rightarrow> bool" where
  "conn_good cfg c \<longleftrightarrow>
     output_bytes c = sum_list (map chunk_left (conn_output c)) \<and> output_bytes c \<le> max_output_bytes cfg \<and>
     memory_ok (job_memory c)"

text \<open>The requests in flight, each with its connection and its key.\<close>

definition flight :: "stratum_server \<Rightarrow> (nat \<times> string) list" where
  "flight s = map (\<lambda>p. (p_conn p, p_key p)) (ordinary_lane s @ candidate_lane s @ working s) @
     map (\<lambda>d. (d_conn d, d_key d)) (completed_submits s)"

definition keys_of :: "(nat \<times> string) list \<Rightarrow> nat \<Rightarrow> string list" where
  "keys_of fl cid = map snd (filter (\<lambda>x. fst x = cid) fl)"

definition conn_flight :: "stratum_config \<Rightarrow> string list \<Rightarrow> connection \<Rightarrow> bool" where
  "conn_flight cfg ks c \<longleftrightarrow>
     conn_pending c = length ks \<and> distinct ks \<and> set ks \<subseteq> set (live_request_ids c) \<and>
     conn_pending c \<le> max_pending_per_connection cfg"

definition server_inv :: "stratum_config \<Rightarrow> (nat \<times> string) list \<Rightarrow> stratum_server \<Rightarrow> bool" where
  "server_inv cfg fl s \<longleftrightarrow> tables_ok cfg s \<and>
     (\<forall>cid c. conn s cid = Some c \<longrightarrow> conn_good cfg c \<and> (\<not> closing c \<longrightarrow> conn_flight cfg (keys_of fl cid) c)) \<and>
     (\<forall>x \<in> set fl. fst x < next_conn s)"

text \<open>The bounds of the two lanes: ordinary work never enters the reserve of the candidates.\<close>

definition lanes_ok :: "stratum_config \<Rightarrow> stratum_server \<Rightarrow> bool" where
  "lanes_ok cfg s \<longleftrightarrow>
     length (ordinary_lane s) + length (candidate_lane s) \<le> max_pending_submits cfg \<and>
     length (ordinary_lane s) \<le> max_pending_submits cfg - candidate_submit_reserve cfg"

definition lanes :: "stratum_server \<Rightarrow> pending_submit list \<times> pending_submit list \<times> pending_submit list \<times> completed_submit list" where
  "lanes s = (ordinary_lane s, candidate_lane s, working s, completed_submits s)"

lemma lanes_flight: "lanes s = lanes s' \<Longrightarrow> flight s = flight s'"
  by (simp add: lanes_def flight_def)

lemma lanes_lanes_ok: "lanes s = lanes s' \<Longrightarrow> lanes_ok cfg s = lanes_ok cfg s'"
  by (simp add: lanes_def lanes_ok_def)

lemma server_invD:
  assumes "server_inv cfg fl s"
  shows "tables_ok cfg s" and "conn s cid = Some c \<Longrightarrow> conn_good cfg c"
    and "conn s cid = Some c \<Longrightarrow> \<not> closing c \<Longrightarrow> conn_flight cfg (keys_of fl cid) c"
    and "\<forall>x \<in> set fl. fst x < next_conn s"
  using assms by (auto simp: server_inv_def)

lemma keys_of_mset:
  assumes "mset fl = mset fl'"
  shows "conn_flight cfg (keys_of fl cid) c = conn_flight cfg (keys_of fl' cid) c"
proof -
  have "mset (keys_of fl cid) = mset (keys_of fl' cid)" using assms by (simp add: keys_of_def mset_filter)
  then show ?thesis using mset_eq_setD mset_eq_length mset_eq_imp_distinct_iff unfolding conn_flight_def by metis
qed

lemma server_inv_mset: "mset fl = mset fl' \<Longrightarrow> server_inv cfg fl s = server_inv cfg fl' s"
  using keys_of_mset [of fl fl'] mset_eq_setD [of fl fl'] unfolding server_inv_def by simp

lemma conn_upd: "conn (upd cid f s) i = (if i = cid then map_option f (conn s cid) else conn s i)"
  by (auto simp: upd_def conn_def split: option.split)

lemma upd_fields [simp]:
  "connections (upd cid f s) = connections s" "peer_connections (upd cid f s) = peer_connections s"
  "next_conn (upd cid f s) = next_conn s" "srv_running (upd cid f s) = srv_running s" "lanes (upd cid f s) = lanes s"
  "peer_count (upd cid f s) = peer_count s" "evidence (upd cid f s) = evidence s"
  "ordinary_lane (upd cid f s) = ordinary_lane s" "candidate_lane (upd cid f s) = candidate_lane s"
  "working (upd cid f s) = working s" "completed_submits (upd cid f s) = completed_submits s"
  by (auto simp: upd_def lanes_def peer_count_def fun_eq_iff split: option.split)

lemma map_ok_upd: "map_ok (objects s) \<Longrightarrow> map_ok (objects (upd cid f s))"
  by (simp add: upd_def split: option.split)

text \<open>An update that leaves the connection where the tables have it.\<close>

lemma tables_ok_upd:
  assumes "tables_ok cfg s"
    and "\<And>c. conn s cid = Some c \<Longrightarrow> closing (f c) = closing c \<and> descriptor (f c) = descriptor c \<and>
      miner_peer (conn_info (f c)) = miner_peer (conn_info c)"
  shows "tables_ok cfg (upd cid f s)"
proof -
  have sel: "(\<exists>c. conn (upd cid f s) i = Some c \<and> \<not> closing c \<and> descriptor c = fd) \<longleftrightarrow>
      (\<exists>c. conn s i = Some c \<and> \<not> closing c \<and> descriptor c = fd)" for i fd
    using assms(2) by (cases "conn s cid") (auto simp: conn_upd)
  have op: "open_of (upd cid f s) p = open_of s p" for p
    using assms(2) by (cases "conn s cid") (auto simp: open_of_def conn_upd)
  have "\<forall>i c. conn (upd cid f s) i = Some c \<longrightarrow> i < next_conn s"
    using assms(1) by (auto simp: tables_ok_def conn_upd split: if_splits)
  then show ?thesis using assms(1) map_ok_upd unfolding tables_ok_def sel op by simp
qed

lemma server_inv_upd:
  assumes "server_inv cfg fl s"
    and "\<And>c. conn s cid = Some c \<Longrightarrow> closing (f c) = closing c \<and> descriptor (f c) = descriptor c \<and>
      miner_peer (conn_info (f c)) = miner_peer (conn_info c)"
    and "\<And>c. conn s cid = Some c \<Longrightarrow> conn_good cfg c \<Longrightarrow> conn_good cfg (f c)"
    and "\<And>c. conn s cid = Some c \<Longrightarrow> \<not> closing c \<Longrightarrow> conn_flight cfg (keys_of fl cid) c \<Longrightarrow> conn_flight cfg (keys_of fl' cid) (f c)"
    and "\<And>i. i \<noteq> cid \<Longrightarrow> keys_of fl' i = keys_of fl i" and "\<forall>x \<in> set fl'. fst x < next_conn s"
  shows "server_inv cfg fl' (upd cid f s)"
  unfolding server_inv_def
proof (intro conjI allI impI)
  show "tables_ok cfg (upd cid f s)" by (rule tables_ok_upd [OF server_invD(1) [OF assms(1)] assms(2)])
  show "\<forall>x \<in> set fl'. fst x < next_conn (upd cid f s)" using assms(6) by simp
next
  fix i c assume c: "conn (upd cid f s) i = Some c"
  show "conn_good cfg c"
    using c server_invD(2) [OF assms(1)] assms(3) by (auto simp: conn_upd split: if_splits)
next
  fix i c assume c: "conn (upd cid f s) i = Some c" and open_c: "\<not> closing c"
  show "conn_flight cfg (keys_of fl' i) c"
  proof (cases "i = cid")
    case True
    then obtain c0 where "conn s cid = Some c0" "c = f c0" using c by (auto simp: conn_upd)
    then show ?thesis using True open_c assms(2,4) server_invD(3) [OF assms(1)] by auto
  next
    case False
    then show ?thesis using c open_c assms(5) server_invD(3) [OF assms(1)] by (auto simp: conn_upd)
  qed
qed

lemma finite_open_of: "finite (open_of s p)"
proof (rule finite_subset)
  show "open_of s p \<subseteq> dom (map_of (objects s))" by (auto simp: open_of_def conn_def)
qed simp

lemma tables_okD:
  assumes "tables_ok cfg s"
  shows "map_ok (objects s)" and "map_ok (connections s)" and "map_ok (peer_connections s)"
    and "conn s cid = Some c \<Longrightarrow> cid < next_conn s"
    and "map_of (connections s) fd = Some cid \<longleftrightarrow> (\<exists>c. conn s cid = Some c \<and> \<not> closing c \<and> descriptor c = fd)"
    and "peer_count s p = card (open_of s p)" and "map_of (peer_connections s) p \<noteq> Some 0"
    and "length (connections s) \<le> max_connections cfg" and "card (open_of s p) \<le> max_connections_per_ip cfg"
  using assms by (auto simp: tables_ok_def)

lemma peer_count_drop:
  assumes "map_of (peer_connections s) p \<noteq> Some 0"
  shows "(case map_of (drop_peer p (peer_connections s)) q of None \<Rightarrow> 0 | Some n \<Rightarrow> n) =
    (if q = p then peer_count s p - 1 else peer_count s q)"
    and "map_of (peer_connections s) q \<noteq> Some 0 \<Longrightarrow> map_of (drop_peer p (peer_connections s)) q \<noteq> Some 0"
  using assms by (auto simp: drop_peer_def peer_count_def split: option.splits)

lemma close_fields [simp]:
  "next_conn (close_connection cid s) = next_conn s" "srv_running (close_connection cid s) = srv_running s"
  "lanes (close_connection cid s) = lanes s"
  "conn (close_connection cid s) i =
     (if i = cid then map_option (\<lambda>c. if closing c then c else c\<lparr>closing := True, descriptor := - 1\<rparr>) (conn s cid) else conn s i)"
  by (auto simp: close_connection_def lanes_def conn_def split: option.splits)

lemma tables_ok_close:
  assumes "tables_ok cfg s" shows "tables_ok cfg (close_connection cid s)"
proof (cases "\<exists>c. conn s cid = Some c \<and> \<not> closing c")
  case False
  then show ?thesis using assms by (auto simp: close_connection_def split: option.splits)
next
  case True
  then obtain c where c: "conn s cid = Some c" "\<not> closing c" by blast
  let ?s = "close_connection cid s" and ?p = "miner_peer (conn_info c)"
  note ok = tables_okD [OF assms]
  have f: "connections ?s = map_erase (descriptor c) (connections s)"
    "peer_connections ?s = drop_peer ?p (peer_connections s)"
    "map_ok (objects ?s)"
    using c ok(1) by (simp_all add: close_connection_def)
  have cid: "map_of (connections s) (descriptor c) = Some cid" using ok(5) c by blast
  have "open_of ?s q = (if q = ?p then open_of s q - {cid} else open_of s q)" for q
    using c by (auto simp: open_of_def)
  moreover have "cid \<in> open_of s ?p" using c by (auto simp: open_of_def)
  ultimately have card: "card (open_of ?s q) = (if q = ?p then card (open_of s q) - 1 else card (open_of s q))" for q
    using finite_open_of [of s q] by simp
  have drop_ok: "map_ok (drop_peer ?p (peer_connections s))" using ok(3) by (simp add: drop_peer_def split: option.split)
  show ?thesis unfolding tables_ok_def
  proof (intro conjI allI impI)
    show "map_ok (objects ?s)" "map_ok (connections ?s)" "map_ok (peer_connections ?s)" using f ok(2) drop_ok by simp_all
    show "i < next_conn ?s" if "conn ?s i = Some c'" for i c' using that ok(4) by (auto split: if_splits)
    show "map_of (connections ?s) fd = Some i \<longleftrightarrow> (\<exists>c. conn ?s i = Some c \<and> \<not> closing c \<and> descriptor c = fd)" for fd i
    proof (cases "i = cid")
      case True
      then have "map_of (connections ?s) fd \<noteq> Some cid" using ok(5) [of fd cid] c f(1) by auto
      then show ?thesis using True c by auto
    next
      case False
      have "map_of (connections s) (descriptor c) \<noteq> Some i" using cid False by simp
      then have "map_of (connections ?s) fd = Some i \<longleftrightarrow> map_of (connections s) fd = Some i"
        using f(1) by (cases "fd = descriptor c") simp_all
      then show ?thesis using ok(5) [of fd i] False by simp
    qed
    show "peer_count ?s q = card (open_of ?s q)" for q
      using peer_count_drop(1) [OF ok(7)] ok(6) card f(2) by (simp add: peer_count_def [of ?s])
    show "map_of (peer_connections ?s) q \<noteq> Some 0" for q using peer_count_drop(2) [OF ok(7) ok(7)] f(2) by simp
    show "length (connections ?s) \<le> max_connections cfg"
      using length_map_erase [OF ok(2), of "descriptor c"] ok(8) f(1) by (auto split: if_splits)
    show "card (open_of ?s q) \<le> max_connections_per_ip cfg" for q using card ok(9) [of q] by (auto simp: le_diff_conv)
  qed
qed

lemma conn_good_closed [simp]: "conn_good cfg (c\<lparr>closing := b, descriptor := d\<rparr>) = conn_good cfg c"
  by (simp add: conn_good_def)

lemma close_ok:
  assumes "server_inv cfg fl s" shows "server_inv cfg fl (close_connection cid s)"
  using assms tables_ok_close [OF server_invD(1) [OF assms], of cid]
  by (auto simp: server_inv_def split: if_splits)

lemma evidence_fields [simp]:
  "conn (record_evidence cfg cid k s) = conn s" "lanes (record_evidence cfg cid k s) = lanes s"
  "srv_running (record_evidence cfg cid k s) = srv_running s"
  "server_inv cfg' fl (record_evidence cfg cid k s) = server_inv cfg' fl s"
  by (auto simp: record_evidence_def conn_def lanes_def server_inv_def tables_ok_def open_of_def peer_count_def fun_eq_iff
      split: option.split)

lemma failure_fields [simp]:
  "conn (report_event_loop_failure s) = conn s" "lanes (report_event_loop_failure s) = lanes s"
  "server_inv cfg fl (report_event_loop_failure s) = server_inv cfg fl s"
  by (auto simp: report_event_loop_failure_def conn_def lanes_def server_inv_def tables_ok_def open_of_def peer_count_def fun_eq_iff)

lemma push_frame_fields [simp]:
  "closing (push_frame d r h c) = closing c" "descriptor (push_frame d r h c) = descriptor c"
  "miner_peer (conn_info (push_frame d r h c)) = miner_peer (conn_info c)"
  "conn_pending (push_frame d r h c) = conn_pending c" "authenticated (push_frame d r h c) = authenticated c"
  "job_memory (push_frame d r h c) = job_memory c" "output_bytes (push_frame d r h c) = output_bytes c + length d"
  "conn_output (push_frame d r h c) = conn_output c @ [\<lparr>chunk_data = d, chunk_offset = 0\<rparr>]"
  "set (live_request_ids (push_frame d r h c)) = set (live_request_ids c) - set_option r"
  by (auto simp: push_frame_def Let_def split: option.split)

text \<open>A frame may be queued for a request that is not in flight.\<close>

lemma queue_frame_ok:
  assumes "server_inv cfg fl s" and "\<And>key. release = Some key \<Longrightarrow> key \<notin> set (keys_of fl cid)"
  shows "server_inv cfg fl (snd (queue_frame cfg cid data release h s))"
    and "lanes (snd (queue_frame cfg cid data release h s)) = lanes s"
    and "srv_running (snd (queue_frame cfg cid data release h s)) = srv_running s"
proof -
  have "server_inv cfg fl (upd cid (push_frame data release h) s)" if "conn s cid = Some c" "queue_fits cfg c data" for c
    using that assms(2)
    by (intro server_inv_upd [OF assms(1)])
      (auto simp: conn_good_def conn_flight_def queue_fits_def chunk_left_def server_invD(4) [OF assms(1)])
  then show "server_inv cfg fl (snd (queue_frame cfg cid data release h s))"
    using assms(1) close_ok [OF assms(1)] by (auto simp: queue_frame_def split: option.split)
  show "lanes (snd (queue_frame cfg cid data release h s)) = lanes s"
    "srv_running (snd (queue_frame cfg cid data release h s)) = srv_running s"
    by (auto simp: queue_frame_def split: option.split)
qed

lemma queue_error_ok:
  assumes "server_inv cfg fl s" and "\<And>key. release = Some key \<Longrightarrow> key \<notin> set (keys_of fl cid)"
  shows "server_inv cfg fl (queue_error cfg dump cid rid code msg release s)"
    and "lanes (queue_error cfg dump cid rid code msg release s) = lanes s"
  using queue_frame_ok [OF assms] by (simp_all add: queue_error_def)


text \<open>An update of a connection that no table and no request in flight sees.\<close>

definition unseen :: "stratum_config \<Rightarrow> (connection \<Rightarrow> connection) \<Rightarrow> bool" where
  "unseen cfg f \<longleftrightarrow> (\<forall>c. closing (f c) = closing c \<and> descriptor (f c) = descriptor c \<and>
     miner_peer (conn_info (f c)) = miner_peer (conn_info c) \<and> (conn_good cfg c \<longrightarrow> conn_good cfg (f c)) \<and>
     conn_pending (f c) = conn_pending c \<and> set (live_request_ids c) \<subseteq> set (live_request_ids (f c)))"

lemma upd_ok:
  assumes "server_inv cfg fl s" and "unseen cfg f" shows "server_inv cfg fl (upd cid f s)"
  by (rule server_inv_upd [OF assms(1)]) (use assms(2) server_invD(4) [OF assms(1)] in \<open>auto simp: unseen_def conn_flight_def\<close>)

lemma unseen_updates [simp]:
  "unseen cfg (\<lambda>c. c\<lparr>job_memory := remember_job job (job_memory c)\<rparr>)"
  "unseen cfg (\<lambda>c. c\<lparr>last_activity := t\<rparr>)"
  "unseen cfg (\<lambda>c. c\<lparr>last_activity := t, conn_input := conn_input c @ data\<rparr>)"
  "unseen cfg (\<lambda>c. c\<lparr>conn_input := drop n (conn_input c)\<rparr>)"
  "unseen cfg (\<lambda>c. c\<lparr>live_request_ids := set_insert k (live_request_ids c)\<rparr>)"
  "unseen cfg (set_info (\<lambda>i. i\<lparr>miner_login := l, miner_rigid := r, miner_agent := a\<rparr>))"
  "unseen cfg (set_info (\<lambda>i. i\<lparr>assigned_difficulty := d\<rparr>))"
  "unseen cfg (\<lambda>c. set_info (\<lambda>i. i\<lparr>last_sent_height := h\<rparr>) (c\<lparr>authenticated := b\<rparr>))"
  "unseen cfg (flush_reason done)"
  by (auto simp: unseen_def conn_good_def set_info_def remember_job_ok flush_reason_def Let_def)

text \<open>A step that keeps the invariant and touches no lane.\<close>

definition quiet :: "stratum_config \<Rightarrow> (nat \<times> string) list \<Rightarrow> stratum_server \<Rightarrow> stratum_server \<Rightarrow> bool" where
  "quiet cfg fl s s' \<longleftrightarrow> server_inv cfg fl s' \<and> lanes s' = lanes s"

lemma quiet_trans: "quiet cfg fl s s' \<Longrightarrow> quiet cfg fl s' s'' \<Longrightarrow> quiet cfg fl s s''"
  by (simp add: quiet_def)

lemma quiet_refl: "server_inv cfg fl s \<Longrightarrow> quiet cfg fl s s"
  by (simp add: quiet_def)

named_theorems quiet_intros

lemma quiet_upd [quiet_intros]: "quiet cfg fl s s' \<Longrightarrow> unseen cfg f \<Longrightarrow> quiet cfg fl s (upd cid f s')"
  by (simp add: quiet_def upd_ok)

lemma quiet_close [quiet_intros]: "quiet cfg fl s s' \<Longrightarrow> quiet cfg fl s (close_connection cid s')"
  by (simp add: quiet_def close_ok)

lemma quiet_evidence [quiet_intros]: "quiet cfg fl s s' \<Longrightarrow> quiet cfg fl s (record_evidence cfg' cid k s')"
  by (simp add: quiet_def)

lemma quiet_failure [quiet_intros]: "quiet cfg fl s s' \<Longrightarrow> quiet cfg fl s (report_event_loop_failure s')"
  by (simp add: quiet_def)

lemma quiet_frame [quiet_intros]:
  "quiet cfg fl s s' \<Longrightarrow> set_option release \<inter> set (keys_of fl cid) = {} \<Longrightarrow>
   quiet cfg fl s (snd (queue_frame cfg cid data release h s'))"
  using queue_frame_ok [of cfg fl s' release cid data h] unfolding quiet_def by fastforce

lemma quiet_error [quiet_intros]:
  "quiet cfg fl s s' \<Longrightarrow> set_option release \<inter> set (keys_of fl cid) = {} \<Longrightarrow>
   quiet cfg fl s (queue_error cfg dump cid rid code msg release s')"
  by (simp add: queue_error_def quiet_frame)

lemma quiet_send_login:
  assumes "quiet cfg fl s s'" and "key \<notin> set (keys_of fl cid)"
  shows "quiet cfg fl s (send_login cfg dump env cid job info rid key s')"
proof -
  obtain b s1 where q: "queue_frame cfg cid (dump (login_reply rid job info) @ [newline]) (Some key) (Some (job_height job)) s' = (b, s1)"
    by (cases "queue_frame cfg cid (dump (login_reply rid job info) @ [newline]) (Some key) (Some (job_height job)) s'")
  have "quiet cfg fl s s1" using quiet_frame [OF assms(1), of "Some key" cid] assms(2) q by (metis snd_conv disjoint_insert(1) inf_bot_left option.simps(15) Int_insert_left_if0)
  then show ?thesis by (auto simp: send_login_def q Let_def intro!: quiet_intros)
qed

lemma quiet_login [quiet_intros]:
  assumes "quiet cfg fl s s'" and "key \<notin> set (keys_of fl cid)"
  shows "quiet cfg fl s (handle_login cfg dump env cid c params rid key s')"
  using assms
  by (auto simp: handle_login_def finish_login_def Let_def intro!: quiet_intros quiet_send_login split: option.split sum.split)

lemma quiet_keepalive [quiet_intros]:
  assumes "quiet cfg fl s s'" and "key \<notin> set (keys_of fl cid)"
  shows "quiet cfg fl s (handle_keepalive cfg dump env cid c params rid key s')"
  using assms by (auto simp: handle_keepalive_def intro!: quiet_intros)


definition full_inv :: "stratum_config \<Rightarrow> stratum_server \<Rightarrow> bool" where
  "full_inv cfg s \<longleftrightarrow> server_inv cfg (flight s) s \<and> lanes_ok cfg s"

lemma full_quiet: "full_inv cfg s \<Longrightarrow> quiet cfg (flight s) s s' \<Longrightarrow> full_inv cfg s'"
  using lanes_flight [of s' s] lanes_lanes_ok [of s' s cfg] by (simp add: full_inv_def quiet_def)

lemma full_start: "full_inv cfg s \<Longrightarrow> quiet cfg (flight s) s s"
  by (simp add: full_inv_def quiet_refl)

lemma server_inv_lanes [simp]:
  "server_inv cfg fl (s\<lparr>candidate_lane := a\<rparr>) = server_inv cfg fl s" "server_inv cfg fl (s\<lparr>ordinary_lane := a\<rparr>) = server_inv cfg fl s"
  "server_inv cfg fl (s\<lparr>working := a\<rparr>) = server_inv cfg fl s" "server_inv cfg fl (s\<lparr>completed_submits := d\<rparr>) = server_inv cfg fl s"
  "server_inv cfg fl (s\<lparr>srv_running := b\<rparr>) = server_inv cfg fl s"
  by (simp_all add: server_inv_def tables_ok_def conn_def open_of_def peer_count_def)

lemma enqueue_ok:
  assumes inv: "full_inv cfg s" and c0: "conn s cid = Some c0" and room: "\<not> lane_full cfg c candidate s"
    and c: "conn_pending c = conn_pending c0" and key: "key \<in> set (live_request_ids c0)" "key \<notin> set (keys_of (flight s) cid)"
  shows "full_inv cfg (enqueue_submit cid c candidate sub key s)"
proof -
  let ?s = "enqueue_submit cid c candidate sub key s"
  have "server_inv cfg (flight s) s" using inv by (simp add: full_inv_def)
  note D = server_invD [OF this]
  define f where "f = (\<lambda>c'. set_info (\<lambda>i. i\<lparr>request_sequence := request_sequence (conn_info c) + 1\<rparr>) (c'\<lparr>conn_pending := conn_pending c' + 1\<rparr>))"
  have keys: "keys_of ((cid, key) # flight s) i = (if i = cid then key # keys_of (flight s) i else keys_of (flight s) i)" for i
    by (simp add: keys_of_def)
  have "server_inv cfg ((cid, key) # flight s) (upd cid f s)"
  proof (rule server_inv_upd [OF \<open>server_inv cfg (flight s) s\<close>])
    show "conn_flight cfg (keys_of ((cid, key) # flight s) cid) (f c')"
      if "conn s cid = Some c'" "conn_flight cfg (keys_of (flight s) cid) c'" for c'
      using that c0 c key room unfolding keys by (auto simp: conn_flight_def f_def set_info_def lane_full_def)
    show "\<forall>x \<in> set ((cid, key) # flight s). fst x < next_conn s"
      using D(4) tables_okD(4) [OF D(1) c0] by simp
  qed (auto simp: f_def set_info_def conn_good_def keys)
  moreover have "mset (flight ?s) = mset ((cid, key) # flight s)"
    by (simp add: enqueue_submit_def flight_def Let_def)
  ultimately have "server_inv cfg (flight ?s) (upd cid f s)" using server_inv_mset by metis
  moreover have "server_inv cfg fl ?s = server_inv cfg fl (upd cid f s)" for fl
    by (simp add: enqueue_submit_def f_def Let_def)
  ultimately have "server_inv cfg (flight ?s) ?s" by simp
  moreover have "lanes_ok cfg ?s"
    using inv room by (auto simp: full_inv_def lanes_ok_def lane_full_def enqueue_submit_def Let_def)
  ultimately show ?thesis by (simp add: full_inv_def)
qed

lemma submit_ok:
  assumes inv: "full_inv cfg s" and c0: "conn s cid = Some c0" and c: "conn_pending c = conn_pending c0"
    and key: "key \<in> set (live_request_ids c0)" "key \<notin> set (keys_of (flight s) cid)"
  shows "full_inv cfg (handle_submit cfg dump env cid c params rid key s)"
proof -
  have e: "full_inv cfg (queue_error cfg dump cid rid code msg (Some key) s)" for code msg
    by (rule full_quiet [OF inv]) (use full_start [OF inv] key in \<open>auto intro!: quiet_intros\<close>)
  have "full_inv cfg (report_event_loop_failure s)"
    by (rule full_quiet [OF inv]) (use full_start [OF inv] in \<open>auto intro!: quiet_intros\<close>)
  then have "full_inv cfg (admit_submission cfg dump env cid c sub rid key s)" for sub
    using e inv enqueue_ok [OF inv c0 _ c key] by (auto simp: admit_submission_def split: option.split sum.split)
  then show ?thesis using e inv by (auto simp: handle_submit_def split: option.split)
qed

lemma dispatch_ok:
  assumes inv: "full_inv cfg s" and c0: "conn s cid = Some c0" and c: "conn_pending c = conn_pending c0"
    and key: "key \<in> set (live_request_ids c0)" "key \<notin> set (keys_of (flight s) cid)"
  shows "full_inv cfg (dispatch cfg dump env cid c name params rid key s)"
proof -
  have "quiet cfg (flight s) s (record_evidence cfg cid k (queue_error cfg dump cid rid code msg (Some key) s))"
    "quiet cfg (flight s) s (handle_login cfg dump env cid c params rid key s)"
    "quiet cfg (flight s) s (handle_keepalive cfg dump env cid c params rid key s)" for k code msg
    using full_start [OF inv] key by (auto intro!: quiet_intros)
  then show ?thesis using submit_ok [OF assms] full_quiet [OF inv] by (auto simp: dispatch_def)
qed

lemma process_request_ok:
  assumes inv: "full_inv cfg s" and c: "conn s cid = Some c" and "\<not> closing c"
  shows "full_inv cfg (process_request cfg dump env cid c document rid s)"
proof -
  let ?ins = "\<lambda>c. c\<lparr>live_request_ids := set_insert (id_key rid) (live_request_ids c)\<rparr>"
  let ?s = "upd cid ?ins s"
  have e: "full_inv cfg (queue_error cfg dump cid rid code msg None s)" for code msg
    by (rule full_quiet [OF inv]) (use full_start [OF inv] in \<open>auto intro!: quiet_intros\<close>)
  have q: "quiet cfg (flight s) s ?s" using full_start [OF inv] by (auto intro!: quiet_intros)
  have fl: "flight ?s = flight s" using lanes_flight [of ?s s] by simp
  have "full_inv cfg (dispatch cfg dump env cid c name params rid (id_key rid) ?s)"
    if "id_key rid \<notin> set (live_request_ids c)" for name params
  proof (rule dispatch_ok [OF full_quiet [OF inv q]])
    show "conn ?s cid = Some (?ins c)" using c by (simp add: conn_upd)
    have "conn_flight cfg (keys_of (flight s) cid) c" using inv server_invD(3) [OF _ c assms(3)] by (simp add: full_inv_def)
    then show "id_key rid \<notin> set (keys_of (flight ?s) cid)" using that unfolding fl by (auto simp: conn_flight_def)
  qed simp_all
  then show ?thesis using e by (auto simp: process_request_def Let_def split: option.split json.split)
qed

lemma process_line_ok:
  assumes inv: "full_inv cfg s" and "\<And>c. conn s cid = Some c \<Longrightarrow> \<not> closing c"
  shows "full_inv cfg (process_line cfg dump env cid line s)"
proof -
  have "full_inv cfg (close_connection cid s)" "full_inv cfg (close_connection cid (record_evidence cfg cid Malformed s))"
    by (rule full_quiet [OF inv], use full_start [OF inv] in \<open>auto intro!: quiet_intros\<close>)+
  then show ?thesis using inv process_request_ok [OF inv] assms(2)
    by (auto simp: process_line_def Let_def split: option.split prod.split)
qed


lemma flight_simps [simp]:
  "flight (s\<lparr>srv_running := b\<rparr>) = flight s" "lanes (s\<lparr>srv_running := b\<rparr>) = lanes s"
  by (simp_all add: flight_def lanes_def)

text \<open>Reading.\<close>

lemma closed_line_quiet:
  assumes "full_inv cfg s" shows "full_inv cfg (oversized cfg cid s)"
  by (rule full_quiet [OF assms]) (use full_start [OF assms] in \<open>auto simp: oversized_def intro!: quiet_intros\<close>)

lemma full_upd: "full_inv cfg s \<Longrightarrow> unseen cfg f \<Longrightarrow> full_inv cfg (upd cid f s)"
  by (rule full_quiet, assumption, rule quiet_upd [OF full_start])

lemma full_close: "full_inv cfg s \<Longrightarrow> full_inv cfg (close_connection cid s)"
  by (rule full_quiet, assumption, rule quiet_close [OF full_start])

lemma read_lines_ok:
  assumes "full_inv cfg s" and "\<And>c. conn s cid = Some c \<Longrightarrow> \<not> closing c"
  shows "full_inv cfg (read_lines cfg dump cid envs left s)"
  using assms
proof (induction left arbitrary: s)
  case (Suc left)
  show ?case
  proof (cases "conn s cid")
    case (Some c)
    let ?line = "takeWhile (\<lambda>x. x \<noteq> newline) (conn_input c)"
    let ?s = "upd cid (\<lambda>c. c\<lparr>conn_input := drop (length ?line + 1) (conn_input c)\<rparr>) s"
    have "full_inv cfg ?s" by (rule full_upd [OF Suc.prems(1)]) simp
    moreover have "\<not> closing c'" if "conn ?s cid = Some c'" for c'
      using that Suc.prems(2) [OF Some] Some by (auto simp: conn_upd)
    ultimately have "full_inv cfg (process_line cfg dump (envs left) cid (strip_return ?line) ?s)" by (rule process_line_ok)
    then show ?thesis using Some Suc.prems(1) closed_line_quiet [OF Suc.prems(1)]
      by (auto simp: Let_def split: option.split intro!: Suc.IH)
  qed (use Suc.prems in simp)
qed simp

lemma receive_ok:
  assumes "full_inv cfg s" and "\<And>c. conn s cid = Some c \<Longrightarrow> \<not> closing c"
  shows "full_inv cfg (receive_bytes cfg dump envs now cid data s)"
proof -
  let ?s = "upd cid (\<lambda>c. c\<lparr>last_activity := now, conn_input := conn_input c @ data\<rparr>) s"
  have inv: "full_inv cfg ?s" by (rule full_upd [OF assms(1)]) simp
  have "\<not> closing c" if "conn ?s cid = Some c" for c using that assms(2) by (cases "conn s cid") (auto simp: conn_upd)
  then show ?thesis using inv read_lines_ok [OF inv, of cid] closed_line_quiet [OF inv]
    by (simp add: receive_bytes_def Let_def split: option.split)
qed

lemma read_ready_ok:
  assumes "full_inv cfg s" and "\<And>c. conn s cid = Some c \<Longrightarrow> \<not> closing c"
  shows "full_inv cfg (read_ready cfg dump cid rs s)"
  using assms
proof (induction cfg dump cid rs s rule: read_ready.induct)
  case (2 cfg dump cid envs now data rs s)
  have "full_inv cfg (receive_bytes cfg dump envs now cid data s)" by (rule receive_ok) (use 2(2,3) in auto)
  then show ?case using 2 by (simp add: Let_def split: option.split)
qed (simp_all add: full_close)

text \<open>Writing.\<close>

lemma unseen_advance [simp]: "unseen cfg (advance_output n)"
proof -
  have "conn_good cfg (advance_output n c)" if "conn_good cfg c" for c
  proof (cases "conn_output c")
    case (Cons ch rest)
    then show ?thesis using that
      by (auto simp: conn_good_def advance_output_def Let_def chunk_left_def min_def)
  qed (use that in \<open>simp add: advance_output_def\<close>)
  then show ?thesis by (auto simp: unseen_def advance_output_def Let_def split: list.split)
qed

lemma write_ready_ok: "full_inv cfg s \<Longrightarrow> full_inv cfg (write_ready cid rs s)"
proof (induction cid rs s rule: write_ready.induct)
  case (1 cid rs s)
  show ?case
  proof (cases "conn s cid")
    case None
    then show ?thesis using 1(2) by (simp add: write_ready.simps)
  next
    case (Some c)
    then show ?thesis using 1(1) [OF Some] 1(2) full_upd [OF 1(2) unseen_advance] full_close [OF 1(2)]
      by (auto simp: write_ready.simps [of cid rs s] split: list.split send_result.split)
  qed
qed

text \<open>Workers and delivery.\<close>

lemma take_ok:
  assumes "full_inv cfg s" shows "full_inv cfg (take_submit candidate s)"
proof -
  have "mset (flight (take_submit candidate s)) = mset (flight s)" by (auto simp: take_submit_def flight_def split: list.split)
  moreover have "server_inv cfg fl (take_submit candidate s) = server_inv cfg fl s" for fl
    by (simp add: take_submit_def split: list.split)
  moreover have "lanes_ok cfg (take_submit candidate s)"
    using assms by (auto simp: take_submit_def full_inv_def lanes_ok_def split: list.split)
  ultimately show ?thesis using assms server_inv_mset unfolding full_inv_def by metis
qed

lemma finish_ok:
  assumes "full_inv cfg s" shows "full_inv cfg (finish_submit i answer s)"
proof (cases "i < length (working s)")
  case True
  let ?s = "finish_submit i answer s"
  have w: "mset (working s) = add_mset (working s ! i) (mset (take i (working s)) + mset (drop (Suc i) (working s)))"
    using arg_cong [OF id_take_nth_drop [OF True], of mset] by simp
  have "mset (flight ?s) = mset (flight s)"
    using True w by (auto simp: flight_def finish_submit_def Let_def split: prod.split)
  moreover have "server_inv cfg fl ?s = server_inv cfg fl s" for fl
    by (auto simp: finish_submit_def Let_def split: prod.split)
  moreover have "lanes_ok cfg ?s" using assms by (auto simp: finish_submit_def Let_def full_inv_def lanes_ok_def split: prod.split)
  ultimately show ?thesis using assms server_inv_mset unfolding full_inv_def by metis
qed (use assms in \<open>simp add: finish_submit_def\<close>)


lemma deliver_ok:
  assumes inv: "server_inv cfg ((d_conn d, d_key d) # fl) s"
  shows "quiet cfg fl s (deliver_result cfg dump d s)"
proof (cases "\<exists>c. conn s (d_conn d) = Some c \<and> \<not> closing c")
  case False
  have "keys_of fl i = keys_of ((d_conn d, d_key d) # fl) i" if "i \<noteq> d_conn d" for i using that by (simp add: keys_of_def)
  then have "server_inv cfg fl s" using inv False unfolding server_inv_def by (metis (no_types, lifting) list.set_intros(2))
  then show ?thesis using False by (auto simp: deliver_result_def quiet_def split: option.split)
next
  case True
  then obtain c where c: "conn s (d_conn d) = Some c" "\<not> closing c" by blast
  let ?f = "\<lambda>c. if conn_pending c \<noteq> 0 then c\<lparr>conn_pending := conn_pending c - 1\<rparr> else c" and ?cid = "d_conn d"
  have keys: "keys_of ((d_conn d, d_key d) # fl) ?cid = d_key d # keys_of fl ?cid" by (simp add: keys_of_def)
  have "server_inv cfg fl (upd ?cid ?f s)"
  proof (rule server_inv_upd [OF inv])
    show "conn_flight cfg (keys_of fl ?cid) (?f c')" if "conn_flight cfg (keys_of ((d_conn d, d_key d) # fl) ?cid) c'" for c'
      using that unfolding keys by (auto simp: conn_flight_def)
    show "\<forall>x \<in> set fl. fst x < next_conn s" using server_invD(4) [OF inv] by simp
  qed (auto simp: conn_good_def keys_of_def)
  then have q: "quiet cfg fl s (upd ?cid ?f s)" by (simp add: quiet_def)
  have "d_key d \<notin> set (keys_of fl ?cid)" using server_invD(3) [OF inv c] unfolding keys by (simp add: conn_flight_def)
  then show ?thesis using c q by (auto simp: deliver_result_def Let_def intro!: quiet_intros)
qed

lemma drain_ok:
  assumes "full_inv cfg s" shows "full_inv cfg (drain_submit_results cfg dump s)"
proof -
  define fl where "fl = flight (s\<lparr>completed_submits := []\<rparr>)"
  have run: "quiet cfg fl s0 (fold (deliver_result cfg dump) ds s0)"
    if "server_inv cfg (map (\<lambda>d. (d_conn d, d_key d)) ds @ fl) s0" for ds s0
    using that
  proof (induction ds arbitrary: s0)
    case (Cons d ds)
    have "quiet cfg (map (\<lambda>d. (d_conn d, d_key d)) ds @ fl) s0 (deliver_result cfg dump d s0)" using Cons.prems by (intro deliver_ok) simp
    then show ?case using Cons.IH [of "deliver_result cfg dump d s0"] by (simp add: quiet_def)
  qed (simp add: quiet_def)
  have m: "mset (flight s) = mset (map (\<lambda>d. (d_conn d, d_key d)) (completed_submits s) @ fl)"
    by (simp add: fl_def flight_def)
  have start: "server_inv cfg (map (\<lambda>d. (d_conn d, d_key d)) (completed_submits s) @ fl) (s\<lparr>completed_submits := []\<rparr>)"
    using assms server_inv_mset [OF m, of cfg s] by (simp add: full_inv_def)
  have q: "quiet cfg fl (s\<lparr>completed_submits := []\<rparr>) (drain_submit_results cfg dump s)"
    unfolding drain_submit_results_def by (rule run [OF start])
  then have "flight (drain_submit_results cfg dump s) = fl" unfolding fl_def by (intro lanes_flight) (simp add: quiet_def)
  moreover have "lanes_ok cfg (drain_submit_results cfg dump s)"
    using q assms lanes_lanes_ok [of "drain_submit_results cfg dump s" "s\<lparr>completed_submits := []\<rparr>" cfg]
    by (simp add: quiet_def full_inv_def lanes_ok_def)
  ultimately show ?thesis using q by (simp add: full_inv_def quiet_def)
qed

text \<open>Jobs, timeouts, shutdown.\<close>

lemma refresh_one_quiet:
  assumes "quiet cfg fl s s'" shows "quiet cfg fl s (refresh_one cfg dump provider cid s')"
proof -
  have frame: "quiet cfg fl s s1" if "queue_frame cfg cid data None h s' = (b, s1)" for data h b s1
    using quiet_frame [OF assms, of None cid data h] that by simp
  have send: "quiet cfg fl s (let (queued, s) = queue_frame cfg cid data None h s' in
      if \<not> queued then s
      else let s = upd cid (\<lambda>c. c\<lparr>job_memory := remember_job job (job_memory c)\<rparr>) s in
        if persisted then s else close_connection cid s)" for data h job persisted
  proof (cases "queue_frame cfg cid data None h s'")
    case (Pair b s1)
    then show ?thesis using frame [OF Pair] by (simp add: Let_def quiet_upd quiet_close)
  qed
  show ?thesis using assms send
    by (simp add: refresh_one_def quiet_failure quiet_close split: option.split prod.split sum.split)
qed

lemma refresh_jobs_ok:
  assumes "full_inv cfg s" shows "full_inv cfg (refresh_jobs_now cfg dump provider s)"
proof -
  have "quiet cfg (flight s) s (fold (refresh_one cfg dump provider) cids s')" if "quiet cfg (flight s) s s'" for cids s'
    using that by (induction cids arbitrary: s') (simp_all add: refresh_one_quiet)
  then show ?thesis using full_quiet [OF assms] full_start [OF assms] by (simp add: refresh_jobs_now_def)
qed

lemma close_expired_ok:
  assumes "full_inv cfg s" shows "full_inv cfg (close_expired cfg now is_banned s)"
proof -
  have "full_inv cfg (fold close_connection cids s')" if "full_inv cfg s'" for cids s'
    using that by (induction cids arbitrary: s') (simp_all add: full_close)
  then show ?thesis using assms by (simp add: close_expired_def)
qed


text \<open>Admission: the operating system hands out a descriptor that is not in use.\<close>

lemma accepted_ok:
  assumes ok: "tables_ok cfg s" and fresh: "map_of (connections s) (descriptor c) = None" and open_c: "\<not> closing c"
    and room: "length (connections s) < max_connections cfg" "peer_count s (miner_peer (conn_info c)) < max_connections_per_ip cfg"
  shows "tables_ok cfg (add_connection c s)" (is "tables_ok cfg ?s")
proof -
  let ?peer = "miner_peer (conn_info c)"
  note D = tables_okD [OF ok]
  have f: "connections ?s = map_put (descriptor c) (next_conn s) (connections s)" "objects ?s = map_put (next_conn s) c (objects s)"
    "peer_connections ?s = map_put ?peer (peer_count s ?peer + 1) (peer_connections s)" "next_conn ?s = Suc (next_conn s)"
    using fresh by (simp_all add: add_connection_def map_has_def)
  have new: "conn s (next_conn s) = None" using D(4) [of "next_conn s"] by (cases "conn s (next_conn s)") auto
  have conn: "conn ?s i = (if i = next_conn s then Some c else conn s i)" for i by (simp add: conn_def f)
  have "open_of ?s q = (if q = ?peer then insert (next_conn s) (open_of s q) else open_of s q)" for q
    using open_c new by (auto simp: open_of_def conn)
  moreover have "next_conn s \<notin> open_of s ?peer" using new by (simp add: open_of_def)
  ultimately have card: "card (open_of ?s q) = (if q = ?peer then Suc (card (open_of s q)) else card (open_of s q))" for q
    using finite_open_of by simp
  have count: "peer_count ?s q = (if q = ?peer then Suc (peer_count s q) else peer_count s q)" for q by (simp add: peer_count_def f)
  have unused: "\<not> (\<exists>c'. conn s i = Some c' \<and> \<not> closing c' \<and> descriptor c' = descriptor c)" for i
    using D(5) [of "descriptor c" i] fresh by simp
  show ?thesis unfolding tables_ok_def
  proof (intro conjI allI impI)
    show "map_ok (objects ?s)" "map_ok (connections ?s)" "map_ok (peer_connections ?s)" using D(1-3) by (simp_all add: f)
    show "i < next_conn ?s" if "conn ?s i = Some c'" for i c' using that D(4) [of i] by (auto simp: conn f less_Suc_eq split: if_splits)
    show "map_of (connections ?s) fd = Some i \<longleftrightarrow> (\<exists>c. conn ?s i = Some c \<and> \<not> closing c \<and> descriptor c = fd)" for fd i
    proof (cases "i = next_conn s")
      case True
      then have "map_of (connections s) fd \<noteq> Some i" using D(5) [of fd i] new by simp
      then show ?thesis using True open_c by (auto simp: conn f)
    next
      case False
      then show ?thesis using D(5) [of fd i] unused [of i] by (auto simp: conn f)
    qed
    show "peer_count ?s q = card (open_of ?s q)" for q using D(6) count card by simp
    show "map_of (peer_connections ?s) q \<noteq> Some 0" for q using D(7) by (simp add: f)
    show "length (connections ?s) \<le> max_connections cfg" using room(1) fresh by (simp add: f length_map_put [OF D(2)] map_has_def)
    show "card (open_of ?s q) \<le> max_connections_per_ip cfg" for q using card D(6) [of ?peer] D(9) [of q] room(2) by simp
  qed
qed

lemma accept_ok:
  assumes inv: "full_inv cfg s" and fresh: "map_of (connections s) fd = None" and pos: "0 < max_connections_per_ip cfg"
  shows "full_inv cfg (accept_connection cfg admitted observed fd pid peer port endpoint now s)"
proof (cases "length (connections s) \<ge> max_connections cfg \<or>
    (map_has (peer_connections s) peer \<and> peer_count s peer \<ge> max_connections_per_ip cfg) \<or>
    (access_password cfg = [] \<and> has_defense cfg \<and> \<not> admitted)")
  case True
  then show ?thesis using inv by (auto simp: accept_connection_def)
next
  case False
  define c where "c = new_connection fd pid peer port endpoint now"
  let ?s = "add_connection c s"
  have c: "descriptor c = fd" "miner_peer (conn_info c) = peer" "\<not> closing c" "conn_good cfg c" "conn_flight cfg [] c"
    by (simp_all add: c_def new_connection_def conn_good_def conn_flight_def memory_ok_def)
  have "server_inv cfg (flight s) s" using inv by (simp add: full_inv_def)
  note D = server_invD [OF this]
  have "peer_count s peer < max_connections_per_ip cfg"
    using False pos by (cases "map_of (peer_connections s) peer") (auto simp: map_has_def peer_count_def)
  then have "tables_ok cfg ?s" using False fresh c by (intro accepted_ok [OF D(1)]) auto
  moreover have "keys_of (flight s) (next_conn s) = []" using D(4) by (auto simp: keys_of_def filter_empty_conv)
  moreover have "conn ?s i = (if i = next_conn s then Some c else conn s i)" for i by (simp add: conn_def add_connection_def)
  moreover have "\<forall>x \<in> set (flight s). fst x < next_conn ?s" using D(4) by (auto simp: add_connection_def intro: less_SucI)
  ultimately have "server_inv cfg (flight s) ?s" using D(2,3) c(4,5) by (auto simp: server_inv_def split: if_splits)
  then have "full_inv cfg ?s" using inv by (simp add: full_inv_def flight_def lanes_ok_def add_connection_def)
  moreover have "accept_connection cfg admitted observed fd pid peer port endpoint now s =
      (if observed then ?s else close_connection (next_conn s) ?s)"
    using False by (auto simp: accept_connection_def Let_def c_def)
  ultimately show ?thesis using full_close by simp
qed


lemma serve_ok:
  assumes "full_inv cfg s" shows "full_inv cfg (serve_event cfg dump e s)"
proof (cases "conn s (pe_conn e)")
  case (Some c)
  have "full_inv cfg (case pe_read e of None \<Rightarrow> s | Some rs \<Rightarrow> read_ready cfg dump (pe_conn e) rs s)" if "\<not> closing c"
    using assms that Some by (auto intro!: read_ready_ok split: option.split)
  then show ?thesis using Some assms full_close [OF assms]
    by (auto simp: serve_event_def Let_def intro!: write_ready_ok split: option.split)
qed (use assms in \<open>simp add: serve_event_def\<close>)

lemma map_of_map_values: "map_of (map (\<lambda>(k, v). (k, f k v)) xs) k = map_option (f k) (map_of xs k)"
  by (induction xs) auto

lemma stop_conn:
  assumes "tables_ok cfg s"
  shows "conn (stop_server s) cid = map_option (\<lambda>c. if closing c then c else c\<lparr>closing := True, descriptor := - 1\<rparr>) (conn s cid)"
proof (cases "conn s cid")
  case (Some c)
  have "cid \<in> set (map snd (connections s)) \<longleftrightarrow> \<not> closing c"
  proof -
    have "cid \<in> set (map snd (connections s)) \<longleftrightarrow> (\<exists>fd. map_of (connections s) fd = Some cid)"
      using map_of_eq_Some_iff [OF map_ok_distinct [OF tables_okD(2) [OF assms]]] by force
    then show ?thesis using tables_okD(5) [OF assms] Some by simp
  qed
  then show ?thesis using Some by (auto simp: stop_server_def conn_def map_of_map_values)
qed (auto simp: stop_server_def conn_def map_of_map_values)

lemma stop_ok:
  assumes "full_inv cfg s" shows "full_inv cfg (stop_server s)"
proof -
  have inv: "server_inv cfg (flight s) s" using assms by (simp add: full_inv_def)
  note ok = tables_okD [OF server_invD(1) [OF inv]]
  note c = stop_conn [OF server_invD(1) [OF inv]]
  have f: "flight (stop_server s) = []" "connections (stop_server s) = []" "peer_connections (stop_server s) = []"
    "next_conn (stop_server s) = next_conn s" by (simp_all add: stop_server_def flight_def)
  have closed: "closing c'" if stopped: "conn (stop_server s) cid = Some c'" for cid c'
  proof (cases "conn s cid")
    case (Some z)
    then have "(if closing z then z else z\<lparr>closing := True, descriptor := - 1\<rparr>) = c'" using stopped by (simp add: c)
    then show ?thesis by (cases "closing z") auto
  qed (use stopped c in simp)
  have "map_ok (objects (stop_server s))" using ok(1)
    by (simp add: map_ok_def stop_server_def comp_def case_prod_beta)
  moreover have "open_of (stop_server s) p = {}" for p using closed by (auto simp: open_of_def)
  moreover have "cid < next_conn s" if "conn (stop_server s) cid = Some c'" for cid c' using that ok(4) c by auto
  ultimately have "tables_ok cfg (stop_server s)" using closed by (auto simp: tables_ok_def f peer_count_def)
  moreover have "conn_good cfg c'" if "conn (stop_server s) cid = Some c'" for cid c'
    using that server_invD(2) [OF inv] c by (auto split: if_splits)
  moreover have "lanes_ok cfg (stop_server s)" by (simp add: lanes_ok_def stop_server_def)
  ultimately show ?thesis using closed by (auto simp: full_inv_def server_inv_def f)
qed

lemma start_ok: "full_inv cfg start_server"
  by (simp add: full_inv_def server_inv_def tables_ok_def lanes_ok_def start_server_def conn_def open_of_def peer_count_def flight_def)

lemma reach_inv:
  assumes "server_reach cfg dump s" and "0 < max_connections_per_ip cfg" shows "full_inv cfg s"
  using assms(1)
proof induction
  case reach_start
  show ?case by (rule start_ok)
next
  case (reach_step s s')
  show ?case using reach_step(2,3) assms(2)
    by (cases rule: server_step.cases)
      (simp_all add: accept_ok serve_ok drain_ok refresh_jobs_ok close_expired_ok take_ok finish_ok stop_ok)
qed

lemma normalized_positive: "normalize_config raw = Inr cfg \<Longrightarrow> 0 < max_connections_per_ip cfg"
  by (auto simp: normalize_config_def split: if_splits)


section \<open>Who has logged in\<close>

definition auth :: "stratum_server \<Rightarrow> nat \<Rightarrow> bool" where
  "auth s cid \<longleftrightarrow> (case conn s cid of None \<Rightarrow> False | Some c \<Rightarrow> authenticated c)"

lemma auth_upd: "(\<And>c. authenticated (f c) = authenticated c) \<Longrightarrow> auth (upd cid f s) i = auth s i"
  by (auto simp: auth_def conn_upd split: option.split)

lemma auth_simps [simp]:
  "auth (close_connection cid s) i = auth s i" "auth (record_evidence cfg cid k s) i = auth s i"
  "auth (report_event_loop_failure s) i = auth s i"
  "lanes (snd (queue_frame cfg cid data release h s)) = lanes s"
  "auth (snd (queue_frame cfg cid data release h s)) i = auth s i"
  "lanes (queue_error cfg dump cid rid code msg release s) = lanes s"
  "auth (queue_error cfg dump cid rid code msg release s) i = auth s i"
  "auth (upd cid (set_info g) s) i = auth s i"
  by (auto simp: auth_def queue_frame_def queue_error_def conn_upd set_info_def split: option.splits)

lemma send_login_lanes: "lanes (send_login cfg dump env cid job info rid key s) = lanes s"
proof (cases "queue_frame cfg cid (dump (login_reply rid job info) @ [newline]) (Some key) (Some (job_height job)) s")
  case (Pair b s1)
  then have "lanes s1 = lanes s" using auth_simps(4) [of cfg cid "dump (login_reply rid job info) @ [newline]" "Some key" "Some (job_height job)" s]
    by simp
  then show ?thesis by (simp add: send_login_def Pair Let_def)
qed

lemma login_lanes: "lanes (handle_login cfg dump env cid c params rid key s) = lanes s"
  by (auto simp: handle_login_def finish_login_def Let_def send_login_lanes split: option.split sum.split)

lemma constant_equal_iff [simp]: "constant_equal a b \<longleftrightarrow> a = b"
  by (auto simp: constant_equal_def)

lemma login_auth:
  assumes "auth (handle_login cfg dump env cid c params rid key s) cid" and "\<not> auth s cid"
  shows "login_valid params \<and> (access_password cfg = [] \<or> jfind params ''pass'' = Some (JString (access_password cfg)))"
proof -
  have valid: "login_valid params" and pass: "access_password cfg = [] \<or> jstring (jfind params ''pass'') = access_password cfg"
    using assms by (auto simp: handle_login_def split: if_splits)
  have "required_string (jfind params ''pass'')" using valid by (simp add: login_valid_def)
  then have "jfind params ''pass'' = Some (JString (jstring (jfind params ''pass'')))"
    by (auto simp: required_string_def jstring_def is_string_def split: option.splits json.splits)
  then show ?thesis using valid pass by metis
qed

lemma gate:
  assumes "\<not> authenticated c" and "\<not> auth s cid"
  shows "lanes (dispatch cfg dump env cid c name params rid key s) = lanes s"
    and "auth (dispatch cfg dump env cid c name params rid key s) cid \<Longrightarrow>
      name = ''login'' \<and> login_valid params \<and>
      (access_password cfg = [] \<or> jfind params ''pass'' = Some (JString (access_password cfg)))"
  using assms login_auth by (auto simp: dispatch_def login_lanes split: if_splits)

lemma gate_request:
  assumes "conn s cid = Some c" and "\<not> authenticated c"
  shows "lanes (process_request cfg dump env cid c document rid s) = lanes s"
    and "auth (process_request cfg dump env cid c document rid s) cid \<Longrightarrow>
      \<exists>params. jfind document ''method'' = Some (JString ''login'') \<and> jfind document ''params'' = Some params \<and>
        login_valid params \<and> (access_password cfg = [] \<or> jfind params ''pass'' = Some (JString (access_password cfg)))"
proof -
  let ?s = "upd cid (\<lambda>c. c\<lparr>live_request_ids := set_insert (id_key rid) (live_request_ids c)\<rparr>) s"
  have na: "\<not> auth s cid" using assms by (simp add: auth_def)
  then have "\<not> auth ?s cid" by (subst auth_upd) simp_all
  note g = gate [OF assms(2) this]
  show "lanes (process_request cfg dump env cid c document rid s) = lanes s"
    using g(1) by (auto simp: process_request_def Let_def split: option.split json.split)
  show "\<exists>params. jfind document ''method'' = Some (JString ''login'') \<and> jfind document ''params'' = Some params \<and>
      login_valid params \<and> (access_password cfg = [] \<or> jfind params ''pass'' = Some (JString (access_password cfg)))"
    if "auth (process_request cfg dump env cid c document rid s) cid"
    using that g(2) na by (auto simp: process_request_def Let_def split: option.splits json.splits if_splits)
qed

section \<open>A small server\<close>

definition sample_raw :: stratum_config where
  "sample_raw = \<lparr>listen_endpoints = [''[::]:3333''], access_password = ''secret'', max_connections = 2,
     max_connections_per_ip = 1, login_timeout_ms = 10000, idle_timeout_ms = 60000, max_line_bytes = 4096,
     max_output_bytes = 8192, max_json_depth = 8, difficulty_floor = 1000, minimum_difficulty = True,
     submit_workers = 0, candidate_submit_workers = 1, max_pending_submits = 4, candidate_submit_reserve = 9,
     max_pending_per_connection = 8, has_defense = False\<rparr>"

definition sample_cfg :: stratum_config where
  "sample_cfg = sample_raw\<lparr>submit_workers := 1, candidate_submit_reserve := 4, max_pending_per_connection := 4\<rparr>"

definition sample_conn :: connection where
  "sample_conn = new_connection 7 ''c0'' (PeerAddress 2 [10, 0, 0, 1] 4) 4444 ''[::]:3333'' 0"

definition sample_server :: stratum_server where
  "sample_server = accept_connection sample_cfg True True 7 ''c0'' (PeerAddress 2 [10, 0, 0, 1] 4) 4444 ''[::]:3333'' 0 start_server"

lemma sample_normalized: "normalize_config sample_raw = Inr sample_cfg"
  by (simp add: normalize_config_def sample_raw_def sample_cfg_def clamp_def)

lemma sample_reached: "server_reach sample_cfg dump sample_server"
  unfolding sample_server_def by (rule reach_step [OF reach_start step_accept]) (simp_all add: start_server_def)

lemma sample_open: "conn sample_server 0 = Some sample_conn" "\<not> authenticated sample_conn" "\<not> closing sample_conn"
  by (simp_all add: sample_server_def sample_conn_def accept_connection_def add_connection_def start_server_def conn_def
      sample_cfg_def sample_raw_def map_has_def new_connection_def)

definition sample_login :: json where
  "sample_login = JObject [(''id'', JUnsigned 1), (''method'', JString ''login''),
     (''params'', JObject [(''login'', JString ''wallet''), (''pass'', JString ''secret'')])]"

definition sample_env :: line_env where
  "sample_env = \<lparr>admits_request = True, admits_submit = True, parse_events = [], parsed = Some sample_login,
     provided_job = Inr (Some \<lparr>job_blob = ''00'', job_id = ''aa'', job_target = ''ff'', job_seed_hash = ''00'', job_height = 9, network_difficulty = ''7''\<rparr>),
     job_persisted = True, env_now = 1, env_received = 1, resolver = None\<rparr>"

section \<open>Properties\<close>

text \<open>
  C15: in every reachable state the descriptor table holds exactly the open connections, never more than
  the configured number; the counter of a peer is the number of its open connections and stays
  within the limit per address.
\<close>

theorem connections_counted_and_bounded:
  assumes "normalize_config raw = Inr cfg" and "server_reach cfg dump s"
  shows "length (connections s) \<le> max_connections cfg \<and>
    (\<forall>fd cid. map_of (connections s) fd = Some cid \<longleftrightarrow> (\<exists>c. conn s cid = Some c \<and> \<not> closing c \<and> descriptor c = fd)) \<and>
    (\<forall>p. peer_count s p = card (open_of s p) \<and> card (open_of s p) \<le> max_connections_per_ip cfg)"
proof -
  have "tables_ok cfg s" using reach_inv [OF assms(2) normalized_positive [OF assms(1)]] by (simp add: full_inv_def server_inv_def)
  note D = tables_okD [OF this]
  show ?thesis using D(5,6,8,9) by blast
qed

theorem connections_counted_and_bounded_witness:
  "server_reach sample_cfg (\<lambda>_. []) sample_server \<and> map_of (connections sample_server) 7 = Some 0 \<and>
   card (open_of sample_server (PeerAddress 2 [10, 0, 0, 1] 4)) \<le> 1"
proof -
  note t = connections_counted_and_bounded [OF sample_normalized sample_reached [of "\<lambda>_. []"]]
  have "descriptor sample_conn = 7" by (simp add: sample_conn_def new_connection_def)
  then have "map_of (connections sample_server) 7 = Some 0" using t sample_open by blast
  moreover have "card (open_of sample_server (PeerAddress 2 [10, 0, 0, 1] 4)) \<le> max_connections_per_ip sample_cfg" using t by blast
  ultimately show ?thesis using sample_reached by (simp add: sample_cfg_def sample_raw_def)
qed

text \<open>
  C16: in every reachable state the two lanes together stay within the configured number and ordinary work
  stays out of the reserve for candidates; an open connection counts exactly its requests in
  flight, their keys differ from one another and are all live, and their number is bounded.
\<close>

theorem submits_counted_and_bounded:
  assumes "normalize_config raw = Inr cfg" and "server_reach cfg dump s"
  shows "length (ordinary_lane s) + length (candidate_lane s) \<le> max_pending_submits cfg \<and>
    length (ordinary_lane s) \<le> max_pending_submits cfg - candidate_submit_reserve cfg \<and>
    (\<forall>cid c. conn s cid = Some c \<and> \<not> closing c \<longrightarrow>
       conn_pending c = length (keys_of (flight s) cid) \<and> conn_pending c \<le> max_pending_per_connection cfg \<and>
       distinct (keys_of (flight s) cid) \<and> set (keys_of (flight s) cid) \<subseteq> set (live_request_ids c))"
proof -
  have inv: "full_inv cfg s" by (rule reach_inv [OF assms(2) normalized_positive [OF assms(1)]])
  then have "conn_flight cfg (keys_of (flight s) cid) c" if "conn s cid = Some c" "\<not> closing c" for cid c
    using server_invD(3) [OF _ that] by (simp add: full_inv_def)
  then show ?thesis using inv unfolding full_inv_def lanes_ok_def conn_flight_def by blast
qed

theorem submits_counted_and_bounded_witness:
  "server_reach sample_cfg (\<lambda>_. []) sample_server \<and> conn_pending sample_conn = length (keys_of (flight sample_server) 0)"
  using submits_counted_and_bounded [OF sample_normalized sample_reached [of "\<lambda>_. []"]] sample_reached sample_open by blast

text \<open>
  C35: in every reachable state the output counter of a connection is exactly the number of bytes queued
  and not yet sent, within the configured limit, and at most 64 job difficulties are remembered.
\<close>

theorem output_counted_and_bounded:
  assumes "normalize_config raw = Inr cfg" and "server_reach cfg dump s" and "conn s cid = Some c"
  shows "output_bytes c = sum_list (map (\<lambda>ch. length (chunk_data ch) - chunk_offset ch) (conn_output c)) \<and>
    output_bytes c \<le> max_output_bytes cfg \<and> length (snd (job_memory c)) \<le> 64"
proof -
  have "full_inv cfg s" by (rule reach_inv [OF assms(2) normalized_positive [OF assms(1)]])
  then have "conn_good cfg c" using server_invD(2) [OF _ assms(3)] unfolding full_inv_def by blast
  then show ?thesis by (simp add: conn_good_def chunk_left_def [abs_def] memory_ok_def)
qed

theorem output_counted_and_bounded_witness:
  "server_reach sample_cfg (\<lambda>_. []) sample_server \<and> conn sample_server 0 = Some sample_conn \<and> output_bytes sample_conn \<le> 8192"
  using output_counted_and_bounded [OF sample_normalized sample_reached [of "\<lambda>_. []"] sample_open(1)]
    sample_reached sample_open(1) by (simp add: sample_cfg_def sample_raw_def)

text \<open>
  C17: no line of a connection that has not logged in puts work into a lane, and after the line the
  connection is authenticated only if the line was a valid login whose password is the configured
  one, when one is configured.
\<close>

theorem login_gate:
  assumes "conn s cid = Some c" and "\<not> authenticated c"
  shows "lanes (process_line cfg dump env cid line s) = lanes s \<and>
    (auth (process_line cfg dump env cid line s) cid \<longrightarrow>
      (\<exists>document params. parsed env = Some document \<and> jfind document ''method'' = Some (JString ''login'') \<and>
        jfind document ''params'' = Some params \<and> login_valid params \<and>
        (access_password cfg = [] \<or> jfind params ''pass'' = Some (JString (access_password cfg)))))"
proof -
  have "\<not> auth s cid" using assms by (simp add: auth_def)
  then show ?thesis using assms(1) gate_request [OF assms]
    by (auto simp: process_line_def Let_def split: option.splits prod.splits if_splits)
qed


theorem login_gate_witness:
  "auth (process_line sample_cfg (\<lambda>_. []) sample_env 0 ''x'' sample_server) 0 \<and>
   lanes (process_line sample_cfg (\<lambda>_. []) sample_env 0 ''x'' sample_server) = lanes sample_server"
proof
  show "auth (process_line sample_cfg (\<lambda>_. []) sample_env 0 ''x'' sample_server) 0" by code_simp
  show "lanes (process_line sample_cfg (\<lambda>_. []) sample_env 0 ''x'' sample_server) = lanes sample_server"
    using login_gate [OF sample_open(1,2)] by blast
qed

text \<open>
  C34: the result of a submission is answered exactly once. If the reply fits into the output queue of the
  open connection it came from, it is queued there as one frame and the identifier of the request
  becomes free; otherwise the connection is closed. Either way one request less is counted as
  pending, and no other connection is touched.
\<close>

theorem result_answered_once:
  assumes "conn s (d_conn d) = Some c" and "\<not> closing c"
  shows "\<exists>c' frame. conn (deliver_result cfg dump d s) (d_conn d) = Some c' \<and> conn_pending c' = conn_pending c - 1 \<and>
    frame = dump (if d_disposition d = Accepted then status_reply (d_id d) ''OK''
      else error_reply (d_id d) (- 1) (share_disposition_message (d_disposition d))) @ [newline] \<and>
    (if queue_fits cfg c frame
     then \<not> closing c' \<and> conn_output c' = conn_output c @ [\<lparr>chunk_data = frame, chunk_offset = 0\<rparr>] \<and>
       set (live_request_ids c') = set (live_request_ids c) - {d_key d}
     else closing c' \<and> conn_output c' = conn_output c) \<and>
    (\<forall>i. i \<noteq> d_conn d \<longrightarrow> conn (deliver_result cfg dump d s) i = conn s i)"
proof -
  let ?cid = "d_conn d"
  define c1 where "c1 = (if conn_pending c \<noteq> 0 then c\<lparr>conn_pending := conn_pending c - 1\<rparr> else c)"
  define s1 where "s1 = upd ?cid (\<lambda>c. if conn_pending c \<noteq> 0 then c\<lparr>conn_pending := conn_pending c - 1\<rparr> else c) s"
  define frame where "frame = dump (if d_disposition d = Accepted then status_reply (d_id d) ''OK''
      else error_reply (d_id d) (- 1) (share_disposition_message (d_disposition d))) @ [newline]"
  define s2 where "s2 = snd (queue_frame cfg ?cid frame (Some (d_key d)) None s1)"
  have c1: "conn s1 i = (if i = ?cid then Some c1 else conn s i)" for i using assms(1) by (simp add: s1_def c1_def conn_upd)
  have same: "queue_fits cfg c1 x = queue_fits cfg c x" "closing c1 = closing c" "conn_output c1 = conn_output c"
    "live_request_ids c1 = live_request_ids c" "conn_pending c1 = conn_pending c - 1" for x
    by (auto simp: c1_def queue_fits_def)
  define c2 where "c2 = (if queue_fits cfg c frame then push_frame frame (Some (d_key d)) None c1
      else c1\<lparr>closing := True, descriptor := - 1\<rparr>)"
  have c2: "conn s2 i = (if i = ?cid then Some c2 else conn s i)" for i
    using assms(2) by (simp add: s2_def queue_frame_def c1 conn_upd same c2_def)
  define c3 where "c3 = (if d_disposition d = Accepted then c2 else flush_reason d c2)"
  have "deliver_result cfg dump d s =
      (if d_disposition d = Accepted then s2
       else (let s = upd ?cid (flush_reason d) s2;
                 s = (if d_disposition d = Duplicate_Share then record_evidence cfg ?cid abuse_kind.Duplicate_Share s else s) in
         (if d_disposition d = Unknown_Job then record_evidence cfg ?cid abuse_kind.Unknown_Job s else s)))"
    unfolding deliver_result_def s2_def s1_def frame_def queue_error_def using assms by (simp add: Let_def)
  then have "conn (deliver_result cfg dump d s) i = (if i = ?cid then Some c3 else conn s i)" for i
    using c2 by (simp add: Let_def conn_upd c3_def)
  moreover have "conn_pending c3 = conn_pending c2" "closing c3 = closing c2" "conn_output c3 = conn_output c2"
    "live_request_ids c3 = live_request_ids c2"
    by (auto simp: c3_def flush_reason_def Let_def)
  ultimately show ?thesis unfolding frame_def [symmetric]
    by (intro exI [of _ c3] exI [of _ frame]) (simp add: c2_def same assms(2))
qed

theorem result_answered_once_witness:
  "\<exists>c'. conn (deliver_result sample_cfg (\<lambda>_. ''ok'') \<lparr>d_conn = 0, d_id = Number_Id 1, d_key = ''n:1'', d_disposition = Stale, d_code = []\<rparr>
     sample_server) 0 = Some c' \<and> conn_output c' = [\<lparr>chunk_data = ''ok'' @ [newline], chunk_offset = 0\<rparr>]"
  using result_answered_once [of sample_server "\<lparr>d_conn = 0, d_id = Number_Id 1, d_key = ''n:1'', d_disposition = Stale, d_code = []\<rparr>"
    sample_conn sample_cfg "\<lambda>_. ''ok''"] sample_open
  by (simp add: queue_fits_def sample_cfg_def sample_raw_def sample_conn_def new_connection_def) blast

end
