(* ===== verification/Template.thy ===== *)
theory Template
  imports Stratum_Wire Monero_Block Verifier
begin

unbundle bit_operations_syntax

text \<open>
  Block templates on their way from the daemon to the miners (src/runtime/runtime.cpp): reading the
  reply of \<open>get_block_template\<close>, preparing its RandomX seed in the verifier, and publishing it behind
  the boundary that unresolved and accepted candidate blocks draw. The readiness flag that the
  management interface shows follows from the other flags and is left out.
\<close>

section \<open>Replies of the daemon\<close>

text \<open>
  \<open>decimal_from_hex\<close> keeps a decimal number as text and multiplies it by 16 for every digit. The inner
  loop runs over the text from its end, so it is written over the reversed text.
\<close>

fun mul16_digits :: "nat \<Rightarrow> string \<Rightarrow> string \<times> nat" where
  "mul16_digits carry [] = ([], carry)"
| "mul16_digits carry (d # ds) =
     (let current = (of_char d - 48) * 16 + carry; (rest, c) = mul16_digits (current div 10) ds in
      (char_of (48 + current mod 10) # rest, c))"

fun carry_digits :: "nat \<Rightarrow> string" where
  "carry_digits carry = (if carry = 0 then [] else char_of (48 + carry mod 10) # carry_digits (carry div 10))"

declare carry_digits.simps [simp del]

definition hex_step :: "string \<Rightarrow> char \<Rightarrow> string result" where
  "hex_step number ch =
     (if \<not> is_hex_char ch then Inl (ValidationError ''invalid hexadecimal difficulty'')
      else let (ds, carry) = mul16_digits (unat (hex_value ch)) (rev number) in
        Inr (rev (ds @ carry_digits carry)))"

fun hex_loop :: "string \<Rightarrow> string \<Rightarrow> string result" where
  "hex_loop number [] = Inr number"
| "hex_loop number (ch # rest) = and_then (hex_step number ch) (\<lambda>number. hex_loop number rest)"

definition decimal_from_hex :: "string \<Rightarrow> string result" where
  "decimal_from_hex encoded =
     (if encoded = [] then Inl (ValidationError ''empty hexadecimal difficulty'')
      else if length encoded > 32 then Inl (ValidationError ''hexadecimal difficulty exceeds uint128'')
      else and_then (hex_loop ''0'' encoded) (\<lambda>number.
        if number = ''0'' then Inl (ValidationError ''network difficulty is zero'') else Inr number))"

definition decimal_json :: "json \<Rightarrow> string result" where
  "decimal_json j =
     and_then
       (case j of
          JUnsigned n \<Rightarrow> Inr (nat_text (unat n))
        | JInteger i \<Rightarrow> if i \<le> 0 then Inl (ValidationError ''difficulty must be positive'') else Inr (int_text i)
        | JString t \<Rightarrow>
            if t = [] \<or> (length t > 1 \<and> hd t = CHR ''0'') \<or> \<not> list_all digit t
            then Inl (ValidationError ''difficulty is not canonical decimal'') else Inr t
        | _ \<Rightarrow> Inl (ValidationError ''difficulty has an invalid type''))
       (\<lambda>text. and_then (validate_network_difficulty text) (\<lambda>_. Inr text))"

definition positive_u64 :: "json \<Rightarrow> string \<Rightarrow> u64 result" where
  "positive_u64 j field =
     (case jfind j field of
        Some (JUnsigned n) \<Rightarrow> if n = 0 then Inl (ValidationError (field @ '' must be positive'')) else Inr n
      | _ \<Rightarrow> Inl (ValidationError (''daemon template omitted '' @ field)))"

definition required_string :: "json \<Rightarrow> string \<Rightarrow> string result" where
  "required_string j field =
     (case jfind j field of
        Some (JString t) \<Rightarrow>
          if t = [] \<or> nul \<in> set t then Inl (ValidationError (''daemon response has invalid '' @ field)) else Inr t
      | _ \<Rightarrow> Inl (ValidationError (''daemon response omitted '' @ field)))"

record rpc_observation =
  obs_valid :: bool
  obs_document :: json

definition rpc_result :: "rpc_observation \<Rightarrow> json result" where
  "rpc_result obs =
     (if \<not> obs_valid obs then Inl (ValidationError ''daemon RPC observation was invalid'')
      else case jfind (obs_document obs) ''error'' of
        Some e \<Rightarrow> if e = JNull then
            (case jfind (obs_document obs) ''result'' of
               Some (JObject kvs) \<Rightarrow>
                 if jfind (JObject kvs) ''status'' = Some (JString ''OK'') then Inr (JObject kvs)
                 else Inl (ValidationError ''daemon returned non-OK status'')
             | _ \<Rightarrow> Inl (ValidationError ''daemon response has no result object''))
          else Inl (ValidationError ''daemon returned a JSON-RPC error'')
      | None \<Rightarrow>
          (case jfind (obs_document obs) ''result'' of
             Some (JObject kvs) \<Rightarrow>
               if jfind (JObject kvs) ''status'' = Some (JString ''OK'') then Inr (JObject kvs)
               else Inl (ValidationError ''daemon returned non-OK status'')
           | _ \<Rightarrow> Inl (ValidationError ''daemon response has no result object'')))"

section \<open>Reading a template\<close>

record template_context =
  tc_generation :: u64
  tc_block :: parsed_block
  tc_hashing_blob :: bytes
  tc_reserved_offset :: nat
  tc_height :: u64
  tc_previous_hash :: bytes
  tc_seed_hash :: bytes
  tc_next_seed_hash :: "bytes option"
  tc_network_difficulty :: string
  tc_fetch_reason :: string
  tc_wide_difficulty_hex :: "string option"
  tc_seed_id :: u64

definition next_seed :: "json \<Rightarrow> bytes option result" where
  "next_seed j =
     (case jfind j ''next_seed_hash'' of
        None \<Rightarrow> Inr None
      | Some JNull \<Rightarrow> Inr None
      | Some (JString t) \<Rightarrow> if t = [] then Inr None else and_then (hex_decode_exact t 32) (\<lambda>h. Inr (Some h))
      | Some _ \<Rightarrow> Inl (ValidationError ''next_seed_hash has an invalid type''))"

text \<open>The difficulty as decimal text, and the hexadecimal text it was read from.\<close>

definition wide_difficulty :: "string \<Rightarrow> (string \<times> string option) result" where
  "wide_difficulty text =
     (let encoded = (if take 2 text = ''0x'' \<or> take 2 text = ''0X'' then drop 2 text else text) in
      if encoded = [] \<or> length encoded > 32 then Inl (ValidationError ''wide_difficulty is outside uint128 range'')
      else let encoded = dropWhile (\<lambda>c. c = CHR ''0'') (map tolower encoded);
               encoded = (if encoded = [] then ''0'' else encoded) in
        and_then (decimal_from_hex encoded) (\<lambda>d. Inr (d, Some encoded)))"

definition template_difficulty :: "json \<Rightarrow> (string \<times> string option) result" where
  "template_difficulty j =
     (case jfind j ''wide_difficulty'' of
        Some (JString t) \<Rightarrow> wide_difficulty t
      | Some JNull \<Rightarrow>
          (case jfind j ''difficulty'' of None \<Rightarrow> Inl (ValidationError ''daemon template omitted difficulty'')
           | Some d \<Rightarrow> and_then (decimal_json d) (\<lambda>t. Inr (t, None)))
      | Some _ \<Rightarrow> Inl (ValidationError ''wide_difficulty has an invalid type'')
      | None \<Rightarrow>
          (case jfind j ''difficulty'' of None \<Rightarrow> Inl (ValidationError ''daemon template omitted difficulty'')
           | Some d \<Rightarrow> and_then (decimal_json d) (\<lambda>t. Inr (t, None))))"

definition read_template :: "rpc_observation \<Rightarrow> string \<Rightarrow> template_context result" where
  "read_template obs reason =
     and_then (rpc_result obs) (\<lambda>j.
     and_then (required_string j ''blocktemplate_blob'') (\<lambda>block_text.
     and_then (hex_decode block_text) (\<lambda>block_bytes.
     and_then (required_string j ''blockhashing_blob'') (\<lambda>hashing_text.
     and_then (hex_decode hashing_text) (\<lambda>daemon_hashing.
     and_then (check (block_bytes \<noteq> [] \<and> daemon_hashing \<noteq> []) (ValidationError ''daemon returned an empty block template blob'')) (\<lambda>_.
     and_then (parse_block block_bytes) (\<lambda>block.
     and_then (positive_u64 j ''height'') (\<lambda>h.
     and_then (check (Monero_Block.height (miner_transaction block) = h) (ValidationError ''template height differs from coinbase height'')) (\<lambda>_.
     and_then (required_string j ''prev_hash'') (\<lambda>prev_text.
     and_then (hex_decode_exact prev_text 32) (\<lambda>previous.
     and_then (check (previous_hash block = previous) (ValidationError ''template previous hash differs from parsed block'')) (\<lambda>_.
     and_then (required_string j ''seed_hash'') (\<lambda>seed_text.
     and_then (hex_decode_exact seed_text 32) (\<lambda>seed.
     and_then (next_seed j) (\<lambda>next_hash.
     and_then (positive_u64 j ''reserved_offset'') (\<lambda>reserved.
     and_then (check (reserved_offset_is_exact_extra_nonce block (unat reserved) 16)
        (ValidationError ''reserved_offset is not the exact 16-byte extra nonce'')) (\<lambda>_.
     and_then (block_hashing_blob block) (\<lambda>local_hashing.
     and_then (check (local_hashing = daemon_hashing) (ValidationError ''locally regenerated hashing blob differs from daemon'')) (\<lambda>_.
     and_then (template_difficulty j) (\<lambda>(difficulty, wide).
     Inr \<lparr>tc_generation = 0, tc_block = block, tc_hashing_blob = daemon_hashing, tc_reserved_offset = unat reserved,
          tc_height = h, tc_previous_hash = previous, tc_seed_hash = seed, tc_next_seed_hash = next_hash,
          tc_network_difficulty = difficulty, tc_fetch_reason = reason, tc_wide_difficulty_hex = wide, tc_seed_id = 0\<rparr>))))))))))))))))))))"


section \<open>Preparing the seed\<close>

text \<open>What the native library answers to the calls the adapter makes in one round.\<close>

record seed_env =
  se_info :: "u64 \<Rightarrow> info_answer"
  se_release :: "u64 \<Rightarrow> mspv_status"
  se_released :: "u64 \<Rightarrow> mspv_status \<times> mspv_status"
  se_prepare :: "info_answer \<times> (mspv_status \<times> u64)"
  se_ready :: "mspv_status \<times> info_answer"
  se_activate :: "info_answer \<times> mspv_status \<times> mspv_status"
  se_next :: "info_answer \<times> (mspv_status \<times> u64)"

definition gone_or_ok :: "mspv_status \<Rightarrow> bool" where
  "gone_or_ok st \<longleftrightarrow> st = MSPV_OK \<or> st = MSPV_SEED_NOT_FOUND"

text \<open>Whether job issuance is suspended while the seed is prepared: the two flags of the first loop.\<close>

definition actual_seed_differs :: "u64 \<Rightarrow> bytes \<Rightarrow> seed_snapshot_record list \<Rightarrow> bool" where
  "actual_seed_differs active seed residents =
     foldl (\<lambda>differs r. if snap_seed_id r = active \<and> snap_seed_hash r = seed then False else differs) (active = 0) residents"

definition actual_seed_ready :: "bytes \<Rightarrow> seed_snapshot_record list \<Rightarrow> bool" where
  "actual_seed_ready seed residents =
     foldl (\<lambda>ready r. if snap_seed_hash r = seed \<and> (snap_state r = MSPV_SEED_READY \<or> snap_state r = MSPV_SEED_CURRENT)
       then True else ready) False residents"

fun release_obsolete ::
    "seed_env \<Rightarrow> u64 \<Rightarrow> bytes \<Rightarrow> bytes option \<Rightarrow> seed_snapshot_record list \<Rightarrow> verifier \<Rightarrow> unit result \<times> verifier" where
  "release_obsolete env active seed next_hash [] v = (Inr (), v)"
| "release_obsolete env active seed next_hash (r # rs) v =
     (if snap_seed_id r = active \<or> snap_seed_hash r = seed \<or> next_hash = Some (snap_seed_hash r) \<or>
         snap_retained_job_references r \<noteq> 0 \<or> snap_tracked_verifications r \<noteq> 0
      then release_obsolete env active seed next_hash rs v
      else let (st, v) = request_seed_release (se_release env (snap_seed_id r)) (snap_seed_id r) v in
        if \<not> gone_or_ok st then (Inl (ValidationError ''verifier could not release an obsolete seed''), v)
        else let (st, v) = wait_seed_released (fst (se_released env (snap_seed_id r))) (snd (se_released env (snap_seed_id r))) (snap_seed_id r) v in
          if \<not> gone_or_ok st then (Inl (ValidationError ''verifier obsolete seed release timed out''), v)
          else release_obsolete env active seed next_hash rs v)"

text \<open>The seed's identifier, whether issuance has been suspended, and the verifier afterwards.\<close>

definition prepare_template_seed ::
    "seed_env \<Rightarrow> u64 \<Rightarrow> bytes \<Rightarrow> bytes option \<Rightarrow> verifier \<Rightarrow> u64 result \<times> bool \<times> verifier" where
  "prepare_template_seed env active seed next_hash v =
     (let (residents, v) = seed_snapshots (se_info env) v;
          suspended = (actual_seed_differs active seed residents \<and> \<not> actual_seed_ready seed residents);
          (released, v) = release_obsolete env active seed next_hash residents v in
      case released of Inl e \<Rightarrow> (Inl e, suspended, v)
      | Inr _ \<Rightarrow>
        let ((st, snap), v) = prepare_seed (fst (se_prepare env)) (snd (se_prepare env)) seed v in
        if st \<noteq> MSPV_OK \<or> snap_seed_id snap = 0 then (Inl (ValidationError ''verifier could not prepare the template seed''), suspended, v)
        else let (st, v) = wait_seed_ready (fst (se_ready env)) (snd (se_ready env)) (snap_seed_id snap) v in
          if st \<noteq> MSPV_OK then (Inl (ValidationError ''verifier seed preparation failed''), suspended, v)
          else let (st, v) = activate_seed (fst (se_activate env)) (fst (snd (se_activate env))) (snd (snd (se_activate env))) (snap_seed_id snap) v in
            if st \<noteq> MSPV_OK then (Inl (ValidationError ''verifier seed preparation failed''), suspended, v)
            else (Inr (snap_seed_id snap), suspended,
              if next_hash \<noteq> None \<and> next_hash \<noteq> Some seed
              then snd (prepare_seed (fst (se_next env)) (snd (se_next env)) (the next_hash) v) else v))"

section \<open>The publication boundary\<close>

text \<open>
  The part of the runtime's state behind \<open>candidate_boundary_mutex_\<close>, \<open>job_issuance_mutex_\<close> and
  \<open>state_mutex_\<close> that decides which template is offered. Unresolved candidates are an unordered map
  that is only searched; \<open>stop\<close> flags and logging are left out.
\<close>

record publication =
  current_template :: "template_context option"
  current_height :: u64
  template_generation :: u64
  accepted_fence :: "u64 option"
  unresolved :: "(int, u64) std_map"
  issuance_allowed :: bool
  active_seed :: u64
  pub_verifier :: "verifier option"
  refresh_requested :: bool

definition candidate_height_allowed :: "publication \<Rightarrow> u64 \<Rightarrow> bool" where
  "candidate_height_allowed p h =
     (if (case accepted_fence p of None \<Rightarrow> False | Some f \<Rightarrow> h \<le> f) then False
      else \<not> list_ex (\<lambda>c. h > snd c) (unresolved p))"

definition register_candidate_boundary :: "int \<Rightarrow> u64 \<Rightarrow> publication \<Rightarrow> publication result" where
  "register_candidate_boundary cid h p =
     (if cid \<le> 0 \<or> h = 0 then Inl (ValidationError ''candidate publication boundary is invalid'')
      else let p = p\<lparr>unresolved := map_put cid h (unresolved p)\<rparr> in
        Inr (if current_height p > h then p\<lparr>issuance_allowed := False\<rparr> else p))"

definition activate_accepted_candidate_fence :: "u64 \<Rightarrow> publication \<Rightarrow> publication result" where
  "activate_accepted_candidate_fence h p =
     (if h = 0 then Inl (ValidationError ''accepted candidate height is invalid'')
      else if current_height p > h then Inr p
      else let p = (if (case accepted_fence p of None \<Rightarrow> True | Some f \<Rightarrow> h > f) then p\<lparr>accepted_fence := Some h\<rparr> else p) in
        Inr (p\<lparr>issuance_allowed := False\<rparr>))"

definition release_candidate_boundary :: "int \<Rightarrow> publication \<Rightarrow> publication" where
  "release_candidate_boundary cid p = p\<lparr>unresolved := map_erase cid (unresolved p), refresh_requested := True\<rparr>"

text \<open>\<open>parse_template\<close>: reading, preparing the seed and numbering, with the effects that precede an exception.\<close>

definition parse_template :: "seed_env \<Rightarrow> rpc_observation \<Rightarrow> string \<Rightarrow> publication \<Rightarrow> template_context result \<times> publication" where
  "parse_template env obs reason p =
     (case read_template obs reason of Inl e \<Rightarrow> (Inl e, p)
      | Inr t \<Rightarrow>
        let (sid, p) =
          (case pub_verifier p of None \<Rightarrow> (Inr 0, p)
           | Some v \<Rightarrow>
             let (sid, suspended, v) = prepare_template_seed env (active_seed p) (tc_seed_hash t) (tc_next_seed_hash t) v in
             (sid, p\<lparr>pub_verifier := Some v, issuance_allowed := (issuance_allowed p \<and> \<not> suspended)\<rparr>)) in
        (case sid of Inl e \<Rightarrow> (Inl e, p)
        | Inr sid \<Rightarrow>
          let g = template_generation p + 1; p = p\<lparr>template_generation := g\<rparr> in
          if g > 2 ^ 63 - 1 then (Inl (ValidationError ''template generation overflow''), p)
          else (Inr (t\<lparr>tc_generation := g, tc_seed_id := sid\<rparr>), p)))"

text \<open>\<open>refresh_template\<close> on the reply of the daemon; \<open>rel\<close> answers the release of the former seed.\<close>

definition refresh_template ::
    "seed_env \<Rightarrow> mspv_status \<Rightarrow> rpc_observation \<Rightarrow> string \<Rightarrow> publication \<Rightarrow> bool result \<times> publication" where
  "refresh_template env rel obs reason p =
     (case and_then (rpc_result obs) (\<lambda>j. positive_u64 j ''height'') of Inl e \<Rightarrow> (Inl e, p)
      | Inr observed \<Rightarrow>
        if \<not> candidate_height_allowed p observed then (Inr False, p)
        else (case parse_template env obs reason p of
          (Inl e, p) \<Rightarrow> (Inl e, p)
        | (Inr t, p) \<Rightarrow>
          if tc_height t \<noteq> observed then (Inl (ValidationError ''template height changed while parsing''), p)
          else let old = active_seed p;
                   p = p\<lparr>active_seed := tc_seed_id t, current_template := Some t, current_height := tc_height t\<rparr> in
            if (case accepted_fence p of None \<Rightarrow> False | Some f \<Rightarrow> tc_height t \<le> f)
            then (Inl (ValidationError ''accepted candidate fence admitted an obsolete template''), p)
            else let p = p\<lparr>accepted_fence := None, issuance_allowed := True\<rparr> in
              (Inr True,
               case pub_verifier p of None \<Rightarrow> p
               | Some v \<Rightarrow> if old \<noteq> 0 \<and> old \<noteq> tc_seed_id t
                   then p\<lparr>pub_verifier := Some (snd (request_seed_release rel old v))\<rparr> else p)))"


section \<open>Decimal text\<close>

definition hex_number :: "string \<Rightarrow> nat" where
  "hex_number text = foldl (\<lambda>n ch. 16 * n + unat (hex_value ch)) 0 text"

definition low_first :: "string \<Rightarrow> nat" where
  "low_first ds = foldr (\<lambda>d n. (of_char d - 48) + 10 * n) ds 0"

definition digits :: "string \<Rightarrow> bool" where
  "digits ds \<longleftrightarrow> (\<forall>d \<in> set ds. 48 \<le> (of_char d :: nat) \<and> of_char d \<le> (57 :: nat))"

lemma digit_of_char: "CHR ''0'' \<le> d \<and> d \<le> CHR ''9'' \<longleftrightarrow> 48 \<le> (of_char d :: nat) \<and> of_char d \<le> (57 :: nat)"
  by (simp add: less_eq_char_def)

lemma decimal_value_low_first: "decimal_value (rev ds) = low_first ds"
  by (induction ds) (simp_all add: decimal_value_def low_first_def)

lemma low_first_Cons: "low_first (d # ds) = (of_char d - 48) + 10 * low_first ds"
  by (simp add: low_first_def)

lemma digits_Cons: "digits (d # ds) \<longleftrightarrow> 48 \<le> (of_char d :: nat) \<and> of_char d \<le> (57 :: nat) \<and> digits ds"
  by (simp add: digits_def)

lemma of_char_digit: "of_char (char_of (48 + n mod 10 :: nat) :: char) = (48 + n mod 10 :: nat)"
  by (rule digit_char) simp

lemma mul16_value:
  assumes "mul16_digits carry ds = (ds', c)" and "digits ds"
  shows "low_first ds' + c * 10 ^ length ds = 16 * low_first ds + carry \<and> length ds' = length ds \<and> digits ds'"
  using assms
proof (induction ds arbitrary: carry ds' c)
  case (Cons d ds)
  define cur where "cur = (of_char d - 48) * 16 + carry"
  obtain rest c' where m: "mul16_digits (cur div 10) ds = (rest, c')" by (cases "mul16_digits (cur div 10) ds")
  have "mul16_digits carry (d # ds) = (char_of (48 + cur mod 10) # rest, c')"
    unfolding mul16_digits.simps Let_def cur_def [symmetric] m by (simp only: prod.case)
  then have r: "mul16_digits (cur div 10) ds = (rest, c)" "ds' = char_of (48 + cur mod 10) # rest"
    using Cons.prems(1) m by (simp_all only: prod.inject)
  have IH: "low_first rest + c * 10 ^ length ds = 16 * low_first ds + cur div 10" "length rest = length ds" "digits rest"
    using Cons.IH [OF r(1)] Cons.prems(2) by (simp_all add: digits_Cons)
  have "low_first ds' = cur mod 10 + 10 * low_first rest" by (simp only: r(2) low_first_Cons of_char_digit add_diff_cancel_left')
  then have "low_first ds' + c * 10 ^ length (d # ds) = cur mod 10 + 10 * (low_first rest + c * 10 ^ length ds)" by simp
  also have "\<dots> = cur mod 10 + 10 * (16 * low_first ds + cur div 10)" by (simp only: IH(1))
  also have "\<dots> = 160 * low_first ds + (10 * (cur div 10) + cur mod 10)" by simp
  also have "\<dots> = 160 * low_first ds + cur" by (simp only: mult_div_mod_eq)
  also have "\<dots> = 16 * low_first (d # ds) + carry" by (simp add: low_first_Cons cur_def)
  finally have "low_first ds' + c * 10 ^ length (d # ds) = 16 * low_first (d # ds) + carry" .
  moreover have "cur mod 10 \<le> 9" using pos_mod_bound [of 10 cur] by simp
  ultimately show ?case using IH(2,3) unfolding r(2) digits_Cons of_char_digit by simp
qed (simp add: low_first_def digits_def)

lemma mul16_carries:
  "ds \<noteq> [] \<Longrightarrow> 48 < (of_char (last ds) :: nat) \<Longrightarrow> 0 < snd (mul16_digits carry ds)"
proof (induction ds arbitrary: carry)
  case (Cons d ds)
  show ?case
  proof (cases "ds = []")
    case True
    have "16 \<le> (of_char d - 48) * 16 + carry" using Cons.prems True by simp
    then have "0 < ((of_char d - 48) * 16 + carry) div 10" by (simp add: div_greater_zero_iff)
    then show ?thesis using True by (simp add: Let_def)
  next
    case False
    then show ?thesis using Cons by (simp add: Let_def case_prod_beta)
  qed
qed simp

lemma carry_digits_value:
  "low_first (carry_digits n) = n \<and> digits (carry_digits n) \<and>
   (n \<noteq> 0 \<longrightarrow> carry_digits n \<noteq> [] \<and> 48 < (of_char (last (carry_digits n)) :: nat))"
proof (induction n rule: carry_digits.induct)
  case (1 n)
  show ?case
  proof (cases "n = 0")
    case False
    have c: "carry_digits n = char_of (48 + n mod 10) # carry_digits (n div 10)" using False by (simp add: carry_digits.simps)
    have "carry_digits (n div 10) = [] \<Longrightarrow> 0 < n mod 10" using 1 [OF False] False
      by (cases "n div 10 = 0") auto
    moreover have "n div 10 \<noteq> 0 \<longrightarrow> carry_digits (n div 10) \<noteq> []" "n div 10 = 0 \<longrightarrow> carry_digits (n div 10) = []"
      using 1 [OF False] by (simp_all add: carry_digits.simps)
    ultimately show ?thesis using 1 [OF False] unfolding c by (cases "n div 10 = 0") (simp_all add: low_first_def digits_def)
  qed (simp add: carry_digits.simps low_first_def digits_def)
qed

lemma low_first_append: "low_first (xs @ ys) = low_first xs + 10 ^ length xs * low_first ys"
  by (induction xs) (simp_all add: low_first_def algebra_simps)

lemma canonical_digits:
  "canonical_decimal text \<longleftrightarrow> text \<noteq> [] \<and> digits text \<and> (text = ''0'' \<or> 48 < (of_char (hd text) :: nat))"
proof -
  have "hd text = CHR ''0'' \<longleftrightarrow> \<not> 48 < (of_char (hd text) :: nat)" if "text \<noteq> []" "digits text"
  proof -
    have "48 \<le> (of_char (hd text) :: nat)" using that by (auto simp: digits_def)
    then have "\<not> 48 < (of_char (hd text) :: nat) \<longleftrightarrow> (of_char (hd text) :: nat) = of_char (CHR ''0'')" by auto
    then show ?thesis by (metis char_of_char)
  qed
  moreover have "length text > 1 \<longleftrightarrow> tl text \<noteq> []" "text \<noteq> [] \<Longrightarrow> text = hd text # tl text" by (cases "text", simp_all)+
  moreover have "digits text \<longleftrightarrow> (\<forall>ch \<in> set text. CHR ''0'' \<le> ch \<and> ch \<le> CHR ''9'')" by (simp add: digits_def digit_of_char)
  ultimately show ?thesis unfolding canonical_decimal_def by (metis list.sel(1,3))
qed


lemma hex_step_value:
  assumes "canonical_decimal number" and "is_hex_char ch"
  shows "\<exists>m. hex_step number ch = Inr m \<and> canonical_decimal m \<and> decimal_value m = 16 * decimal_value number + unat (hex_value ch)"
proof -
  let ?ds = "rev number"
  obtain ds c where m: "mul16_digits (unat (hex_value ch)) ?ds = (ds, c)" by (cases "mul16_digits (unat (hex_value ch)) ?ds")
  have n: "number \<noteq> []" "digits ?ds" "number = ''0'' \<or> 48 < (of_char (last ?ds) :: nat)"
    using assms(1) by (auto simp: canonical_digits digits_def last_rev)
  note v = mul16_value [OF m n(2)]
  let ?m = "rev (ds @ carry_digits c)"
  have "decimal_value ?m = 16 * decimal_value number + unat (hex_value ch)"
    using v carry_digits_value [of c] decimal_value_low_first [of ?ds] decimal_value_low_first [of "ds @ carry_digits c"]
    by (simp add: low_first_append mult.commute)
  moreover have "canonical_decimal ?m"
  proof (cases "c = 0")
    case True
    have "number = ''0''" using n mul16_carries [of ?ds "unat (hex_value ch)"] m True by auto
    then have "length ds = 1" using v by simp
    then obtain d where "ds = [d]" by (cases ds) auto
    then show ?thesis using v True by (auto simp: canonical_decimal_def carry_digits.simps digits_def digit_of_char)
  next
    case False
    then show ?thesis using carry_digits_value [of c] v by (auto simp: canonical_digits digits_def hd_rev hd_append)
  qed
  ultimately show ?thesis using assms(2) by (simp add: hex_step_def m)
qed

lemma hex_loop_value:
  assumes "canonical_decimal number"
  shows "(list_all is_hex_char text \<longrightarrow> (\<exists>m. hex_loop number text = Inr m \<and> canonical_decimal m \<and>
      decimal_value m = foldl (\<lambda>n ch. 16 * n + unat (hex_value ch)) (decimal_value number) text)) \<and>
    (\<not> list_all is_hex_char text \<longrightarrow> hex_loop number text = Inl (ValidationError ''invalid hexadecimal difficulty''))"
  using assms
proof (induction "text" arbitrary: number)
  case (Cons ch rest)
  show ?case
  proof (cases "is_hex_char ch")
    case True
    obtain m where m: "hex_step number ch = Inr m" "canonical_decimal m"
      "decimal_value m = 16 * decimal_value number + unat (hex_value ch)" using hex_step_value [OF Cons.prems True] by blast
    show ?thesis using Cons.IH [OF m(2)] True by (simp add: m)
  qed (simp add: hex_step_def)
qed simp

lemma hex_value_small: "is_hex_char ch \<Longrightarrow> unat (hex_value ch) < 16"
  using hex_char_digit [of ch] by (auto simp: unat_of_nat)


lemma hex_number_bound:
  assumes "list_all is_hex_char text"
  shows "foldl (\<lambda>n ch. 16 * n + unat (hex_value ch)) n text < (n + 1) * 16 ^ length text"
  using assms
proof (induction "text" arbitrary: n)
  case (Cons ch rest)
  have "(16 * n + unat (hex_value ch)) + 1 \<le> (n + 1) * 16" using hex_value_small [of ch] Cons.prems by simp
  then have "((16 * n + unat (hex_value ch)) + 1) * 16 ^ length rest \<le> ((n + 1) * 16) * 16 ^ length rest" by (rule mult_le_mono1)
  moreover have "foldl (\<lambda>n ch. 16 * n + unat (hex_value ch)) (16 * n + unat (hex_value ch)) rest <
      ((16 * n + unat (hex_value ch)) + 1) * 16 ^ length rest" using Cons by simp
  ultimately have "foldl (\<lambda>n ch. 16 * n + unat (hex_value ch)) (16 * n + unat (hex_value ch)) rest < ((n + 1) * 16) * 16 ^ length rest"
    by (rule less_le_trans [rotated])
  moreover have "((n + 1) * 16) * 16 ^ length rest = (n + 1) * 16 ^ length (ch # rest)"
    by (simp only: length_Cons power_Suc mult.assoc)
  ultimately show ?case by (simp only: foldl_Cons)
qed simp

lemma zero_text: "canonical_decimal m \<Longrightarrow> decimal_value m = 0 \<longleftrightarrow> m = ''0''"
proof
  assume m: "canonical_decimal m" "decimal_value m = 0"
  obtain d ds where c: "m = d # ds" using m(1) by (cases m) (auto simp: canonical_decimal_def)
  have "(of_char d :: nat) - 48 \<le> decimal_value m"
    using decimal_prefix_le [of "of_char d - 48" ds] by (simp add: decimal_value_def c)
  then show "m = ''0''" using m by (auto simp: canonical_digits c)
qed (simp add: decimal_value_def)

text \<open>The numbers a decimal difficulty stands for.\<close>

definition valid_difficulty :: "string \<Rightarrow> bool" where
  "valid_difficulty d \<longleftrightarrow> canonical_decimal d \<and> 0 < decimal_value d \<and> decimal_value d < 2 ^ 128"

lemma valid_difficulty_iff: "validate_network_difficulty d = Inr () \<longleftrightarrow> valid_difficulty d"
proof
  assume "validate_network_difficulty d = Inr ()"
  then obtain l where l: "parse_decimal_uint128 d = Inr l" by (auto simp: validate_network_difficulty_def result_simps)
  then have "length l = 4" "limbs_value l = decimal_value d" by (simp_all add: parse_decimal_uint128_value)
  then show "valid_difficulty d" using l limbs_value_less [of l] by (simp add: valid_difficulty_def parse_decimal_uint128_value)
next
  assume "valid_difficulty d"
  moreover obtain l where "length l = 4" "limbs_value l = decimal_value d"
    using limbs_exist [of "decimal_value d" 4] calculation by (auto simp: valid_difficulty_def)
  ultimately have "parse_decimal_uint128 d = Inr l" by (simp add: valid_difficulty_def parse_decimal_uint128_value)
  then show "validate_network_difficulty d = Inr ()" by (simp add: validate_network_difficulty_def)
qed

lemma decimal_from_hex_cases:
  "if text \<noteq> [] \<and> length text \<le> 32 \<and> list_all is_hex_char text \<and> hex_number text \<noteq> 0
   then \<exists>d. decimal_from_hex text = Inr d \<and> decimal_value d = hex_number text \<and> valid_difficulty d
   else \<exists>why. decimal_from_hex text = Inl (ValidationError why)"
proof (cases "text \<noteq> [] \<and> length text \<le> 32 \<and> list_all is_hex_char text")
  case True
  have "canonical_decimal ''0''" by (simp add: canonical_decimal_def)
  then obtain m where m: "hex_loop ''0'' text = Inr m" "canonical_decimal m" "decimal_value m = hex_number text"
    using hex_loop_value [of "''0''" "text"] True by (auto simp: hex_number_def decimal_value_def)
  have "hex_number text < 16 ^ length text" using hex_number_bound [of "text" 0] True by (simp add: hex_number_def)
  also have "\<dots> \<le> (16 :: nat) ^ 32" using True by (intro power_increasing) simp_all
  finally have "hex_number text < 2 ^ 128" by simp
  then show ?thesis using True m zero_text [OF m(2)] by (auto simp: decimal_from_hex_def valid_difficulty_def)
next
  case False
  have "canonical_decimal ''0''" by (simp add: canonical_decimal_def)
  then show ?thesis using False hex_loop_value [of "''0''" "text"] by (auto simp: decimal_from_hex_def)
qed

lemma template_difficulty_valid: "template_difficulty j = Inr (d, w) \<Longrightarrow> valid_difficulty d"
proof -
  have hex: "valid_difficulty d" if "decimal_from_hex t = Inr d" for t
    using decimal_from_hex_cases [of t] that by (auto split: if_splits)
  have "valid_difficulty d" if "decimal_json x = Inr d" for x
    using that valid_difficulty_iff by (auto simp: decimal_json_def result_simps)
  then show "template_difficulty j = Inr (d, w) \<Longrightarrow> valid_difficulty d"
    using hex by (auto simp: template_difficulty_def wide_difficulty_def Let_def result_simps split: option.splits json.splits if_splits)
qed

lemma read_template_sound:
  assumes "read_template obs reason = Inr t"
  shows "\<exists>d. parse_block d = Inr (tc_block t)" and "Monero_Block.height (miner_transaction (tc_block t)) = tc_height t"
    and "block_hashing_blob (tc_block t) = Inr (tc_hashing_blob t)"
    and "reserved_offset_is_exact_extra_nonce (tc_block t) (tc_reserved_offset t) 16"
    and "previous_hash (tc_block t) = tc_previous_hash t" and "valid_difficulty (tc_network_difficulty t)"
  using assms template_difficulty_valid by (auto simp: read_template_def result_simps split: prod.splits)


section \<open>What the boundary keeps\<close>

definition pub_ok :: "publication \<Rightarrow> bool" where
  "pub_ok p \<longleftrightarrow>
     (case current_template p of None \<Rightarrow> True | Some t \<Rightarrow> tc_height t = current_height p) \<and>
     (issuance_allowed p \<longrightarrow> accepted_fence p = None \<and> list_all (\<lambda>c. current_height p \<le> snd c) (unresolved p))"

text \<open>The state at startup, and the steps of the threads that hold the boundary mutex.\<close>

definition start_publication :: "verifier option \<Rightarrow> publication" where
  "start_publication v = \<lparr>current_template = None, current_height = 0, template_generation = 0, accepted_fence = None,
     unresolved = [], issuance_allowed = True, active_seed = 0, pub_verifier = v, refresh_requested = False\<rparr>"

inductive pub_step :: "publication \<Rightarrow> publication \<Rightarrow> bool" where
  step_register: "register_candidate_boundary cid h p = Inr p' \<Longrightarrow> pub_step p p'"
| step_accept: "activate_accepted_candidate_fence h p = Inr p' \<Longrightarrow> pub_step p p'"
| step_release: "pub_step p (release_candidate_boundary cid p)"
| step_refresh: "pub_step p (snd (refresh_template env rel obs reason p))"

inductive pub_reachable :: "publication \<Rightarrow> bool" where
  pub_start: "pub_reachable (start_publication v)"
| pub_more: "pub_reachable p \<Longrightarrow> pub_step p p' \<Longrightarrow> pub_reachable p'"

lemma allowed_iff:
  "candidate_height_allowed p h \<longleftrightarrow>
     (\<forall>f. accepted_fence p = Some f \<longrightarrow> f < h) \<and> list_all (\<lambda>c. h \<le> snd c) (unresolved p)"
  by (simp add: candidate_height_allowed_def list_ex_iff list_all_iff not_le not_less split: option.splits)

text \<open>A template read from a reply, up to its number and its seed's identifier.\<close>

definition template_of :: "rpc_observation \<Rightarrow> string \<Rightarrow> template_context \<Rightarrow> bool" where
  "template_of obs reason t \<longleftrightarrow> (\<exists>t0 g sid. read_template obs reason = Inr t0 \<and> t = t0\<lparr>tc_generation := g, tc_seed_id := sid\<rparr>)"

lemma parse_template_frame:
  assumes "parse_template env obs reason p = (r, p')"
  shows "current_template p' = current_template p" "current_height p' = current_height p" "unresolved p' = unresolved p"
    "accepted_fence p' = accepted_fence p" "issuance_allowed p' \<Longrightarrow> issuance_allowed p"
    "r = Inr t \<Longrightarrow> template_of obs reason t"
proof -
  note d = assms [unfolded parse_template_def Let_def]
  show "current_template p' = current_template p" "current_height p' = current_height p" "unresolved p' = unresolved p"
    "accepted_fence p' = accepted_fence p" "issuance_allowed p' \<Longrightarrow> issuance_allowed p"
    using d by (auto split: sum.splits option.splits prod.splits if_splits)
  show "r = Inr t \<Longrightarrow> template_of obs reason t"
    using d by (auto simp: template_of_def split: sum.splits option.splits prod.splits if_splits)
qed

lemma refresh_cases:
  assumes "refresh_template env rel obs reason p = (r, p')"
  shows "(r \<noteq> Inr True \<and> current_template p' = current_template p \<and> current_height p' = current_height p \<and>
       unresolved p' = unresolved p \<and> accepted_fence p' = accepted_fence p \<and> (issuance_allowed p' \<longrightarrow> issuance_allowed p)) \<or>
     (\<exists>t. r = Inr True \<and> current_template p' = Some t \<and> current_height p' = tc_height t \<and> unresolved p' = unresolved p \<and>
       accepted_fence p' = None \<and> issuance_allowed p' \<and> candidate_height_allowed p (tc_height t) \<and>
       template_of obs reason t)"
proof -
  consider (early) "p' = p" "r \<noteq> Inr True"
    | (parsed) observed where "and_then (rpc_result obs) (\<lambda>j. positive_u64 j ''height'') = Inr observed" "candidate_height_allowed p observed"
    using assms by (auto simp: refresh_template_def split: sum.splits if_splits)
  then show ?thesis
  proof cases
    case parsed
    obtain q p1 where q: "parse_template env obs reason p = (q, p1)" by (cases "parse_template env obs reason p")
    note f = parse_template_frame [OF q]
    have "\<not> (case accepted_fence p1 of None \<Rightarrow> False | Some f \<Rightarrow> observed \<le> f)"
      using parsed(2) f(4) by (auto simp: allowed_iff split: option.splits)
    then show ?thesis using assms parsed f(1-5) f(6) [of "projr q"]
      by (auto simp: refresh_template_def q Let_def split: sum.splits if_splits option.splits)
  qed simp
qed

lemma pub_step_ok: "pub_step p p' \<Longrightarrow> pub_ok p \<Longrightarrow> pub_ok p'"
proof (induction rule: pub_step.induct)
  case (step_register cid h p p')
  have "x = (cid, h) \<or> x \<in> set (unresolved p)" if "x \<in> set (map_put cid h (unresolved p))" for x
    using that set_map_put_subset [of cid h "unresolved p"] by auto
  then have "list_all (\<lambda>c. current_height p \<le> snd c) (map_put cid h (unresolved p))"
    if "current_height p \<le> h" "list_all (\<lambda>c. current_height p \<le> snd c) (unresolved p)"
    using that unfolding list_all_iff by fastforce
  moreover have "p' = p\<lparr>unresolved := map_put cid h (unresolved p)\<rparr> \<and> current_height p \<le> h \<or>
      p' = p\<lparr>unresolved := map_put cid h (unresolved p), issuance_allowed := False\<rparr>"
    using step_register(1) by (auto simp: register_candidate_boundary_def Let_def split: if_splits)
  ultimately show ?case using step_register(2) unfolding pub_ok_def by (elim disjE conjE) (simp_all split: option.splits)
next
  case (step_accept h p p')
  then show ?case by (auto simp: activate_accepted_candidate_fence_def Let_def pub_ok_def split: if_splits option.splits)
next
  case (step_release p cid)
  have "list_all P (map_erase cid (unresolved p))" if "list_all P (unresolved p)" for P
    using that by (simp add: map_erase_def list_all_iff)
  then show ?case using step_release by (auto simp: release_candidate_boundary_def pub_ok_def split: option.splits)
next
  case (step_refresh p env rel obs reason)
  obtain r p' where "refresh_template env rel obs reason p = (r, p')" by (cases "refresh_template env rel obs reason p")
  then show ?case using refresh_cases [of env rel obs reason p r p'] step_refresh
    by (auto simp: pub_ok_def allowed_iff split: option.splits)
qed

lemma pub_reachable_ok: "pub_reachable p \<Longrightarrow> pub_ok p"
proof (induction rule: pub_reachable.induct)
  case (pub_start v)
  show ?case by (simp add: start_publication_def pub_ok_def)
qed (rule pub_step_ok)


section \<open>Properties\<close>

text \<open>
  The decimal text of a hexadecimal difficulty is exact: every text of one to 32 hexadecimal digits that
  is not zero becomes the canonical decimal text of the same number, which the target comparison
  accepts; every other text is refused.
\<close>

theorem decimal_from_hex_exact:
  "if text \<noteq> [] \<and> length text \<le> 32 \<and> list_all is_hex_char text \<and> hex_number text \<noteq> 0
   then \<exists>d. decimal_from_hex text = Inr d \<and> canonical_decimal d \<and> decimal_value d = hex_number text \<and>
     validate_network_difficulty d = Inr ()
   else \<exists>why. decimal_from_hex text = Inl (ValidationError why)"
  using decimal_from_hex_cases [of "text"] by (auto simp: valid_difficulty_iff) (auto simp: valid_difficulty_def)

text \<open>
  C21: a published template can be mined. Its height is the coinbase height and the hashing blob is the one the server
  computes itself; with any 16 bytes of entropy and any nonce the private block and its hashing
  blob can be built, and any hash can be compared with its difficulty.
\<close>

theorem published_template_is_minable:
  assumes "refresh_template env rel obs reason p = (Inr True, p')" and "length entropy = 16" and "length nonce = 4"
  shows "\<exists>t b b' hb. current_template p' = Some t \<and> Monero_Block.height (miner_transaction (tc_block t)) = tc_height t \<and>
    block_hashing_blob (tc_block t) = Inr (tc_hashing_blob t) \<and>
    mutate_reserved_bytes (tc_block t) (tc_reserved_offset t) entropy = Inr b \<and> insert_nonce b nonce = Inr b' \<and>
    block_hashing_blob b' = Inr hb \<and> (\<forall>hash. \<exists>answer. meets_network_target hash (tc_network_difficulty t) = Inr answer)"
proof -
  obtain t t0 where t: "current_template p' = Some t" "read_template obs reason = Inr t0"
    "tc_block t = tc_block t0" "tc_height t = tc_height t0" "tc_hashing_blob t = tc_hashing_blob t0"
    "tc_reserved_offset t = tc_reserved_offset t0" "tc_network_difficulty t = tc_network_difficulty t0"
    using refresh_cases [OF assms(1)] by (auto simp: template_of_def)
  note r = read_template_sound [OF t(2)]
  obtain d where d: "parse_block d = Inr (tc_block t)" using r(1) t(3) by auto
  obtain b where b: "mutate_reserved_bytes (tc_block t) (tc_reserved_offset t) entropy = Inr b"
    using mutate_reserved_parsed [OF d, of entropy "tc_reserved_offset t"] assms(2) r(4) t(3,6) by (auto split: if_splits)
  obtain d' where d': "parse_block d' = Inr b" using b by (auto simp: mutate_reserved_bytes_def split: if_splits)
  obtain b' hb where "insert_nonce b nonce = Inr b'" "block_hashing_blob b' = Inr hb"
    using insert_nonce_parsed [OF d' assms(3)] by blast
  moreover obtain l where "parse_decimal_uint128 (tc_network_difficulty t) = Inr l"
    using r(6) t(7) valid_difficulty_iff by (auto simp: validate_network_difficulty_def result_simps)
  ultimately show ?thesis using t b r(2,3) by (auto simp: meets_network_target_def)
qed

text \<open>A reply with the sample block of the parser, and the publication of its template without a verifier.\<close>

definition sample_reply :: rpc_observation where
  "sample_reply = \<lparr>obs_valid = True, obs_document = JObject [(''result'', JObject
     [(''status'', JString ''OK''), (''height'', JUnsigned 10), (''reserved_offset'', JUnsigned 48),
      (''blocktemplate_blob'', JString (hex_encode sample_blob)),
      (''blockhashing_blob'', JString (hex_encode (projr (block_hashing_blob sample_block)))),
      (''prev_hash'', JString (hex_encode (previous_hash sample_block))), (''seed_hash'', JString (hex_encode (replicate 32 7))),
      (''wide_difficulty'', JString ''0x1f'')])]\<rparr>"

definition sample_env :: seed_env where
  "sample_env = \<lparr>se_info = (\<lambda>_. sample_info), se_release = (\<lambda>_. MSPV_OK), se_released = (\<lambda>_. (MSPV_OK, MSPV_OK)),
     se_prepare = (sample_info, (MSPV_OK, 1)), se_ready = (MSPV_OK, sample_info),
     se_activate = (sample_info, MSPV_OK, MSPV_OK), se_next = (sample_info, (MSPV_OK, 2))\<rparr>"

definition sample_published :: publication where
  "sample_published = snd (refresh_template sample_env MSPV_OK sample_reply ''startup'' (start_publication None))"

lemma hex_encode_text: "nul \<notin> set (hex_encode bs)"
proof -
  have "kHex ! n \<noteq> nul" if "n < 16" for n
  proof -
    have "\<forall>n \<in> set [0..<16]. kHex ! n \<noteq> nul" by code_simp
    then show ?thesis using that by simp
  qed
  then have "nul \<notin> set (hex_digits_of b)" for b using nibble_bound [of b] by (auto simp: hex_digits_of_def dest: sym)
  then show ?thesis by (simp add: hex_encode_def)
qed

lemma hex_decode_encode: "hex_decode (hex_encode bs) = Inr bs"
  by (simp add: hex_decode_def hex_decode_pairs_encode length_hex_encode)

lemma hex_decode_exact_encode: "length bs = n \<Longrightarrow> n \<le> (2 ^ 64 - 1) div 2 \<Longrightarrow> hex_decode_exact (hex_encode bs) n = Inr bs"
  by (simp add: hex_decode_exact_def hex_decode_encode length_hex_encode)

lemma hex_encode_nonempty: "hex_encode bs = [] \<longleftrightarrow> bs = []"
  using length_hex_encode [of bs] by (metis length_0_conv mult_is_0 numeral_eq_iff zero_neq_numeral)

lemma sample_refresh: "refresh_template sample_env MSPV_OK sample_reply ''startup'' (start_publication None) = (Inr True, sample_published)"
proof -
  obtain hb where hb: "block_hashing_blob sample_block = Inr hb" using insert_nonce_parsed [OF parse_sample, of "[1, 2, 3, 4]"] by auto
  have "hb \<noteq> []" using hb by (auto simp: block_hashing_blob_def Let_def result_simps sample_block_def split: if_splits)
  moreover have "hex_decode (hex_encode sample_blob) = Inr sample_blob" "hex_encode sample_blob \<noteq> []" "sample_blob \<noteq> []"
    by (simp_all add: hex_decode_def hex_decode_pairs_encode length_hex_encode sample_blob_def flip: length_greater_0_conv)
  moreover have "wide_difficulty ''0x1f'' = Inr (''31'', Some ''1f'')" by code_simp
  moreover have "Monero_Block.height (miner_transaction sample_block) = 10" by (simp add: sample_block_def)
  moreover have "length (previous_hash sample_block) = 32" "previous_hash sample_block \<noteq> []" by (simp_all add: sample_block_def)
  ultimately have "\<exists>t. read_template sample_reply ''startup'' = Inr t \<and> tc_height t = 10"
    using parse_sample sample_guard hb
    by (simp add: read_template_def sample_reply_def rpc_result_def jfind_def required_string_def positive_u64_def next_seed_def
        template_difficulty_def hex_encode_text hex_decode_encode hex_decode_exact_encode hex_encode_nonempty)
  then obtain t where t: "read_template sample_reply ''startup'' = Inr t" "tc_height t = 10" by blast
  have h: "and_then (rpc_result sample_reply) (\<lambda>j. positive_u64 j ''height'') = Inr 10"
    by (simp add: sample_reply_def rpc_result_def jfind_def positive_u64_def)
  have "fst (refresh_template sample_env MSPV_OK sample_reply ''startup'' (start_publication None)) = Inr True"
    by (simp add: refresh_template_def h parse_template_def t start_publication_def candidate_height_allowed_def)
  then show ?thesis by (simp add: sample_published_def prod_eq_iff)
qed

theorem published_template_is_minable_witness:
  "\<exists>t b. current_template sample_published = Some t \<and>
     mutate_reserved_bytes (tc_block t) (tc_reserved_offset t) (replicate 16 5) = Inr b"
  using published_template_is_minable [OF sample_refresh, of "replicate 16 5" "[1, 2, 3, 4]"] by fastforce

text \<open>
  C10: the publication boundary. In every reachable state in which jobs may be issued, no accepted block is waiting
  for the daemon to move on and the offered template is at most as high as every unresolved
  candidate; a newly published template is above the fence of an accepted block.
\<close>

theorem publication_respects_candidates:
  assumes "pub_reachable p"
  shows "(issuance_allowed p \<and> current_template p = Some t \<longrightarrow>
      accepted_fence p = None \<and> (\<forall>c \<in> set (unresolved p). tc_height t \<le> snd c)) \<and>
    (\<forall>env rel obs reason p'. refresh_template env rel obs reason p = (Inr True, p') \<longrightarrow>
      (\<forall>f. accepted_fence p = Some f \<longrightarrow> f < current_height p') \<and> (\<forall>c \<in> set (unresolved p). current_height p' \<le> snd c))"
proof
  show "issuance_allowed p \<and> current_template p = Some t \<longrightarrow>
      accepted_fence p = None \<and> (\<forall>c \<in> set (unresolved p). tc_height t \<le> snd c)"
  proof
    assume "issuance_allowed p \<and> current_template p = Some t"
    then show "accepted_fence p = None \<and> (\<forall>c \<in> set (unresolved p). tc_height t \<le> snd c)"
      using pub_reachable_ok [OF assms] by (simp add: pub_ok_def list_all_iff)
  qed
  show "\<forall>env rel obs reason p'. refresh_template env rel obs reason p = (Inr True, p') \<longrightarrow>
      (\<forall>f. accepted_fence p = Some f \<longrightarrow> f < current_height p') \<and> (\<forall>c \<in> set (unresolved p). current_height p' \<le> snd c)"
  proof (intro allI impI)
    fix env rel obs reason p' assume "refresh_template env rel obs reason p = (Inr True, p')"
    from refresh_cases [OF this] show "(\<forall>f. accepted_fence p = Some f \<longrightarrow> f < current_height p') \<and>
        (\<forall>c \<in> set (unresolved p). current_height p' \<le> snd c)" by (elim disjE exE conjE) (simp_all add: allowed_iff list_all_iff)
  qed
qed

theorem publication_respects_candidates_witness:
  "pub_reachable sample_published \<and> issuance_allowed sample_published \<and> accepted_fence sample_published = None"
proof -
  have r: "pub_reachable sample_published"
    unfolding sample_published_def by (rule pub_more [OF pub_start step_refresh])
  have i: "issuance_allowed sample_published" using refresh_cases [OF sample_refresh] by auto
  obtain t where "current_template sample_published = Some t"
    using refresh_cases [OF sample_refresh] by auto
  then show ?thesis using publication_respects_candidates [OF r, of t] r i by blast
qed

text \<open>
  C23: with a seed active, a template with another seed does not suspend the issuance of jobs while that seed
  is prepared, whatever seeds are resident.
\<close>

theorem seed_change_keeps_issuance:
  assumes "active \<noteq> 0"
  shows "\<not> fst (snd (prepare_template_seed env active seed next_hash v))"
proof -
  have "\<not> actual_seed_differs active seed rs" for rs
    unfolding actual_seed_differs_def using assms by (induction rs rule: rev_induct) simp_all
  then show ?thesis by (simp add: prepare_template_seed_def Let_def split: prod.split sum.split)
qed


theorem seed_change_keeps_issuance_witness:
  "(1 :: u64) \<noteq> 0 \<and>
   \<not> fst (snd (prepare_template_seed sample_env 1 (replicate 32 9) None
     (projr (make_verifier MSPV_OK MSPV_OK MSPV_OK MSPV_OK MSPV_OK Verifier.sample_config))))"
proof
  show "(1 :: u64) \<noteq> 0" by simp
  then show "\<not> fst (snd (prepare_template_seed sample_env 1 (replicate 32 9) None
     (projr (make_verifier MSPV_OK MSPV_OK MSPV_OK MSPV_OK MSPV_OK Verifier.sample_config))))"
    by (rule seed_change_keeps_issuance)
qed

end
