(* ===== verification/Jobs.thy ===== *)
theory Jobs
  imports Template Duplicate_Registry Mailbox Defense "HOL-Library.Multiset"
begin

text \<open>
  Private jobs and what keeps them alive (src/runtime/runtime.cpp): the table of jobs and the history
  of each connection, \<open>make_job\<close> with its rollback, the lease that a submission holds while it waits
  and is verified, the retirement of jobs, and the connection events. A job, a lease and a candidate
  task each hold one reference on the duplicate bucket of their connection and height.
\<close>

section \<open>State\<close>

text \<open>
  Two members of a job are written after its creation: the worker, of which a lease takes a copy at
  admission, and \<open>duplicate_bucket_retained\<close>, which only retirement and the rollback read. So a job is a value.
\<close>

record job_context =
  jc_local_id :: u64
  jc_public_id :: bytes
  jc_entropy :: bytes
  jc_connection :: string
  jc_connection_id :: int
  jc_source :: u64
  jc_worker :: "int option"
  jc_generation :: u64
  jc_template :: template_context
  jc_height :: u64
  jc_seed_id :: u64
  jc_difficulty :: u64
  jc_target64 :: u64
  jc_network :: string
  jc_created :: int
  jc_expires :: int
  jc_retained :: bool

record job_lease =
  lease_job :: "job_context option"
  lease_connection :: int
  lease_worker :: "int option"
  lease_seed_retained :: bool
  lease_height_retained :: bool

record candidate_task =
  ct_candidate_id :: int
  ct_share_id :: int
  ct_job_public_id :: bytes
  ct_connection_id :: int
  ct_source :: u64
  ct_height :: u64
  ct_peer :: peer_address
  ct_frozen_block :: bytes
  ct_key :: bytes
  ct_miner_tx_hash :: bytes
  ct_expected_block_id :: "bytes option"
  ct_max_attempts :: u32
  ct_attempt_count :: u32
  ct_reconciliation_cycle :: u32
  ct_terminal_cycle :: u32
  ct_created :: int
  ct_reconciliation_only :: bool
  ct_quick :: bool
  ct_resume :: bool
  ct_not_before :: int
  ct_holds_height :: bool
  ct_holds_inflight :: bool

record deferred_close =
  dc_connection_id :: int
  dc_closed :: int
  dc_reason :: string

text \<open>
  The members of \<open>Runtime\<close> that jobs and shares use. Unordered maps are only searched. Leases have
  numbers in place of the addresses of their owners, \<open>retiring\<close> holds the jobs that a thread has taken
  out of the table and not yet retired, and \<open>issued\<close> remembers every entropy with its connection and height.
\<close>

record runtime =
  pub :: publication
  registry :: dup_registry
  jobs :: "(string, job_context) std_map"
  connection_jobs :: "(string, string list) std_map"
  connection_ids :: "(string, int) std_map"
  worker_ids :: "(string, int) std_map"
  pending_verifications :: "(string, nat) std_map"
  accepted_submits :: "(string, nat) std_map"
  deferred_closes :: "(string, deferred_close) std_map"
  next_job_id :: u64
  leases :: "(nat, job_lease) std_map"
  next_lease :: nat
  retiring :: "job_context list"
  issued :: "(bytes \<times> u64 \<times> u64) list"
  tasks :: "candidate_task list"
  completions :: mailbox
  engine :: defense
  internal_failure :: bool
  running :: bool
  database_operational :: bool
  runtime_error :: "error option"

definition mark_database_unavailable :: "runtime \<Rightarrow> runtime" where
  "mark_database_unavailable rt = rt\<lparr>database_operational := False, internal_failure := True, running := False\<rparr>"

definition stop_mining :: "runtime \<Rightarrow> runtime" where
  "stop_mining rt = rt\<lparr>internal_failure := True, running := False\<rparr>"

text \<open>A call of the verifier, when there is one.\<close>

definition with_verifier :: "(verifier \<Rightarrow> mspv_status \<times> verifier) \<Rightarrow> runtime \<Rightarrow> mspv_status \<times> runtime" where
  "with_verifier f rt =
     (case pub_verifier (pub rt) of None \<Rightarrow> (MSPV_OK, rt)
      | Some v \<Rightarrow> let (st, v) = f v in (st, rt\<lparr>pub := (pub rt)\<lparr>pub_verifier := Some v\<rparr>\<rparr>))"

text \<open>The mode of the process: with a verifier or without one, \<open>verifier_\<close> as a boolean.\<close>

definition has_verifier :: "runtime \<Rightarrow> bool" where
  "has_verifier rt \<longleftrightarrow> pub_verifier (pub rt) \<noteq> None"

section \<open>Creating a job\<close>

text \<open>
  The body of the inner \<open>try\<close>: numbering the job, its fields, and the reference on its bucket. The
  result is the job and the work for the miner.
\<close>

definition new_job ::
    "int \<Rightarrow> int \<Rightarrow> bytes \<Rightarrow> bytes \<Rightarrow> bytes \<Rightarrow> miner_connection \<Rightarrow> int \<Rightarrow> int option \<Rightarrow> template_context \<Rightarrow> u64 \<Rightarrow>
     (job_context \<times> stratum_job) result" where
  "new_job now ttl_ms entropy jid hashing conn cid worker t local_id =
     (if local_id = 0 then Inl (ValidationError ''process-local job id overflow'')
      else
     and_then (share_target64 (assigned_difficulty conn)) (\<lambda>target.
     and_then (share_target_hex (assigned_difficulty conn)) (\<lambda>target_hex.
     Inr (\<lparr>jc_local_id = local_id, jc_public_id = jid, jc_entropy = entropy, jc_connection = public_id conn,
           jc_connection_id = cid, jc_source = of_int cid, jc_worker = worker, jc_generation = tc_generation t,
           jc_template = t, jc_height = tc_height t, jc_seed_id = tc_seed_id t, jc_difficulty = assigned_difficulty conn,
           jc_target64 = target, jc_network = tc_network_difficulty t, jc_created = now,
           jc_expires = now + ttl_ms * 1000, jc_retained = True\<rparr>,
          \<lparr>job_blob = hex_encode hashing, job_id = hex_encode jid, job_target = target_hex,
           job_seed_hash = hex_encode (tc_seed_hash t), job_height = tc_height t,
           network_difficulty = tc_network_difficulty t\<rparr>))))"

text \<open>\<open>jobs_.emplace\<close> and the front of the history.\<close>

definition install_job :: "job_context \<Rightarrow> runtime \<Rightarrow> runtime" where
  "install_job j rt =
     (let key = hex_encode (jc_public_id j);
          old = (case map_of (connection_jobs rt) (jc_connection j) of None \<Rightarrow> [] | Some ids \<Rightarrow> ids) in
      rt\<lparr>jobs := map_put key j (jobs rt),
         connection_jobs := map_put (jc_connection j) (key # old) (connection_jobs rt)\<rparr>)"

definition release_bucket :: "job_context \<Rightarrow> runtime \<Rightarrow> runtime" where
  "release_bucket j rt =
     (let r = snd (retire_height (registry rt) (jc_source j) (jc_height j)) in
      rt\<lparr>registry := snd (release_height r (jc_source j) (jc_height j))\<rparr>)"

text \<open>The scope guard: the bucket if it was retained, then the seed; a failure stops the process.\<close>

definition rollback_job :: "mspv_status \<Rightarrow> job_context option \<Rightarrow> u64 \<Rightarrow> runtime \<Rightarrow> runtime" where
  "rollback_job rel retained sid rt =
     (let rt = (case retained of None \<Rightarrow> rt | Some j \<Rightarrow> release_bucket j rt);
          (st, rt) = with_verifier (drop_seed_reference rel sid) rt in
      if st \<noteq> MSPV_OK then mark_database_unavailable rt else rt)"

definition finish_job ::
    "mspv_status \<Rightarrow> (job_context \<times> stratum_job) result \<Rightarrow> template_context \<Rightarrow> runtime \<Rightarrow> stratum_job option \<times> runtime" where
  "finish_job rel made t rt =
     (case made of
        Inl e \<Rightarrow> (None, (rollback_job rel None (tc_seed_id t) (stop_mining rt))\<lparr>runtime_error := Some e\<rparr>)
      | Inr (j, work) \<Rightarrow>
        let rt = rt\<lparr>registry := retain_height (registry rt) (jc_source j) (jc_height j)\<rparr> in
        if map_has (jobs rt) (job_id work)
        then (None, (mark_database_unavailable (rollback_job rel (Some j) (tc_seed_id t) rt))
               \<lparr>runtime_error := Some (DatabaseError ''private job identity already exists in runtime state'')\<rparr>)
        else (Some work, install_job j (rt\<lparr>issued := (jc_entropy j, jc_source j, jc_height j) # issued rt\<rparr>)))"

text \<open>
  \<open>make_job\<close>. The two random values, the clock, the time to live and the answer to a dropped seed
  reference are arguments; \<open>entropy\<close> and \<open>jid\<close> are exceptions of the generator or 16 bytes.
\<close>

definition make_job ::
    "int \<Rightarrow> int \<Rightarrow> bytes result \<Rightarrow> bytes result \<Rightarrow> mspv_status \<Rightarrow> miner_connection \<Rightarrow> runtime \<Rightarrow> stratum_job option \<times> runtime" where
  "make_job now ttl_ms entropy jid rel conn rt =
     (if \<not> issuance_allowed (pub rt) then (None, rt)
      else
        let cid = (case map_of (connection_ids rt) (public_id conn) of None \<Rightarrow> 0 | Some i \<Rightarrow> i);
            worker = map_of (worker_ids rt) (public_id conn) in
        case current_template (pub rt) of None \<Rightarrow> (None, rt)
        | Some t \<Rightarrow>
          if cid \<le> 0 then (None, rt)
          else
            (case and_then entropy (\<lambda>e. and_then jid (\<lambda>i.
                   and_then (mutate_reserved_bytes (tc_block t) (tc_reserved_offset t) e) (\<lambda>b.
                   and_then (block_hashing_blob b) (\<lambda>hashing. Inr (e, i, hashing))))) of
               Inl err \<Rightarrow> (None, rt\<lparr>runtime_error := Some err\<rparr>)
             | Inr (e, i, hashing) \<Rightarrow>
               let (st, rt) = with_verifier (retain_seed (tc_seed_id t)) rt in
               if st \<noteq> MSPV_OK then (None, rt)
               else let local_id = next_job_id rt + 1; rt = rt\<lparr>next_job_id := local_id\<rparr> in
                 finish_job rel (new_job now ttl_ms e i hashing conn cid worker t local_id) t rt))"

section \<open>Retiring jobs\<close>

definition retire_job_context :: "mspv_status \<Rightarrow> job_context \<Rightarrow> runtime \<Rightarrow> runtime" where
  "retire_job_context rel j rt =
     (let rt = (if jc_retained j then release_bucket j rt else rt) in
      snd (with_verifier (drop_seed_reference rel (jc_seed_id j)) rt))"

text \<open>The loop of \<open>on_queued\<close> over the history of a connection: obsolete jobs leave the table and the history.\<close>

fun split_history ::
    "u64 \<Rightarrow> string list \<Rightarrow> (string, job_context) std_map \<Rightarrow> string list \<times> job_context list \<times> (string, job_context) std_map" where
  "split_history h [] table = ([], [], table)"
| "split_history h (i # ids) table =
     (case map_of table i of
        Some j \<Rightarrow>
          if jc_height j < h
          then let (kept, gone, table) = split_history h ids (map_erase i table) in (kept, j # gone, table)
          else let (kept, gone, table) = split_history h ids table in (i # kept, gone, table)
      | None \<Rightarrow> let (kept, gone, table) = split_history h ids table in (i # kept, gone, table))"

definition take_obsolete :: "string \<Rightarrow> u64 \<Rightarrow> runtime \<Rightarrow> runtime" where
  "take_obsolete conn h rt =
     (case map_of (connection_jobs rt) conn of None \<Rightarrow> rt
      | Some ids \<Rightarrow>
        let (kept, gone, table) = split_history h ids (jobs rt) in
        rt\<lparr>jobs := table, connection_jobs := map_put conn kept (connection_jobs rt), retiring := retiring rt @ gone\<rparr>)"

text \<open>One round of the loops that retire a list of jobs: the job leaves \<open>retiring\<close> and gives up its references.\<close>

definition retire_taken :: "mspv_status \<Rightarrow> job_context \<Rightarrow> runtime \<Rightarrow> runtime" where
  "retire_taken rel j rt = retire_job_context rel j (rt\<lparr>retiring := remove1 j (retiring rt)\<rparr>)"

text \<open>
  \<open>on_queued\<close>: the height sent to the connection is stored, then the obsolete jobs are retired. \<open>stored\<close>
  is the answer of the database; a failure stops the process and leaves the jobs unretired.
\<close>

definition job_queued :: "mspv_status \<Rightarrow> unit result \<Rightarrow> string \<Rightarrow> u64 \<Rightarrow> runtime \<Rightarrow> unit result \<times> runtime" where
  "job_queued rel stored conn h rt =
     (let before = length (retiring rt); rt = take_obsolete conn h rt in
      case stored of Inl e \<Rightarrow> (Inl e, mark_database_unavailable rt)
      | Inr _ \<Rightarrow> (Inr (), fold (retire_taken rel) (drop before (retiring rt)) rt))"

section \<open>Leases\<close>

definition add_lease :: "job_lease \<Rightarrow> runtime \<Rightarrow> nat \<times> runtime" where
  "add_lease l rt = (next_lease rt, rt\<lparr>leases := map_put (next_lease rt) l (leases rt), next_lease := next_lease rt + 1\<rparr>)"

text \<open>The constructor of \<open>JobLease\<close> for an admitted job.\<close>

definition job_lease_of :: "job_context \<Rightarrow> runtime \<Rightarrow> nat result \<times> runtime" where
  "job_lease_of j rt =
     (let (st, rt) = with_verifier (retain_seed (jc_seed_id j)) rt in
      if st \<noteq> MSPV_OK then (Inl (ValidationError ''verifier could not retain the admitted job seed''), rt)
      else let rt = rt\<lparr>registry := retain_height (registry rt) (jc_source j) (jc_height j)\<rparr>;
               (i, rt) = add_lease \<lparr>lease_job = Some j, lease_connection = jc_connection_id j, lease_worker = jc_worker j,
                 lease_seed_retained = (pub_verifier (pub rt) \<noteq> None), lease_height_retained = True\<rparr> rt in
        (Inr i, rt))"

definition drop_lease :: "mspv_status \<Rightarrow> nat \<Rightarrow> runtime \<Rightarrow> runtime" where
  "drop_lease rel i rt =
     (case map_of (leases rt) i of None \<Rightarrow> rt
      | Some l \<Rightarrow>
        let rt = rt\<lparr>leases := map_erase i (leases rt)\<rparr> in
        case lease_job l of None \<Rightarrow> rt
        | Some j \<Rightarrow>
          let rt = (if lease_height_retained l
                    then rt\<lparr>registry := snd (release_height (registry rt) (jc_source j) (jc_height j))\<rparr> else rt) in
          if lease_seed_retained l then snd (with_verifier (drop_seed_reference rel (jc_seed_id j)) rt) else rt)"

text \<open>Whether a job of the table is refused: it is neither the newest one, nor of the height last sent, nor within its time.\<close>

definition job_lapsed :: "runtime \<Rightarrow> string \<Rightarrow> string \<Rightarrow> u64 \<Rightarrow> int \<Rightarrow> job_context \<Rightarrow> bool" where
  "job_lapsed rt conn jid latest received j \<longleftrightarrow>
     \<not> (map_has (connection_ids rt) conn \<and>
        (case map_of (connection_jobs rt) conn of Some (front # _) \<Rightarrow> front = jid | _ \<Rightarrow> False)) \<and>
     latest \<noteq> jc_height j \<and> received \<ge> jc_expires j"

definition admit_submission ::
    "string \<Rightarrow> string \<Rightarrow> u64 \<Rightarrow> int \<Rightarrow> runtime \<Rightarrow> (nat \<times> string) result \<times> runtime" where
  "admit_submission conn jid latest received rt =
     (case map_of (connection_ids rt) conn of
        None \<Rightarrow> (Inl (DatabaseError ''submission admission has no durable connection''), mark_database_unavailable rt)
      | Some cid \<Rightarrow>
        let unknown = (let (i, rt) = add_lease \<lparr>lease_job = None, lease_connection = cid,
                         lease_worker = map_of (worker_ids rt) conn, lease_seed_retained = False,
                         lease_height_retained = False\<rparr> rt in (Inr (i, []), rt)) in
        case map_of (jobs rt) jid of None \<Rightarrow> unknown
        | Some j \<Rightarrow>
          if jc_connection j \<noteq> conn \<or> job_lapsed rt conn jid latest received j then unknown
          else (case job_lease_of j rt of
            (Inl e, rt) \<Rightarrow> (Inl e, rt)
          | (Inr i, rt) \<Rightarrow> (Inr (i, jc_network j), rt)))"

section \<open>Connection events\<close>

text \<open>The state of a connection is dropped; the identifiers of its jobs are returned.\<close>

definition forget_connection :: "string \<Rightarrow> runtime \<Rightarrow> string list \<times> runtime" where
  "forget_connection conn rt =
     ((case map_of (connection_jobs rt) conn of None \<Rightarrow> [] | Some ids \<Rightarrow> ids),
      rt\<lparr>connection_ids := map_erase conn (connection_ids rt), worker_ids := map_erase conn (worker_ids rt),
         pending_verifications := map_erase conn (pending_verifications rt),
         connection_jobs := map_erase conn (connection_jobs rt)\<rparr>)"

definition take_job :: "string \<Rightarrow> runtime \<Rightarrow> runtime" where
  "take_job jid rt =
     (case map_of (jobs rt) jid of None \<Rightarrow> rt
      | Some j \<Rightarrow> rt\<lparr>jobs := map_erase jid (jobs rt), retiring := retiring rt @ [j]\<rparr>)"

definition retire_id :: "mspv_status \<Rightarrow> string \<Rightarrow> runtime \<Rightarrow> runtime" where
  "retire_id rel jid rt =
     (case map_of (jobs rt) jid of None \<Rightarrow> rt | Some j \<Rightarrow> retire_taken rel j (take_job jid rt))"

definition set_worker :: "int \<Rightarrow> string list \<Rightarrow> (string, job_context) std_map \<Rightarrow> (string, job_context) std_map" where
  "set_worker w ids table =
     foldl (\<lambda>table i. case map_of table i of None \<Rightarrow> table | Some j \<Rightarrow> map_put i (j\<lparr>jc_worker := Some w\<rparr>) table) table ids"

datatype connection_event =
    Conn_Opened | Submit_Queued | Submit_Completed | Conn_Authenticated | Conn_Closed string

text \<open>
  \<open>observe_connection\<close>. The answers of the database are arguments: the identifier of an opened connection,
  that of an authenticated worker, and whether the close was stored. An exception stops the process.
\<close>

record event_env =
  ev_now :: int
  ev_opened :: "int result"
  ev_worker :: "int result"
  ev_closed :: "unit result"
  ev_release :: mspv_status

definition observer_failed :: "error \<Rightarrow> runtime \<Rightarrow> runtime" where
  "observer_failed e rt = (mark_database_unavailable rt)\<lparr>runtime_error := Some e\<rparr>"

definition close_recorded :: "event_env \<Rightarrow> runtime \<Rightarrow> runtime" where
  "close_recorded env rt = (case ev_closed env of Inl e \<Rightarrow> observer_failed e rt | Inr _ \<Rightarrow> rt)"

definition submit_completed :: "event_env \<Rightarrow> string \<Rightarrow> runtime \<Rightarrow> runtime" where
  "submit_completed env conn rt =
     (case map_of (accepted_submits rt) conn of None \<Rightarrow> rt
      | Some n \<Rightarrow>
        if n > 1 then rt\<lparr>accepted_submits := map_put conn (n - 1) (accepted_submits rt)\<rparr>
        else let rt = rt\<lparr>accepted_submits := map_erase conn (accepted_submits rt)\<rparr> in
          case map_of (deferred_closes rt) conn of None \<Rightarrow> rt
          | Some d \<Rightarrow>
            let (ids, rt) = forget_connection conn (rt\<lparr>deferred_closes := map_erase conn (deferred_closes rt)\<rparr>) in
            close_recorded env (fold (retire_id (ev_release env)) ids rt))"

definition connection_closed :: "event_env \<Rightarrow> string \<Rightarrow> int \<Rightarrow> string \<Rightarrow> runtime \<Rightarrow> runtime" where
  "connection_closed env conn cid reason rt =
     (if map_has (accepted_submits rt) conn
      then rt\<lparr>deferred_closes := map_put conn \<lparr>dc_connection_id = cid, dc_closed = ev_now env, dc_reason = reason\<rparr> (deferred_closes rt)\<rparr>
      else let (ids, rt) = forget_connection conn rt in
        close_recorded env (fold (retire_id (ev_release env)) ids rt))"

definition observe_connection :: "event_env \<Rightarrow> string \<Rightarrow> connection_event \<Rightarrow> runtime \<Rightarrow> runtime" where
  "observe_connection env conn event rt =
     (case event of
        Conn_Opened \<Rightarrow>
          (case and_then (hex_decode_exact conn 16) (\<lambda>_. ev_opened env) of Inl e \<Rightarrow> observer_failed e rt
           | Inr cid \<Rightarrow> rt\<lparr>deferred_closes := map_erase conn (deferred_closes rt),
                           connection_ids := map_put conn cid (connection_ids rt)\<rparr>)
      | Submit_Queued \<Rightarrow>
          rt\<lparr>accepted_submits := map_put conn
               ((case map_of (accepted_submits rt) conn of None \<Rightarrow> 0 | Some n \<Rightarrow> n) + 1) (accepted_submits rt)\<rparr>
      | Submit_Completed \<Rightarrow> submit_completed env conn rt
      | Conn_Authenticated \<Rightarrow>
          (case map_of (connection_ids rt) conn of None \<Rightarrow> rt
           | Some cid \<Rightarrow>
             if cid \<le> 0 then rt
             else case ev_worker env of Inl e \<Rightarrow> observer_failed e rt
             | Inr w \<Rightarrow>
               let rt = rt\<lparr>worker_ids := map_put conn w (worker_ids rt)\<rparr> in
               (case map_of (connection_jobs rt) conn of None \<Rightarrow> rt
                | Some ids \<Rightarrow> rt\<lparr>jobs := set_worker w ids (jobs rt)\<rparr>))
      | Conn_Closed reason \<Rightarrow>
          (case map_of (connection_ids rt) conn of None \<Rightarrow> rt
           | Some cid \<Rightarrow> if cid \<le> 0 then rt else connection_closed env conn cid reason rt))"

section \<open>References on buckets\<close>

text \<open>
  What jobs, leases and tasks rely on: a store of keys in buckets, each bucket with a number of
  references. Keys leave a bucket only when nothing refers to it any more.
\<close>

definition bump :: "'b \<Rightarrow> ('b \<Rightarrow> nat) \<Rightarrow> 'b \<Rightarrow> nat" where
  "bump b n = n(b := n b + 1)"

definition unbump :: "'b \<Rightarrow> ('b \<Rightarrow> nat) \<Rightarrow> 'b \<Rightarrow> nat" where
  "unbump b n = n(b := n b - 1)"

lemma bump_apply [simp]: "bump b n c = (if c = b then n b + 1 else n c)"
  by (simp add: bump_def)

lemma unbump_apply [simp]: "unbump b n c = (if c = b then n b - 1 else n c)"
  by (simp add: unbump_def)

locale counted_buckets =
  fixes retain :: "'b \<Rightarrow> 'r \<Rightarrow> 'r"
    and retire :: "'b \<Rightarrow> 'r \<Rightarrow> 'r"
    and give_up :: "'b \<Rightarrow> 'r \<Rightarrow> 'r"
    and lookup :: "'r \<Rightarrow> 'k \<Rightarrow> 'e option"
    and place :: "'e \<Rightarrow> 'b"
    and counted :: "'r \<Rightarrow> ('b \<Rightarrow> nat) \<Rightarrow> bool"
    and limit :: nat
  assumes retain_counted: "counted r n \<Longrightarrow> counted (retain b r) (bump b n)"
    and retain_lookup: "lookup (retain b r) = lookup r"
    and retire_counted: "counted r n \<Longrightarrow> counted (retire b r) n"
    and retire_lookup: "counted r n \<Longrightarrow> 0 < n b \<Longrightarrow> n b < limit \<Longrightarrow> lookup (retire b r) = lookup r"
    and give_up_counted: "counted r n \<Longrightarrow> 0 < n b \<Longrightarrow> n b < limit \<Longrightarrow> counted (give_up b r) (unbump b n)"
    and give_up_sub: "counted r n \<Longrightarrow> lookup (give_up b r) \<subseteq>\<^sub>m lookup r"
    and give_up_keeps: "counted r n \<Longrightarrow> 0 < n b \<Longrightarrow> n b < limit \<Longrightarrow> lookup r k = Some e \<Longrightarrow>
      0 < unbump b n (place e) \<Longrightarrow> lookup (give_up b r) k = Some e"
begin

lemma retire_give_up:
  assumes "counted r n" and "0 < n b" and "n b < limit"
  shows "counted (give_up b (retire b r)) (unbump b n) \<and> lookup (give_up b (retire b r)) \<subseteq>\<^sub>m lookup r \<and>
    (\<forall>k e. lookup r k = Some e \<longrightarrow> 0 < unbump b n (place e) \<longrightarrow> lookup (give_up b (retire b r)) k = Some e)"
proof -
  have c: "counted (retire b r) n" and l: "lookup (retire b r) = lookup r"
    using retire_counted [OF assms(1)] retire_lookup [OF assms] by auto
  show ?thesis using give_up_counted [OF c assms(2,3)] give_up_sub [OF c, of b] give_up_keeps [OF c assms(2,3)]
    unfolding l by blast
qed

lemma retain_give_up:
  assumes "counted r n" and "n b + 1 < limit"
  shows "counted (give_up b (retire b (retain b r))) n \<and>
    (\<forall>k e. lookup r k = Some e \<longrightarrow> 0 < n (place e) \<longrightarrow> lookup (give_up b (retire b (retain b r))) k = Some e)"
proof -
  have "counted (retain b r) (bump b n)" by (rule retain_counted [OF assms(1)])
  moreover have "unbump b (bump b n) = n" by (simp add: fun_eq_iff)
  ultimately show ?thesis using retire_give_up [of "retain b r" "bump b n" b] assms(2) by (simp add: retain_lookup)
qed

end

definition refs_at :: "dup_registry \<Rightarrow> u64 \<times> u64 \<Rightarrow> u64" where
  "refs_at r b = external_references (bucket_at r (fst b) (snd b))"

definition counted :: "dup_registry \<Rightarrow> (u64 \<times> u64 \<Rightarrow> nat) \<Rightarrow> bool" where
  "counted r n \<longleftrightarrow> reg_inv r \<and> (\<forall>b. refs_at r b = of_nat (n b))"

definition place :: "dup_entry \<Rightarrow> u64 \<times> u64" where
  "place e = (entry_source e, entry_height e)"

definition key_at :: "dup_registry \<Rightarrow> duplicate_key \<Rightarrow> dup_entry option" where
  "key_at r = map_of (entries r)"

lemma counted_inv: "counted r n \<Longrightarrow> reg_inv r"
  by (simp add: counted_def)

lemma collect_refs: "refs_at (snd (collect_bucket r s h)) b = refs_at r b"
proof (cases "retired (bucket_at r s h) \<and> external_references (bucket_at r s h) = 0")
  case True
  have "buckets (snd (collect_keys s ks r)) = buckets r" for ks
    by (induction ks arbitrary: r) (auto simp: case_prod_beta Let_def split: option.splits)
  then show ?thesis using True
    by (auto simp: refs_at_def collect_bucket_def reg_simps bucket_in_def case_prod_beta Let_def split: option.splits)
qed (simp add: collect_bucket_idle)

lemma collect_key_at:
  assumes "reg_inv r"
  shows "key_at (snd (collect_bucket r s h)) \<subseteq>\<^sub>m key_at r"
    and "key_at r k = Some e \<Longrightarrow> place e \<noteq> (s, h) \<or> refs_at r (s, h) \<noteq> 0 \<Longrightarrow> key_at (snd (collect_bucket r s h)) k = Some e"
proof -
  obtain ts r' where run: "collect_bucket r s h = (ts, r')" by (cases "collect_bucket r s h")
  have "key_at r' \<subseteq>\<^sub>m key_at r \<and>
    (\<forall>k e. key_at r k = Some e \<longrightarrow> place e \<noteq> (s, h) \<or> refs_at r (s, h) \<noteq> 0 \<longrightarrow> key_at r' k = Some e)"
  proof (cases "retired (bucket_at r s h) \<and> external_references (bucket_at r s h) = 0")
    case True
    then have "key_at r' = key_at r |` (- keys_under r s h)"
      using collect_bucket_due(2) [OF assms _ _ run] by (simp add: key_at_def)
    moreover have "k \<in> keys_under r s h \<longleftrightarrow> (\<exists>e. key_at r k = Some e \<and> place e = (s, h))" for k
      by (auto simp: keys_in_def key_at_def place_def)
    ultimately show ?thesis using True by (auto simp: map_le_def refs_at_def restrict_map_def split: if_splits)
  qed (use run in \<open>simp add: collect_bucket_idle\<close>)
  then show "key_at (snd (collect_bucket r s h)) \<subseteq>\<^sub>m key_at r"
    and "key_at r k = Some e \<Longrightarrow> place e \<noteq> (s, h) \<or> refs_at r (s, h) \<noteq> 0 \<Longrightarrow> key_at (snd (collect_bucket r s h)) k = Some e"
    using run by auto
qed

lemma refs_put: "refs_at (r\<lparr>buckets := map_put (s, h) b (buckets r)\<rparr>) c =
    (if c = (s, h) then external_references b else refs_at r c)"
  by (auto simp: refs_at_def reg_simps)

lemma key_at_buckets [simp]: "key_at (r\<lparr>buckets := m\<rparr>) = key_at r"
  by (simp add: key_at_def)

lemma of_nat_small: "0 < n \<Longrightarrow> n < 2 ^ 64 \<Longrightarrow> of_nat n \<noteq> (0 :: u64)"
  by (simp add: word_of_nat_eq_0_iff nat_dvd_not_less)

abbreviation "retain_at \<equiv> \<lambda>b r. retain_height r (fst b) (snd b)"
abbreviation "retire_at \<equiv> \<lambda>b r. snd (retire_height r (fst b) (snd b))"
abbreviation "give_up_at \<equiv> \<lambda>b r. snd (release_height r (fst b) (snd b))"

lemma give_up_as_collect:
  assumes "refs_at r b \<noteq> 0"
  obtains r1 where "give_up_at b r = snd (collect_bucket r1 (fst b) (snd b))" "key_at r1 = key_at r"
    "reg_inv r \<Longrightarrow> reg_inv r1" "\<And>c. refs_at r1 c = (if c = b then refs_at r b - 1 else refs_at r c)"
proof -
  obtain bk where bk: "map_of (buckets r) b = Some bk" "bucket_at r (fst b) (snd b) = bk"
    using assms by (auto simp: refs_at_def bucket_in_def split: option.splits)
  let ?r = "r\<lparr>buckets := map_put b (bk\<lparr>external_references := external_references bk - 1\<rparr>) (buckets r)\<rparr>"
  have "give_up_at b r = snd (collect_bucket ?r (fst b) (snd b))"
    using bk assms by (simp add: release_height_def refs_at_def)
  moreover have "reg_inv r \<Longrightarrow> reg_inv ?r" using bk bucket_update_inv [of r _ "fst b" "snd b"] by simp
  moreover have "refs_at ?r c = (if c = b then refs_at r b - 1 else refs_at r c)" for c
    using refs_put [of "fst b" "snd b" _ r] bk by (simp add: refs_at_def)
  ultimately show ?thesis using that [of ?r] by simp
qed

lemma counted_refs: "counted r n \<Longrightarrow> refs_at r b = of_nat (n b)"
  unfolding counted_def by blast

lemma countedI: "reg_inv r \<Longrightarrow> (\<And>b. refs_at r b = of_nat (n b)) \<Longrightarrow> counted r n"
  unfolding counted_def by blast

lemma retain_counted:
  assumes "counted r n"
  shows "counted (retain_at b r) (bump b n)"
proof (rule countedI)
  obtain s h where b: "b = (s, h)" by (cases b)
  show "refs_at (retain_at b r) x = of_nat (bump b n x)" for x
    using counted_refs [OF assms, of b] counted_refs [OF assms, of x]
    by (auto simp: b retain_height_def Let_def refs_put) (simp_all add: refs_at_def)
qed (simp add: retain_height_inv counted_inv [OF assms])

lemma retire_counted:
  assumes "counted r n"
  shows "counted (retire_at b r) n"
proof (rule countedI)
  obtain s h where b: "b = (s, h)" by (cases b)
  show "refs_at (retire_at b r) x = of_nat (n x)" for x
    using counted_refs [OF assms, of x] by (auto simp: b retire_height_def collect_refs refs_put) (simp_all add: refs_at_def)
qed (simp add: retire_height_inv counted_inv [OF assms])

lemma retire_key_at:
  assumes "refs_at r b \<noteq> 0"
  shows "key_at (retire_at b r) = key_at r"
proof -
  obtain s h where b: "b = (s, h)" by (cases b)
  show ?thesis using assms by (simp add: b refs_at_def retire_height_def collect_bucket_idle bucket_in_put)
qed

lemma counted_nonzero: "counted r n \<Longrightarrow> 0 < n b \<Longrightarrow> n b < 2 ^ 64 \<Longrightarrow> refs_at r b \<noteq> 0"
  using of_nat_small [of "n b"] by (simp add: counted_refs)

lemma give_up_counted:
  assumes c: "counted r n" and small: "0 < n b" "n b < 2 ^ 64"
  shows "counted (give_up_at b r) (unbump b n)"
proof -
  obtain r1 where r1: "give_up_at b r = snd (collect_bucket r1 (fst b) (snd b))" "reg_inv r1"
    "\<And>c. refs_at r1 c = (if c = b then refs_at r b - 1 else refs_at r c)"
    using give_up_as_collect [OF counted_nonzero [OF c small]] counted_inv [OF c] by blast
  show ?thesis
  proof (rule countedI)
    show "refs_at (give_up_at b r) x = of_nat (unbump b n x)" for x
      using small counted_refs [OF c] by (simp add: r1(1,3) collect_refs of_nat_diff)
  qed (simp add: r1 collect_bucket_inv)
qed

lemma give_up_sub:
  assumes "reg_inv r"
  shows "key_at (give_up_at b r) \<subseteq>\<^sub>m key_at r"
proof (cases "refs_at r b = 0")
  case True
  then show ?thesis by (cases "map_of (buckets r) b") (auto simp: release_height_def refs_at_def bucket_in_def)
next
  case False
  obtain r1 where "give_up_at b r = snd (collect_bucket r1 (fst b) (snd b))" "key_at r1 = key_at r" "reg_inv r1"
    using give_up_as_collect [OF False] assms by blast
  then show ?thesis using collect_key_at(1) [of r1 "fst b" "snd b"] by simp
qed

lemma give_up_keeps:
  assumes c: "counted r n" and small: "0 < n b" "n b < 2 ^ 64" and k: "key_at r k = Some e" "0 < unbump b n (place e)"
  shows "key_at (give_up_at b r) k = Some e"
proof -
  obtain r1 where r1: "give_up_at b r = snd (collect_bucket r1 (fst b) (snd b))" "key_at r1 = key_at r" "reg_inv r1"
    "\<And>c. refs_at r1 c = (if c = b then refs_at r b - 1 else refs_at r c)"
    using give_up_as_collect [OF counted_nonzero [OF c small]] counted_inv [OF c] by blast
  have "place e \<noteq> b \<or> refs_at r1 b \<noteq> 0"
  proof (cases "place e = b")
    case True
    then have "0 < n b - 1" using k(2) by simp
    then show ?thesis using of_nat_small [of "n b - 1"] small by (simp add: r1(4) counted_refs [OF c] of_nat_diff)
  qed simp
  then have "key_at (snd (collect_bucket r1 (fst b) (snd b))) k = Some e"
    using k(1) by (intro collect_key_at(2) [OF r1(3)]) (simp_all add: r1(2))
  then show ?thesis by (simp only: r1(1))
qed

interpretation buckets: counted_buckets retain_at retire_at give_up_at key_at place counted "2 ^ 64"
proof
  show "key_at (retain_at b r) = key_at r" for b r by (simp add: retain_height_def Let_def)
qed (simp_all only: retain_counted retire_counted counted_nonzero [THEN retire_key_at] give_up_counted
    counted_inv [THEN give_up_sub] give_up_keeps)

section \<open>Who refers to a bucket\<close>

definition home :: "job_context \<Rightarrow> u64 \<times> u64" where
  "home j = (jc_source j, jc_height j)"

definition lease_home :: "u64 \<times> u64 \<Rightarrow> job_lease \<Rightarrow> bool" where
  "lease_home b l \<longleftrightarrow> lease_height_retained l \<and> (\<exists>j. lease_job l = Some j \<and> home j = b)"

definition task_home :: "u64 \<times> u64 \<Rightarrow> candidate_task \<Rightarrow> bool" where
  "task_home b t \<longleftrightarrow> ct_holds_height t \<and> (ct_source t, ct_height t) = b"

definition job_count :: "(string, job_context) std_map \<Rightarrow> u64 \<times> u64 \<Rightarrow> nat" where
  "job_count m b = smap.count_of (\<lambda>j. home j = b) m"

definition lease_count :: "(nat, job_lease) std_map \<Rightarrow> u64 \<times> u64 \<Rightarrow> nat" where
  "lease_count m b = smap.count_of (lease_home b) m"

definition held :: "runtime \<Rightarrow> u64 \<times> u64 \<Rightarrow> nat" where
  "held rt b = job_count (jobs rt) b + length (filter (\<lambda>j. home j = b) (retiring rt)) +
     lease_count (leases rt) b + length (filter (task_home b) (tasks rt))"

text \<open>A job is known while the table, a retiring thread or a lease has it.\<close>

definition known :: "runtime \<Rightarrow> job_context \<Rightarrow> bool" where
  "known rt j \<longleftrightarrow> (\<exists>i. map_of (jobs rt) i = Some j) \<or> j \<in> set (retiring rt) \<or>
     (\<exists>i l. map_of (leases rt) i = Some l \<and> lease_job l = Some j)"

definition job_good :: "runtime \<Rightarrow> job_context \<Rightarrow> bool" where
  "job_good rt j \<longleftrightarrow> jc_retained j \<and> length (jc_entropy j) = 16 \<and> (jc_entropy j, home j) \<in> set (issued rt)"

definition tables_good :: "runtime \<Rightarrow> bool" where
  "tables_good rt \<longleftrightarrow> map_ok (jobs rt) \<and> map_ok (leases rt) \<and> distinct (map fst (issued rt)) \<and>
     (\<forall>i l. map_of (leases rt) i = Some l \<longrightarrow> i < next_lease rt \<and> (lease_job l \<noteq> None \<longrightarrow> lease_height_retained l)) \<and>
     (\<forall>j. known rt j \<longrightarrow> job_good rt j)"

definition runtime_inv :: "runtime \<Rightarrow> bool" where
  "runtime_inv rt \<longleftrightarrow> tables_good rt \<and> counted (registry rt) (held rt)"

text \<open>Memory holds fewer than \<open>2 ^ 64 - 1\<close> references.\<close>

definition small :: "runtime \<Rightarrow> bool" where
  "small rt \<longleftrightarrow> (\<forall>b. held rt b + 1 < 2 ^ 64)"

text \<open>A key survives a step as long as something refers to its bucket afterwards, and no step of this theory adds one.\<close>

definition keys_kept :: "runtime \<Rightarrow> runtime \<Rightarrow> bool" where
  "keys_kept rt rt' \<longleftrightarrow> key_at (registry rt') \<subseteq>\<^sub>m key_at (registry rt) \<and>
     (\<forall>k e. key_at (registry rt) k = Some e \<longrightarrow> 0 < held rt' (place e) \<longrightarrow> key_at (registry rt') k = Some e)"

text \<open>The steps that neither the table, nor a bucket, nor a lease sees.\<close>

definition same_tables :: "runtime \<Rightarrow> runtime \<Rightarrow> bool" where
  "same_tables rt rt' \<longleftrightarrow> jobs rt' = jobs rt \<and> retiring rt' = retiring rt \<and> leases rt' = leases rt \<and>
     next_lease rt' = next_lease rt \<and> tasks rt' = tasks rt \<and> issued rt' = issued rt"

lemma same_tables_refl [simp]: "same_tables rt rt"
  by (simp add: same_tables_def)

lemma same_tables_trans: "same_tables a b \<Longrightarrow> same_tables b c \<Longrightarrow> same_tables a c"
  by (simp add: same_tables_def)

lemma same_tables_held: "same_tables rt rt' \<Longrightarrow> held rt' = held rt"
  by (simp add: same_tables_def held_def fun_eq_iff)

lemma same_tables_good: "same_tables rt rt' \<Longrightarrow> tables_good rt' = tables_good rt"
  by (simp add: same_tables_def tables_good_def known_def job_good_def)

lemma same_tables_small: "same_tables rt rt' \<Longrightarrow> small rt' = small rt"
  by (simp add: small_def same_tables_held)

text \<open>One step of the runtime: the invariant and the keys are kept.\<close>

definition sound_step :: "runtime \<Rightarrow> runtime \<Rightarrow> bool" where
  "sound_step rt rt' \<longleftrightarrow> runtime_inv rt' \<and> keys_kept rt rt'"

lemma keys_kept_refl: "registry rt' = registry rt \<Longrightarrow> keys_kept rt rt'"
  by (simp add: keys_kept_def)

lemma quiet_step: "runtime_inv rt \<Longrightarrow> same_tables rt rt' \<Longrightarrow> registry rt' = registry rt \<Longrightarrow> sound_step rt rt'"
  by (simp add: sound_step_def runtime_inv_def same_tables_good same_tables_held keys_kept_refl)

lemma with_verifier_same [simp]:
  "same_tables rt (snd (with_verifier f rt))" "registry (snd (with_verifier f rt)) = registry rt"
  by (auto simp: same_tables_def with_verifier_def split: option.splits prod.splits)

lemma with_verifier_keeps [simp]: "jobs (snd (with_verifier f rt)) = jobs rt" "retiring (snd (with_verifier f rt)) = retiring rt"
  "leases (snd (with_verifier f rt)) = leases rt" "next_lease (snd (with_verifier f rt)) = next_lease rt"
  "tasks (snd (with_verifier f rt)) = tasks rt" "issued (snd (with_verifier f rt)) = issued rt"
  by (auto simp: with_verifier_def split: option.splits prod.splits)

lemma failure_same [simp]: "same_tables rt (mark_database_unavailable rt)" "registry (mark_database_unavailable rt) = registry rt"
  "same_tables rt (stop_mining rt)" "registry (stop_mining rt) = registry rt"
  by (simp_all add: mark_database_unavailable_def stop_mining_def same_tables_def)

lemma count_put_like:
  "map_of m k = Some v \<Longrightarrow> P v = P v' \<Longrightarrow> smap.count_of P (map_put k v' m) = smap.count_of P m"
  by (auto simp: smap.count_of_def intro!: arg_cong [where f = card])

lemma inv_tables: "runtime_inv rt \<Longrightarrow> map_ok (jobs rt) \<and> map_ok (leases rt)"
  by (simp add: runtime_inv_def tables_good_def)

lemma step_same_registry:
  assumes "runtime_inv rt" and "tables_good rt'" and "registry rt' = registry rt" and "held rt' = held rt"
  shows "sound_step rt rt'"
  using assms by (simp add: sound_step_def runtime_inv_def keys_kept_refl)

text \<open>A retained bucket given up by one of its holders.\<close>

lemma step_release:
  assumes "runtime_inv rt" "small rt" and "tables_good rt'" and "held rt = bump b (held rt')"
    and "registry rt' = give_up_at b (registry rt) \<or> registry rt' = give_up_at b (retire_at b (registry rt))"
  shows "sound_step rt rt'"
proof -
  have c: "counted (registry rt) (held rt)" using assms(1) by (simp add: runtime_inv_def)
  have n: "held rt b < 2 ^ 64" "0 < held rt b" using assms(2) unfolding small_def by (metis add_lessD1, simp add: assms(4))
  note n = n(2,1)
  have u: "unbump b (held rt) = held rt'" by (simp add: assms(4) fun_eq_iff)
  show ?thesis using assms(3,5) give_up_counted [OF c n] give_up_sub [OF counted_inv [OF c], of b] give_up_keeps [OF c n]
      buckets.retire_give_up [OF c n] unfolding sound_step_def runtime_inv_def keys_kept_def u by metis
qed

lemma step_retain:
  assumes "runtime_inv rt" and "tables_good rt'" and "held rt' = bump b (held rt)" and "registry rt' = retain_at b (registry rt)"
  shows "sound_step rt rt'"
  using assms retain_counted [of "registry rt" "held rt" b] buckets.retain_lookup [of "registry rt" b]
  by (simp add: sound_step_def runtime_inv_def keys_kept_def)

lemma count_erase: "map_ok m \<Longrightarrow> map_of m k = Some j \<Longrightarrow> job_count m b = job_count (map_erase k m) b + (if home j = b then 1 else 0)"
  unfolding job_count_def by (subst smap.count_del_present [of m k j]) auto

lemma map_le_Some: "m \<subseteq>\<^sub>m n \<Longrightarrow> m k = Some v \<Longrightarrow> n k = Some v"
  by (metis domI map_le_def)

lemma known_mono:
  assumes "map_of (jobs rt') \<subseteq>\<^sub>m map_of (jobs rt)" and "map_of (leases rt') \<subseteq>\<^sub>m map_of (leases rt)"
    and "\<forall>j \<in> set (retiring rt'). known rt j" and "known rt' j"
  shows "known rt j"
  using map_le_Some [OF assms(1)] map_le_Some [OF assms(2)] assms(3,4) unfolding known_def by blast

lemma tables_good_sub:
  assumes "tables_good rt" "map_ok (jobs rt')" "map_of (jobs rt') \<subseteq>\<^sub>m map_of (jobs rt)"
    "map_ok (leases rt')" "map_of (leases rt') \<subseteq>\<^sub>m map_of (leases rt)"
    "next_lease rt' = next_lease rt" "issued rt' = issued rt" "\<forall>j \<in> set (retiring rt'). known rt j"
  shows "tables_good rt'"
proof -
  have "map_of (leases rt) i = Some l" if "map_of (leases rt') i = Some l" for i l
    using map_le_Some [OF assms(5) that] .
  then have "\<forall>i l. map_of (leases rt') i = Some l \<longrightarrow> i < next_lease rt' \<and> (lease_job l \<noteq> None \<longrightarrow> lease_height_retained l)"
    using assms(1,6) unfolding tables_good_def by metis
  moreover have "\<forall>j. known rt' j \<longrightarrow> job_good rt' j"
    using known_mono [OF assms(3,5,8)] assms(1,7) by (simp add: tables_good_def job_good_def)
  ultimately show ?thesis using assms(1,2,4,7) by (simp add: tables_good_def)
qed

lemma take_job_step:
  assumes "runtime_inv rt"
  shows "sound_step rt (take_job jid rt)"
proof (cases "map_of (jobs rt) jid")
  case (Some j)
  let ?rt = "rt\<lparr>jobs := map_erase jid (jobs rt), retiring := retiring rt @ [j]\<rparr>"
  have "tables_good ?rt"
    by (rule tables_good_sub [of rt]) (use assms Some in \<open>auto simp: runtime_inv_def tables_good_def known_def map_le_def\<close>)
  moreover have "held ?rt = held rt"
    using count_erase [OF inv_tables [OF assms, THEN conjunct1] Some] by (auto simp: held_def fun_eq_iff)
  ultimately show ?thesis using step_same_registry [OF assms, of ?rt] Some by (simp add: take_job_def)
qed (simp add: take_job_def quiet_step assms)

lemma split_history_spec:
  assumes "map_ok table" and "split_history h ids table = (kept, gone, table')"
  shows "map_ok table' \<and> (\<forall>b. job_count table b = job_count table' b + length (filter (\<lambda>j. home j = b) gone)) \<and>
    map_of table' \<subseteq>\<^sub>m map_of table \<and> (\<forall>j \<in> set gone. \<exists>i. map_of table i = Some j)"
  using assms
proof (induction h ids table arbitrary: kept gone rule: split_history.induct)
  case (2 h i ids table)
  show ?case
  proof (cases "\<exists>j. map_of table i = Some j \<and> jc_height j < h")
    case True
    then obtain j where j: "map_of table i = Some j" "jc_height j < h" by blast
    then obtain gone' where g: "split_history h ids (map_erase i table) = (kept, gone', table')" "gone = j # gone'"
      using "2.prems"(2) by (auto split: prod.splits)
    note ih = "2.IH"(2) [OF j map_ok_map_erase [OF "2.prems"(1)] g(1)]
    have "map_of (map_erase i table) \<subseteq>\<^sub>m map_of table" by (auto simp: map_le_def)
    then have "map_of table' \<subseteq>\<^sub>m map_of table" using ih map_le_trans by blast
    moreover have "\<forall>j \<in> set gone'. \<exists>i. map_of table i = Some j" using ih by (auto split: if_splits)
    ultimately show ?thesis using ih j count_erase [OF "2.prems"(1) j(1)] by (auto simp: g(2))
  next
    case False
    then obtain kept' where "split_history h ids table = (kept', gone, table')"
      using "2.prems"(2) by (auto split: prod.splits option.splits if_splits)
    then show ?thesis using "2.IH"(1) [OF _ "2.prems"(1)] "2.IH"(3) [OF _ _ "2.prems"(1)] False
      by (cases "map_of table i") auto
  qed
qed simp

lemma take_obsolete_step:
  assumes "runtime_inv rt"
  shows "sound_step rt (take_obsolete conn h rt)"
proof (cases "map_of (connection_jobs rt) conn")
  case (Some ids)
  obtain kept gone table where sp: "split_history h ids (jobs rt) = (kept, gone, table)" by (cases "split_history h ids (jobs rt)")
  note spec = split_history_spec [OF inv_tables [OF assms, THEN conjunct1] sp]
  let ?rt = "rt\<lparr>jobs := table, connection_jobs := map_put conn kept (connection_jobs rt), retiring := retiring rt @ gone\<rparr>"
  have "tables_good ?rt"
    by (rule tables_good_sub [of rt]) (use assms spec inv_tables [OF assms] in \<open>auto simp: runtime_inv_def known_def\<close>)
  moreover have "held ?rt = held rt" using spec by (auto simp: held_def fun_eq_iff)
  ultimately show ?thesis using step_same_registry [OF assms, of ?rt] Some sp by (simp add: take_obsolete_def)
qed (simp add: take_obsolete_def quiet_step assms)

lemma filter_remove1: "j \<in> set js \<Longrightarrow>
    length (filter P js) = length (filter P (remove1 j js)) + (if P j then 1 else 0)"
  by (induction js) auto

lemma retire_taken_step:
  assumes "runtime_inv rt" "small rt" and j: "j \<in> set (retiring rt)"
  shows "sound_step rt (retire_taken rel j rt)"
proof -
  let ?rt = "retire_taken rel j rt"
  have ret: "jc_retained j" using assms by (auto simp: runtime_inv_def tables_good_def known_def job_good_def)
  have f: "jobs ?rt = jobs rt" "leases ?rt = leases rt" "next_lease ?rt = next_lease rt" "issued ?rt = issued rt" "tasks ?rt = tasks rt"
    "retiring ?rt = remove1 j (retiring rt)" "registry ?rt = give_up_at (home j) (retire_at (home j) (registry rt))"
    by (simp_all add: retire_taken_def retire_job_context_def ret release_bucket_def Let_def home_def)
  have "tables_good ?rt"
    by (rule tables_good_sub [of rt]) (use assms in \<open>auto simp: f runtime_inv_def tables_good_def known_def dest!: notin_set_remove1 [THEN contrapos_pp, of _ _] set_remove1_subset [THEN subsetD]\<close>)
  moreover have "held rt = bump (home j) (held ?rt)"
    using filter_remove1 [OF j] by (auto simp: held_def f fun_eq_iff)
  ultimately show ?thesis using step_release [OF assms(1,2), of ?rt "home j"] f(7) by simp
qed

lemma add_lease_good:
  assumes "tables_good rt" and "lease_job l \<noteq> None \<Longrightarrow> lease_height_retained l" and "\<And>j. lease_job l = Some j \<Longrightarrow> job_good rt j"
  shows "tables_good (snd (add_lease l rt))"
  using assms by (auto simp: tables_good_def add_lease_def known_def job_good_def less_Suc_eq split: if_splits) fastforce+

lemma add_lease_held:
  assumes "tables_good rt"
  shows "held (snd (add_lease l rt)) b = held rt b + (if lease_home b l then 1 else 0)"
proof -
  have "map_of (leases rt) (next_lease rt) = None" "map_ok (leases rt)"
    using assms by (auto simp: tables_good_def) (metis less_irrefl not_None_eq)
  then show ?thesis by (simp add: held_def add_lease_def lease_count_def smap.count_put_new)
qed

lemma job_lease_step:
  assumes "runtime_inv rt" and j: "known rt j"
  shows "sound_step rt (snd (job_lease_of j rt))"
proof -
  obtain st rt1 where v: "with_verifier (retain_seed (jc_seed_id j)) rt = (st, rt1)" by (cases "with_verifier (retain_seed (jc_seed_id j)) rt")
  have same: "same_tables rt rt1" "registry rt1 = registry rt" using with_verifier_same(1) [of rt "retain_seed (jc_seed_id j)"] with_verifier_same(2) [of "retain_seed (jc_seed_id j)" rt] v by simp_all
  show ?thesis
  proof (cases "st = MSPV_OK")
    case True
    define rt2 where "rt2 = rt1\<lparr>registry := retain_height (registry rt1) (jc_source j) (jc_height j)\<rparr>"
    define l where "l = \<lparr>lease_job = Some j, lease_connection = jc_connection_id j, lease_worker = jc_worker j,
      lease_seed_retained = (pub_verifier (pub rt2) \<noteq> None), lease_height_retained = True\<rparr>"
    have r: "snd (job_lease_of j rt) = snd (add_lease l rt2)"
      using v True by (simp add: job_lease_of_def Let_def rt2_def l_def case_prod_beta)
    have s2: "same_tables rt rt2" using same(1) by (simp add: rt2_def same_tables_def)
    then have g2: "tables_good rt2" and h2: "held rt2 = held rt" using assms(1) by (simp_all add: same_tables_good same_tables_held runtime_inv_def)
    have "job_good rt2 j" using assms s2 by (simp add: runtime_inv_def tables_good_def job_good_def same_tables_def)
    then have "tables_good (snd (add_lease l rt2))" using g2 by (intro add_lease_good) (simp_all add: l_def)
    moreover have "held (snd (add_lease l rt2)) = bump (home j) (held rt)"
      using add_lease_held [OF g2, of l] h2 by (auto simp: fun_eq_iff lease_home_def l_def)
    ultimately show ?thesis unfolding r using step_retain [OF assms(1), of _ "home j"] same(2) by (simp add: add_lease_def rt2_def home_def)
  qed (use v same assms(1) in \<open>simp add: job_lease_of_def Let_def quiet_step\<close>)
qed

lemma admit_step:
  assumes "runtime_inv rt"
  shows "sound_step rt (snd (admit_submission conn jid latest received rt))"
proof -
  have un: "sound_step rt (snd (add_lease l rt))" if "lease_job l = None" for l
  proof (rule step_same_registry [OF assms])
    show "tables_good (snd (add_lease l rt))" using assms that by (intro add_lease_good) (simp_all add: runtime_inv_def)
    show "held (snd (add_lease l rt)) = held rt"
      using assms that add_lease_held [of rt l] by (auto simp: fun_eq_iff runtime_inv_def lease_home_def)
  qed (simp add: add_lease_def)
  have job: "sound_step rt (snd (case job_lease_of j rt of (Inl e, rt) \<Rightarrow> (Inl e, rt) | (Inr i, rt) \<Rightarrow> (Inr (i, jc_network j), rt)))"
    if "map_of (jobs rt) jid = Some j" for j
    using job_lease_step [OF assms, of j] that by (cases "job_lease_of j rt") (auto simp: known_def split: sum.splits)
  show ?thesis using un job quiet_step [OF assms failure_same(1)]
    by (auto simp: admit_submission_def Let_def case_prod_beta split: option.splits)
qed

lemma drop_lease_step:
  assumes "runtime_inv rt" "small rt"
  shows "sound_step rt (drop_lease rel i rt)"
proof (cases "map_of (leases rt) i")
  case (Some l)
  let ?rt = "drop_lease rel i rt"
  have f: "jobs ?rt = jobs rt" "retiring ?rt = retiring rt" "next_lease ?rt = next_lease rt" "tasks ?rt = tasks rt" "issued ?rt = issued rt"
      "leases ?rt = map_erase i (leases rt)"
    using Some by (auto simp: drop_lease_def Let_def split: option.splits)
  have "tables_good ?rt"
    by (rule tables_good_sub [of rt]) (use assms(1) in \<open>auto simp: runtime_inv_def tables_good_def f known_def map_le_def\<close>)
  moreover have h: "held rt b = held ?rt b + (if lease_home b l then 1 else 0)" for b
    using smap.count_del_present [of "leases rt" i l] inv_tables [OF assms(1)] Some by (simp add: held_def f lease_count_def)
  ultimately show ?thesis
  proof (cases "lease_job l")
    case None
    then have "held ?rt = held rt" "registry ?rt = registry rt" using h Some by (auto simp: fun_eq_iff lease_home_def drop_lease_def Let_def)
    then show ?thesis using step_same_registry [OF assms(1)] \<open>tables_good ?rt\<close> by simp
  next
    case (Some j)
    then have k: "lease_height_retained l" using assms(1) \<open>map_of (leases rt) i = Some l\<close> by (auto simp: runtime_inv_def tables_good_def)
    have "held rt = bump (home j) (held ?rt)" using h Some k by (auto simp: fun_eq_iff lease_home_def)
    moreover have "registry ?rt = give_up_at (home j) (registry rt)"
      using Some k \<open>map_of (leases rt) i = Some l\<close> by (simp add: drop_lease_def Let_def home_def)
    ultimately show ?thesis using step_release [OF assms] \<open>tables_good ?rt\<close> by blast
  qed
qed (simp add: drop_lease_def quiet_step assms)

lemma install_good:
  assumes g: "tables_good rt" and fresh: "jc_entropy j \<notin> fst ` set (issued rt)" "\<not> map_has (jobs rt) (hex_encode (jc_public_id j))"
    and "jc_retained j" "length (jc_entropy j) = 16"
  shows "tables_good (install_job j (rt\<lparr>issued := (jc_entropy j, jc_source j, jc_height j) # issued rt\<rparr>))" (is "tables_good ?rt")
proof -
  have "known ?rt i \<Longrightarrow> i = j \<or> known rt i" for i
    by (auto simp: known_def install_job_def Let_def split: if_splits)
  then have "\<forall>i. known ?rt i \<longrightarrow> job_good ?rt i"
    using g assms(4,5) by (auto simp: tables_good_def job_good_def install_job_def Let_def home_def)
  moreover have "map_ok (jobs ?rt) \<and> map_ok (leases ?rt) \<and> distinct (map fst (issued ?rt)) \<and>
     (\<forall>i l. map_of (leases ?rt) i = Some l \<longrightarrow> i < next_lease ?rt \<and> (lease_job l \<noteq> None \<longrightarrow> lease_height_retained l))"
    using g fresh(1) by (simp add: tables_good_def install_job_def Let_def)
  ultimately show ?thesis by (simp add: tables_good_def)
qed

lemma install_held:
  assumes "map_ok (jobs rt)" "\<not> map_has (jobs rt) (hex_encode (jc_public_id j))"
  shows "held (install_job j (rt\<lparr>issued := i\<rparr>)) = bump (home j) (held rt)"
proof -
  have "map_of (jobs rt) (hex_encode (jc_public_id j)) = None" using assms(2) by (auto simp: map_has_iff)
  then show ?thesis using assms(1)
    by (auto simp: held_def install_job_def Let_def fun_eq_iff job_count_def smap.count_put_new)
qed

lemma rollback_same:
  "same_tables rt (rollback_job rel r sid rt)"
  "registry (rollback_job rel None sid rt) = registry rt"
  "registry (rollback_job rel (Some j) sid rt) = give_up_at (home j) (retire_at (home j) (registry rt))"
  by (auto simp: rollback_job_def same_tables_def release_bucket_def Let_def case_prod_beta mark_database_unavailable_def home_def
      split: option.splits)

lemma new_job_fields:
  assumes "new_job now ttl e i hashing conn cid w t lid = Inr (j, work)"
  shows "jc_entropy j = e \<and> jc_retained j \<and> job_id work = hex_encode (jc_public_id j) \<and> jc_public_id j = i \<and>
    jc_connection j = public_id conn \<and> home j = (of_int cid, tc_height t) \<and> jc_template j = t \<and> jc_height j = tc_height t"
  using assms by (auto simp: new_job_def home_def and_then_eq_Inr split: if_splits)

lemma finish_job_step:
  assumes "runtime_inv rt" "small rt" and "\<And>j w. made = Inr (j, w) \<Longrightarrow>
      jc_entropy j \<notin> fst ` set (issued rt) \<and> jc_retained j \<and> length (jc_entropy j) = 16 \<and> job_id w = hex_encode (jc_public_id j)"
  shows "sound_step rt (snd (finish_job rel made t rt))"
proof (cases made)
  case (Inl e)
  then show ?thesis
    by (intro quiet_step assms) (simp_all add: finish_job_def rollback_same same_tables_def stop_mining_def rollback_same(1) [unfolded same_tables_def])
next
  case (Inr m)
  obtain j w where m: "made = Inr (j, w)" using Inr by (cases m) auto
  have w: "jc_entropy j \<notin> fst ` set (issued rt)" "jc_retained j" "job_id w = hex_encode (jc_public_id j)" "length (jc_entropy j) = 16" using assms(3) [OF m] by auto
  let ?rt = "rt\<lparr>registry := retain_height (registry rt) (jc_source j) (jc_height j)\<rparr>"
  have g: "tables_good ?rt" and hd: "held ?rt = held rt"
    using assms(1) same_tables_good [of rt ?rt] same_tables_held [of rt ?rt] by (simp_all add: same_tables_def runtime_inv_def)
  have c: "counted (registry rt) (held rt)" using assms(1) by (simp add: runtime_inv_def)
  show ?thesis
  proof (cases "map_has (jobs rt) (job_id w)")
    case True
    let ?r = "snd (finish_job rel made t rt)"
    have same: "same_tables rt ?r"
      using True rollback_same(1) [of ?rt] by (simp add: m finish_job_def same_tables_def mark_database_unavailable_def)
    have reg: "registry ?r = give_up_at (home j) (retire_at (home j) (retain_at (home j) (registry rt)))"
      using True by (simp add: m finish_job_def rollback_same home_def)
    have "held rt (home j) + 1 < 2 ^ 64" using assms(2) unfolding small_def by blast
    note rg = buckets.retain_give_up [OF c this] 
    have sub: "key_at (registry ?r) \<subseteq>\<^sub>m key_at (registry rt)"
      unfolding reg using give_up_sub [of "retire_at (home j) (retain_at (home j) (registry rt))" "home j"]
        buckets.retire_lookup [OF retain_counted [OF c, of "home j"], of "home j"] \<open>held rt (home j) + 1 < 2 ^ 64\<close>
        counted_inv [OF c] by (simp add: retire_height_inv retain_height_inv buckets.retain_lookup)
    show ?thesis using rg sub assms(1) same unfolding sound_step_def runtime_inv_def keys_kept_def
      by (simp add: same_tables_good same_tables_held reg)
  next
    case False
    let ?n = "install_job j (?rt\<lparr>issued := (jc_entropy j, jc_source j, jc_height j) # issued ?rt\<rparr>)"
    have r: "snd (finish_job rel made t rt) = ?n" using False by (simp add: m finish_job_def)
    show ?thesis unfolding r
    proof (rule step_retain [OF assms(1)])
      show "tables_good ?n" using g w False by (intro install_good) simp_all
      show "held ?n = bump (home j) (held rt)"
        using install_held [of ?rt j] g w(3) False hd by (simp add: tables_good_def)
    qed (simp add: install_job_def Let_def home_def)
  qed
qed

lemma make_job_step:
  assumes "runtime_inv rt" "small rt" and fresh: "\<And>e. entropy = Inr e \<Longrightarrow> e \<notin> fst ` set (issued rt)"
  shows "sound_step rt (snd (make_job now ttl entropy jid rel conn rt))"
proof -
  have core: "sound_step rt rt1 \<and> sound_step rt (snd (finish_job rel
      (new_job now ttl e i hashing conn cid w t (next_job_id rt1 + 1)) t (rt1\<lparr>next_job_id := next_job_id rt1 + 1\<rparr>)))"
    if e: "entropy = Inr e" "length e = 16" and v: "with_verifier f rt = (st, rt1)" for f e i hashing cid w t st rt1
  proof -
    have same: "same_tables rt rt1" "registry rt1 = registry rt" using with_verifier_same(1) [of rt f] with_verifier_same(2) [of f rt] v by simp_all
    let ?rt = "rt1\<lparr>next_job_id := next_job_id rt1 + 1\<rparr>"
    have s2: "same_tables rt ?rt" "registry ?rt = registry rt" using same by (simp_all add: same_tables_def)
    have i2: "runtime_inv ?rt" "small ?rt" using quiet_step [OF assms(1) s2] assms(2) s2 by (simp_all add: sound_step_def same_tables_small)
    have iss: "issued ?rt = issued rt" using s2(1) by (simp add: same_tables_def)
    have "sound_step ?rt (snd (finish_job rel (new_job now ttl e i hashing conn cid w t (next_job_id rt1 + 1)) t ?rt))"
      using fresh [OF e(1)] e(2) new_job_fields by (intro finish_job_step i2) (metis iss)
    then show ?thesis using quiet_step [OF assms(1) same] unfolding sound_step_def keys_kept_def s2(2) by blast
  qed
  have err: "sound_step rt (rt\<lparr>runtime_error := x\<rparr>)" "sound_step rt rt" for x
    using assms(1) by (auto intro!: quiet_step simp: same_tables_def)
  have len: "length e = 16" if "mutate_reserved_bytes b n e = Inr x" for b n e x
    using that by (auto simp: mutate_reserved_bytes_def split: if_splits)
  show ?thesis unfolding make_job_def
    using err core by (auto dest!: len simp: and_then_eq_Inr Let_def split: option.splits sum.splits prod.splits if_splits)
qed

definition alike :: "job_context \<Rightarrow> job_context \<Rightarrow> bool" where
  "alike j j' \<longleftrightarrow> home j = home j' \<and> jc_entropy j = jc_entropy j' \<and> jc_retained j = jc_retained j'"

lemma set_worker_spec:
  assumes "map_ok table"
  shows "map_ok (set_worker w ids table) \<and> (\<forall>b. job_count (set_worker w ids table) b = job_count table b) \<and>
    (\<forall>i j. map_of (set_worker w ids table) i = Some j \<longrightarrow> (\<exists>j'. map_of table i = Some j' \<and> alike j j'))"
  using assms unfolding set_worker_def
proof (induction ids arbitrary: table)
  case (Cons i ids)
  show ?case
  proof (cases "map_of table i")
    case (Some j)
    let ?t = "map_put i (j\<lparr>jc_worker := Some w\<rparr>) table"
    have c: "job_count ?t b = job_count table b" for b
      unfolding job_count_def by (rule count_put_like [OF Some]) (simp add: home_def)
    have a: "\<exists>y. map_of table i' = Some y \<and> alike x y" if "\<exists>y. map_of ?t i' = Some y \<and> alike x y" for i' x
      using Some that by (auto simp: alike_def home_def split: if_splits)
    show ?thesis using Cons.IH [OF map_ok_map_put [OF Cons.prems]] Some c a by (simp only: foldl_Cons option.case) blast
  qed (use Cons in simp)
qed (simp add: alike_def)

lemma set_worker_step:
  assumes "runtime_inv rt"
  shows "sound_step rt (rt\<lparr>jobs := set_worker w ids (jobs rt)\<rparr>)" (is "sound_step rt ?rt")
proof (rule step_same_registry [OF assms])
  note spec = set_worker_spec [OF inv_tables [OF assms, THEN conjunct1], of w ids]
  have good: "job_good rt j" if "known rt j" for j using assms that by (simp add: runtime_inv_def tables_good_def)
  have "job_good ?rt j" if k: "known ?rt j" for j
  proof (cases "known rt j")
    case False
    then obtain i where "map_of (set_worker w ids (jobs rt)) i = Some j" using k by (auto simp: known_def)
    then obtain j' where "known rt j'" "alike j j'" using spec unfolding known_def by blast
    then show ?thesis using good [of j'] by (simp add: job_good_def alike_def)
  qed (use good in \<open>simp add: job_good_def\<close>)
  then show "tables_good ?rt" using assms spec by (simp add: runtime_inv_def tables_good_def)
  show "held ?rt = held rt" using spec by (simp add: held_def fun_eq_iff)
qed simp

section \<open>Histories\<close>

text \<open>
  The atomic steps of the runtime on its jobs: whatever the threads do between two of them is a step of
  its own. \<open>other\<close> is every step that leaves the tables and the registry alone; the mode is fixed, since
  \<open>verifier_\<close> is set once, before the first connection. The only hypothesis is on the random generator:
  it does not give the same 16 bytes to two jobs.
\<close>

inductive runtime_step :: "runtime \<Rightarrow> runtime \<Rightarrow> bool" where
  made: "(\<And>e. entropy = Inr e \<Longrightarrow> e \<notin> fst ` set (issued rt)) \<Longrightarrow>
    runtime_step rt (snd (make_job now ttl entropy jid rel conn rt))"
| obsolete: "runtime_step rt (take_obsolete conn h rt)"
| taken: "runtime_step rt (take_job jid rt)"
| retired: "j \<in> set (retiring rt) \<Longrightarrow> runtime_step rt (retire_taken rel j rt)"
| admitted: "runtime_step rt (snd (admit_submission conn jid latest received rt))"
| authenticated: "runtime_step rt (rt\<lparr>jobs := set_worker w ids (jobs rt)\<rparr>)"
| other: "same_tables rt rt' \<Longrightarrow> registry rt' = registry rt \<Longrightarrow> has_verifier rt' = has_verifier rt \<Longrightarrow> runtime_step rt rt'"

inductive_cases runtime_stepE: "runtime_step rt rt'"

lemma runtime_step_sound: "runtime_step rt rt' \<Longrightarrow> runtime_inv rt \<Longrightarrow> small rt \<Longrightarrow> sound_step rt rt'"
  by (induction rule: runtime_step.induct)
    (blast intro: make_job_step take_obsolete_step take_job_step retire_taken_step admit_step set_worker_step quiet_step)+

text \<open>No step changes the mode.\<close>

lemma mode_fields [simp]:
  "has_verifier (rt\<lparr>jobs := a\<rparr>) = has_verifier rt" "has_verifier (rt\<lparr>retiring := b\<rparr>) = has_verifier rt"
  "has_verifier (rt\<lparr>registry := r\<rparr>) = has_verifier rt" "has_verifier (rt\<lparr>leases := l\<rparr>) = has_verifier rt"
  "has_verifier (rt\<lparr>next_lease := m\<rparr>) = has_verifier rt" "has_verifier (rt\<lparr>issued := i\<rparr>) = has_verifier rt"
  "has_verifier (rt\<lparr>connection_jobs := c\<rparr>) = has_verifier rt" "has_verifier (rt\<lparr>next_job_id := k\<rparr>) = has_verifier rt"
  "has_verifier (rt\<lparr>runtime_error := e\<rparr>) = has_verifier rt"
  "has_verifier (mark_database_unavailable rt) = has_verifier rt" "has_verifier (stop_mining rt) = has_verifier rt"
  "has_verifier (snd (with_verifier f rt)) = has_verifier rt"
  by (auto simp: has_verifier_def mark_database_unavailable_def stop_mining_def with_verifier_def split: option.split prod.split)

lemma mode_with: "with_verifier f rt = (st, rt') \<Longrightarrow> has_verifier rt' = has_verifier rt"
  using mode_fields(12) [of f rt] by simp

lemma mode_release [simp]: "has_verifier (release_bucket j rt) = has_verifier rt"
  by (simp add: release_bucket_def Let_def)

lemma mode_rollback [simp]: "has_verifier (rollback_job rel k sid rt) = has_verifier rt"
  by (auto simp: rollback_job_def Let_def split: option.split prod.split dest!: mode_with)

lemma mode_finish [simp]: "has_verifier (snd (finish_job rel made t rt)) = has_verifier rt"
  by (simp add: finish_job_def install_job_def Let_def split: sum.split prod.split)

lemma mode_make_job [simp]: "has_verifier (snd (make_job now ttl entropy jid rel conn rt)) = has_verifier rt"
  by (auto simp: make_job_def Let_def split: option.split sum.split prod.split dest!: mode_with)

lemma mode_drop_lease [simp]: "has_verifier (drop_lease rel i rt) = has_verifier rt"
  by (simp add: drop_lease_def Let_def split: option.split)

lemma mode_admit [simp]: "has_verifier (snd (admit_submission conn jid latest received rt)) = has_verifier rt"
  by (auto simp: admit_submission_def job_lease_of_def add_lease_def Let_def
      split: option.split sum.split prod.split if_splits dest!: mode_with)

lemma runtime_step_mode: "runtime_step rt rt' \<Longrightarrow> has_verifier rt' = has_verifier rt"
  by (induction rule: runtime_step.induct)
    (simp_all add: take_obsolete_def take_job_def retire_taken_def retire_job_context_def Let_def split: option.split prod.split)

text \<open>The callbacks that retire several jobs are sequences of these steps.\<close>

lemma retiring_after: "retiring (retire_taken rel j rt) = remove1 j (retiring rt)"
  by (simp add: retire_taken_def retire_job_context_def release_bucket_def Let_def)

lemma retire_all_steps: "mset js \<subseteq># mset (retiring rt) \<Longrightarrow> runtime_step\<^sup>*\<^sup>* rt (fold (retire_taken rel) js rt)"
proof (induction js arbitrary: rt)
  case (Cons j js)
  have "j \<in> set (retiring rt)" using Cons.prems by (metis list.set_intros(1) mset_subset_eqD set_mset_mset)
  then have "runtime_step rt (retire_taken rel j rt)" by (rule retired)
  moreover have "mset js \<subseteq># mset (retiring (retire_taken rel j rt))"
    using Cons.prems by (simp add: retiring_after insert_subset_eq_iff)
  ultimately show ?case using Cons.IH by (simp add: converse_rtranclp_into_rtranclp)
qed simp

lemma job_queued_steps: "runtime_step\<^sup>*\<^sup>* rt (snd (job_queued rel stored conn h rt))"
proof -
  let ?rt = "take_obsolete conn h rt"
  have first: "runtime_step rt ?rt" by (rule obsolete)
  show ?thesis
  proof (cases stored)
    case (Inl e)
    have "runtime_step ?rt (mark_database_unavailable ?rt)" by (rule other) simp_all
    then show ?thesis using first Inl by (simp add: job_queued_def Let_def)
  next
    case (Inr u)
    have "mset (drop n xs) \<subseteq># mset xs" for n and xs :: "job_context list"
      by (metis append_take_drop_id mset_append mset_subset_eq_add_right)
    then show ?thesis using retire_all_steps [of _ ?rt] first Inr
      by (simp add: job_queued_def Let_def converse_rtranclp_into_rtranclp)
  qed
qed

lemma retire_id_steps: "runtime_step\<^sup>*\<^sup>* rt (retire_id rel jid rt)"
proof (cases "map_of (jobs rt) jid")
  case (Some j)
  have "runtime_step rt (take_job jid rt)" by (rule taken)
  moreover have "runtime_step (take_job jid rt) (retire_taken rel j (take_job jid rt))"
    using Some by (intro retired) (simp add: take_job_def)
  ultimately show ?thesis using Some by (simp add: retire_id_def)
qed (simp add: retire_id_def)

lemma retire_ids_steps: "runtime_step\<^sup>*\<^sup>* rt (fold (retire_id rel) ids rt)"
proof (induction ids arbitrary: rt)
  case (Cons i ids)
  show ?case using rtranclp_trans [OF retire_id_steps Cons.IH] by simp
qed simp

lemma quiet_then: "same_tables rt rt' \<Longrightarrow> registry rt' = registry rt \<Longrightarrow> has_verifier rt' = has_verifier rt \<Longrightarrow>
    runtime_step\<^sup>*\<^sup>* rt' rt'' \<Longrightarrow> runtime_step\<^sup>*\<^sup>* rt rt''"
  by (metis converse_rtranclp_into_rtranclp other)

lemma then_quiet: "runtime_step\<^sup>*\<^sup>* rt rt' \<Longrightarrow> same_tables rt' rt'' \<Longrightarrow> registry rt'' = registry rt' \<Longrightarrow>
    has_verifier rt'' = has_verifier rt' \<Longrightarrow> runtime_step\<^sup>*\<^sup>* rt rt''"
  by (metis rtranclp.rtrancl_into_rtrancl other)

lemma close_recorded_same: "same_tables rt (close_recorded env rt)" "registry (close_recorded env rt) = registry rt"
  "has_verifier (close_recorded env rt) = has_verifier rt"
  by (auto simp: close_recorded_def observer_failed_def same_tables_def has_verifier_def mark_database_unavailable_def split: sum.splits)

lemma retire_connection_steps:
  assumes "same_tables rt rt'" and "registry rt' = registry rt" and "has_verifier rt' = has_verifier rt"
    and "forget_connection conn rt' = (ids, rt'')"
  shows "runtime_step\<^sup>*\<^sup>* rt (close_recorded env (fold (retire_id rel) ids rt''))"
proof -
  have "same_tables rt rt''" "registry rt'' = registry rt" "has_verifier rt'' = has_verifier rt"
    using assms by (auto simp: forget_connection_def same_tables_def has_verifier_def)
  from quiet_then [OF this retire_ids_steps] show ?thesis by (rule then_quiet) (rule close_recorded_same)+
qed

lemma observe_connection_steps: "runtime_step\<^sup>*\<^sup>* rt (observe_connection env conn event rt)"
proof -
  have q: "runtime_step\<^sup>*\<^sup>* rt rt'" if "same_tables rt rt'" "registry rt' = registry rt" "has_verifier rt' = has_verifier rt" for rt'
    using that by (blast intro: other)
  have fail: "runtime_step\<^sup>*\<^sup>* rt (observer_failed e rt)" for e
    by (rule q) (simp_all add: observer_failed_def same_tables_def has_verifier_def mark_database_unavailable_def)
  have gone: "runtime_step\<^sup>*\<^sup>* rt (case forget_connection conn rt' of (ids, rt'') \<Rightarrow>
      close_recorded env (fold (retire_id (ev_release env)) ids rt''))"
    if "same_tables rt rt'" "registry rt' = registry rt" "has_verifier rt' = has_verifier rt" for rt'
    using retire_connection_steps [OF that] by (auto split: prod.split)
  have completed: "runtime_step\<^sup>*\<^sup>* rt (submit_completed env conn rt)"
    unfolding submit_completed_def Let_def
    by (simp split: option.split) (intro conjI impI allI gone q; simp add: same_tables_def has_verifier_def)
  have closed: "runtime_step\<^sup>*\<^sup>* rt (connection_closed env conn cid reason rt)" for cid reason
    unfolding connection_closed_def
    by simp (intro conjI impI allI gone q; simp add: same_tables_def has_verifier_def)
  have auth: "runtime_step\<^sup>*\<^sup>* rt (rt\<lparr>worker_ids := m, jobs := set_worker w ids (jobs rt)\<rparr>)" for m w ids
  proof (rule quiet_then)
    show "runtime_step\<^sup>*\<^sup>* (rt\<lparr>worker_ids := m\<rparr>) (rt\<lparr>worker_ids := m, jobs := set_worker w ids (jobs rt)\<rparr>)"
      by (rule r_into_rtranclp) (use authenticated [of "rt\<lparr>worker_ids := m\<rparr>" w ids] in simp)
  qed (simp_all add: same_tables_def has_verifier_def)
  show ?thesis unfolding observe_connection_def Let_def
    by (simp split: connection_event.split sum.split option.split)
      (intro conjI impI allI completed closed fail auth q; simp add: same_tables_def has_verifier_def)
qed

text \<open>
  An entropy is dead when it was issued and no job with it is left. It stays dead, since a new job
  has new entropy; and leases are only dropped by their owners.
\<close>

definition dead :: "runtime \<Rightarrow> bytes \<Rightarrow> bool" where
  "dead rt x \<longleftrightarrow> x \<in> fst ` set (issued rt) \<and> (\<forall>j. known rt j \<longrightarrow> jc_entropy j \<noteq> x)"

definition descends :: "runtime \<Rightarrow> runtime \<Rightarrow> bool" where
  "descends rt rt' \<longleftrightarrow> set (issued rt) \<subseteq> set (issued rt') \<and> map_of (leases rt) \<subseteq>\<^sub>m map_of (leases rt') \<and>
     (\<forall>j. known rt' j \<longrightarrow> (\<exists>j'. known rt j' \<and> jc_entropy j = jc_entropy j') \<or> jc_entropy j \<notin> fst ` set (issued rt))"

lemma descends_dead:
  assumes "descends rt rt'" and "dead rt x"
  shows "dead rt' x"
proof -
  have d: "x \<in> fst ` set (issued rt)" "\<forall>j. known rt j \<longrightarrow> jc_entropy j \<noteq> x" "set (issued rt) \<subseteq> set (issued rt')"
    using assms by (simp_all add: dead_def descends_def)
  have "x \<in> fst ` set (issued rt')" using d(1,3) by (rule image_mono [THEN subsetD, rotated])
  moreover have "jc_entropy j \<noteq> x" if "known rt' j" for j
  proof -
    have "(\<exists>j'. known rt j' \<and> jc_entropy j = jc_entropy j') \<or> jc_entropy j \<notin> fst ` set (issued rt)"
      using assms(1) that by (simp add: descends_def)
    then show ?thesis
    proof
      assume "\<exists>j'. known rt j' \<and> jc_entropy j = jc_entropy j'"
      then show ?thesis using d(2) by metis
    next
      assume "jc_entropy j \<notin> fst ` set (issued rt)"
      then show ?thesis using d(1) by metis
    qed
  qed
  ultimately show ?thesis by (simp add: dead_def)
qed

lemma same_tables_descends: "same_tables rt rt' \<Longrightarrow> descends rt rt'"
  by (auto simp: descends_def same_tables_def known_def)

lemma sub_descends:
  assumes "map_of (jobs rt') \<subseteq>\<^sub>m map_of (jobs rt)" "leases rt' = leases rt" "issued rt' = issued rt" "\<forall>j \<in> set (retiring rt'). known rt j"
  shows "descends rt rt'"
  using known_mono [OF assms(1) _ assms(4)] assms(2,3) by (auto simp: descends_def)

lemma install_descends:
  assumes "jc_entropy j \<notin> fst ` set (issued rt)" and "same_tables rt rt'"
  shows "descends rt (install_job j (rt'\<lparr>issued := x # issued rt'\<rparr>))"
proof -
  let ?rt = "install_job j (rt'\<lparr>issued := x # issued rt'\<rparr>)"
  have "known ?rt i \<Longrightarrow> i = j \<or> known rt i" for i
    using assms(2) by (auto simp: known_def install_job_def Let_def same_tables_def split: if_splits)
  then show ?thesis using assms by (auto simp: descends_def install_job_def Let_def same_tables_def)
qed

lemma make_job_descends:
  assumes fresh: "\<And>e. entropy = Inr e \<Longrightarrow> e \<notin> fst ` set (issued rt)"
  shows "descends rt (snd (make_job now ttl entropy jid rel conn rt))"
proof -
  have core: "descends rt rt1 \<and> descends rt (snd (finish_job rel
      (new_job now ttl e i hashing conn cid w t (next_job_id rt1 + 1)) t (rt1\<lparr>next_job_id := next_job_id rt1 + 1\<rparr>)))"
    if e: "entropy = Inr e" and v: "with_verifier f rt = (st, rt1)" for f e i hashing cid w t st rt1
  proof -
    have same: "same_tables rt rt1" using with_verifier_same(1) [of rt f] v by simp
    let ?rt = "rt1\<lparr>next_job_id := next_job_id rt1 + 1\<rparr>"
    have "descends rt (snd (finish_job rel (new_job now ttl e i hashing conn cid w t (next_job_id rt1 + 1)) t ?rt))"
    proof (cases "new_job now ttl e i hashing conn cid w t (next_job_id rt1 + 1)")
      case (Inl err)
      then show ?thesis using same rollback_same(1) [of "stop_mining ?rt" rel None "tc_seed_id t"]
        by (intro same_tables_descends) (simp add: finish_job_def same_tables_def stop_mining_def)
    next
      case (Inr m)
      obtain j work where m: "m = (j, work)" by (cases m)
      let ?r = "?rt\<lparr>registry := retain_height (registry ?rt) (jc_source j) (jc_height j)\<rparr>"
      show ?thesis
      proof (cases "map_has (jobs ?rt) (job_id work)")
        case True
        then show ?thesis using Inr m same rollback_same(1) [of ?r rel "Some j" "tc_seed_id t"]
          by (intro same_tables_descends) (simp add: finish_job_def same_tables_def mark_database_unavailable_def)
      next
        case False
        have "descends rt (install_job j (?r\<lparr>issued := (jc_entropy j, jc_source j, jc_height j) # issued ?r\<rparr>))"
          using fresh [OF e] new_job_fields Inr m same by (intro install_descends) (simp_all add: same_tables_def)
        then show ?thesis using Inr m False by (simp add: finish_job_def)
      qed
    qed
    then show ?thesis using same_tables_descends [OF same] by simp
  qed
  have err: "descends rt (rt\<lparr>runtime_error := x\<rparr>)" "descends rt rt" for x by (simp_all add: same_tables_descends same_tables_def)
  show ?thesis unfolding make_job_def
    using err core by (auto simp: and_then_eq_Inr Let_def split: option.splits sum.splits prod.splits if_splits)
qed

lemma add_lease_descends:
  assumes "tables_good rt" and "same_tables rt rt'" and "\<And>j. lease_job l = Some j \<Longrightarrow> known rt j"
  shows "descends rt (snd (add_lease l rt'))"
proof -
  have "map_of (leases rt) (next_lease rt) = None"
    using assms(1) by (auto simp: tables_good_def) (metis less_irrefl not_None_eq)
  then have "map_of (leases rt) \<subseteq>\<^sub>m map_of (leases (snd (add_lease l rt')))"
    using assms(2) by (auto simp: add_lease_def same_tables_def map_le_def)
  moreover have "known (snd (add_lease l rt')) j \<Longrightarrow> known rt j" for j
    using assms(2,3) by (auto simp: known_def add_lease_def same_tables_def split: if_splits)
  ultimately show ?thesis using assms(2) by (auto simp: descends_def add_lease_def same_tables_def)
qed

lemma admit_descends:
  assumes "tables_good rt"
  shows "descends rt (snd (admit_submission conn jid latest received rt))"
proof -
  have un: "descends rt (snd (add_lease l rt))" if "lease_job l = None" for l
    by (rule add_lease_descends [OF assms]) (simp_all add: that)
  have job: "descends rt (snd (job_lease_of j rt))" if j: "known rt j" for j
  proof -
    obtain st rt1 where v: "with_verifier (retain_seed (jc_seed_id j)) rt = (st, rt1)" by (cases "with_verifier (retain_seed (jc_seed_id j)) rt")
    have same: "same_tables rt rt1" using with_verifier_same(1) [of rt "retain_seed (jc_seed_id j)"] v by simp
    have "descends rt (snd (add_lease l (rt1\<lparr>registry := r\<rparr>)))" if "lease_job l = Some j" for l r
      by (rule add_lease_descends [OF assms]) (use same that j in \<open>simp_all add: same_tables_def\<close>)
    then show ?thesis using v same_tables_descends [OF same] by (simp add: job_lease_of_def Let_def case_prod_beta)
  qed
  have "descends rt (snd (case job_lease_of j rt of (Inl e, rt) \<Rightarrow> (Inl e, rt) | (Inr i, rt) \<Rightarrow> (Inr (i, jc_network j), rt)))"
    if "map_of (jobs rt) jid = Some j" for j
    using job [of j] that by (cases "job_lease_of j rt") (auto simp: known_def split: sum.splits)
  then show ?thesis using un same_tables_descends [OF failure_same(1)]
    by (auto simp: admit_submission_def Let_def case_prod_beta split: option.splits)
qed

lemma runtime_step_descends:
  assumes "runtime_step rt rt'" and "runtime_inv rt"
  shows "descends rt rt'"
  using assms
proof (induction rule: runtime_step.induct)
  case (obsolete rt c h)
  show ?case
  proof (cases "map_of (connection_jobs rt) c")
    case (Some ids)
    obtain kept gone table where sp: "split_history h ids (jobs rt) = (kept, gone, table)" by (cases "split_history h ids (jobs rt)")
    show ?thesis using split_history_spec [OF inv_tables [OF obsolete, THEN conjunct1] sp] Some sp
      by (intro sub_descends) (auto simp: take_obsolete_def known_def)
  qed (simp add: take_obsolete_def same_tables_descends)
next
  case (taken rt jid)
  show ?case by (cases "map_of (jobs rt) jid") (auto simp: take_job_def known_def map_le_def same_tables_descends intro!: sub_descends)
next
  case (retired j rt rel)
  have "set (retiring (retire_taken rel j rt)) \<subseteq> set (retiring rt)" by (simp add: retiring_after set_remove1_subset)
  then show ?case by (intro sub_descends) (auto simp: retire_taken_def retire_job_context_def release_bucket_def Let_def known_def)
next
  case (authenticated rt w ids)
  note spec = set_worker_spec [OF inv_tables [OF authenticated, THEN conjunct1], of w ids, THEN conjunct2, THEN conjunct2]
  have "\<exists>j'. known rt j' \<and> jc_entropy j = jc_entropy j'" if k: "known (rt\<lparr>jobs := set_worker w ids (jobs rt)\<rparr>) j" for j
  proof (cases "known rt j")
    case False
    then obtain i where "map_of (set_worker w ids (jobs rt)) i = Some j" using k by (auto simp: known_def)
    then obtain j' where "map_of (jobs rt) i = Some j'" "alike j j'" using spec by blast
    then show ?thesis unfolding known_def alike_def by blast
  qed blast
  then show ?case by (simp add: descends_def)
qed (auto intro: make_job_descends admit_descends same_tables_descends simp: runtime_inv_def)

lemma drop_lease_known: "known (drop_lease rel i rt) j \<Longrightarrow> known rt j" "issued (drop_lease rel i rt) = issued rt"
  by (auto simp: drop_lease_def known_def Let_def split: option.splits if_splits)

end
