(* ===== verification/Candidate_Store.thy ===== *)
theory Candidate_Store
  imports Prelude
begin

text \<open>
  The durable life of a block candidate: the tables \<open>candidates\<close>, \<open>candidate_attempts\<close>,
  \<open>candidate_reconciliations\<close>, \<open>rounds\<close>, \<open>candidate_verdicts\<close>, \<open>abuse_events\<close>, \<open>blocknotify_deliveries\<close> and \<open>events\<close>
  of src/db/schema.sql and the methods of \<open>Database\<close> in src/db/database.cpp that work on them.

  A table is the list of its rows in the order of their insertion, \<open>UPDATE ... WHERE\<close> maps over it, and a new row
  identifier is one more than the largest. Every method holds the writer's mutex and runs in one
  transaction, so it is one function on the store; an exception rolls back and is the value \<open>Inl\<close>. What a
  method reads from the tables of shares, which are not part of this theory, is the argument \<open>shares_view\<close>; the
  columns of a round that share accounting writes change by the step \<open>Account\<close>.
\<close>

section \<open>Tables\<close>

definition update_where :: "('r \<Rightarrow> bool) \<Rightarrow> ('r \<Rightarrow> 'r) \<Rightarrow> 'r list \<Rightarrow> 'r list" where
  "update_where p f rows = map (\<lambda>r. if p r then f r else r) rows"

text \<open>\<open>sqlite3_changes\<close> after an update.\<close>

definition changed_rows :: "('r \<Rightarrow> bool) \<Rightarrow> 'r list \<Rightarrow> nat" where
  "changed_rows p rows = length (filter p rows)"

definition new_rowid :: "int list \<Rightarrow> int" where
  "new_rowid ids = foldr max ids 0 + 1"

datatype candidate_state =
    Cand_Journaled | Cand_Dispatching | Cand_Retry_Wait | Cand_Accepted | Cand_Rejected | Cand_Ambiguous
  | Cand_Accepted_By_Reconciliation

definition state_name :: "candidate_state \<Rightarrow> string" where
  "state_name st = (case st of Cand_Journaled \<Rightarrow> ''journaled'' | Cand_Dispatching \<Rightarrow> ''dispatching''
     | Cand_Retry_Wait \<Rightarrow> ''retry_wait'' | Cand_Accepted \<Rightarrow> ''accepted'' | Cand_Rejected \<Rightarrow> ''rejected''
     | Cand_Ambiguous \<Rightarrow> ''ambiguous'' | Cand_Accepted_By_Reconciliation \<Rightarrow> ''accepted_by_reconciliation'')"

definition parse_candidate_state :: "string \<Rightarrow> candidate_state result" where
  "parse_candidate_state t =
     (if t = ''journaled'' then Inr Cand_Journaled
      else if t = ''dispatching'' then Inr Cand_Dispatching
      else if t = ''retry_wait'' then Inr Cand_Retry_Wait
      else if t = ''accepted'' then Inr Cand_Accepted
      else if t = ''rejected'' then Inr Cand_Rejected
      else if t = ''ambiguous'' then Inr Cand_Ambiguous
      else if t = ''accepted_by_reconciliation'' then Inr Cand_Accepted_By_Reconciliation
      else Inl (DatabaseError ''database contains an invalid candidate state''))"

definition accepted_state :: "candidate_state \<Rightarrow> bool" where
  "accepted_state st \<longleftrightarrow> st = Cand_Accepted \<or> st = Cand_Accepted_By_Reconciliation"

datatype attempt_outcome = Outcome_Accepted | Outcome_Rejection | Outcome_Indeterminate

record attempt_completion =
  ac_outcome :: attempt_outcome
  ac_completed :: int
  ac_trusted :: bool
  ac_http_status :: "int option"
  ac_rpc_error :: "int option"
  ac_daemon_status :: "string option"
  ac_daemon_block_id :: "bytes option"
  ac_excerpt :: "string option"

record attempt_row =
  at_id :: int
  at_candidate :: int
  at_number :: int
  at_rpc :: int
  at_started :: int
  at_outcome :: "attempt_outcome option" \<comment> \<open>\<open>None\<close> is the classification \<open>dispatching\<close>\<close>
  at_completion :: "attempt_completion option"
  at_excerpt :: "string option"

record candidate_row =
  cr_id :: int
  cr_key :: bytes
  cr_session :: int
  cr_round :: int
  cr_first_share :: "int option"
  cr_job :: bytes
  cr_generation :: int
  cr_connection :: int
  cr_height :: int
  cr_peer_family :: int
  cr_peer_address :: bytes
  cr_frozen :: bytes
  cr_miner_tx :: bytes
  cr_expected :: "bytes option"
  cr_canonical :: "bytes option"
  cr_state :: candidate_state
  cr_attempts :: int
  cr_max_attempts :: int
  cr_had_indeterminate :: bool
  cr_cycles :: int
  cr_next_reconciliation :: "int option"
  cr_exhausted :: "int option"
  cr_created :: int
  cr_updated :: int
  cr_accepted :: "int option"
  cr_reason :: "string option"

datatype lookup_kind = By_Expected_Hash | By_Height

datatype lookup_class = Lookup_Positive | Lookup_Inconclusive | Lookup_Indeterminate

record lookup_completion =
  lc_class :: lookup_class
  lc_completed :: int
  lc_block_id :: "bytes option"
  lc_height :: "u64 option"
  lc_miner_tx :: "bytes option"
  lc_orphan :: "bool option"
  lc_excerpt :: "string option"

record lookup_row =
  lk_id :: int
  lk_candidate :: int
  lk_cycle :: int
  lk_kind :: lookup_kind
  lk_rpc :: int
  lk_requested :: "bytes option"
  lk_started :: int
  lk_completion :: "lookup_completion option" \<comment> \<open>\<open>None\<close> is the classification \<open>querying\<close>\<close>
  lk_abandoned :: bool \<comment> \<open>made indeterminate by a restart, without a completion\<close>

record round_row =
  rd_id :: int
  rd_opened :: int
  rd_closed :: "int option" \<comment> \<open>\<open>None\<close> is the state \<open>open\<close>\<close>
  rd_candidate :: "int option"
  rd_height :: "int option"
  rd_miner_tx :: "bytes option"
  rd_block_id :: "bytes option"
  rd_credited :: nat
  rd_share_count :: int
  rd_max_share_height :: int
  rd_finalized :: "(int \<times> int) option"

datatype verdict_kind = Kind_False_Candidate | Kind_Candidate_Mismatch

datatype verdict_disposition = Verdict_Pending | Verdict_Actionable | Verdict_Suppressed

record verdict_row =
  vd_share :: int
  vd_kind :: verdict_kind
  vd_key :: bytes
  vd_candidate :: "int option"
  vd_disposition :: verdict_disposition
  vd_created :: int
  vd_resolved :: "int option"
  vd_abuse :: "int option"

record abuse_row =
  ab_id :: int
  ab_share :: "int option"
  ab_candidate :: "int option"
  ab_kind :: string
  ab_created :: int

datatype delivery_state = Delivery_Pending | Delivery_Running | Delivery_Delivered | Delivery_Retry_Wait

record delivery_row =
  dl_id :: int
  dl_candidate :: int
  dl_miner_tx :: bytes
  dl_state :: delivery_state
  dl_attempts :: int
  dl_next :: "int option"
  dl_started :: "int option"
  dl_completed :: "int option"
  dl_exit :: "int option"
  dl_signal :: "int option"

record stored_event =
  se_session :: int
  se_time :: int
  se_type :: string
  se_candidate :: "int option"
  se_round :: "int option"

record store =
  st_blocknotify_enabled :: bool
  st_session :: int \<comment> \<open>the latest server session, 0 before the first\<close>
  st_candidates :: "candidate_row list"
  st_attempts :: "attempt_row list"
  st_lookups :: "lookup_row list"
  st_rounds :: "round_row list"
  st_verdicts :: "verdict_row list"
  st_abuse :: "abuse_row list"
  st_deliveries :: "delivery_row list"
  st_events :: "stored_event list"

record shares_view =
  sv_origin :: "int \<Rightarrow> (int \<times> int \<times> int option \<times> bytes option \<times> int option \<times> int option) option"
  sv_attaches :: "int \<Rightarrow> bool"
  sv_higher :: "int \<Rightarrow> int \<Rightarrow> bool"
  sv_unsettled :: "int \<Rightarrow> bool"
  sv_segments :: "int \<Rightarrow> (nat \<times> int) list"
  sv_peer_evidence :: "int \<Rightarrow> bool"

type_synonym 'a db = "('a \<times> store) result"

abbreviation fail :: "string \<Rightarrow> 'a result" where
  "fail message \<equiv> Inl (DatabaseError message)"

section \<open>Shared steps\<close>

definition candidate_by_id :: "store \<Rightarrow> int \<Rightarrow> candidate_row option" where
  "candidate_by_id s i = find (\<lambda>c. cr_id c = i) (st_candidates s)"

definition candidate_by_key :: "store \<Rightarrow> bytes \<Rightarrow> candidate_row option" where
  "candidate_by_key s k = find (\<lambda>c. cr_key c = k) (st_candidates s)"

definition round_by_id :: "store \<Rightarrow> int \<Rightarrow> round_row option" where
  "round_by_id s i = find (\<lambda>r. rd_id r = i) (st_rounds s)"

definition candidate_context :: "store \<Rightarrow> int \<Rightarrow> candidate_row result" where
  "candidate_context s i =
     (case candidate_by_id s i of None \<Rightarrow> fail ''candidate does not exist''
      | Some c \<Rightarrow> if st_session s > 0 then Inr c else fail ''candidate event has no server session'')"

definition add_event :: "int \<Rightarrow> string \<Rightarrow> int option \<Rightarrow> int option \<Rightarrow> store \<Rightarrow> store" where
  "add_event t kind cand rnd s = s\<lparr>st_events := st_events s @
     [\<lparr>se_session = st_session s, se_time = t, se_type = kind, se_candidate = cand, se_round = rnd\<rparr>]\<rparr>"

definition open_new_round :: "int \<Rightarrow> store \<Rightarrow> int \<times> store" where
  "open_new_round t s =
     (let i = new_rowid (map rd_id (st_rounds s)) in
      (i, s\<lparr>st_rounds := st_rounds s @ [\<lparr>rd_id = i, rd_opened = t, rd_closed = None, rd_candidate = None, rd_height = None,
         rd_miner_tx = None, rd_block_id = None, rd_credited = 0, rd_share_count = 0, rd_max_share_height = 0,
         rd_finalized = None\<rparr>]\<rparr>))"

definition open_rounds :: "store \<Rightarrow> round_row list" where
  "open_rounds s = filter (\<lambda>r. rd_closed r = None) (st_rounds s)"

definition round_has_higher_share_height :: "shares_view \<Rightarrow> store \<Rightarrow> int \<Rightarrow> int \<Rightarrow> bool result" where
  "round_has_higher_share_height v s rid h =
     (case round_by_id s rid of None \<Rightarrow> fail ''candidate origin round does not exist''
      | Some r \<Rightarrow> Inr (rd_max_share_height r > h \<or> sv_higher v rid h))"

definition insert_abuse :: "int option \<Rightarrow> int option \<Rightarrow> string \<Rightarrow> int \<Rightarrow> store \<Rightarrow> int \<times> store" where
  "insert_abuse share cand kind t s =
     (let i = new_rowid (map ab_id (st_abuse s)) in
      (i, s\<lparr>st_abuse := st_abuse s @ [\<lparr>ab_id = i, ab_share = share, ab_candidate = cand, ab_kind = kind, ab_created = t\<rparr>]\<rparr>))"

definition candidate_abuse :: "store \<Rightarrow> int \<Rightarrow> string \<Rightarrow> abuse_row option" where
  "candidate_abuse s i kind = find (\<lambda>a. ab_candidate a = Some i \<and> ab_kind a = kind) (st_abuse s)"

text \<open>The one abuse event of a kind on record for a candidate, written when there is none yet.\<close>

definition candidate_abuse_event :: "int \<Rightarrow> string \<Rightarrow> int \<Rightarrow> int \<Rightarrow> store \<Rightarrow> int \<times> store" where
  "candidate_abuse_event cid kind share t s =
     (case candidate_abuse s cid kind of Some a \<Rightarrow> (ab_id a, s)
      | None \<Rightarrow> insert_abuse (Some share) (Some cid) kind t s)"

definition verdict_abuse_kind :: "verdict_kind \<Rightarrow> string" where
  "verdict_abuse_kind k = (if k = Kind_False_Candidate then ''verified_false_candidate'' else ''candidate_mismatch'')"

definition i64_max :: int where
  "i64_max = 2 ^ 63 - 1"

section \<open>Rounds\<close>

text \<open>The totals of the work segments; \<open>Inl\<close> where a sum leaves its range.\<close>

fun segment_totals :: "(nat \<times> int) list \<Rightarrow> nat \<Rightarrow> int \<Rightarrow> (nat \<times> int) result" where
  "segment_totals [] credit n = Inr (credit, n)"
| "segment_totals ((d, k) # segs) credit n =
     (if credit + d \<ge> 2 ^ 128 then fail ''decimal sum exceeds uint128''
      else if k \<le> 0 \<or> n > i64_max - k then fail ''round work segment share count is invalid''
      else segment_totals segs (credit + d) (n + k))"

definition try_finalize_round :: "shares_view \<Rightarrow> int \<Rightarrow> int \<Rightarrow> store \<Rightarrow> bool db" where
  "try_finalize_round v rid t s =
     (if rid \<le> 0 then fail ''round finalization has an invalid round ID''
      else case round_by_id s rid of
        None \<Rightarrow> fail ''round finalization target does not exist''
      | Some r \<Rightarrow>
          case rd_closed r of
            None \<Rightarrow> Inr (False, s)
          | Some closed \<Rightarrow>
              if rd_finalized r \<noteq> None then Inr (False, s)
              else if sv_unsettled v rid then Inr (False, s)
              else case segment_totals (sv_segments v rid) 0 0 of
                Inl e \<Rightarrow> Inl e
              | Inr (credit, n) \<Rightarrow>
                  if credit \<noteq> rd_credited r then fail ''round work segments do not match credited difficulty''
                  else if n \<noteq> rd_share_count r then fail ''round work segments do not match accepted share count''
                  else Inr (True, s\<lparr>st_rounds := update_where (\<lambda>r. rd_id r = rid \<and> rd_closed r \<noteq> None \<and> rd_finalized r = None)
                         (\<lambda>r. r\<lparr>rd_finalized := Some (max t closed, int (length (sv_segments v rid)))\<rparr>) (st_rounds s)\<rparr>))"

definition nul_guard :: "string \<Rightarrow> string option \<Rightarrow> unit result" where
  "nul_guard field t =
     (case t of None \<Rightarrow> Inr ()
      | Some x \<Rightarrow> if CHR 0x00 \<in> set x then fail (field @ '' contains an embedded NUL'') else Inr ())"

definition start_session :: "string \<Rightarrow> string option \<Rightarrow> int \<Rightarrow> store \<Rightarrow> int db" where
  "start_session version verifier_commit t s =
     (if version = [] then fail ''server version is empty''
      else and_then (nul_guard ''server version'' (Some version)) (\<lambda>_.
           and_then (nul_guard ''verifier commit'' verifier_commit) (\<lambda>_.
      let i = st_session s + 1; s = s\<lparr>st_session := i\<rparr> in
      case open_rounds s of
        [] \<Rightarrow> (let (rid, s) = open_new_round t s in
               Inr (i, add_event t ''round_opened'' None (Some rid) (add_event t ''server_started'' None None s)))
      | [_] \<Rightarrow> Inr (i, add_event t ''server_started'' None None s)
      | _ \<Rightarrow> fail ''database contains multiple open rounds'')))"

definition ensure_open_round :: "int \<Rightarrow> store \<Rightarrow> int db" where
  "ensure_open_round t s =
     (case open_rounds s of
        [] \<Rightarrow> Inr (open_new_round t s)
      | [r] \<Rightarrow> Inr (rd_id r, s)
      | _ \<Rightarrow> fail ''database contains multiple open rounds'')"

definition current_open_round_id :: "store \<Rightarrow> int result" where
  "current_open_round_id s =
     (case open_rounds s of [] \<Rightarrow> fail ''database has no open round'' | [r] \<Rightarrow> Inr (rd_id r)
      | _ \<Rightarrow> fail ''database contains multiple open rounds'')"

definition latest_accepted_height :: "store \<Rightarrow> u64 option result" where
  "latest_accepted_height s =
     (case filter (\<lambda>r. rd_closed r \<noteq> None) (st_rounds s) of
        [] \<Rightarrow> Inr None
      | rs \<Rightarrow> let h = (case rd_height (last rs) of None \<Rightarrow> 0 | Some h \<Rightarrow> h) in
          if h > 0 then Inr (Some (of_int h)) else fail ''latest accepted round height is invalid'')"

section \<open>Acceptance\<close>

definition eligible :: "bool \<Rightarrow> candidate_state \<Rightarrow> bool" where
  "eligible by_reconciliation st \<longleftrightarrow> st = Cand_Journaled \<or> st = Cand_Dispatching \<or> st = Cand_Retry_Wait \<or>
     by_reconciliation \<and> st = Cand_Ambiguous"

definition accepted_row :: "int \<Rightarrow> bytes option \<Rightarrow> bool \<Rightarrow> candidate_row \<Rightarrow> candidate_row" where
  "accepted_row t canonical by_reconciliation r =
     r\<lparr>cr_state := (if by_reconciliation then Cand_Accepted_By_Reconciliation else Cand_Accepted),
       cr_canonical := (if canonical = None then cr_canonical r else canonical),
       cr_accepted := Some t, cr_updated := t,
       cr_reason := Some (if by_reconciliation then ''positive_reconciliation'' else ''daemon_ok'')\<rparr>"

definition closed_row :: "candidate_row \<Rightarrow> int \<Rightarrow> bytes option \<Rightarrow> round_row \<Rightarrow> round_row" where
  "closed_row c t canonical r =
     r\<lparr>rd_closed := Some t, rd_candidate := Some (cr_id c), rd_height := Some (cr_height c),
       rd_miner_tx := Some (cr_miner_tx c), rd_block_id := canonical\<rparr>"

definition mark_accepted :: "candidate_row \<Rightarrow> int \<Rightarrow> bytes option \<Rightarrow> bool \<Rightarrow> store \<Rightarrow> store" where
  "mark_accepted c t canonical by_reconciliation s =
     s\<lparr>st_candidates := update_where (\<lambda>r. cr_id r = cr_id c)
         (accepted_row t canonical by_reconciliation)
         (st_candidates s),
       st_verdicts := update_where (\<lambda>x. vd_candidate x = Some (cr_id c) \<and> vd_disposition x = Verdict_Pending)
         (\<lambda>x. x\<lparr>vd_disposition := Verdict_Suppressed, vd_resolved := Some t\<rparr>) (st_verdicts s)\<rparr>"

definition close_round :: "candidate_row \<Rightarrow> int \<Rightarrow> bytes option \<Rightarrow> store \<Rightarrow> store" where
  "close_round c t canonical s =
     s\<lparr>st_rounds := update_where (\<lambda>r. rd_id r = cr_round c \<and> rd_closed r = None)
         (closed_row c t canonical) (st_rounds s)\<rparr>"

definition queue_notification :: "candidate_row \<Rightarrow> store \<Rightarrow> store" where
  "queue_notification c s =
     (if st_blocknotify_enabled s \<and> \<not> list_ex (\<lambda>d. dl_candidate d = cr_id c) (st_deliveries s)
      then s\<lparr>st_deliveries := st_deliveries s @ [\<lparr>dl_id = new_rowid (map dl_id (st_deliveries s)), dl_candidate = cr_id c,
             dl_miner_tx = cr_miner_tx c, dl_state = Delivery_Pending, dl_attempts = 0, dl_next = None, dl_started = None,
             dl_completed = None, dl_exit = None, dl_signal = None\<rparr>]\<rparr>
      else s)"

text \<open>The writes of an acceptance: the candidate, its verdicts, the round, the next round, the events, the notification.\<close>

definition record_acceptance :: "candidate_row \<Rightarrow> int \<Rightarrow> int \<Rightarrow> bytes option \<Rightarrow> bool \<Rightarrow> store \<Rightarrow> store" where
  "record_acceptance c rid t canonical by_reconciliation s =
     (let contradictions = list_ex (\<lambda>x. vd_candidate x = Some (cr_id c) \<and> vd_disposition x = Verdict_Pending) (st_verdicts s);
          s = close_round c t canonical (mark_accepted c t canonical by_reconciliation s);
          (next_round, s) = open_new_round t s;
          s = add_event t ''round_closed'' (Some (cr_id c)) (Some rid) s;
          s = add_event t (if by_reconciliation then ''candidate_reconciled'' else ''candidate_result'')
                (Some (cr_id c)) (Some rid) s;
          s = add_event t ''round_opened'' None (Some next_round) s;
          s = (if contradictions then add_event t ''verifier_consistency_error'' (Some (cr_id c)) (Some rid) s else s) in
      queue_notification c s)"

text \<open>
  \<open>accept_candidate_in_transaction\<close>. The schema refuses to close a round before it was opened, which aborts
  the transaction.
\<close>

definition accept_candidate_in_transaction ::
  "shares_view \<Rightarrow> int \<Rightarrow> int \<Rightarrow> bytes option \<Rightarrow> bool \<Rightarrow> store \<Rightarrow> bool db" where
  "accept_candidate_in_transaction v cid t canonical by_reconciliation s =
     (case candidate_context s cid of Inl e \<Rightarrow> Inl e
      | Inr c \<Rightarrow>
        if accepted_state (cr_state c) then Inr (False, s)
        else if cr_state c = Cand_Rejected then fail ''an explicitly rejected candidate cannot later be accepted''
        else if by_reconciliation \<and> canonical = None then fail ''positive reconciliation requires a canonical block ID''
        else if \<not> eligible by_reconciliation (cr_state c)
        then fail (if by_reconciliation then ''candidate is not eligible for positive reconciliation''
                   else ''candidate is not eligible for daemon acceptance'')
        else case open_rounds s of
          [] \<Rightarrow> fail ''candidate acceptance found no open round''
        | [r] \<Rightarrow>
            (if rd_id r \<noteq> cr_round c then fail ''candidate origin round is no longer the open round''
             else case round_has_higher_share_height v s (cr_round c) (cr_height c) of
               Inl e \<Rightarrow> Inl e
             | Inr True \<Rightarrow> fail ''candidate origin round contains a higher-height share''
             | Inr False \<Rightarrow>
                 if t < rd_opened r then fail ''CHECK constraint failed''
                 else
                   (case try_finalize_round v (rd_id r) t (record_acceptance c (rd_id r) t canonical by_reconciliation s) of
                      Inl e \<Rightarrow> Inl e | Inr (_, s) \<Rightarrow> Inr (True, s)))
        | _ \<Rightarrow> fail ''candidate acceptance found multiple open rounds'')"

definition accept_candidate :: "shares_view \<Rightarrow> int \<Rightarrow> int \<Rightarrow> bytes option \<Rightarrow> bool \<Rightarrow> store \<Rightarrow> bool db" where
  "accept_candidate v cid t canonical by_reconciliation s =
     (if cid \<le> 0 then fail ''candidate ID must be positive''
      else accept_candidate_in_transaction v cid t canonical by_reconciliation s)"

section \<open>Journaling\<close>

record candidate_journal =
  cj_key :: bytes
  cj_first_share :: "int option"
  cj_session :: int
  cj_round :: int
  cj_job :: bytes
  cj_generation :: int
  cj_connection :: int
  cj_height :: u64
  cj_peer_family :: int
  cj_peer_address :: bytes
  cj_frozen :: bytes
  cj_miner_tx :: bytes
  cj_expected :: "bytes option"
  cj_max_attempts :: u32
  cj_created :: int

record journal_result =
  jr_candidate_id :: int
  jr_inserted :: bool
  jr_state :: candidate_state
  jr_contaminated :: bool

definition journal_guard :: "shares_view \<Rightarrow> candidate_journal \<Rightarrow> unit result" where
  "journal_guard v j =
     (if cj_first_share j \<noteq> None \<and> the (cj_first_share j) \<le> 0
      then fail ''candidate share correlation must be positive when present''
      else if \<not> (cj_session j > 0 \<and> cj_round j > 0 \<and> cj_generation j > 0 \<and> cj_connection j > 0)
      then fail ''candidate references must be positive''
      else if cj_height j = 0 then fail ''candidate height must be positive''
      else if uint (cj_height j) > i64_max then fail ''candidate height is outside SQLite INTEGER range''
      else if cj_peer_family j \<noteq> 2 \<and> cj_peer_family j \<noteq> 10
      then fail ''candidate peer family must be AF_INET or AF_INET6''
      else if length (cj_peer_address j) \<noteq> (if cj_peer_family j = 2 then 4 else 16)
      then fail ''candidate peer address has the wrong size''
      else if cj_frozen j = [] then fail ''candidate frozen block is empty''
      else if \<not> (cj_max_attempts j \<ge> 1 \<and> cj_max_attempts j \<le> 4) then fail ''candidate max attempts is outside 1..4''
      else case cj_first_share j of
        None \<Rightarrow> Inr ()
      | Some share \<Rightarrow>
          (case sv_origin v share of
             None \<Rightarrow> fail ''candidate share correlation does not exist''
           | Some origin \<Rightarrow>
               if origin = (cj_session j, cj_round j, Some (cj_connection j), Some (cj_job j), Some (cj_generation j),
                            Some (uint (cj_height j)))
               then Inr () else fail ''candidate snapshot differs from its share correlation''))"

definition fresh_candidate :: "int \<Rightarrow> candidate_journal \<Rightarrow> candidate_row" where
  "fresh_candidate i j =
     \<lparr>cr_id = i, cr_key = cj_key j, cr_session = cj_session j, cr_round = cj_round j, cr_first_share = cj_first_share j,
      cr_job = cj_job j, cr_generation = cj_generation j, cr_connection = cj_connection j, cr_height = uint (cj_height j),
      cr_peer_family = cj_peer_family j, cr_peer_address = cj_peer_address j, cr_frozen = cj_frozen j,
      cr_miner_tx = cj_miner_tx j, cr_expected = cj_expected j, cr_canonical = None, cr_state = Cand_Journaled,
      cr_attempts = 0, cr_max_attempts = uint (cj_max_attempts j), cr_had_indeterminate = False, cr_cycles = 0,
      cr_next_reconciliation = None, cr_exhausted = None, cr_created = cj_created j, cr_updated = cj_created j,
      cr_accepted = None, cr_reason = None\<rparr>"

definition journal_matches :: "candidate_journal \<Rightarrow> candidate_row \<Rightarrow> unit result" where
  "journal_matches j c =
     (if cr_frozen c \<noteq> cj_frozen j then fail ''candidate key collision has different frozen bytes''
      else if cr_miner_tx c \<noteq> cj_miner_tx j then fail ''candidate key collision has different miner transaction hash''
      else if \<not> (cr_session c = cj_session j \<and> cr_round c = cj_round j \<and> cr_job c = cj_job j \<and>
                 cr_generation c = cj_generation j \<and> cr_connection c = cj_connection j \<and> cr_height c = uint (cj_height j))
      then fail ''candidate key collision has different snapshotted context''
      else Inr ())"

definition attach_guard :: "shares_view \<Rightarrow> candidate_journal \<Rightarrow> unit result" where
  "attach_guard v j =
     (case cj_first_share j of None \<Rightarrow> Inr ()
      | Some share \<Rightarrow> if sv_attaches v share then Inr ()
          else fail ''candidate share is absent or attached to another candidate'')"

definition contaminated :: "journal_result" where
  "contaminated = \<lparr>jr_candidate_id = 0, jr_inserted = False, jr_state = Cand_Journaled, jr_contaminated = True\<rparr>"

text \<open>The row of a new candidate; pending verdicts for its key are linked to it.\<close>

definition insert_candidate :: "candidate_journal \<Rightarrow> store \<Rightarrow> journal_result db" where
  "insert_candidate j s =
     (let i = new_rowid (map cr_id (st_candidates s));
          s = s\<lparr>st_candidates := st_candidates s @ [fresh_candidate i j],
                st_verdicts := update_where (\<lambda>x. vd_key x = cj_key j \<and> vd_candidate x = None \<and> vd_disposition x = Verdict_Pending)
                  (\<lambda>x. x\<lparr>vd_candidate := Some i\<rparr>) (st_verdicts s)\<rparr> in
      case candidate_context s i of Inl e \<Rightarrow> Inl e
      | Inr _ \<Rightarrow> Inr (\<lparr>jr_candidate_id = i, jr_inserted = True, jr_state = Cand_Journaled, jr_contaminated = False\<rparr>,
                      add_event (cj_created j) ''candidate_journaled'' (Some i) None s))"

definition journal_candidate_row :: "shares_view \<Rightarrow> candidate_journal \<Rightarrow> store \<Rightarrow> journal_result db" where
  "journal_candidate_row v j s =
     and_then (journal_guard v j) (\<lambda>_.
      case candidate_by_key s (cj_key j) of
        Some c \<Rightarrow>
          and_then (journal_matches j c) (\<lambda>_. and_then (attach_guard v j) (\<lambda>_.
            Inr (\<lparr>jr_candidate_id = cr_id c, jr_inserted = False, jr_state = cr_state c, jr_contaminated = False\<rparr>, s)))
      | None \<Rightarrow>
          (case round_by_id s (cj_round j) of
             None \<Rightarrow> fail ''candidate origin round does not exist''
           | Some r \<Rightarrow>
               if rd_closed r \<noteq> None then Inr (contaminated, s)
               else case round_has_higher_share_height v s (cj_round j) (uint (cj_height j)) of
                 Inl e \<Rightarrow> Inl e
               | Inr True \<Rightarrow> Inr (contaminated, s)
               | Inr False \<Rightarrow> and_then (attach_guard v j) (\<lambda>_. insert_candidate j s)))"

definition find_candidate_by_key :: "bytes \<Rightarrow> store \<Rightarrow> journal_result option" where
  "find_candidate_by_key k s =
     map_option (\<lambda>c. \<lparr>jr_candidate_id = cr_id c, jr_inserted = False, jr_state = cr_state c, jr_contaminated = False\<rparr>)
       (candidate_by_key s k)"

section \<open>Attempts\<close>

definition attempt_of :: "store \<Rightarrow> int \<Rightarrow> int \<Rightarrow> attempt_row option" where
  "attempt_of s cid n = find (\<lambda>a. at_candidate a = cid \<and> at_number a = n) (st_attempts s)"

definition start_candidate_attempt :: "int \<Rightarrow> u32 \<Rightarrow> int \<Rightarrow> int \<Rightarrow> store \<Rightarrow> int db" where
  "start_candidate_attempt cid attempt rpc started s =
     (if cid \<le> 0 then fail ''candidate ID must be positive''
      else if \<not> (attempt \<ge> 1 \<and> attempt \<le> 4) then fail ''candidate attempt number is outside 1..4''
      else case candidate_by_id s cid of None \<Rightarrow> fail ''candidate does not exist''
      | Some c \<Rightarrow>
        if \<not> eligible False (cr_state c) then fail ''candidate is not dispatchable''
        else if uint attempt > cr_max_attempts c then fail ''candidate attempt exceeds snapshotted maximum''
        else case attempt_of s cid (uint attempt) of
          Some a \<Rightarrow>
            if at_rpc a = rpc \<and> at_started a = started \<and> at_outcome a = None then Inr (at_id a, s)
            else fail ''candidate attempt number was already used differently''
        | None \<Rightarrow>
            if uint attempt \<noteq> cr_attempts c + 1 then fail ''candidate attempts must be started sequentially''
            else
              (let i = new_rowid (map at_id (st_attempts s));
                   s = s\<lparr>st_attempts := st_attempts s @ [\<lparr>at_id = i, at_candidate = cid, at_number = uint attempt, at_rpc = rpc,
                           at_started = started, at_outcome = None, at_completion = None, at_excerpt = None\<rparr>],
                         st_candidates := update_where (\<lambda>r. cr_id r = cid \<and> eligible False (cr_state r))
                           (\<lambda>r. r\<lparr>cr_state := Cand_Dispatching, cr_attempts := uint attempt, cr_updated := started\<rparr>)
                           (st_candidates s)\<rparr> in
               case candidate_context s cid of Inl e \<Rightarrow> Inl e
               | Inr _ \<Rightarrow> Inr (i, add_event started ''candidate_attempt'' (Some cid) None s)))"

text \<open>One kind of verdict on a candidate that has been rejected: the first share becomes actionable, once.\<close>

definition resolve_kind :: "int \<Rightarrow> int \<Rightarrow> verdict_kind \<Rightarrow> store \<Rightarrow> bool \<times> store" where
  "resolve_kind cid t kind s =
     (let mine = (\<lambda>x. vd_candidate x = Some cid \<and> vd_kind x = kind \<and> vd_disposition x = Verdict_Pending);
          suppress = (\<lambda>s. s\<lparr>st_verdicts := update_where mine
             (\<lambda>x. x\<lparr>vd_disposition := Verdict_Suppressed, vd_resolved := Some t\<rparr>) (st_verdicts s)\<rparr>) in
      case filter mine (st_verdicts s) of
        [] \<Rightarrow> (False, s)
      | x # xs \<Rightarrow>
          let share = foldr (\<lambda>y m. min (vd_share y) m) xs (vd_share x);
              (event, s) = candidate_abuse_event cid (verdict_abuse_kind kind) share t s in
          if list_ex (\<lambda>y. vd_abuse y = Some event) (st_verdicts s) then (False, suppress s)
          else
            let chosen = (\<lambda>y. vd_share y = share \<and> vd_kind y = kind \<and> vd_disposition y = Verdict_Pending);
                one = (changed_rows chosen (st_verdicts s) = 1);
                s = s\<lparr>st_verdicts := update_where chosen
                  (\<lambda>y. y\<lparr>vd_disposition := Verdict_Actionable, vd_resolved := Some t, vd_abuse := Some event\<rparr>) (st_verdicts s)\<rparr> in
            (one, suppress s))"

definition resolve_rejected_verdicts :: "int \<Rightarrow> int \<Rightarrow> store \<Rightarrow> (nat \<times> nat) \<times> store" where
  "resolve_rejected_verdicts cid t s =
     (let (f, s) = resolve_kind cid t Kind_False_Candidate s;
          (m, s) = resolve_kind cid t Kind_Candidate_Mismatch s in
      ((if f then 1 else 0, if m then 1 else 0), s))"

record attempt_result =
  ar_state :: candidate_state
  ar_terminal :: bool
  ar_attempts :: u32
  ar_had_indeterminate :: bool
  ar_false_candidates :: nat
  ar_mismatches :: nat
  ar_trusted_rejection :: bool

definition text_guard :: "string \<Rightarrow> string option \<Rightarrow> unit result" where
  "text_guard field t =
     (case t of None \<Rightarrow> Inr ()
      | Some x \<Rightarrow> if CHR 0x00 \<in> set x then fail (field @ '' contains an embedded NUL'')
          else if length x > 4096 then fail (field @ '' exceeds 4096 bytes'') else Inr ())"

definition terminal_state :: "candidate_state \<Rightarrow> bool" where
  "terminal_state st \<longleftrightarrow> accepted_state st \<or> st = Cand_Rejected \<or> st = Cand_Ambiguous"

definition plain_result :: "candidate_row \<Rightarrow> candidate_state \<Rightarrow> bool \<Rightarrow> attempt_result" where
  "plain_result c st terminal = \<lparr>ar_state = st, ar_terminal = terminal, ar_attempts = of_int (cr_attempts c),
     ar_had_indeterminate = cr_had_indeterminate c, ar_false_candidates = 0, ar_mismatches = 0, ar_trusted_rejection = False\<rparr>"

definition close_attempt :: "int \<Rightarrow> int \<Rightarrow> attempt_completion \<Rightarrow> store \<Rightarrow> store" where
  "close_attempt cid n done s =
     s\<lparr>st_attempts := update_where (\<lambda>a. at_candidate a = cid \<and> at_number a = n \<and> at_outcome a = None)
         (\<lambda>a. a\<lparr>at_outcome := Some (ac_outcome done), at_completion := Some done, at_excerpt := ac_excerpt done\<rparr>)
         (st_attempts s)\<rparr>"

text \<open>The verdict on an attempt that was not accepted: a retry, or the end of the attempts.\<close>

definition next_state :: "candidate_row \<Rightarrow> int \<Rightarrow> bool \<Rightarrow> candidate_state" where
  "next_state c n had = (if n < cr_max_attempts c then Cand_Retry_Wait else if had then Cand_Ambiguous else Cand_Rejected)"

definition fail_attempt :: "candidate_row \<Rightarrow> int \<Rightarrow> attempt_completion \<Rightarrow> store \<Rightarrow> attempt_result db" where
  "fail_attempt c n done s =
     (let cid = cr_id c; t = ac_completed done;
          had = cr_had_indeterminate c \<or> ac_outcome done = Outcome_Indeterminate;
          st = next_state c n had; terminal = (st \<noteq> Cand_Retry_Wait) in
      if changed_rows (\<lambda>r. cr_id r = cid \<and> cr_state r = Cand_Dispatching) (st_candidates s) \<noteq> 1
      then fail ''candidate state changed while finalizing attempt''
      else
        let s = s\<lparr>st_candidates := update_where (\<lambda>r. cr_id r = cid \<and> cr_state r = Cand_Dispatching)
                  (\<lambda>r. r\<lparr>cr_state := st, cr_had_indeterminate := had, cr_updated := t,
                        cr_reason := (if terminal then Some (if st = Cand_Ambiguous then ''attempts_exhausted_with_indeterminate''
                                                             else ''attempts_explicitly_rejected'') else None)\<rparr>)
                  (st_candidates s)\<rparr>;
            ((f, m), s) = (if st = Cand_Rejected then resolve_rejected_verdicts cid t s else ((0, 0), s));
            trusted = (st = Cand_Rejected \<and> ac_trusted done \<and> candidate_abuse s cid ''trusted_candidate_rejection'' = None);
            s = (if trusted then snd (insert_abuse (cr_first_share c) (Some cid) ''trusted_candidate_rejection'' t s) else s);
            s = add_event t (if terminal then ''candidate_result'' else ''candidate_retry'') (Some cid) None s in
        Inr (\<lparr>ar_state = st, ar_terminal = terminal, ar_attempts = of_int (cr_attempts c), ar_had_indeterminate = had,
              ar_false_candidates = f, ar_mismatches = m, ar_trusted_rejection = trusted\<rparr>, s))"

definition settle_attempt :: "shares_view \<Rightarrow> candidate_row \<Rightarrow> int \<Rightarrow> attempt_completion \<Rightarrow> store \<Rightarrow> attempt_result db" where
  "settle_attempt v c n done s =
     (if accepted_state (cr_state c)
      then Inr (plain_result c (cr_state c) True, add_event (ac_completed done) ''candidate_result'' (Some (cr_id c)) None s)
      else if ac_outcome done = Outcome_Accepted
      then (case accept_candidate_in_transaction v (cr_id c) (ac_completed done) (ac_daemon_block_id done) False s of
              Inl e \<Rightarrow> Inl e
            | Inr (_, s) \<Rightarrow> Inr (plain_result c Cand_Accepted True, s))
      else fail_attempt c n done s)"

definition finish_candidate_attempt :: "shares_view \<Rightarrow> int \<Rightarrow> u32 \<Rightarrow> attempt_completion \<Rightarrow> store \<Rightarrow> attempt_result db" where
  "finish_candidate_attempt v cid attempt done s =
     (if cid \<le> 0 then fail ''candidate ID must be positive''
      else if \<not> (attempt \<ge> 1 \<and> attempt \<le> 4) then fail ''candidate attempt number is outside 1..4''
      else and_then (nul_guard ''daemon status'' (ac_daemon_status done)) (\<lambda>_.
           and_then (text_guard ''daemon response excerpt'' (ac_excerpt done)) (\<lambda>_.
      case candidate_by_id s cid of None \<Rightarrow> fail ''candidate does not exist''
      | Some c \<Rightarrow>
        if cr_attempts c \<noteq> uint attempt then fail ''candidate attempt is not the active attempt''
        else case attempt_of s cid (uint attempt) of None \<Rightarrow> fail ''candidate attempt does not exist''
        | Some a \<Rightarrow>
          if at_outcome a \<noteq> None then Inr (plain_result c (cr_state c) (terminal_state (cr_state c)), s)
          else
            (let s = close_attempt cid (uint attempt) done s in
             case candidate_context s cid of Inl e \<Rightarrow> Inl e
             | Inr c \<Rightarrow> settle_attempt v c (uint attempt) done s))))"

section \<open>Reconciliation\<close>

record lookup_start =
  ls_candidate :: int
  ls_cycle :: u32
  ls_kind :: lookup_kind
  ls_rpc :: int
  ls_requested :: "bytes option"
  ls_started :: int

definition start_candidate_reconciliation :: "lookup_start \<Rightarrow> store \<Rightarrow> (int \<times> bool) db" where
  "start_candidate_reconciliation l s =
     (if ls_candidate l \<le> 0 then fail ''reconciliation candidate ID must be positive''
      else if ls_cycle l < 1 then fail ''reconciliation cycle number must be positive''
      else if ls_kind l = By_Expected_Hash \<and> ls_requested l = None
      then fail ''expected-hash reconciliation requires a requested block ID''
      else if ls_kind l = By_Height \<and> ls_requested l \<noteq> None
      then fail ''height reconciliation must not have a requested block ID''
      else case candidate_by_id s (ls_candidate l) of None \<Rightarrow> fail ''reconciliation candidate does not exist''
      | Some c \<Rightarrow>
        if \<not> eligible True (cr_state c) then fail ''candidate state does not permit reconciliation evidence''
        else case find (\<lambda>k. lk_candidate k = ls_candidate l \<and> lk_cycle k = uint (ls_cycle l) \<and> lk_kind k = ls_kind l) (st_lookups s) of
          Some k \<Rightarrow>
            if lk_rpc k \<noteq> ls_rpc l then fail ''reconciliation lookup was already started with another RPC ID''
            else if lk_requested k \<noteq> ls_requested l
            then fail (if ls_requested l = None then ''reconciliation lookup unexpectedly has a requested block ID''
                       else ''reconciliation lookup requested block ID changed'')
            else if lk_started k \<noteq> ls_started l then fail ''reconciliation lookup start time changed''
            else Inr ((lk_id k, False), s)
        | None \<Rightarrow>
            (let i = new_rowid (map lk_id (st_lookups s)) in
             Inr ((i, True), s\<lparr>st_lookups := st_lookups s @ [\<lparr>lk_id = i, lk_candidate = ls_candidate l, lk_cycle = uint (ls_cycle l),
                        lk_kind = ls_kind l, lk_rpc = ls_rpc l, lk_requested = ls_requested l, lk_started = ls_started l,
                        lk_completion = None, lk_abandoned = False\<rparr>],
                      st_candidates := update_where (\<lambda>r. cr_id r = ls_candidate l)
                        (\<lambda>r. r\<lparr>cr_cycles := max (cr_cycles r) (uint (ls_cycle l)), cr_next_reconciliation := None,
                              cr_updated := max (cr_updated r) (ls_started l)\<rparr>) (st_candidates s)\<rparr>)))"

record lookup_result =
  lr_state :: candidate_state
  lr_accepted :: bool
  lr_already_completed :: bool

text \<open>What the database itself demands of evidence that a block is in the chain.\<close>

definition positive_guard :: "candidate_row \<Rightarrow> lookup_row \<Rightarrow> lookup_completion \<Rightarrow> unit result" where
  "positive_guard c k done =
     (if lc_class done \<noteq> Lookup_Positive then Inr ()
      else if lc_block_id done = None then fail ''positive reconciliation has no observed block ID''
      else if lc_height done \<noteq> Some (of_int (cr_height c)) then fail ''positive reconciliation height does not match candidate''
      else if lc_miner_tx done \<noteq> Some (cr_miner_tx c)
      then fail ''positive reconciliation miner transaction does not match candidate''
      else if lc_orphan done \<noteq> Some False then fail ''positive reconciliation is missing non-orphan evidence''
      else if lk_kind k = By_Expected_Hash \<and> (lk_requested k = None \<or> lk_requested k \<noteq> lc_block_id done)
      then fail ''positive hash reconciliation returned another block ID''
      else Inr ())"

definition repeated_lookup :: "lookup_row \<Rightarrow> lookup_completion \<Rightarrow> unit result" where
  "repeated_lookup k done =
     (if (case lk_completion k of None \<Rightarrow> Lookup_Indeterminate | Some x \<Rightarrow> lc_class x) \<noteq> lc_class done
      then fail ''reconciliation was already completed with another classification''
      else if map_option lc_completed (lk_completion k) \<noteq> Some (lc_completed done)
      then fail ''reconciliation completion time changed''
      else if lk_completion k \<noteq> Some done then fail ''reconciliation was already completed with different evidence''
      else Inr ())"

definition close_lookup :: "int \<Rightarrow> lookup_completion \<Rightarrow> store \<Rightarrow> store" where
  "close_lookup rid done s =
     s\<lparr>st_lookups := update_where (\<lambda>x. lk_id x = rid \<and> lk_completion x = None \<and> \<not> lk_abandoned x)
         (\<lambda>x. x\<lparr>lk_completion := Some done\<rparr>) (st_lookups s)\<rparr>"

definition settle_lookup :: "shares_view \<Rightarrow> candidate_row \<Rightarrow> int \<Rightarrow> lookup_completion \<Rightarrow> store \<Rightarrow> lookup_result db" where
  "settle_lookup v c cid done s =
     (if lc_class done = Lookup_Positive
      then (case accept_candidate_in_transaction v cid (lc_completed done) (lc_block_id done) True s of
              Inl e \<Rightarrow> Inl e
            | Inr (_, s) \<Rightarrow> and_then (candidate_context s cid) (\<lambda>c.
                Inr (\<lparr>lr_state = cr_state c, lr_accepted = True, lr_already_completed = False\<rparr>, s)))
      else Inr (\<lparr>lr_state = cr_state c, lr_accepted = accepted_state (cr_state c), lr_already_completed = False\<rparr>, s))"

definition finish_candidate_reconciliation :: "shares_view \<Rightarrow> int \<Rightarrow> lookup_completion \<Rightarrow> store \<Rightarrow> lookup_result db" where
  "finish_candidate_reconciliation v rid done s =
     (if rid \<le> 0 then fail ''reconciliation ID must be positive''
      else if lc_height done \<noteq> None \<and> uint (the (lc_height done)) > i64_max
      then fail ''observed reconciliation height is outside SQLite INTEGER range''
      else and_then (text_guard ''reconciliation response excerpt'' (lc_excerpt done)) (\<lambda>_.
      case find (\<lambda>k. lk_id k = rid) (st_lookups s) of None \<Rightarrow> fail ''reconciliation row does not exist''
      | Some k \<Rightarrow>
        if lk_abandoned k \<or> lk_completion k \<noteq> None
        then and_then (repeated_lookup k done) (\<lambda>_. and_then (candidate_context s (lk_candidate k)) (\<lambda>c.
               Inr (\<lparr>lr_state = cr_state c, lr_accepted = accepted_state (cr_state c), lr_already_completed = True\<rparr>, s)))
        else and_then (candidate_context s (lk_candidate k)) (\<lambda>c. and_then (positive_guard c k done) (\<lambda>_.
               settle_lookup v c (lk_candidate k) done (close_lookup rid done s)))))"

definition schedule_candidate_reconciliation :: "int \<Rightarrow> int \<Rightarrow> store \<Rightarrow> unit db" where
  "schedule_candidate_reconciliation cid t s =
     (if cid \<le> 0 then fail ''candidate ID must be positive''
      else if changed_rows (\<lambda>r. cr_id r = cid \<and> cr_state r = Cand_Ambiguous) (st_candidates s) \<noteq> 1
      then fail ''candidate is absent or nonambiguous''
      else Inr ((), s\<lparr>st_candidates := update_where (\<lambda>r. cr_id r = cid \<and> cr_state r = Cand_Ambiguous)
             (\<lambda>r. r\<lparr>cr_next_reconciliation := Some t, cr_updated := max (cr_updated r) t\<rparr>) (st_candidates s)\<rparr>))"

definition exhaust_candidate_reconciliation :: "int \<Rightarrow> int \<Rightarrow> store \<Rightarrow> bool db" where
  "exhaust_candidate_reconciliation cid t s =
     (if cid \<le> 0 then fail ''candidate ID must be positive''
      else
        let open_case = (\<lambda>r. cr_id r = cid \<and> cr_state r = Cand_Ambiguous \<and> cr_exhausted r = None) in
        Inr (changed_rows open_case (st_candidates s) = 1,
             s\<lparr>st_candidates := update_where open_case
               (\<lambda>r. r\<lparr>cr_exhausted := Some t, cr_next_reconciliation := None, cr_updated := max (cr_updated r) t\<rparr>)
               (st_candidates s)\<rparr>))"

section \<open>Verdicts of the verifier\<close>

record verdict_insert =
  vi_share :: int
  vi_kind :: verdict_kind
  vi_key :: bytes
  vi_candidate :: "int option"
  vi_created :: int

text \<open>What becomes of a verdict: its disposition, its abuse event and whether the verifier contradicts an accepted block.\<close>

definition decide_verdict ::
  "shares_view \<Rightarrow> verdict_insert \<Rightarrow> int option \<Rightarrow> store \<Rightarrow> ((verdict_disposition \<times> int option \<times> bool) \<times> store) result" where
  "decide_verdict v d cand s =
     (case cand of
        None \<Rightarrow>
          if \<not> sv_peer_evidence v (vi_share d) then fail ''candidate verdict share has no durable peer evidence''
          else let (event, s) = insert_abuse (Some (vi_share d)) None (verdict_abuse_kind (vi_kind d)) (vi_created d) s in
            Inr ((Verdict_Actionable, Some event, False), s)
      | Some cid \<Rightarrow>
          (case candidate_by_id s cid of None \<Rightarrow> fail ''candidate verdict references an absent candidate''
           | Some c \<Rightarrow>
             if cr_key c \<noteq> vi_key d then fail ''candidate verdict key does not match candidate''
             else if accepted_state (cr_state c) then Inr ((Verdict_Suppressed, None, True), s)
             else if cr_state c = Cand_Rejected then
               (let (event, s) = candidate_abuse_event cid (verdict_abuse_kind (vi_kind d)) (vi_share d) (vi_created d) s in
                if list_ex (\<lambda>y. vd_abuse y = Some event) (st_verdicts s) then Inr ((Verdict_Suppressed, None, False), s)
                else Inr ((Verdict_Actionable, Some event, False), s))
             else Inr ((Verdict_Pending, None, False), s)))"

definition verdict_row_of :: "verdict_insert \<Rightarrow> int option \<Rightarrow> verdict_disposition \<Rightarrow> int option \<Rightarrow> verdict_row" where
  "verdict_row_of d cand disposition event =
     \<lparr>vd_share = vi_share d, vd_kind = vi_kind d, vd_key = vi_key d, vd_candidate = cand, vd_disposition = disposition,
      vd_created = vi_created d, vd_resolved = (if disposition = Verdict_Pending then None else Some (vi_created d)),
      vd_abuse = event\<rparr>"

definition insert_verdict ::
  "verdict_insert \<Rightarrow> int option \<Rightarrow> verdict_disposition \<times> int option \<times> bool \<Rightarrow> store \<Rightarrow> (verdict_disposition \<times> int option) db" where
  "insert_verdict d cand verdict s =
     (let (disposition, event, contradiction) = verdict;
          s = s\<lparr>st_verdicts := st_verdicts s @ [verdict_row_of d cand disposition event]\<rparr> in
      if contradiction
      then and_then (candidate_context s (the cand)) (\<lambda>_.
             Inr ((disposition, event), add_event (vi_created d) ''verifier_consistency_error'' cand None s))
      else Inr ((disposition, event), s))"

definition record_candidate_verdict :: "shares_view \<Rightarrow> verdict_insert \<Rightarrow> store \<Rightarrow> (verdict_disposition \<times> int option) db" where
  "record_candidate_verdict v d s =
     (if vi_share d \<le> 0 then fail ''candidate verdict share ID must be positive''
      else case find (\<lambda>x. vd_share x = vi_share d \<and> vd_kind x = vi_kind d) (st_verdicts s) of
        Some x \<Rightarrow> Inr ((vd_disposition x, vd_abuse x), s)
      | None \<Rightarrow>
          let cand = (if vi_candidate d \<noteq> None then vi_candidate d else map_option cr_id (candidate_by_key s (vi_key d))) in
          and_then (decide_verdict v d cand s) (\<lambda>(verdict, s). insert_verdict d cand verdict s))"

section \<open>Block notifications\<close>

definition blocknotify_delay_seconds :: "u32 \<Rightarrow> int" where
  "blocknotify_delay_seconds n =
     (if n \<le> 1 then 1 else if n = 2 then 5 else if n = 3 then 30 else if n = 4 then 120 else if n = 5 then 600 else 3600)"

definition checked_add_time :: "int \<Rightarrow> int \<Rightarrow> int result" where
  "checked_add_time t delta =
     (if delta \<ge> 0 \<and> t \<le> i64_max - delta then Inr (t + delta) else fail ''timestamp overflow'')"

definition delivery_due :: "int \<Rightarrow> delivery_row \<Rightarrow> bool" where
  "delivery_due now d \<longleftrightarrow> dl_state d = Delivery_Pending \<or>
     dl_state d = Delivery_Retry_Wait \<and> (case dl_next d of None \<Rightarrow> False | Some t \<Rightarrow> t \<le> now)"

text \<open>\<open>ORDER BY candidate_id LIMIT 1\<close>.\<close>

fun first_delivery :: "delivery_row list \<Rightarrow> delivery_row option" where
  "first_delivery [] = None"
| "first_delivery (d # ds) =
     (case first_delivery ds of None \<Rightarrow> Some d
      | Some e \<Rightarrow> if dl_candidate e < dl_candidate d then Some e else Some d)"

definition claimed_row :: "int \<Rightarrow> int \<Rightarrow> delivery_row \<Rightarrow> delivery_row" where
  "claimed_row now n d = d\<lparr>dl_state := Delivery_Running, dl_attempts := n, dl_started := Some now, dl_completed := None,
     dl_next := None, dl_exit := None, dl_signal := None\<rparr>"

definition claim_next_blocknotify :: "int \<Rightarrow> store \<Rightarrow> (delivery_row option) db" where
  "claim_next_blocknotify now s =
     (if \<not> st_blocknotify_enabled s then Inr (None, s)
      else case first_delivery (filter (delivery_due now) (st_deliveries s)) of
        None \<Rightarrow> Inr (None, s)
      | Some d \<Rightarrow>
          if \<not> (dl_attempts d \<ge> 0 \<and> dl_attempts d < i64_max) then fail ''blocknotify attempt counter is invalid''
          else
            let n = (dl_attempts d + 1) mod 2 ^ 32;
                s = s\<lparr>st_deliveries := update_where (\<lambda>x. dl_id x = dl_id d \<and> delivery_due now x) (claimed_row now n) (st_deliveries s)\<rparr> in
            and_then (candidate_context s (dl_candidate d)) (\<lambda>_.
              Inr (Some (d\<lparr>dl_attempts := n\<rparr>), add_event now ''blocknotify_started'' (Some (dl_candidate d)) None s)))"

record notify_completion =
  nc_delivered :: bool
  nc_completed :: int
  nc_exit :: "int option"
  nc_signal :: "int option"
  nc_stderr :: "string option"
  nc_error :: "string option"

definition notified_row :: "notify_completion \<Rightarrow> int option \<Rightarrow> delivery_row \<Rightarrow> delivery_row" where
  "notified_row done next_attempt d =
     d\<lparr>dl_state := (if nc_delivered done then Delivery_Delivered else Delivery_Retry_Wait), dl_next := next_attempt,
       dl_completed := Some (nc_completed done), dl_exit := nc_exit done, dl_signal := nc_signal done\<rparr>"

definition finish_blocknotify :: "int \<Rightarrow> notify_completion \<Rightarrow> store \<Rightarrow> unit db" where
  "finish_blocknotify did done s =
     (if did \<le> 0 then fail ''blocknotify delivery ID must be positive''
      else and_then (text_guard ''blocknotify stderr excerpt'' (nc_stderr done)) (\<lambda>_.
           and_then (text_guard ''blocknotify error'' (nc_error done)) (\<lambda>_.
      if nc_delivered done \<and> \<not> (nc_exit done = Some 0 \<and> nc_signal done = None)
      then fail ''successful blocknotify must have exit code 0 and no signal''
      else case find (\<lambda>d. dl_id d = did) (st_deliveries s) of None \<Rightarrow> fail ''blocknotify delivery does not exist''
      | Some d \<Rightarrow>
        if dl_state d \<noteq> Delivery_Running then fail ''blocknotify delivery is not running''
        else if \<not> (dl_attempts d \<ge> 1 \<and> dl_attempts d \<le> 2 ^ 32 - 1) then fail ''blocknotify attempt count is invalid''
        else and_then (if nc_delivered done then Inr None
             else and_then (checked_add_time (nc_completed done)
               (blocknotify_delay_seconds (of_int (dl_attempts d)) * 1000000)) (\<lambda>t. Inr (Some t))) (\<lambda>next_attempt.
          let s = s\<lparr>st_deliveries := update_where (\<lambda>x. dl_id x = did \<and> dl_state x = Delivery_Running)
                (notified_row done next_attempt) (st_deliveries s)\<rparr> in
          and_then (candidate_context s (dl_candidate d)) (\<lambda>_.
            Inr ((), add_event (nc_completed done) ''blocknotify_result'' (Some (dl_candidate d)) None s))))))"

definition pending_blocknotify_count :: "store \<Rightarrow> nat" where
  "pending_blocknotify_count s = length (filter (\<lambda>d. dl_state d \<noteq> Delivery_Delivered) (st_deliveries s))"

section \<open>Restart\<close>

definition recover_blocknotify :: "store \<Rightarrow> store" where
  "recover_blocknotify s = s\<lparr>st_deliveries := update_where (\<lambda>d. dl_state d = Delivery_Running)
     (\<lambda>d. d\<lparr>dl_state := Delivery_Pending, dl_next := None\<rparr>) (st_deliveries s)\<rparr>"

definition recover_inflight_candidates :: "store \<Rightarrow> store" where
  "recover_inflight_candidates s =
     s\<lparr>st_attempts := update_where (\<lambda>a. at_outcome a = None)
         (\<lambda>a. a\<lparr>at_outcome := Some Outcome_Indeterminate,
               at_excerpt := Some (case at_excerpt a of
                 None \<Rightarrow> ''process restarted while daemon request was in flight'' | Some x \<Rightarrow> x)\<rparr>)
         (st_attempts s),
       st_candidates := update_where (\<lambda>r. cr_state r = Cand_Dispatching)
         (\<lambda>r. r\<lparr>cr_had_indeterminate := True,
               cr_state := (if cr_attempts r < cr_max_attempts r then Cand_Retry_Wait else Cand_Ambiguous),
               cr_reason := (if cr_attempts r \<ge> cr_max_attempts r
                 then Some ''process_restarted_with_exhausted_inflight_attempt'' else None)\<rparr>)
         (st_candidates s),
       st_lookups := update_where (\<lambda>k. lk_completion k = None) (\<lambda>k. k\<lparr>lk_abandoned := True\<rparr>) (st_lookups s)\<rparr>"

text \<open>Opening an existing database, with the option of the new process.\<close>

definition reopen :: "bool \<Rightarrow> store \<Rightarrow> store" where
  "reopen notify s = (recover_blocknotify (recover_inflight_candidates s))\<lparr>st_blocknotify_enabled := notify\<rparr>"

definition recoverable_candidates :: "store \<Rightarrow> candidate_row list" where
  "recoverable_candidates s = filter (\<lambda>c. eligible True (cr_state c)) (st_candidates s)"

definition empty_store :: "bool \<Rightarrow> store" where
  "empty_store notify = \<lparr>st_blocknotify_enabled = notify, st_session = 0, st_candidates = [], st_attempts = [], st_lookups = [],
     st_rounds = [], st_verdicts = [], st_abuse = [], st_deliveries = [], st_events = []\<rparr>"

section \<open>Histories\<close>

text \<open>Share accounting writes the work columns of a round.\<close>

definition account_round :: "int \<Rightarrow> nat \<Rightarrow> int \<Rightarrow> int \<Rightarrow> store \<Rightarrow> store" where
  "account_round rid credited shares height s = s\<lparr>st_rounds := update_where (\<lambda>r. rd_id r = rid)
     (\<lambda>r. r\<lparr>rd_credited := credited, rd_share_count := shares, rd_max_share_height := height\<rparr>) (st_rounds s)\<rparr>"

text \<open>
  The candidate worker starts an attempt only when none is in flight. The database does not insist on it: \<open>Candidate_Rounds\<close> shows with
  \<open>overlapping_attempts_strand_the_first\<close> what happens otherwise.
\<close>

definition not_in_flight :: "int \<Rightarrow> store \<Rightarrow> bool" where
  "not_in_flight cid s \<longleftrightarrow> (case candidate_by_id s cid of None \<Rightarrow> True | Some c \<Rightarrow> cr_state c \<noteq> Cand_Dispatching)"

inductive store_step :: "store \<Rightarrow> store \<Rightarrow> bool" where
  Start_Session: "start_session version commit t s = Inr (i, s') \<Longrightarrow> store_step s s'"
| Ensure_Round: "ensure_open_round t s = Inr (i, s') \<Longrightarrow> store_step s s'"
| Journal: "journal_candidate_row v j s = Inr (r, s') \<Longrightarrow> store_step s s'"
| Start_Attempt: "not_in_flight cid s \<Longrightarrow> start_candidate_attempt cid n rpc t s = Inr (i, s') \<Longrightarrow> store_step s s'"
| Finish_Attempt: "finish_candidate_attempt v cid n done s = Inr (x, s') \<Longrightarrow> store_step s s'"
| Start_Lookup: "start_candidate_reconciliation l s = Inr (k, s') \<Longrightarrow> store_step s s'"
| Finish_Lookup: "finish_candidate_reconciliation v rid found s = Inr (y, s') \<Longrightarrow> store_step s s'"
| Schedule: "schedule_candidate_reconciliation cid t s = Inr (u, s') \<Longrightarrow> store_step s s'"
| Exhaust: "exhaust_candidate_reconciliation cid t s = Inr (b, s') \<Longrightarrow> store_step s s'"
| Accept_Candidate: "accept_candidate v cid t canonical by_reconciliation s = Inr (b, s') \<Longrightarrow> store_step s s'"
| Record_Verdict: "record_candidate_verdict v d s = Inr (w, s') \<Longrightarrow> store_step s s'"
| Claim_Notification: "claim_next_blocknotify now s = Inr (m, s') \<Longrightarrow> store_step s s'"
| Finish_Notification: "finish_blocknotify did ended s = Inr (u, s') \<Longrightarrow> store_step s s'"
| Finalize: "try_finalize_round v rid t s = Inr (b, s') \<Longrightarrow> store_step s s'"
| Account: "store_step s (account_round rid credited shares height s)"
| Reopen: "store_step s (reopen notify s)"

inductive store_reachable :: "store \<Rightarrow> bool" where
  Empty_Store: "store_reachable (empty_store notify)"
| Store_Step: "store_reachable s \<Longrightarrow> store_step s s' \<Longrightarrow> store_reachable s'"

end
