(* ===== verification/Share_Path.thy ===== *)
theory Share_Path
  imports Jobs Stratum_Server Candidate_Store
begin

text \<open>
  The path of a share through the runtime (\<open>process_share\<close> and \<open>journal_candidate\<close> in
  src/runtime/runtime.cpp, the keys of src/crypto/util.cpp). Several submit workers run it at once, so it is cut at its
  accesses to shared state: a share in progress is a frame of its local variables, a phase runs from one such access
  to the next, and a history interleaves the phases of any number of shares with the steps of the runtime. Answers of the
  database are arguments, an exception of it is \<open>Inl\<close>, and the calls made are recorded.
\<close>

section \<open>Keys\<close>

definition make_duplicate_key :: "bytes \<Rightarrow> bytes \<Rightarrow> duplicate_key" where
  "make_duplicate_key entropy pow_hash = entropy @ pow_hash"

text \<open>SHA-256 belongs to OpenSSL and is an argument; the domain separates candidate keys from other hashes.\<close>

definition kCandidateDomain :: bytes where
  "kCandidateDomain = map (\<lambda>c. of_nat (of_char c)) ''monero-solo-stratum/candidate/v1'' @ [0]"

definition make_candidate_key :: "(bytes \<Rightarrow> bytes) \<Rightarrow> bytes \<Rightarrow> bytes" where
  "make_candidate_key sha256 frozen = sha256 (kCandidateDomain @ frozen)"

section \<open>Answers and calls\<close>

definition no_candidate :: journal_result where
  "no_candidate = \<lparr>jr_candidate_id = 0, jr_inserted = False, jr_state = Cand_Journaled, jr_contaminated = False\<rparr>"

definition unresolved_state :: "candidate_state \<Rightarrow> bool" where
  "unresolved_state st \<longleftrightarrow> st = Cand_Journaled \<or> st = Cand_Dispatching \<or> st = Cand_Retry_Wait \<or> st = Cand_Ambiguous"

datatype db_call =
    Db_Insert_Share "bytes option" bool bool string
  | Db_Insert_Hash int string bytes bool bool
  | Db_Ensure_Persisted int
  | Db_Find_Candidate bytes
  | Db_Attach int int
  | Db_Set_Admission int string
  | Db_Journal bytes int
  | Db_Mark_Verifying int u64 u64
  | Db_Verdict int string bytes "int option"
  | Db_Set_Older int bool
  | Db_Finalize int string string string "u64 option"
  | Db_Accept int u64 string u64

record share_config =
  max_pending_per_connection :: nat
  share_defense :: defense_config
  share_verifier :: verifier_config
  submit_attempts :: u32
  sc_sha256 :: "bytes \<Rightarrow> bytes"
  sc_round :: "rat \<Rightarrow> rat"

record share_env =
  en_latest :: u64
  en_steady :: int
  en_wall :: int
  en_insert :: "int result"
  en_hash :: "unit result"
  en_ensure :: "int result"
  en_find :: "journal_result option result"
  en_attach :: "unit result"
  en_admission :: "unit result"
  en_journal :: "journal_result result"
  en_waiter_fails :: bool
  en_submit :: "(info_answer \<times> mspv_status \<times> u64) option"
  en_mark :: "unit result"
  en_verdict_false :: "bool result"
  en_verdict_mismatch :: "bool result"
  en_older :: "unit result"
  en_accept :: "bool result"
  en_finalize :: "unit result"

datatype share_pc = Rebuild | Journal | Decide | Verify | Mark | Wait | Computed | Journal_Computed | Verdicts | Finish

text \<open>The local variables of \<open>process_share\<close> for a share of a known job.\<close>

record share_frame =
  fr_submission :: stratum_submission
  fr_lease :: nat
  fr_job :: job_context
  fr_pc :: share_pc
  fr_share_id :: int
  fr_older :: bool
  fr_claimed_share :: bool
  fr_claimed_network :: bool
  fr_frozen :: parsed_block
  fr_hashing :: bytes
  fr_local :: reserve_result
  fr_token :: dup_token
  fr_candidate :: journal_result
  fr_ticket :: u64
  fr_completion :: "completion option"
  fr_match :: bool
  fr_computed_share :: bool
  fr_computed_network :: bool
  fr_computed_duplicate :: bool
  fr_computed_capacity :: bool

datatype outcome = Respond share_disposition string | Throw error | Next share_frame

type_synonym phase_result = "outcome \<times> runtime \<times> db_call list"

abbreviation claimed :: "share_frame \<Rightarrow> bytes" where
  "claimed f \<equiv> sub_claimed_hash (fr_submission f)"

abbreviation share_connection :: "share_frame \<Rightarrow> string" where
  "share_connection f \<equiv> public_id (sub_connection (fr_submission f))"

abbreviation share_peer :: "share_frame \<Rightarrow> peer_address" where
  "share_peer f \<equiv> miner_peer (sub_connection (fr_submission f))"

definition claim_key :: "share_frame \<Rightarrow> duplicate_key" where
  "claim_key f = make_duplicate_key (jc_entropy (fr_job f)) (claimed f)"

definition finalize ::
    "share_env \<Rightarrow> share_frame \<Rightarrow> string \<Rightarrow> string \<Rightarrow> share_disposition \<Rightarrow> string \<Rightarrow> u64 option \<Rightarrow> runtime \<Rightarrow> db_call list \<Rightarrow> phase_result" where
  "finalize env f status provenance d code actual rt cs =
     (case en_finalize env of Inl e \<Rightarrow> Throw e | Inr _ \<Rightarrow> Respond d code, rt,
      cs @ [Db_Finalize (fr_share_id f) status provenance code actual])"

definition release_claimed_if_safe :: "share_frame \<Rightarrow> runtime \<Rightarrow> runtime" where
  "release_claimed_if_safe f rt = rt\<lparr>registry := snd (release (registry rt) (fr_token f))\<rparr>"

section \<open>Arrival\<close>

definition is_older :: "job_context \<Rightarrow> u64 \<Rightarrow> bool" where
  "is_older j latest \<longleftrightarrow> jc_height j \<noteq> 0 \<and> latest > jc_height j"

definition unknown_job_share :: "share_env \<Rightarrow> runtime \<Rightarrow> phase_result" where
  "unknown_job_share env rt =
     (case en_insert env of
        Inl e \<Rightarrow> (Respond Unknown_Job ''unknown_job'', mark_database_unavailable rt, [Db_Insert_Share None False False ''pending''])
      | Inr i \<Rightarrow>
        (Respond Unknown_Job ''unknown_job'', (case en_finalize env of Inl e \<Rightarrow> mark_database_unavailable rt | Inr _ \<Rightarrow> rt),
         [Db_Insert_Share None False False ''pending'', Db_Finalize i ''unknown_job'' ''pending'' ''unknown_job'' None]))"

definition share_received :: "share_env \<Rightarrow> stratum_submission \<Rightarrow> nat option \<Rightarrow> runtime \<Rightarrow> phase_result" where
  "share_received env sub lease rt =
     (case (case lease of None \<Rightarrow> None | Some i \<Rightarrow> map_of (leases rt) i) of
        None \<Rightarrow> (Respond Unknown_Job ''connection_missing'', rt, [])
      | Some l \<Rightarrow>
        if lease_connection l \<le> 0 then (Respond Unknown_Job ''connection_missing'', rt, [])
        else case lease_job l of None \<Rightarrow> unknown_job_share env rt
        | Some j \<Rightarrow>
          let older = is_older j (en_latest env);
              claimed_share = meets_share_target (sub_claimed_hash sub) (jc_target64 j) in
          (case meets_network_target (sub_claimed_hash sub) (jc_network j) of Inl e \<Rightarrow> (Throw e, rt, [])
           | Inr claimed_network \<Rightarrow>
             if \<not> candidate_height_allowed (pub rt) (jc_height j) then (Respond Stale ''candidate_boundary'', rt, [])
             else
               let call = Db_Insert_Share (Some (jc_public_id j)) older claimed_network
                     (if has_verifier rt then ''pending'' else ''claimed'') in
               (case en_insert env of Inl e \<Rightarrow> (Throw e, rt, [call])
                | Inr i \<Rightarrow>
                  (Next \<lparr>fr_submission = sub, fr_lease = the lease, fr_job = j, fr_pc = Rebuild, fr_share_id = i, fr_older = older,
                     fr_claimed_share = claimed_share, fr_claimed_network = claimed_network, fr_frozen = tc_block (jc_template j),
                     fr_hashing = [], fr_local = ReserveCapacity, fr_token = null_token, fr_candidate = no_candidate, fr_ticket = 0,
                     fr_completion = None, fr_match = False, fr_computed_share = False, fr_computed_network = False,
                     fr_computed_duplicate = False, fr_computed_capacity = False\<rparr>, rt, [call]))))"

section \<open>Reconstruction and reservation\<close>

definition rebuild :: "share_frame \<Rightarrow> (parsed_block \<times> bytes) result" where
  "rebuild f =
     (let t = jc_template (fr_job f) in
      and_then (mutate_reserved_bytes (tc_block t) (tc_reserved_offset t) (jc_entropy (fr_job f))) (\<lambda>b.
      and_then (insert_nonce b (sub_nonce (fr_submission f))) (\<lambda>frozen.
      and_then (block_hashing_blob frozen) (\<lambda>hashing. Inr (frozen, hashing)))))"

definition share_rebuild :: "share_env \<Rightarrow> share_frame \<Rightarrow> runtime \<Rightarrow> phase_result" where
  "share_rebuild env f rt =
     (case rebuild f of
        Inl _ \<Rightarrow> finalize env f ''invalid_result'' (if has_verifier rt then ''pending'' else ''claimed'')
                   Invalid_Result ''job_reconstruction_failed'' None rt []
      | Inr (frozen, hashing) \<Rightarrow>
        let call = Db_Insert_Hash (fr_share_id f) ''claimed'' (claimed f) (fr_claimed_share f) (fr_claimed_network f) in
        (case en_hash env of Inl e \<Rightarrow> (Throw e, rt, [call])
         | Inr _ \<Rightarrow>
           let (res, token, r) = reserve (registry rt) (claim_key f) (jc_source (fr_job f)) (jc_height (fr_job f)) in
           (Next (f\<lparr>fr_pc := Journal, fr_frozen := frozen, fr_hashing := hashing, fr_local := res, fr_token := token\<rparr>),
            rt\<lparr>registry := r\<rparr>, [call])))"

section \<open>Journaling a candidate\<close>

definition candidate_done :: "share_config \<Rightarrow> share_env \<Rightarrow> share_frame \<Rightarrow> bool \<Rightarrow> runtime \<Rightarrow> runtime" where
  "candidate_done cfg env f acquired rt =
     (if acquired then rt\<lparr>engine := candidate_finished (share_defense cfg) (share_peer f) (en_steady env) (engine rt)\<rparr> else rt)"

definition boundary :: "share_frame \<Rightarrow> journal_result \<Rightarrow> runtime \<Rightarrow> error option \<times> runtime" where
  "boundary f res rt =
     (if \<not> unresolved_state (jr_state res) then (None, rt)
      else case register_candidate_boundary (jr_candidate_id res) (jc_height (fr_job f)) (pub rt) of
        Inl e \<Rightarrow> (Some e, mark_database_unavailable rt)
      | Inr p \<Rightarrow> (None, rt\<lparr>pub := p\<rparr>))"

definition new_task :: "share_config \<Rightarrow> share_env \<Rightarrow> share_frame \<Rightarrow> int \<Rightarrow> bytes \<Rightarrow> bool \<Rightarrow> bytes \<Rightarrow> candidate_task" where
  "new_task cfg env f cid key acquired expected =
     \<lparr>ct_candidate_id = cid, ct_share_id = fr_share_id f, ct_job_public_id = jc_public_id (fr_job f),
      ct_connection_id = jc_connection_id (fr_job f), ct_source = jc_source (fr_job f), ct_height = jc_height (fr_job f),
      ct_peer = share_peer f, ct_frozen_block = blob (fr_frozen f), ct_key = key,
      ct_miner_tx_hash = miner_transaction_hash (fr_frozen f), ct_expected_block_id = Some expected,
      ct_max_attempts = submit_attempts cfg, ct_attempt_count = 0, ct_reconciliation_cycle = 0, ct_terminal_cycle = 0,
      ct_created = en_wall env, ct_reconciliation_only = False, ct_quick = False, ct_resume = False,
      ct_not_before = en_steady env, ct_holds_height = True, ct_holds_inflight = acquired\<rparr>"

text \<open>The part after the admission: the block is journaled, the boundary registered and the task handed over.\<close>

definition journal_new ::
    "share_config \<Rightarrow> share_env \<Rightarrow> share_frame \<Rightarrow> bytes \<Rightarrow> bool \<Rightarrow> runtime \<Rightarrow> db_call list \<Rightarrow>
     journal_result result \<times> runtime \<times> db_call list" where
  "journal_new cfg env f key acquired rt cs =
     (case block_hash (fr_frozen f) of Inl e \<Rightarrow> (Inl e, candidate_done cfg env f acquired rt, cs)
      | Inr expected \<Rightarrow>
        let cs = cs @ [Db_Journal key (fr_share_id f)] in
        case en_journal env of Inl e \<Rightarrow> (Inl e, candidate_done cfg env f acquired rt, cs)
        | Inr res \<Rightarrow>
          if jr_contaminated res then (Inr res, candidate_done cfg env f acquired rt, cs)
          else (case boundary f res rt of
            (Some e, rt) \<Rightarrow> (Inl e, candidate_done cfg env f acquired rt, cs)
          | (None, rt) \<Rightarrow>
            if jr_inserted res
            then (Inr res, rt\<lparr>registry := retain_height (registry rt) (jc_source (fr_job f)) (jc_height (fr_job f)),
                    tasks := tasks rt @ [new_task cfg env f (jr_candidate_id res) key acquired expected]\<rparr>, cs)
            else (Inr res, candidate_done cfg env f acquired rt, cs)))"

text \<open>The frame returned carries the identifier of the persisted share.\<close>

definition journal_candidate ::
    "share_config \<Rightarrow> share_env \<Rightarrow> bool \<Rightarrow> bool \<Rightarrow> share_frame \<Rightarrow> runtime \<Rightarrow> journal_result result \<times> share_frame \<times> runtime \<times> db_call list" where
  "journal_candidate cfg env claimed_path bypass f rt =
     (let cs = [Db_Ensure_Persisted (fr_share_id f)] in
      case en_ensure env of Inl e \<Rightarrow> (Inl e, f, rt, cs)
      | Inr sid \<Rightarrow>
        let f = f\<lparr>fr_share_id := sid\<rparr>;
            key = make_candidate_key (sc_sha256 cfg) (blob (fr_frozen f));
            cs = cs @ [Db_Find_Candidate key] in
        case en_find env of Inl e \<Rightarrow> (Inl e, f, rt, cs)
        | Inr (Some existing) \<Rightarrow>
          let cs = cs @ [Db_Attach sid (jr_candidate_id existing)] in
          (case en_attach env of Inl e \<Rightarrow> (Inl e, f, rt, cs)
           | Inr _ \<Rightarrow>
             (case boundary f existing rt of
                (Some e, rt) \<Rightarrow> (Inl e, f, rt, cs)
              | (None, rt) \<Rightarrow> (Inr existing, f, rt, cs)))
        | Inr None \<Rightarrow>
          if claimed_path \<and> \<not> bypass
          then let (acquired, ban, d) = admit_candidate (sc_round cfg) (share_defense cfg) (share_peer f) (en_steady env) (en_wall env) (engine rt);
                   rt = rt\<lparr>engine := d\<rparr> in
            if \<not> acquired
            then let cs = cs @ [Db_Set_Admission sid (if has_verifier rt then ''deferred'' else ''trusted_rate_limited'')] in
              (case en_admission env of Inl e \<Rightarrow> (Inl e, f, rt, cs) | Inr _ \<Rightarrow> (Inr no_candidate, f, rt, cs))
            else (case journal_new cfg env f key True rt cs of (res, rt, cs) \<Rightarrow> (res, f, rt, cs))
          else (case journal_new cfg env f key False rt cs of (res, rt, cs) \<Rightarrow> (res, f, rt, cs)))"

definition share_journal :: "share_config \<Rightarrow> share_env \<Rightarrow> share_frame \<Rightarrow> runtime \<Rightarrow> phase_result" where
  "share_journal cfg env f rt =
     (if \<not> fr_claimed_network f then (Next (f\<lparr>fr_pc := Decide\<rparr>), rt, [])
      else case journal_candidate cfg env True False f rt of
        (Inl e, f, rt, cs) \<Rightarrow> (Throw e, rt, cs)
      | (Inr c, f, rt, cs) \<Rightarrow>
        if jr_contaminated c
        then finalize env f ''stale'' (if has_verifier rt then ''pending'' else ''claimed'') Stale ''round_contaminated''
               (if has_verifier rt then None else Some (actual_difficulty (claimed f))) (release_claimed_if_safe f rt) cs
        else if jr_candidate_id c = 0 \<and> \<not> has_verifier rt
        then finalize env f ''server_busy'' ''claimed'' Server_Busy ''candidate_rate_limited''
               (Some (actual_difficulty (claimed f))) (release_claimed_if_safe f rt) cs
        else (Next (f\<lparr>fr_pc := Decide, fr_candidate := c\<rparr>), rt, cs))"

section \<open>Deciding without a verifier\<close>

text \<open>The last two tests and the call that credits the share, for both modes.\<close>

definition accept_share :: "share_env \<Rightarrow> share_frame \<Rightarrow> string \<Rightarrow> u64 \<Rightarrow> runtime \<Rightarrow> phase_result" where
  "accept_share env f source actual rt =
     (let final = is_older (fr_job f) (en_latest env);
          cs = (if final \<noteq> fr_older f then [Db_Set_Older (fr_share_id f) final] else []) in
      if final \<noteq> fr_older f \<and> isl (en_older env) then (Throw (projl (en_older env)), rt, cs)
      else if final then finalize env f ''stale'' source Stale ''stale'' (Some actual) rt cs
      else let cs = cs @ [Db_Accept (fr_share_id f) (jc_difficulty (fr_job f)) source actual] in
        (case en_accept env of Inl e \<Rightarrow> (Throw e, rt, cs)
         | Inr ok \<Rightarrow> (if ok then Respond Accepted ''accepted'' else Respond Server_Busy ''share_already_final'', rt, cs)))"

definition share_decide :: "share_env \<Rightarrow> share_frame \<Rightarrow> runtime \<Rightarrow> phase_result" where
  "share_decide env f rt =
     (if has_verifier rt then
        (if \<not> continue_verification_after_claimed_capacity (fr_local f = ReserveCapacity) (fr_claimed_network f)
         then finalize env f ''server_busy'' ''pending'' Server_Busy ''duplicate_registry_full'' None rt []
         else (Next (f\<lparr>fr_pc := Verify\<rparr>), rt, []))
      else
        let actual = actual_difficulty (claimed f);
            frozen_duplicate = (fr_claimed_network f \<and> jr_candidate_id (fr_candidate f) \<noteq> 0 \<and> \<not> jr_inserted (fr_candidate f)) in
        if fr_local f = ReserveDuplicate \<or> frozen_duplicate
        then finalize env f ''duplicate'' ''claimed'' share_disposition.Duplicate_Share ''duplicate'' (Some actual) rt []
        else if fr_local f = ReserveCapacity
        then finalize env f ''server_busy'' ''claimed'' Server_Busy ''duplicate_registry_full'' (Some actual) rt []
        else if \<not> fr_claimed_share f
        then finalize env f ''low_difficulty'' ''claimed'' Low_Difficulty ''low_difficulty'' (Some actual) rt []
        else accept_share env f ''claimed'' actual rt)"

section \<open>Verification\<close>

definition pending_of :: "runtime \<Rightarrow> string \<Rightarrow> nat" where
  "pending_of rt c = (case map_of (pending_verifications rt) c of None \<Rightarrow> 0 | Some n \<Rightarrow> n)"

definition decrement_pending :: "string \<Rightarrow> runtime \<Rightarrow> runtime" where
  "decrement_pending c rt =
     (case map_of (pending_verifications rt) c of None \<Rightarrow> rt
      | Some n \<Rightarrow> if n = 0 then rt else rt\<lparr>pending_verifications := map_put c (n - 1) (pending_verifications rt)\<rparr>)"

definition share_tag :: "share_frame \<Rightarrow> u64" where
  "share_tag f = of_int (fr_share_id f)"

definition submit_to_verifier ::
    "share_config \<Rightarrow> share_env \<Rightarrow> share_frame \<Rightarrow> runtime \<Rightarrow> phase_result" where
  "submit_to_verifier cfg env f rt =
     (let undo = (\<lambda>rt. release_claimed_if_safe f (decrement_pending (share_connection f)
            (rt\<lparr>completions := cancel (share_tag f) (completions rt)\<rparr>))) in
      case en_submit env of
        None \<Rightarrow> finalize env f ''verifier_failed'' ''pending'' Verifier_Failed ''verifier_submit_exception'' None (undo rt) []
      | Some (info, native) \<Rightarrow>
        let v = the (pub_verifier (pub rt));
            ((st, ticket), v) = submit_verify (share_verifier cfg) info native (jc_seed_id (fr_job f)) (fr_hashing f) (claimed f) (share_tag f) v;
            rt = rt\<lparr>pub := (pub rt)\<lparr>pub_verifier := Some v\<rparr>\<rparr> in
        if st = MSPV_OK then (Next (f\<lparr>fr_pc := Mark, fr_ticket := ticket\<rparr>), rt, [])
        else if st = MSPV_QUEUE_FULL
        then finalize env f ''server_busy'' ''pending'' Server_Busy ''verifier_queue_full'' None (undo rt) []
        else finalize env f ''verifier_failed'' ''pending'' Verifier_Failed ''verifier_submit_failed'' None (undo rt) [])"

definition share_verify :: "share_config \<Rightarrow> share_env \<Rightarrow> share_frame \<Rightarrow> runtime \<Rightarrow> phase_result" where
  "share_verify cfg env f rt =
     (let c = share_connection f; n = pending_of rt c in
      if n \<ge> max_pending_per_connection cfg
      then finalize env f ''server_busy'' ''pending'' Server_Busy ''verification_connection_limit'' None
             (release_claimed_if_safe f (rt\<lparr>pending_verifications := map_put c n (pending_verifications rt)\<rparr>)) []
      else
        let rt = rt\<lparr>pending_verifications := map_put c (n + 1) (pending_verifications rt)\<rparr>;
            (registered, box) = register_waiter (share_tag f) (completions rt) in
        if en_waiter_fails env
        then finalize env f ''server_busy'' ''pending'' Server_Busy ''verifier_completion_allocation_failed'' None
               (release_claimed_if_safe f (decrement_pending c rt)) []
        else if \<not> registered
        then finalize env f ''server_busy'' ''pending'' Server_Busy ''verifier_completion_capacity'' None
               (release_claimed_if_safe f (decrement_pending c rt)) []
        else submit_to_verifier cfg env f (rt\<lparr>completions := box\<rparr>))"

definition share_mark :: "share_env \<Rightarrow> share_frame \<Rightarrow> runtime \<Rightarrow> phase_result" where
  "share_mark env f rt =
     (let cs = [Db_Mark_Verifying (fr_share_id f) (fr_ticket f) (jc_seed_id (fr_job f))] in
      case en_mark env of
        Inl e \<Rightarrow> (Throw e, decrement_pending (share_connection f) (rt\<lparr>completions := cancel (share_tag f) (completions rt)\<rparr>), cs)
      | Inr _ \<Rightarrow> (Next (f\<lparr>fr_pc := Wait\<rparr>), rt, cs))"

definition completion_usable :: "share_frame \<Rightarrow> completion \<Rightarrow> bool" where
  "completion_usable f c \<longleftrightarrow> c_result c = MSPV_RESULT_OK \<and> c_error c = MSPV_OK \<and> c_correlation c = Matched \<and>
     c_ticket c = fr_ticket f \<and> c_seed_id c = jc_seed_id (fr_job f)"

definition share_wait :: "share_env \<Rightarrow> share_frame \<Rightarrow> runtime \<Rightarrow> phase_result" where
  "share_wait env f rt =
     (let (got, box) = wait_blocking (share_tag f) (completions rt);
          rt = decrement_pending (share_connection f) (rt\<lparr>completions := box\<rparr>) in
      case got of
        Some c \<Rightarrow>
          if completion_usable f c then (Next (f\<lparr>fr_pc := Computed, fr_completion := Some c\<rparr>), rt, [])
          else finalize env f ''verifier_failed'' ''pending'' Verifier_Failed ''verifier_completion_failed'' None (release_claimed_if_safe f rt) []
      | None \<Rightarrow>
          finalize env f ''verifier_failed'' ''pending'' Verifier_Failed ''verifier_completion_failed'' None (release_claimed_if_safe f rt) [])"

section \<open>After the hash\<close>

abbreviation computed_hash :: "share_frame \<Rightarrow> bytes" where
  "computed_hash f \<equiv> c_hash (the (fr_completion f))"

text \<open>Both hashes have 32 bytes, so \<open>constant_time_equal\<close> is equality.\<close>

definition share_computed :: "share_env \<Rightarrow> share_frame \<Rightarrow> runtime \<Rightarrow> phase_result" where
  "share_computed env f rt =
     (let h = computed_hash f; same = (h = claimed f); share = meets_share_target h (jc_target64 (fr_job f)) in
      case meets_network_target h (jc_network (fr_job f)) of Inl e \<Rightarrow> (Throw e, rt, [])
      | Inr network \<Rightarrow>
        let cs = [Db_Insert_Hash (fr_share_id f) ''computed'' h share network] in
        (case en_hash env of Inl e \<Rightarrow> (Throw e, rt, cs)
         | Inr _ \<Rightarrow>
           let f = f\<lparr>fr_pc := Journal_Computed, fr_match := same, fr_computed_share := share, fr_computed_network := network\<rparr> in
           if same then (Next (f\<lparr>fr_computed_duplicate := (fr_local f = ReserveDuplicate), fr_computed_capacity := False\<rparr>), rt, cs)
           else let (res, token, r) = reserve (registry rt) (make_duplicate_key (jc_entropy (fr_job f)) h)
                      (jc_source (fr_job f)) (jc_height (fr_job f)) in
             (Next (f\<lparr>fr_computed_duplicate := (res = ReserveDuplicate), fr_computed_capacity := (res = ReserveCapacity)\<rparr>),
              rt\<lparr>registry := r\<rparr>, cs)))"

definition plan_of :: "share_frame \<Rightarrow> post_hash_plan" where
  "plan_of f = verified_post_hash_plan (fr_computed_network f) (fr_computed_duplicate f) (fr_local f = ReserveCapacity) (fr_computed_capacity f)"

definition share_journal_computed :: "share_config \<Rightarrow> share_env \<Rightarrow> share_frame \<Rightarrow> runtime \<Rightarrow> phase_result" where
  "share_journal_computed cfg env f rt =
     (if \<not> (journal_computed_candidate (plan_of f) \<and> jr_candidate_id (fr_candidate f) = 0) then (Next (f\<lparr>fr_pc := Verdicts\<rparr>), rt, [])
      else case journal_candidate cfg env False True f rt of
        (Inl e, f, rt, cs) \<Rightarrow> (Throw e, rt, cs)
      | (Inr c, f, rt, cs) \<Rightarrow>
        if jr_contaminated c
        then finalize env f ''stale'' ''verified'' Stale ''round_contaminated'' (Some (actual_difficulty (computed_hash f)))
               (release_claimed_if_safe f rt) cs
        else (Next (f\<lparr>fr_pc := Verdicts, fr_candidate := c\<rparr>), rt, cs))"

definition record_peer :: "share_config \<Rightarrow> share_env \<Rightarrow> share_frame \<Rightarrow> abuse_kind \<Rightarrow> runtime \<Rightarrow> runtime" where
  "record_peer cfg env f kind rt =
     rt\<lparr>engine := snd (record_abuse (share_defense cfg) (share_peer f) kind (en_steady env) (en_wall env) (engine rt))\<rparr>"

definition verdict_call :: "share_config \<Rightarrow> share_frame \<Rightarrow> string \<Rightarrow> db_call" where
  "verdict_call cfg f kind =
     Db_Verdict (fr_share_id f) kind (make_candidate_key (sc_sha256 cfg) (blob (fr_frozen f)))
       (if jr_candidate_id (fr_candidate f) = 0 then None else Some (jr_candidate_id (fr_candidate f)))"

definition false_verdict :: "share_config \<Rightarrow> share_env \<Rightarrow> share_frame \<Rightarrow> runtime \<Rightarrow> error option \<times> runtime \<times> db_call list" where
  "false_verdict cfg env f rt =
     (if \<not> (fr_claimed_network f \<and> \<not> fr_computed_network f) then (None, rt, [])
      else case en_verdict_false env of Inl e \<Rightarrow> (Some e, rt, [verdict_call cfg f ''false_candidate''])
      | Inr actionable \<Rightarrow>
        (None, if actionable then record_peer cfg env f Verified_False_Candidate rt else rt, [verdict_call cfg f ''false_candidate'']))"

definition mismatch_verdict :: "share_config \<Rightarrow> share_env \<Rightarrow> share_frame \<Rightarrow> runtime \<Rightarrow> error option \<times> runtime \<times> db_call list" where
  "mismatch_verdict cfg env f rt =
     (if fr_match f then (None, rt, [])
      else if fr_claimed_network f \<or> fr_computed_network f
      then (case en_verdict_mismatch env of Inl e \<Rightarrow> (Some e, rt, [verdict_call cfg f ''candidate_mismatch''])
            | Inr actionable \<Rightarrow>
              (None, if actionable then record_peer cfg env f Candidate_Mismatch rt else rt, [verdict_call cfg f ''candidate_mismatch'']))
      else (None, record_peer cfg env f Candidate_Mismatch rt, []))"

definition share_verdicts :: "share_config \<Rightarrow> share_env \<Rightarrow> share_frame \<Rightarrow> runtime \<Rightarrow> phase_result" where
  "share_verdicts cfg env f rt =
     (case false_verdict cfg env f rt of
        (Some e, rt, cs) \<Rightarrow> (Throw e, rt, cs)
      | (None, rt, cs) \<Rightarrow>
        (case mismatch_verdict cfg env f rt of
           (Some e, rt, cs') \<Rightarrow> (Throw e, rt, cs @ cs')
         | (None, rt, cs') \<Rightarrow> (Next (f\<lparr>fr_pc := Finish\<rparr>), rt, cs @ cs')))"

definition share_finish :: "share_env \<Rightarrow> share_frame \<Rightarrow> runtime \<Rightarrow> phase_result" where
  "share_finish env f rt =
     (let actual = actual_difficulty (computed_hash f) in
      if plan_terminal (plan_of f) = Duplicate_Terminal
      then finalize env f ''duplicate'' ''verified'' share_disposition.Duplicate_Share ''duplicate'' (Some actual) rt []
      else if plan_terminal (plan_of f) = Capacity_Terminal
      then finalize env f ''server_busy'' ''verified'' Server_Busy ''duplicate_registry_full'' (Some actual) rt []
      else if \<not> fr_match f
      then finalize env f ''invalid_result'' ''verified'' Invalid_Result ''hash_mismatch'' (Some actual) rt []
      else if \<not> fr_computed_share f
      then finalize env f ''low_difficulty'' ''verified'' Low_Difficulty ''low_difficulty'' (Some actual) rt []
      else accept_share env f ''verified'' actual rt)"

text \<open>\<open>process_share\<close> from one access to the next; a waiting share runs on when its completion is there or the mailbox is closed.\<close>

definition share_phase :: "share_config \<Rightarrow> share_env \<Rightarrow> share_frame \<Rightarrow> runtime \<Rightarrow> phase_result" where
  "share_phase cfg env f rt =
     (case fr_pc f of
        Rebuild \<Rightarrow> share_rebuild env f rt
      | Journal \<Rightarrow> share_journal cfg env f rt
      | Decide \<Rightarrow> share_decide env f rt
      | Verify \<Rightarrow> share_verify cfg env f rt
      | Mark \<Rightarrow> share_mark env f rt
      | Wait \<Rightarrow> share_wait env f rt
      | Computed \<Rightarrow> share_computed env f rt
      | Journal_Computed \<Rightarrow> share_journal_computed cfg env f rt
      | Verdicts \<Rightarrow> share_verdicts cfg env f rt
      | Finish \<Rightarrow> share_finish env f rt)"

section \<open>Shares in progress\<close>

record share_system =
  sys_rt :: runtime
  sys_frames :: "(nat, share_frame) std_map"
  sys_calls :: "(share_frame \<times> db_call) list"

text \<open>A worker takes the result of a phase; the calls are kept with the frame that made them.\<close>

definition settle :: "nat \<Rightarrow> share_frame \<Rightarrow> phase_result \<Rightarrow> share_system \<Rightarrow> share_system" where
  "settle n f res s =
     (case res of (out, rt, cs) \<Rightarrow>
        s\<lparr>sys_rt := rt,
          sys_frames := (case out of Next f' \<Rightarrow> map_put n f' (sys_frames s) | _ \<Rightarrow> map_erase n (sys_frames s)),
          sys_calls := sys_calls s @ map (Pair f) cs\<rparr>)"

definition begin_share :: "nat \<Rightarrow> phase_result \<Rightarrow> share_system \<Rightarrow> share_system" where
  "begin_share n res s =
     (case res of (out, rt, cs) \<Rightarrow>
        s\<lparr>sys_rt := rt, sys_frames := (case out of Next f \<Rightarrow> map_put n f (sys_frames s) | _ \<Rightarrow> sys_frames s)\<rparr>)"

text \<open>
  Histories. Besides the steps of the runtime and of the shares, a lease ends when no share uses it, and a candidate
  task changes without its references or ends and gives them up. Every state keeps fewer than \<open>2 ^ 64 - 1\<close> references.
\<close>

definition finish_task :: "candidate_task \<Rightarrow> runtime \<Rightarrow> runtime" where
  "finish_task t rt =
     (let rt = rt\<lparr>tasks := remove1 t (tasks rt)\<rparr> in
      if ct_holds_height t then rt\<lparr>registry := snd (release_height (registry rt) (ct_source t) (ct_height t))\<rparr> else rt)"

definition same_homes :: "candidate_task list \<Rightarrow> candidate_task list \<Rightarrow> bool" where
  "same_homes ts ts' \<longleftrightarrow> (\<forall>b. length (filter (task_home b) ts') = length (filter (task_home b) ts))"

inductive share_step :: "share_config \<Rightarrow> share_system \<Rightarrow> share_system \<Rightarrow> bool" for cfg where
  runtime: "runtime_step (sys_rt s) rt \<Longrightarrow> share_step cfg s (s\<lparr>sys_rt := rt\<rparr>)"
| arrive: "map_of (sys_frames s) n = None \<Longrightarrow> share_step cfg s (begin_share n (share_received env sub lease (sys_rt s)) s)"
| advance: "map_of (sys_frames s) n = Some f \<Longrightarrow> share_step cfg s (settle n f (share_phase cfg env f (sys_rt s)) s)"
| drop: "(\<And>n f. map_of (sys_frames s) n = Some f \<Longrightarrow> fr_lease f \<noteq> i) \<Longrightarrow>
    share_step cfg s (s\<lparr>sys_rt := drop_lease rel i (sys_rt s)\<rparr>)"
| task_changed: "same_homes (tasks (sys_rt s)) ts \<Longrightarrow> share_step cfg s (s\<lparr>sys_rt := (sys_rt s)\<lparr>tasks := ts\<rparr>\<rparr>)"
| task_finished: "t \<in> set (tasks (sys_rt s)) \<Longrightarrow> share_step cfg s (s\<lparr>sys_rt := finish_task t (sys_rt s)\<rparr>)"

definition fresh_system :: "share_system \<Rightarrow> bool" where
  "fresh_system s \<longleftrightarrow> sys_frames s = [] \<and> sys_calls s = [] \<and> jobs (sys_rt s) = [] \<and> retiring (sys_rt s) = [] \<and>
     leases (sys_rt s) = [] \<and> tasks (sys_rt s) = [] \<and> issued (sys_rt s) = [] \<and>
     (\<exists>g c. make_registry g c = Inr (registry (sys_rt s)))"

inductive share_reachable :: "share_config \<Rightarrow> share_system \<Rightarrow> bool" for cfg where
  start: "fresh_system s \<Longrightarrow> share_reachable cfg s"
| step: "share_reachable cfg s \<Longrightarrow> share_step cfg s s' \<Longrightarrow> small (sys_rt s') \<Longrightarrow> share_reachable cfg s'"

section \<open>What a phase does\<close>

definition owning :: "share_frame \<Rightarrow> bool" where
  "owning f \<longleftrightarrow> token_generation (fr_token f) \<noteq> 0"

definition entry_of :: "share_frame \<Rightarrow> dup_entry" where
  "entry_of f = \<lparr>entry_source = jc_source (fr_job f), entry_height = jc_height (fr_job f), entry_generation = token_generation (fr_token f)\<rparr>"

definition frame_ok :: "share_frame \<Rightarrow> bool" where
  "frame_ok f \<longleftrightarrow>
     (fr_local f = ReserveReserved \<longleftrightarrow> owning f) \<and> (fr_pc f = Rebuild \<longrightarrow> \<not> owning f) \<and>
     (owning f \<longrightarrow> token_key (fr_token f) = claim_key f) \<and>
     fr_claimed_share f = meets_share_target (claimed f) (jc_target64 (fr_job f)) \<and>
     (fr_pc f \<in> {Computed, Journal_Computed, Verdicts, Finish} \<longrightarrow> (\<exists>c. fr_completion f = Some c \<and> completion_usable f c)) \<and>
     (fr_pc f \<in> {Journal_Computed, Verdicts, Finish} \<longrightarrow>
        fr_match f = (computed_hash f = claimed f) \<and> fr_computed_share f = meets_share_target (computed_hash f) (jc_target64 (fr_job f)) \<and>
        (fr_match f \<longrightarrow> fr_computed_duplicate f = (fr_local f = ReserveDuplicate)))"

definition same_jobs :: "runtime \<Rightarrow> runtime \<Rightarrow> bool" where
  "same_jobs rt rt' \<longleftrightarrow> jobs rt' = jobs rt \<and> retiring rt' = retiring rt \<and> leases rt' = leases rt \<and>
     next_lease rt' = next_lease rt \<and> issued rt' = issued rt"

datatype key_effect = Quiet | Claims | Marks | Drops

definition goes_on :: "outcome \<Rightarrow> bool" where
  "goes_on out \<longleftrightarrow> (\<exists>f. out = Next f)"

fun key_effect_ok :: "key_effect \<Rightarrow> share_frame \<Rightarrow> dup_registry \<Rightarrow> outcome \<Rightarrow> dup_registry \<Rightarrow> bool" where
  "key_effect_ok Quiet f r out r' \<longleftrightarrow> key_at r' = key_at r \<and> (\<forall>f'. out = Next f' \<longrightarrow> owning f' = owning f \<and> (owning f \<longrightarrow> fr_token f' = fr_token f))"
| "key_effect_ok Claims f r out r' \<longleftrightarrow> key_at r (claim_key f) = None \<and> \<not> owning f \<and>
     (\<exists>f'. out = Next f' \<and> owning f' \<and> key_at r' = (key_at r)(claim_key f \<mapsto> entry_of f'))"
| "key_effect_ok Marks f r out r' \<longleftrightarrow> (\<exists>k e f'. key_at r k = None \<and> key_at r' = (key_at r)(k \<mapsto> e) \<and> out = Next f' \<and> fr_token f' = fr_token f)"
| "key_effect_ok Drops f r out r' \<longleftrightarrow> owning f \<and> \<not> goes_on out \<and> key_at r' = (key_at r)(claim_key f := None)"

definition credit_ok :: "share_frame \<Rightarrow> u64 \<Rightarrow> string \<Rightarrow> bool" where
  "credit_ok f difficulty source \<longleftrightarrow> fr_local f = ReserveReserved \<and> difficulty = jc_difficulty (fr_job f) \<and>
     meets_share_target (claimed f) (jc_target64 (fr_job f)) \<and>
     (source = ''claimed'' \<or> source = ''verified'' \<and>
        (\<exists>c. fr_completion f = Some c \<and> completion_usable f c \<and> c_hash c = claimed f))"

definition credits :: "db_call list \<Rightarrow> (u64 \<times> string) list" where
  "credits cs = concat (map (\<lambda>c. case c of Db_Accept i d src a \<Rightarrow> [(d, src)] | _ \<Rightarrow> []) cs)"

lemma credits_simps [simp]:
  "credits [] = []" "credits (cs @ cs') = credits cs @ credits cs'" "credits (Db_Accept i d src a # cs) = (d, src) # credits cs"
  "credits (Db_Insert_Share j o1 c p # cs) = credits cs" "credits (Db_Insert_Hash i k h b1 b2 # cs) = credits cs"
  "credits (Db_Ensure_Persisted i # cs) = credits cs" "credits (Db_Find_Candidate key # cs) = credits cs" "credits (Db_Attach i j2 # cs) = credits cs"
  "credits (Db_Set_Admission i k # cs) = credits cs" "credits (Db_Journal key i # cs) = credits cs" "credits (Db_Mark_Verifying i t sd # cs) = credits cs"
  "credits (Db_Verdict i k key co # cs) = credits cs" "credits (Db_Set_Older i b1 # cs) = credits cs" "credits (Db_Finalize i st p cd ac # cs) = credits cs"
  by (simp_all add: credits_def)

text \<open>The contract of a phase: jobs and leases are left alone, the invariant is kept, keys change in one of four ways, and a
  share is credited at most once, at its end and for good reasons.\<close>

definition phase_ok :: "share_frame \<Rightarrow> runtime \<Rightarrow> phase_result \<Rightarrow> bool" where
  "phase_ok f rt res \<longleftrightarrow>
     (case res of (out, rt', cs) \<Rightarrow>
        same_jobs rt rt' \<and> runtime_inv rt' \<and> (\<exists>e. key_effect_ok e f (registry rt) out (registry rt')) \<and>
        (\<forall>f'. out = Next f' \<longrightarrow> frame_ok f' \<and> fr_job f' = fr_job f \<and> fr_lease f' = fr_lease f \<and> fr_submission f' = fr_submission f) \<and>
        (credits cs = [] \<or> (\<exists>d src. credits cs = [(d, src)] \<and> credit_ok f d src) \<and> \<not> goes_on out \<and> key_at (registry rt') = key_at (registry rt)))"

lemma same_jobs_refl [simp]: "same_jobs rt rt"
  by (simp add: same_jobs_def)

lemma same_jobs_good: "same_jobs rt rt' \<Longrightarrow> tables_good rt' = tables_good rt"
  by (simp add: same_jobs_def tables_good_def known_def job_good_def)

lemma quiet_inv:
  "runtime_inv rt \<Longrightarrow> same_jobs rt rt' \<Longrightarrow> tasks rt' = tasks rt \<Longrightarrow> registry rt' = registry rt \<Longrightarrow> runtime_inv rt'"
  using same_tables_good [of rt rt'] same_tables_held [of rt rt'] by (simp add: runtime_inv_def same_jobs_def same_tables_def)

lemma insert_entry_refs: "refs_at (insert_entry k e r) b = refs_at r b"
  by (auto simp: refs_at_def insert_entry_def Let_def reg_simps)

lemma reserve_refs: "refs_at (snd (snd (reserve r k s h))) b = refs_at r b"
  by (simp add: reserve_def Let_def insert_entry_refs) (simp add: refs_at_def)

lemma drop_key_refs: "refs_at (drop_key k s h r) b = refs_at r b"
  by (auto simp: refs_at_def drop_key_def Let_def reg_simps bucket_in_def split: option.splits)

lemma release_refs: "refs_at (snd (release r t)) b = refs_at r b"
  by (auto simp: release_def drop_key_refs split: option.splits) (simp add: refs_at_def)

lemma reserve_counted: "counted r n \<Longrightarrow> counted (snd (snd (reserve r k s h))) n"
  by (rule countedI) (simp_all add: reserve_inv counted_inv reserve_refs counted_refs)

lemma release_counted: "counted r n \<Longrightarrow> counted (snd (release r t)) n"
  by (rule countedI) (simp_all add: release_inv counted_inv release_refs counted_refs)

lemma drop_key_entries: "entries (drop_key k s h r) = entries r"
  by (auto simp: drop_key_def Let_def split: option.splits)

lemma release_key_at:
  "key_at (snd (release r t)) = (if token_generation t \<noteq> 0 \<and> (\<exists>e. key_at r (token_key t) = Some e \<and> entry_generation e = token_generation t)
     then (key_at r)(token_key t := None) else key_at r)"
  by (auto simp: release_def key_at_def drop_key_entries fun_eq_iff split: option.splits)

lemma reserve_cases:
  obtains (won) t r' where "reserve r k s h = (ReserveReserved, t, r')" "token_key t = k" "token_generation t \<noteq> 0" "key_at r k = None"
      "key_at r' = (key_at r)(k \<mapsto> \<lparr>entry_source = s, entry_height = h, entry_generation = token_generation t\<rparr>)"
  | (lost) res where "reserve r k s h = (res, null_token, r)" "res \<noteq> ReserveReserved"
proof (cases "fst (reserve r k s h)")
  case ReserveReserved
  then obtain t r' where run: "reserve r k s h = (ReserveReserved, t, r')" by (cases "reserve r k s h") auto
  note rr = reserve_reserved [OF run]
  have "token_generation t \<noteq> 0" using rr(4) by (auto split: if_splits)
  then show ?thesis using rr run by (intro won [OF run]) (auto simp: key_at_def live_keys_def)
qed (use lost in \<open>auto simp: reserve_def Let_def split: if_splits\<close>)

lemma null_token_free [simp]: "token_generation null_token = 0"
  by (simp add: null_token_def)

lemma with_registry:
  assumes "runtime_inv rt" and "counted r (held rt)"
  shows "runtime_inv (rt\<lparr>registry := r\<rparr>)"
proof -
  have "same_tables rt (rt\<lparr>registry := r\<rparr>)" by (simp add: same_tables_def)
  then show ?thesis using assms by (simp add: runtime_inv_def same_tables_good same_tables_held)
qed

lemma inv_counted: "runtime_inv rt \<Longrightarrow> counted (registry rt) (held rt)"
  by (simp add: runtime_inv_def)

lemma inv_release: "runtime_inv rt \<Longrightarrow> runtime_inv (release_claimed_if_safe f rt)"
  unfolding release_claimed_if_safe_def by (intro with_registry release_counted inv_counted)

text \<open>What a frame relies on: if it owns a key, the registry has the entry of its token.\<close>

definition owns :: "share_frame \<Rightarrow> runtime \<Rightarrow> bool" where
  "owns f rt \<longleftrightarrow> owning f \<longrightarrow> key_at (registry rt) (claim_key f) = Some (entry_of f)"

text \<open>Ending a share: with its key, or giving it up.\<close>

lemma end_keeps:
  assumes "runtime_inv rt'" "same_jobs rt rt'" "registry rt' = registry rt" "credits cs = []" "\<not> goes_on out"
  shows "phase_ok f rt (out, rt', cs)"
  using assms by (auto simp: phase_ok_def goes_on_def intro!: exI [of _ Quiet])

lemma finalize_keeps:
  assumes "runtime_inv rt'" "same_jobs rt rt'" "registry rt' = registry rt" "credits cs = []"
  shows "phase_ok f rt (finalize env g st pr d code a rt' cs)"
  using end_keeps [OF assms(1-3), of "cs @ [Db_Finalize (fr_share_id g) st pr code a]"] assms(4)
  by (auto simp: finalize_def goes_on_def split: sum.splits)

lemma finalize_drops:
  assumes "runtime_inv rt'" "same_jobs rt rt'" "key_at (registry rt') = key_at (registry rt)" "credits cs = []" "frame_ok f" "owns f rt"
    and "fr_token g = fr_token f"
  shows "phase_ok f rt (finalize env h st pr d code a (release_claimed_if_safe g rt') cs)"
proof -
  have k: "key_at (registry (release_claimed_if_safe g rt')) =
      (if owning f then (key_at (registry rt))(claim_key f := None) else key_at (registry rt))"
    using assms(3,5,6,7) by (auto simp: release_claimed_if_safe_def release_key_at owning_def owns_def frame_ok_def entry_of_def)
  have "\<exists>e. key_effect_ok e f (registry rt) out (registry (release_claimed_if_safe g rt'))" if "\<not> goes_on out" for out
    using that k by (cases "owning f") (auto simp: goes_on_def intro: exI [of _ Drops] exI [of _ Quiet])
  moreover have "same_jobs rt (release_claimed_if_safe g rt')" using assms(2) by (simp add: release_claimed_if_safe_def same_jobs_def)
  ultimately show ?thesis using inv_release [OF assms(1)] assms(4)
    by (auto simp: finalize_def phase_ok_def goes_on_def split: sum.splits)
qed

lemma goes_quietly:
  assumes "runtime_inv rt'" "same_jobs rt rt'" "key_at (registry rt') = key_at (registry rt)" "credits cs = []" "frame_ok f'"
    "fr_job f' = fr_job f" "fr_lease f' = fr_lease f" "fr_submission f' = fr_submission f"
    "fr_token f' = fr_token f \<or> \<not> owning f \<and> \<not> owning f'"
  shows "phase_ok f rt (Next f', rt', cs)"
  using assms by (auto simp: phase_ok_def owning_def intro!: exI [of _ Quiet])

lemma rebuild_ok:
  assumes "runtime_inv rt" "frame_ok f" "fr_pc f = Rebuild"
  shows "phase_ok f rt (share_rebuild env f rt)"
proof (cases "rebuild f")
  case (Inr m)
  obtain frozen hashing where m: "rebuild f = Inr (frozen, hashing)" using Inr by (cases m) auto
  show ?thesis
  proof (cases "en_hash env")
    case (Inl e)
    then show ?thesis using end_keeps [OF assms(1)] m by (simp add: share_rebuild_def goes_on_def)
  next
    case (Inr u)
    show ?thesis
    proof (cases "registry rt" "claim_key f" "jc_source (fr_job f)" "jc_height (fr_job f)" rule: reserve_cases)
      case (won t r')
      let ?f = "f\<lparr>fr_pc := Journal, fr_frozen := frozen, fr_hashing := hashing, fr_local := ReserveReserved, fr_token := t\<rparr>"
      have fo: "frame_ok ?f" using assms(2) won by (simp add: frame_ok_def owning_def claim_key_def)
      have "key_effect_ok Claims f (registry rt) (Next ?f) r'"
        using won assms(2,3) by (simp add: owning_def entry_of_def frame_ok_def)
      moreover have "runtime_inv (rt\<lparr>registry := r'\<rparr>)"
        using reserve_counted [OF inv_counted [OF assms(1)], of "claim_key f" "jc_source (fr_job f)" "jc_height (fr_job f)"] won(1)
        by (intro with_registry assms(1)) simp
      ultimately show ?thesis using m Inr won(1) fo
        by (auto simp: share_rebuild_def phase_ok_def same_jobs_def simp del: key_effect_ok.simps)
    next
      case (lost res)
      let ?f = "f\<lparr>fr_pc := Journal, fr_frozen := frozen, fr_hashing := hashing, fr_local := res, fr_token := null_token\<rparr>"
      have "frame_ok ?f" "\<not> owning f" using assms(2,3) lost by (simp_all add: frame_ok_def owning_def claim_key_def)
      then have "phase_ok f rt (Next ?f, rt, [Db_Insert_Hash (fr_share_id f) ''claimed'' (claimed f) (fr_claimed_share f) (fr_claimed_network f)])"
        by (intro goes_quietly [OF assms(1)]) (simp_all add: owning_def)
      then show ?thesis using m Inr lost by (simp add: share_rebuild_def)
    qed
  qed
qed (simp add: share_rebuild_def finalize_keeps assms)

text \<open>Changes that no job, lease or key sees.\<close>

definition calm :: "runtime \<Rightarrow> runtime \<Rightarrow> bool" where
  "calm rt rt' \<longleftrightarrow> same_jobs rt rt' \<and> (runtime_inv rt \<longrightarrow> runtime_inv rt') \<and> key_at (registry rt') = key_at (registry rt)"

lemma calm_refl [simp]: "calm rt rt"
  by (simp add: calm_def)

lemma calm_trans: "calm a b \<Longrightarrow> calm b c \<Longrightarrow> calm a c"
  by (simp add: calm_def same_jobs_def)

lemma calmI: "same_jobs rt rt' \<Longrightarrow> tasks rt' = tasks rt \<Longrightarrow> registry rt' = registry rt \<Longrightarrow> calm rt rt'"
  by (auto simp: calm_def intro: quiet_inv)

lemma calm_updates [simp]:
  "calm rt (rt\<lparr>engine := d\<rparr>)" "calm rt (rt\<lparr>pub := p\<rparr>)" "calm rt (rt\<lparr>completions := b\<rparr>)" "calm rt (rt\<lparr>pending_verifications := m\<rparr>)"
  "calm rt (mark_database_unavailable rt)" "calm rt (candidate_done cfg env f a rt)" "calm rt (decrement_pending c rt)" "calm rt (record_peer cfg env f k rt)"
  by (auto intro!: calmI simp: same_jobs_def mark_database_unavailable_def candidate_done_def decrement_pending_def record_peer_def split: option.splits)

lemma calm_after:
  assumes "calm rt rt'"
  shows "calm rt (rt'\<lparr>engine := d\<rparr>)" "calm rt (rt'\<lparr>pub := p\<rparr>)" "calm rt (rt'\<lparr>completions := b\<rparr>)" "calm rt (rt'\<lparr>pending_verifications := m\<rparr>)"
    "calm rt (candidate_done cfg env f a rt')" "calm rt (decrement_pending c rt')" "calm rt (record_peer cfg env f k rt')"
  by (rule calm_trans [OF assms calm_updates(1)], rule calm_trans [OF assms calm_updates(2)], rule calm_trans [OF assms calm_updates(3)],
      rule calm_trans [OF assms calm_updates(4)], rule calm_trans [OF assms calm_updates(6)], rule calm_trans [OF assms calm_updates(7)],
      rule calm_trans [OF assms calm_updates(8)])

lemma calm_boundary: "boundary f res rt = (e, rt') \<Longrightarrow> calm rt rt'"
  by (auto simp: boundary_def split: if_splits sum.splits)

lemma calm_task:
  assumes "ct_holds_height t" "ct_source t = s" "ct_height t = h"
  shows "calm rt (rt\<lparr>registry := retain_height (registry rt) s h, tasks := tasks rt @ [t]\<rparr>)" (is "calm rt ?rt")
proof -
  have "tables_good ?rt = tables_good rt" by (rule same_jobs_good) (simp add: same_jobs_def)
  moreover have "held ?rt = bump (s, h) (held rt)" using assms by (auto simp: held_def fun_eq_iff task_home_def)
  ultimately have "runtime_inv rt \<Longrightarrow> runtime_inv ?rt" using retain_counted [of "registry rt" "held rt" "(s, h)"] by (simp add: runtime_inv_def)
  then show ?thesis using buckets.retain_lookup [of "registry rt" "(s, h)"] by (simp add: calm_def same_jobs_def)
qed

lemma journal_new_calm:
  assumes "journal_new cfg env f key acquired rt cs = (res, rt', cs')"
  shows "calm rt rt' \<and> (credits cs = [] \<longrightarrow> credits cs' = [])"
proof -
  have "calm rt2 (rt2\<lparr>registry := retain_height (registry rt2) (jc_source (fr_job f)) (jc_height (fr_job f)),
      tasks := tasks rt2 @ [new_task cfg env f i key acquired x]\<rparr>)" for rt2 i x
    by (rule calm_task) (simp_all add: new_task_def)
  then show ?thesis using assms calm_trans calm_boundary
    by (auto simp: journal_new_def Let_def split: sum.splits if_splits prod.splits option.splits) (metis calm_trans calm_updates)+
qed

lemma journal_spec:
  assumes "journal_candidate cfg env b1 b2 f rt = (res, f', rt', cs)"
  shows "calm rt rt' \<and> credits cs = [] \<and> (\<exists>sid. f' = f\<lparr>fr_share_id := sid\<rparr>)"
proof -
  have same: "\<exists>sid. f = f\<lparr>fr_share_id := sid\<rparr>" by (rule exI [of _ "fr_share_id f"]) simp
  show ?thesis using assms same
    by (auto simp: journal_candidate_def Let_def split: sum.splits if_splits prod.splits option.splits
        dest!: journal_new_calm calm_boundary) (metis calm_trans calm_updates(1))+
qed

lemmas frame_simps = frame_ok_def owning_def claim_key_def completion_usable_def

lemma calm_keeps: "calm rt rt' \<Longrightarrow> runtime_inv rt \<Longrightarrow> runtime_inv rt' \<and> same_jobs rt rt' \<and> key_at (registry rt') = key_at (registry rt)"
  by (simp add: calm_def)

lemma calm_next:
  assumes "runtime_inv rt" "calm rt rt'" "credits cs = []" "frame_ok f'" "fr_job f' = fr_job f" "fr_lease f' = fr_lease f"
    "fr_submission f' = fr_submission f" "fr_token f' = fr_token f"
  shows "phase_ok f rt (Next f', rt', cs)"
  using goes_quietly [of rt' rt cs f' f] calm_keeps [OF assms(2,1)] assms(3-8) by simp

lemma calm_throw:
  assumes "runtime_inv rt" "calm rt rt'" "credits cs = []"
  shows "phase_ok f rt (Throw e, rt', cs)"
  using calm_keeps [OF assms(2,1)] assms(3) by (auto simp: phase_ok_def intro!: exI [of _ Quiet])

lemma calm_finalize:
  assumes "runtime_inv rt" "calm rt rt'" "credits cs = []"
  shows "phase_ok f rt (finalize env g st pr d code a rt' cs)"
  using calm_keeps [OF assms(2,1)] assms(3) by (auto simp: phase_ok_def finalize_def intro!: exI [of _ Quiet] split: sum.splits)

lemma calm_drops:
  assumes "runtime_inv rt" "calm rt rt'" "credits cs = []" "frame_ok f" "owns f rt" "fr_token g = fr_token f"
  shows "phase_ok f rt (finalize env h st pr d code a (release_claimed_if_safe g rt') cs)"
  using finalize_drops [of rt' rt cs f g] calm_keeps [OF assms(2,1)] assms(3-6) by blast

lemma journal_ok:
  assumes "runtime_inv rt" "frame_ok f" "fr_pc f = Journal" "owns f rt"
  shows "phase_ok f rt (share_journal cfg env f rt)"
proof (cases "fr_claimed_network f")
  case True
  obtain res f' rt' cs where j: "journal_candidate cfg env True False f rt = (res, f', rt', cs)"
    by (cases "journal_candidate cfg env True False f rt")
  obtain sid where s: "calm rt rt'" "credits cs = []" "f' = f\<lparr>fr_share_id := sid\<rparr>" using journal_spec [OF j] by blast
  have fo: "frame_ok (f\<lparr>fr_share_id := sid, fr_pc := Decide, fr_candidate := c\<rparr>)" for c
    using assms(2,3) by (simp add: frame_simps)
  show ?thesis
  proof (cases res)
    case (Inr c)
    then show ?thesis using True j s fo assms
      by (auto simp: share_journal_def intro!: calm_next calm_drops)
  qed (use True j s assms in \<open>simp add: share_journal_def calm_throw\<close>)
next
  case False
  have "frame_ok (f\<lparr>fr_pc := Decide\<rparr>)" using assms(2,3) by (simp add: frame_simps)
  then show ?thesis using False assms by (auto simp: share_journal_def intro!: calm_next)
qed

lemma accept_share_ok:
  assumes "runtime_inv rt" "credit_ok f (jc_difficulty (fr_job f)) source"
  shows "phase_ok f rt (accept_share env f source actual rt)"
  unfolding accept_share_def Let_def
  using assms calm_throw [OF assms(1)] calm_finalize [OF assms(1)]
  by (auto simp: phase_ok_def goes_on_def intro!: exI [of _ Quiet] split: sum.splits)

lemma decide_ok:
  assumes "runtime_inv rt" "frame_ok f" "fr_pc f = Decide"
  shows "phase_ok f rt (share_decide env f rt)"
proof -
  have fo: "frame_ok (f\<lparr>fr_pc := Verify\<rparr>)" using assms(2,3) by (simp add: frame_simps)
  have cr: "credit_ok f (jc_difficulty (fr_job f)) ''claimed''"
    if "fr_local f \<noteq> ReserveDuplicate" "fr_local f \<noteq> ReserveCapacity" "fr_claimed_share f"
    using that assms(2,3) by (cases "fr_local f") (simp_all add: credit_ok_def frame_ok_def)
  show ?thesis using assms(1) fo cr by (simp add: share_decide_def Let_def calm_next calm_finalize accept_share_ok)
qed

lemma verify_ok:
  assumes "runtime_inv rt" "frame_ok f" "fr_pc f = Verify" "owns f rt"
  shows "phase_ok f rt (share_verify cfg env f rt)"
proof -
  have fo: "frame_ok (f\<lparr>fr_pc := Mark, fr_ticket := t\<rparr>)" for t using assms(2,3) by (simp add: frame_simps)
  note c = calm_after [OF calm_updates(4) [of rt]] calm_after [OF calm_after(3) [OF calm_updates(4) [of rt]]]
    calm_after [OF calm_after(2) [OF calm_after(3) [OF calm_updates(4) [of rt]]]]
    calm_after [OF calm_after(3) [OF calm_after(2) [OF calm_updates(4) [of rt]]]]
  have sub: "phase_ok f rt (submit_to_verifier cfg env f (rt\<lparr>pending_verifications := m, completions := b\<rparr>))" for m b
    unfolding submit_to_verifier_def Let_def
    using assms fo by (simp split: option.split prod.split add: calm_next calm_drops c)
  show ?thesis unfolding share_verify_def Let_def
    using assms sub by (simp split: prod.split add: calm_drops c)
qed

lemma mark_ok:
  assumes "runtime_inv rt" "frame_ok f" "fr_pc f = Mark"
  shows "phase_ok f rt (share_mark env f rt)"
proof -
  have fo: "frame_ok (f\<lparr>fr_pc := Wait\<rparr>)" using assms(2,3) by (simp add: frame_simps)
  have "calm rt (decrement_pending c (rt\<lparr>completions := b\<rparr>))" for c b by (rule calm_after(6) [OF calm_updates(3)])
  then show ?thesis unfolding share_mark_def Let_def using fo assms(1) by (auto split: sum.split intro!: calm_next calm_throw)
qed

lemma wait_ok:
  assumes "runtime_inv rt" "frame_ok f" "fr_pc f = Wait" "owns f rt"
  shows "phase_ok f rt (share_wait env f rt)"
proof -
  have fo: "frame_ok (f\<lparr>fr_pc := Computed, fr_completion := Some c\<rparr>)" if "completion_usable f c" for c
    using assms(2,3) that by (simp add: frame_simps)
  have "calm rt (decrement_pending c (rt\<lparr>completions := b\<rparr>))" for c b by (rule calm_after(6) [OF calm_updates(3)])
  then show ?thesis unfolding share_wait_def Let_def using fo assms
    by (auto split: option.split prod.split intro!: calm_next calm_drops)
qed

lemma computed_ok:
  assumes "runtime_inv rt" "frame_ok f" "fr_pc f = Computed"
  shows "phase_ok f rt (share_computed env f rt)"
proof (cases "meets_network_target (computed_hash f) (jc_network (fr_job f))")
  case (Inl e)
  then show ?thesis using assms(1) by (simp add: share_computed_def Let_def calm_throw)
next
  case net: (Inr network)
  let ?h = "computed_hash f"
  let ?g = "f\<lparr>fr_pc := Journal_Computed, fr_match := (?h = claimed f),
    fr_computed_share := meets_share_target ?h (jc_target64 (fr_job f)), fr_computed_network := network\<rparr>"
  let ?cs = "[Db_Insert_Hash (fr_share_id f) ''computed'' ?h (meets_share_target ?h (jc_target64 (fr_job f))) network]"
  have fo: "frame_ok (?g\<lparr>fr_computed_duplicate := d, fr_computed_capacity := c\<rparr>)"
    if "?h = claimed f \<Longrightarrow> d = (fr_local f = ReserveDuplicate)" for d c
    using assms(2,3) that by (auto simp: frame_simps)
  show ?thesis
  proof (cases "en_hash env")
    case (Inl e)
    then show ?thesis using net assms(1) by (simp add: share_computed_def Let_def calm_throw)
  next
    case (Inr u)
    show ?thesis
    proof (cases "?h = claimed f")
      case True
      then show ?thesis using net Inr assms(1) fo by (auto simp: share_computed_def Let_def intro!: calm_next)
    next
      case False
      let ?k = "make_duplicate_key (jc_entropy (fr_job f)) ?h"
      show ?thesis
      proof (cases "registry rt" ?k "jc_source (fr_job f)" "jc_height (fr_job f)" rule: reserve_cases)
        case (won t r')
        let ?f = "?g\<lparr>fr_computed_duplicate := False, fr_computed_capacity := False\<rparr>"
        have "key_effect_ok Marks f (registry rt) (Next ?f) r'" using won(4,5) by auto
        moreover have "runtime_inv (rt\<lparr>registry := r'\<rparr>)"
          using reserve_counted [OF inv_counted [OF assms(1)], of ?k "jc_source (fr_job f)" "jc_height (fr_job f)"] won(1)
          by (intro with_registry assms(1)) simp
        ultimately have "phase_ok f rt (Next ?f, rt\<lparr>registry := r'\<rparr>, ?cs)"
          using fo [of False False] False unfolding phase_ok_def by (auto simp: same_jobs_def simp del: key_effect_ok.simps)
        then show ?thesis using net Inr False won(1) by (simp add: share_computed_def Let_def)
      next
        case (lost res)
        have "phase_ok f rt (Next (?g\<lparr>fr_computed_duplicate := (res = ReserveDuplicate), fr_computed_capacity := (res = ReserveCapacity)\<rparr>), rt, ?cs)"
          using fo False by (intro calm_next assms) simp_all
        then show ?thesis using net Inr False lost(1) by (simp add: share_computed_def Let_def)
      qed
    qed
  qed
qed

lemma journal_computed_ok:
  assumes "runtime_inv rt" "frame_ok f" "fr_pc f = Journal_Computed" "owns f rt"
  shows "phase_ok f rt (share_journal_computed cfg env f rt)"
proof (cases "journal_computed_candidate (plan_of f) \<and> jr_candidate_id (fr_candidate f) = 0")
  case True
  obtain res f' rt' cs where j: "journal_candidate cfg env False True f rt = (res, f', rt', cs)"
    by (cases "journal_candidate cfg env False True f rt")
  obtain sid where s: "calm rt rt'" "credits cs = []" "f' = f\<lparr>fr_share_id := sid\<rparr>" using journal_spec [OF j] by blast
  have fo: "frame_ok (f\<lparr>fr_share_id := sid, fr_pc := Verdicts, fr_candidate := c\<rparr>)" for c
    using assms(2,3) by (simp add: frame_simps)
  show ?thesis
  proof (cases res)
    case (Inr c)
    then show ?thesis using True j s fo assms
      by (simp add: share_journal_computed_def calm_next calm_drops)
  qed (use True j s assms in \<open>simp add: share_journal_computed_def calm_throw\<close>)
next
  case False
  have "frame_ok (f\<lparr>fr_pc := Verdicts\<rparr>)" using assms(2,3) by (simp add: frame_simps)
  then show ?thesis using False assms by (auto simp: share_journal_computed_def intro!: calm_next)
qed

lemma verdict_calm:
  "false_verdict cfg env f rt = (e, rt', cs) \<Longrightarrow> calm rt rt' \<and> credits cs = []"
  "mismatch_verdict cfg env f rt = (e, rt', cs) \<Longrightarrow> calm rt rt' \<and> credits cs = []"
  by (auto simp: false_verdict_def mismatch_verdict_def verdict_call_def split: if_splits sum.splits)

lemma verdicts_ok:
  assumes "runtime_inv rt" "frame_ok f" "fr_pc f = Verdicts"
  shows "phase_ok f rt (share_verdicts cfg env f rt)"
proof -
  have fo: "frame_ok (f\<lparr>fr_pc := Finish\<rparr>)" using assms(2,3) by (simp add: frame_simps)
  obtain e1 rt1 cs1 where v1: "false_verdict cfg env f rt = (e1, rt1, cs1)" by (cases "false_verdict cfg env f rt")
  obtain e2 rt2 cs2 where v2: "mismatch_verdict cfg env f rt1 = (e2, rt2, cs2)" by (cases "mismatch_verdict cfg env f rt1")
  have c: "calm rt rt1" "credits cs1 = []" "calm rt rt2" "credits cs2 = []"
    using verdict_calm(1) [OF v1] verdict_calm(2) [OF v2] calm_trans by auto
  show ?thesis using assms(1) fo c v1 v2 by (cases e1; cases e2) (simp_all add: share_verdicts_def calm_next calm_throw)
qed

lemma share_finish_ok:
  assumes "runtime_inv rt" "frame_ok f" "fr_pc f = Finish"
  shows "phase_ok f rt (share_finish env f rt)"
proof -
  obtain c where c: "fr_completion f = Some c" "completion_usable f c" using assms(2,3) by (auto simp: frame_ok_def)
  have cr: "credit_ok f (jc_difficulty (fr_job f)) ''verified''"
    if "plan_terminal (plan_of f) \<noteq> Duplicate_Terminal" "plan_terminal (plan_of f) \<noteq> Capacity_Terminal" "fr_match f" "fr_computed_share f"
    using that assms(2,3) c by (cases "fr_local f")
      (auto simp: credit_ok_def frame_ok_def plan_of_def verified_post_hash_plan_def split: if_splits)
  show ?thesis using assms(1) cr by (simp add: share_finish_def Let_def calm_finalize accept_share_ok)
qed

lemma share_phase_ok:
  assumes "runtime_inv rt" "frame_ok f" "owns f rt"
  shows "phase_ok f rt (share_phase cfg env f rt)"
  using assms by (cases "fr_pc f") (simp_all add: share_phase_def rebuild_ok journal_ok decide_ok verify_ok mark_ok wait_ok
      computed_ok journal_computed_ok verdicts_ok share_finish_ok)

section \<open>The invariant of all shares\<close>

definition accepts :: "db_call \<Rightarrow> bool" where
  "accepts c \<longleftrightarrow> credits [c] \<noteq> []"

text \<open>The shares that were credited, in order.\<close>

definition credited :: "share_system \<Rightarrow> share_frame list" where
  "credited s = map fst (filter (accepts \<circ> snd) (sys_calls s))"

definition leased :: "runtime \<Rightarrow> share_frame \<Rightarrow> bool" where
  "leased rt f \<longleftrightarrow> (\<exists>l. map_of (leases rt) (fr_lease f) = Some l \<and> lease_job l = Some (fr_job f))"

definition settled :: "runtime \<Rightarrow> share_frame \<Rightarrow> bool" where
  "settled rt f \<longleftrightarrow> length (jc_entropy (fr_job f)) = 16 \<and> (jc_entropy (fr_job f), home (fr_job f)) \<in> set (issued rt) \<and>
     (dead rt (jc_entropy (fr_job f)) \<or> (\<exists>e. key_at (registry rt) (claim_key f) = Some e \<and> place e = home (fr_job f)))"

definition share_inv :: "share_system \<Rightarrow> bool" where
  "share_inv s \<longleftrightarrow> runtime_inv (sys_rt s) \<and>
     (\<forall>n f. map_of (sys_frames s) n = Some f \<longrightarrow> frame_ok f \<and> owns f (sys_rt s) \<and> leased (sys_rt s) f) \<and>
     (\<forall>n m f g. map_of (sys_frames s) n = Some f \<longrightarrow> map_of (sys_frames s) m = Some g \<longrightarrow> owning f \<longrightarrow> owning g \<longrightarrow>
        claim_key f = claim_key g \<longrightarrow> n = m) \<and>
     (\<forall>f \<in> set (credited s). settled (sys_rt s) f \<and>
        (\<forall>n g. map_of (sys_frames s) n = Some g \<longrightarrow> owning g \<longrightarrow> claim_key g \<noteq> claim_key f)) \<and>
     distinct (map claim_key (credited s)) \<and>
     (\<forall>(f, c) \<in> set (sys_calls s). \<forall>(d, src) \<in> set (credits [c]). credit_ok f d src)"

lemma known_held:
  assumes "tables_good rt" "known rt j"
  shows "0 < held rt (home j)"
proof -
  have ok: "map_ok (jobs rt)" "map_ok (leases rt)" using assms(1) by (simp_all add: tables_good_def)
  have len: "0 < length (filter (\<lambda>i. home i = home j) (retiring rt))" if "j \<in> set (retiring rt)"
    using that by (auto simp: filter_empty_conv)
  have le: "0 < lease_count (leases rt) (home j)" if "map_of (leases rt) i = Some l" "lease_job l = Some j" for i l
    unfolding lease_count_def using assms(1) that
    by (intro smap.count_pos [OF ok(2) that(1)]) (auto simp: lease_home_def tables_good_def)
  have jb: "0 < job_count (jobs rt) (home j)" if "map_of (jobs rt) i = Some j" for i
    unfolding job_count_def by (rule smap.count_pos [OF ok(1) that]) simp
  from assms(2) consider i where "map_of (jobs rt) i = Some j" | "j \<in> set (retiring rt)"
    | i l where "map_of (leases rt) i = Some l" "lease_job l = Some j" unfolding known_def by blast
  then show ?thesis using len le jb by cases (simp_all add: held_def)
qed

lemma leased_known: "leased rt f \<Longrightarrow> known rt (fr_job f)"
  unfolding leased_def known_def by blast

lemma home_unique:
  assumes "tables_good rt" "known rt j" "(jc_entropy j, b) \<in> set (issued rt)"
  shows "home j = b"
proof -
  have "(jc_entropy j, home j) \<in> set (issued rt)" "distinct (map fst (issued rt))"
    using assms(1,2) by (simp_all add: tables_good_def job_good_def)
  then show ?thesis using assms(3) by (metis eq_key_imp_eq_value)
qed

text \<open>Steps of the runtime: the keys of shares in progress stay, and the key of a credited share goes only with its job.\<close>

lemma settled_step:
  assumes "settled rt f" and "sound_step rt rt'" and "set (issued rt) \<subseteq> set (issued rt')"
    and "\<And>x. dead rt x \<Longrightarrow> dead rt' x"
  shows "settled rt' f"
proof -
  let ?x = "jc_entropy (fr_job f)"
  have t: "tables_good rt'" using assms(2) by (simp add: sound_step_def runtime_inv_def)
  have i: "(?x, home (fr_job f)) \<in> set (issued rt')" using assms(1,3) by (auto simp: settled_def)
  consider "dead rt ?x" | e where "key_at (registry rt) (claim_key f) = Some e" "place e = home (fr_job f)"
    using assms(1) unfolding settled_def by blast
  then have "dead rt' ?x \<or> (\<exists>e. key_at (registry rt') (claim_key f) = Some e \<and> place e = home (fr_job f))"
  proof cases
    case (2 e)
    show ?thesis
    proof (cases "0 < held rt' (home (fr_job f))")
      case True
      then show ?thesis using assms(2) 2 by (auto simp: sound_step_def keys_kept_def)
    next
      case False
      have "jc_entropy j \<noteq> ?x" if "known rt' j" for j
        using known_held [OF t that] home_unique [OF t that, of "home (fr_job f)"] i False by auto
      moreover have "?x \<in> fst ` set (issued rt')" using i by (rule image_eqI [rotated]) simp
      ultimately show ?thesis unfolding dead_def by blast
    qed
  qed (use assms(4) in blast)
  then show ?thesis using assms(1) i by (simp add: settled_def)
qed

lemma owns_step:
  assumes "owns f rt" and "sound_step rt rt'" and "leased rt' f"
  shows "owns f rt'"
proof -
  have "0 < held rt' (home (fr_job f))"
    using known_held [OF _ leased_known [OF assms(3)]] assms(2) by (simp add: sound_step_def runtime_inv_def)
  moreover have "place (entry_of f) = home (fr_job f)" by (simp add: place_def entry_of_def home_def)
  ultimately show ?thesis using assms(1,2) by (auto simp: owns_def sound_step_def keys_kept_def)
qed

lemma share_inv_runtime:
  assumes "share_inv s" and "sound_step (sys_rt s) rt'" and "set (issued (sys_rt s)) \<subseteq> set (issued rt')"
    and "\<And>x. dead (sys_rt s) x \<Longrightarrow> dead rt' x"
    and "\<And>n f. map_of (sys_frames s) n = Some f \<Longrightarrow> leased (sys_rt s) f \<Longrightarrow> leased rt' f"
  shows "share_inv (s\<lparr>sys_rt := rt'\<rparr>)"
proof -
  have "credited (s\<lparr>sys_rt := rt'\<rparr>) = credited s" by (simp add: credited_def)
  moreover have "frame_ok f \<and> owns f rt' \<and> leased rt' f" if f: "map_of (sys_frames s) n = Some f" for n f
    using assms(1) f owns_step [OF _ assms(2) assms(5) [OF f]] assms(5) [OF f] unfolding share_inv_def by blast
  moreover have "settled rt' f" if "f \<in> set (credited s)" for f
    using settled_step [OF _ assms(2-4)] assms(1) that unfolding share_inv_def by blast
  moreover have "runtime_inv rt'" using assms(2) by (simp add: sound_step_def)
  ultimately show ?thesis using assms(1) unfolding share_inv_def by simp
qed

text \<open>What the four effects have in common.\<close>

lemma phase_keys:
  assumes "phase_ok f rt (out, rt', cs)" and "key_at (registry rt) k = Some e"
    and "\<not> (owning f \<and> \<not> goes_on out \<and> k = claim_key f)"
  shows "key_at (registry rt') k = Some e"
proof -
  obtain x where "key_effect_ok x f (registry rt) out (registry rt')" using assms(1) by (auto simp: phase_ok_def)
  then show ?thesis using assms(2,3) by (cases x) auto
qed

lemma phase_next:
  assumes "phase_ok f rt (Next f', rt', cs)" and "owning f'"
  shows "if owning f then fr_token f' = fr_token f
    else key_at (registry rt) (claim_key f) = None \<and> key_at (registry rt') (claim_key f) = Some (entry_of f')"
proof -
  obtain x where "key_effect_ok x f (registry rt) (Next f') (registry rt')" using assms(1) by (auto simp: phase_ok_def)
  then show ?thesis using assms(2) by (cases x) (auto simp: owning_def goes_on_def)
qed

lemma phase_same: "phase_ok f rt (Next f', rt', cs) \<Longrightarrow>
    frame_ok f' \<and> claim_key f' = claim_key f \<and> fr_job f' = fr_job f \<and> fr_lease f' = fr_lease f"
  by (auto simp: phase_ok_def claim_key_def)

lemma phase_tables: "phase_ok f rt (out, rt', cs) \<Longrightarrow> runtime_inv rt' \<and> issued rt' = issued rt \<and> leases rt' = leases rt \<and> dead rt' = dead rt"
  by (auto simp: phase_ok_def same_jobs_def dead_def known_def fun_eq_iff)

lemma credits_in: "c \<in> set cs \<Longrightarrow> x \<in> set (credits [c]) \<Longrightarrow> x \<in> set (credits cs)"
proof -
  assume "c \<in> set cs" "x \<in> set (credits [c])"
  moreover obtain as bs where "cs = as @ [c] @ bs" using \<open>c \<in> set cs\<close> by (auto dest: split_list)
  ultimately show ?thesis by (simp only: credits_simps(2) set_append) blast
qed

lemma credited_settle:
  assumes "phase_ok f rt (out, rt', cs)"
  shows "credited (settle n f (out, rt', cs) s) = credited s @ (if credits cs = [] then [] else [f])"
proof -
  have "length (filter (accepts \<circ> snd) (map (Pair f) cs)) = length (credits cs)"
    by (induction cs) (auto simp: accepts_def credits_def split: db_call.splits)
  moreover have "map fst (filter (accepts \<circ> snd) (map (Pair f) cs)) = replicate (length (filter (accepts \<circ> snd) (map (Pair f) cs))) f"
    by (induction cs) auto
  moreover have "length (credits cs) \<le> 1" using assms by (auto simp: phase_ok_def)
  ultimately show ?thesis by (auto simp: credited_def settle_def le_Suc_eq)
qed

lemma settle_frames:
  "map_of (sys_frames (settle n f (out, rt', cs) s)) m =
     (if m = n then (case out of Next f' \<Rightarrow> Some f' | _ \<Rightarrow> None) else map_of (sys_frames s) m)"
  by (auto simp: settle_def split: outcome.splits)

lemma settle_others [simp]:
  "sys_rt (settle n f (out, rt', cs) s) = rt'" "sys_calls (settle n f (out, rt', cs) s) = sys_calls s @ map (Pair f) cs"
  by (simp_all add: settle_def)

lemma key_entropy:
  assumes "claim_key f = claim_key g" "length (jc_entropy (fr_job f)) = 16" "length (jc_entropy (fr_job g)) = 16"
  shows "jc_entropy (fr_job f) = jc_entropy (fr_job g)"
  using assms by (simp add: claim_key_def make_duplicate_key_def)

lemma known_entropy: "runtime_inv rt \<Longrightarrow> leased rt f \<Longrightarrow>
    length (jc_entropy (fr_job f)) = 16 \<and> (jc_entropy (fr_job f), home (fr_job f)) \<in> set (issued rt) \<and> \<not> dead rt (jc_entropy (fr_job f))"
  using leased_known [of rt f] by (auto simp: runtime_inv_def tables_good_def job_good_def dead_def)

lemma advance_inv:
  assumes inv: "share_inv s" and f: "map_of (sys_frames s) n = Some f"
    and ph: "phase_ok f (sys_rt s) (out, rt', cs)"
  shows "share_inv (settle n f (out, rt', cs) s)" (is "share_inv ?s")
proof -
  note tb = phase_tables [OF ph]
  have fr: "frame_ok g \<and> owns g (sys_rt s) \<and> leased (sys_rt s) g" if "map_of (sys_frames s) m = Some g" for m g
    using inv that unfolding share_inv_def by blast
  have apart: "claim_key g \<noteq> claim_key f" if "map_of (sys_frames s) m = Some g" "m \<noteq> n" "owning g" "owning f" for m g
    using inv f that unfolding share_inv_def by metis
  have st: "settled (sys_rt s) g" "\<And>m h. map_of (sys_frames s) m = Some h \<Longrightarrow> owning h \<Longrightarrow> claim_key h \<noteq> claim_key g"
    if "g \<in> set (credited s)" for g using inv that unfolding share_inv_def by blast+
  have keep: "owns g rt'" if "map_of (sys_frames s) m = Some g" "m \<noteq> n" for m g
    using phase_keys [OF ph] fr [OF that(1)] apart [OF that] by (auto simp: owns_def)
  have nxt: "frame_ok f' \<and> owns f' rt' \<and> leased rt' f'" if o: "out = Next f'" for f'
  proof -
    note sm = phase_same [OF ph [unfolded o]]
    have "owns f' rt'"
    proof (cases "owning f' \<and> owning f")
      case True
      then have "entry_of f' = entry_of f" using phase_next [OF ph [unfolded o]] sm by (simp add: entry_of_def)
      moreover have "key_at (registry rt') (claim_key f) = Some (entry_of f)"
        using phase_keys [OF ph] fr [OF f] True o by (auto simp: owns_def goes_on_def)
      ultimately show ?thesis using sm by (simp add: owns_def)
    qed (use phase_next [OF ph [unfolded o]] sm in \<open>auto simp: owns_def\<close>)
    then show ?thesis using sm fr [OF f] tb by (simp add: leased_def)
  qed
  have new_key: "key_at (registry (sys_rt s)) (claim_key f) = None" if "out = Next f'" "owning f'" "\<not> owning f" for f'
    using phase_next [OF ph [unfolded that(1)] that(2)] that(3) by simp
  have apart': "claim_key g \<noteq> claim_key f" if "map_of (sys_frames s) m = Some g" "m \<noteq> n" "owning g" "out = Next f'" "owning f'" for m g f'
    using new_key [OF that(4,5)] apart [OF that(1-3)] fr [OF that(1)] that(3) by (cases "owning f") (auto simp: owns_def)
  have B: "\<forall>m g. map_of (sys_frames ?s) m = Some g \<longrightarrow> frame_ok g \<and> owns g rt' \<and> leased rt' g"
    using nxt keep fr tb by (auto simp: settle_frames leased_def split: outcome.splits)
  have clash: False if "map_of (sys_frames s) k = Some h" "k \<noteq> n" "owning h" "out = Next g" "owning g" "claim_key g = claim_key h" for k h g
    using apart' [OF that(1-5)] phase_same [OF ph [unfolded that(4)]] that(6) by simp
  have C: "m = k" if a: "map_of (sys_frames ?s) m = Some g" "map_of (sys_frames ?s) k = Some h" "owning g" "owning h" "claim_key g = claim_key h"
    for m k g h
  proof (cases "m = n \<or> k = n")
    case True
    then show ?thesis using a clash [of k h g] clash [of m g h] by (auto simp: settle_frames split: if_splits outcome.splits)
  next
    case False
    then have "map_of (sys_frames s) m = Some g" "map_of (sys_frames s) k = Some h" using a(1,2) by (simp_all add: settle_frames)
    then show ?thesis using inv a(3-5) unfolding share_inv_def by blast
  qed
  have E: "claim_key h \<noteq> claim_key g" if g: "g \<in> set (credited s)" and h: "map_of (sys_frames ?s) m = Some h" "owning h" for g m h
  proof (cases "m = n")
    case True
    then have o: "out = Next h" using h by (auto simp: settle_frames split: outcome.splits)
    note sm = phase_same [OF ph [unfolded o]]
    show ?thesis
    proof (cases "owning f")
      case False
      have "dead (sys_rt s) (jc_entropy (fr_job g))" if "claim_key f = claim_key g"
        using st(1) [OF g] new_key [OF o h(2) False] that by (auto simp: settled_def)
      then show ?thesis using key_entropy [of f g] known_entropy [of "sys_rt s" f] fr [OF f] st(1) [OF g] sm inv
        by (auto simp: settled_def share_inv_def)
    qed (use st(2) [OF g f] sm in simp)
  qed (use st(2) [OF g] h in \<open>simp add: settle_frames\<close>)
  have D: "settled rt' g" if g: "g \<in> set (credited s)" for g
  proof -
    have "key_at (registry rt') (claim_key g) = Some e" if "key_at (registry (sys_rt s)) (claim_key g) = Some e" for e
      using phase_keys [OF ph that] st(2) [OF g f] by metis
    then show ?thesis using st(1) [OF g] tb unfolding settled_def by auto
  qed
  have last: "settled rt' f \<and> claim_key f \<notin> claim_key ` set (credited s) \<and> \<not> goes_on out" if ne: "credits cs \<noteq> []"
  proof -
    have o: "owning f" "\<not> goes_on out" "key_at (registry rt') = key_at (registry (sys_rt s))"
    proof -
      obtain d src where "credit_ok f d src" "\<not> goes_on out" "key_at (registry rt') = key_at (registry (sys_rt s))"
        using ph ne by (auto simp: phase_ok_def)
      then show "owning f" "\<not> goes_on out" "key_at (registry rt') = key_at (registry (sys_rt s))"
        using fr [OF f] by (auto simp: credit_ok_def frame_ok_def)
    qed
    have "key_at (registry rt') (claim_key f) = Some (entry_of f)" using o fr [OF f] by (simp add: owns_def)
    moreover have "place (entry_of f) = home (fr_job f)" by (simp add: place_def entry_of_def home_def)
    ultimately show ?thesis using o st(2) [OF _ f] known_entropy [of "sys_rt s" f] fr [OF f] inv tb
      by (auto simp: settled_def share_inv_def)
  qed
  have G: "\<forall>(g, c) \<in> set (sys_calls ?s). \<forall>(d, src) \<in> set (credits [c]). credit_ok g d src"
  proof -
    have "\<forall>(d, src) \<in> set (credits cs). credit_ok f d src" using ph by (auto simp: phase_ok_def)
    then have "\<forall>c \<in> set cs. \<forall>(d, src) \<in> set (credits [c]). credit_ok f d src" using credits_in by fast
    then show ?thesis using inv by (auto simp: share_inv_def)
  qed
  have H: "settled rt' g \<and> (\<forall>m h. map_of (sys_frames ?s) m = Some h \<longrightarrow> owning h \<longrightarrow> claim_key h \<noteq> claim_key g)"
    if g: "g \<in> set (credited ?s)" for g
  proof (cases "g \<in> set (credited s)")
    case True
    then show ?thesis using D E by blast
  next
    case False
    then have "credits cs \<noteq> []" and gf: "g = f" using g by (auto simp: credited_settle [OF ph] split: if_splits)
    then have l: "settled rt' f" "\<not> goes_on out" "credits cs \<noteq> []" using last by blast+
    have "claim_key h \<noteq> claim_key f" if h: "map_of (sys_frames ?s) m = Some h" "owning h" for m h
    proof (cases "m = n")
      case True
      then show ?thesis using h l(2) by (auto simp: settle_frames goes_on_def split: outcome.splits)
    next
      case False
      then have "map_of (sys_frames s) m = Some h" using h by (simp add: settle_frames)
      moreover have "owning f" using ph l(3) fr [OF f] by (auto simp: phase_ok_def credit_ok_def frame_ok_def)
      ultimately show ?thesis using apart [OF _ False h(2)] by blast
    qed
    then show ?thesis using l(1) gf by blast
  qed
  have I: "distinct (map claim_key (credited ?s))"
    using inv last by (auto simp: credited_settle [OF ph] share_inv_def)
  show ?thesis unfolding share_inv_def settle_others(1) using tb B C G H I by blast
qed

lemma arrive_frame:
  assumes "share_received env sub lease rt = (out, rt', cs)" "runtime_inv rt"
  shows "same_tables rt rt' \<and> registry rt' = registry rt \<and> (\<forall>f. out = Next f \<longrightarrow> frame_ok f \<and> \<not> owning f \<and> leased rt f)"
proof -
  have un: "same_tables rt (fst (snd (unknown_job_share env rt))) \<and> registry (fst (snd (unknown_job_share env rt))) = registry rt \<and>
      \<not> goes_on (fst (unknown_job_share env rt))"
    by (auto simp: unknown_job_share_def goes_on_def split: sum.splits)
  show ?thesis
  proof (cases "case lease of None \<Rightarrow> None | Some i \<Rightarrow> map_of (leases rt) i")
    case (Some l)
    then obtain i where i: "lease = Some i" "map_of (leases rt) i = Some l" by (auto split: option.splits)
    then show ?thesis using assms un
      by (auto simp: share_received_def Let_def goes_on_def frame_ok_def owning_def leased_def split: if_splits option.splits sum.splits)
  qed (use assms in \<open>auto simp: share_received_def\<close>)
qed

lemma arrive_inv:
  assumes inv: "share_inv s" and fresh: "map_of (sys_frames s) n = None"
  shows "share_inv (begin_share n (share_received env sub lease (sys_rt s)) s)"
proof -
  obtain out rt' cs where r: "share_received env sub lease (sys_rt s) = (out, rt', cs)" by (cases "share_received env sub lease (sys_rt s)")
  have rt: "runtime_inv (sys_rt s)" using inv by (simp add: share_inv_def)
  note a = arrive_frame [OF r rt]
  have d: "descends (sys_rt s) rt'" using a same_tables_descends by blast
  have i1: "share_inv (s\<lparr>sys_rt := rt'\<rparr>)"
  proof (rule share_inv_runtime [OF inv])
    show "sound_step (sys_rt s) rt'" using quiet_step [OF rt] a by blast
  qed (use a descends_dead [OF d] in \<open>auto simp: same_tables_def leased_def\<close>)
  show ?thesis
  proof (cases out)
    case (Next f)
    have f: "frame_ok f" "\<not> owning f" "leased rt' f" using a Next by (auto simp: leased_def same_tables_def)
    let ?s = "s\<lparr>sys_rt := rt', sys_frames := map_put n f (sys_frames s)\<rparr>"
    have "credited ?s = credited (s\<lparr>sys_rt := rt'\<rparr>)" by (simp add: credited_def)
    then have "share_inv ?s" using i1 f fresh by (auto simp: share_inv_def owns_def split: if_splits)
    then show ?thesis using Next r by (simp add: begin_share_def)
  qed (use i1 r in \<open>simp_all add: begin_share_def\<close>)
qed

lemma finish_task_fields [simp]:
  "jobs (finish_task t rt) = jobs rt" "retiring (finish_task t rt) = retiring rt" "leases (finish_task t rt) = leases rt"
  "next_lease (finish_task t rt) = next_lease rt" "issued (finish_task t rt) = issued rt" "tasks (finish_task t rt) = remove1 t (tasks rt)"
  "registry (finish_task t rt) = (if ct_holds_height t then snd (release_height (registry rt) (ct_source t) (ct_height t)) else registry rt)"
  by (simp_all add: finish_task_def Let_def)

lemma task_steps:
  assumes "runtime_inv rt" "small rt"
  shows "same_homes (tasks rt) ts \<Longrightarrow> sound_step rt (rt\<lparr>tasks := ts\<rparr>)"
    and "t \<in> set (tasks rt) \<Longrightarrow> sound_step rt (finish_task t rt)"
proof -
  have g: "tables_good rt'" if "same_jobs rt rt'" for rt' using assms(1) same_jobs_good [OF that] by (simp add: runtime_inv_def)
  show "sound_step rt (rt\<lparr>tasks := ts\<rparr>)" if "same_homes (tasks rt) ts"
    by (rule step_same_registry [OF assms(1)]) (use that in \<open>simp_all add: g same_jobs_def held_def fun_eq_iff same_homes_def\<close>)
  assume t: "t \<in> set (tasks rt)"
  have tg: "tables_good (finish_task t rt)" by (rule g) (simp add: same_jobs_def)
  have h: "held rt b = held (finish_task t rt) b + (if task_home b t then 1 else 0)" for b
    using filter_remove1 [OF t, of "task_home b"] by (simp add: held_def)
  show "sound_step rt (finish_task t rt)"
  proof (cases "ct_holds_height t")
    case True
    show ?thesis
    proof (rule step_release [OF assms tg])
      show "held rt = bump (ct_source t, ct_height t) (held (finish_task t rt))" using h True by (auto simp: fun_eq_iff task_home_def)
    qed (use True in simp)
  next
    case False
    show ?thesis
      by (rule step_same_registry [OF assms(1) tg]) (use h False in \<open>auto simp: fun_eq_iff task_home_def\<close>)
  qed
qed

lemma share_step_inv:
  assumes "share_step cfg s s'" and "share_inv s" and "small (sys_rt s)"
  shows "share_inv s'"
  using assms
proof (induction rule: share_step.induct)
  case (runtime s rt)
  have rt: "runtime_inv (sys_rt s)" using runtime by (simp add: share_inv_def)
  note d = runtime_step_descends [OF runtime(1) rt]
  have "leased rt f" if "leased (sys_rt s) f" for f
    using d that map_le_Some unfolding leased_def descends_def by metis
  then show ?case using share_inv_runtime [OF runtime(2) runtime_step_sound [OF runtime(1) rt runtime(3)]] d descends_dead [OF d]
    by (simp add: descends_def)
next
  case (arrive s n env sub lease)
  then show ?case by (simp add: arrive_inv)
next
  case (advance s n f env)
  have "phase_ok f (sys_rt s) (share_phase cfg env f (sys_rt s))"
    using advance by (intro share_phase_ok) (auto simp: share_inv_def)
  then show ?case using advance_inv [OF advance(2,1)] by (cases "share_phase cfg env f (sys_rt s)") simp
next
  case (drop s i rel)
  have rt: "runtime_inv (sys_rt s)" using drop by (simp add: share_inv_def)
  have "dead (drop_lease rel i (sys_rt s)) x" if "dead (sys_rt s) x" for x
    using that drop_lease_known(1) [of rel i "sys_rt s"] by (auto simp: dead_def drop_lease_known(2))
  moreover have "map_of (leases (drop_lease rel i (sys_rt s))) k = map_of (leases (sys_rt s)) k" if "k \<noteq> i" for k
    using that by (auto simp: drop_lease_def Let_def split: option.splits)
  ultimately show ?case using share_inv_runtime [OF drop(2) drop_lease_step [OF rt drop(3)], of rel i] drop(1)
    by (auto simp: leased_def drop_lease_known(2))
next
  case (task_changed s ts)
  have rt: "runtime_inv (sys_rt s)" using task_changed by (simp add: share_inv_def)
  show ?case by (rule share_inv_runtime [OF task_changed(2) task_steps(1) [OF rt task_changed(3,1)]])
      (auto simp: leased_def dead_def known_def)
next
  case (task_finished t s)
  have rt: "runtime_inv (sys_rt s)" using task_finished by (simp add: share_inv_def)
  show ?case by (rule share_inv_runtime [OF task_finished(2) task_steps(2) [OF rt task_finished(3,1)]])
      (auto simp: leased_def dead_def known_def)
qed

lemma fresh_inv:
  assumes "fresh_system s"
  shows "share_inv s \<and> small (sys_rt s)"
proof -
  obtain g c where r: "make_registry g c = Inr (registry (sys_rt s))" using assms by (auto simp: fresh_system_def)
  have "buckets (registry (sys_rt s)) = []"
    using r by (auto simp: make_registry_def split: if_splits dest: arg_cong [where f = buckets])
  then have "refs_at (registry (sys_rt s)) b = 0" for b by (simp add: refs_at_def bucket_in_def)
  moreover have h: "held (sys_rt s) b = 0" for b
    using assms by (simp add: fresh_system_def held_def job_count_def lease_count_def smap.count_of_def)
  ultimately have "counted (registry (sys_rt s)) (held (sys_rt s))" using make_registry_inv [OF r] by (intro countedI) simp_all
  then have "runtime_inv (sys_rt s)" using assms by (simp add: runtime_inv_def tables_good_def fresh_system_def known_def)
  then show ?thesis using assms h by (simp add: share_inv_def fresh_system_def credited_def small_def)
qed

lemma share_reachable_inv: "share_reachable cfg s \<Longrightarrow> share_inv s \<and> small (sys_rt s)"
  by (induction rule: share_reachable.induct) (auto simp: fresh_inv share_step_inv)

section \<open>The mode of a share\<close>

text \<open>
  The mode is fixed at startup. With a verifier no share is credited from its claim: a frame beyond the decision is one of
  a process with a verifier, and the label of every credit is the mode.
\<close>

definition verifying :: "share_frame \<Rightarrow> bool" where
  "verifying f \<longleftrightarrow> fr_pc f \<in> {Verify, Mark, Wait, Computed, Journal_Computed, Verdicts, Finish}"

definition mode_label :: "runtime \<Rightarrow> string" where
  "mode_label rt = (if has_verifier rt then ''verified'' else ''claimed'')"

fun mode_kept :: "runtime \<Rightarrow> phase_result \<Rightarrow> bool" where
  "mode_kept rt (out, rt', cs) \<longleftrightarrow> has_verifier rt' = has_verifier rt \<and>
     (\<forall>f. out = Next f \<longrightarrow> verifying f \<longrightarrow> has_verifier rt) \<and> (\<forall>(d, src) \<in> set (credits cs). src = mode_label rt)"

lemma mode_updates [simp]:
  "has_verifier (rt\<lparr>engine := d\<rparr>) = has_verifier rt" "has_verifier (rt\<lparr>tasks := ts\<rparr>) = has_verifier rt"
  "has_verifier (rt\<lparr>completions := b\<rparr>) = has_verifier rt" "has_verifier (rt\<lparr>pending_verifications := p\<rparr>) = has_verifier rt"
  "has_verifier (release_claimed_if_safe f rt) = has_verifier rt" "has_verifier (decrement_pending c rt) = has_verifier rt"
  "has_verifier (candidate_done cfg env f a rt) = has_verifier rt" "has_verifier (record_peer cfg env f k rt) = has_verifier rt"
  "has_verifier (finish_task t rt) = has_verifier rt"
  by (simp_all add: has_verifier_def release_claimed_if_safe_def decrement_pending_def candidate_done_def record_peer_def
      finish_task_def Let_def split: option.split)

lemma finalize_mode:
  "mode_kept rt (finalize env f st p d code a rt' cs) \<longleftrightarrow>
     has_verifier rt' = has_verifier rt \<and> (\<forall>(d, src) \<in> set (credits cs). src = mode_label rt)"
  by (simp add: finalize_def split: sum.split)

lemma accept_mode: "source = mode_label rt \<Longrightarrow> mode_kept rt (accept_share env f source a rt)"
  by (simp add: accept_share_def Let_def finalize_mode split: sum.split)

lemma boundary_mode: "boundary f res rt = (e, rt') \<Longrightarrow> has_verifier rt' = has_verifier rt"
  by (auto simp: boundary_def register_candidate_boundary_def Let_def has_verifier_def mark_database_unavailable_def
      split: if_splits sum.splits)

lemma journal_new_mode:
  "journal_new cfg env f key acq rt cs = (res, rt', cs') \<Longrightarrow> has_verifier rt' = has_verifier rt \<and> credits cs' = credits cs"
  by (auto simp: journal_new_def Let_def split: if_splits sum.splits option.splits prod.splits dest!: boundary_mode)

lemma journal_mode:
  "journal_candidate cfg env p b f rt = (res, f', rt', cs) \<Longrightarrow> has_verifier rt' = has_verifier rt \<and> credits cs = []"
  by (auto simp: journal_candidate_def Let_def split: if_splits sum.splits option.splits prod.splits
      dest!: boundary_mode journal_new_mode)

lemma verdict_mode:
  "false_verdict cfg env f rt = (e, rt', cs) \<Longrightarrow> has_verifier rt' = has_verifier rt \<and> credits cs = []"
  "mismatch_verdict cfg env f rt = (e, rt', cs) \<Longrightarrow> has_verifier rt' = has_verifier rt \<and> credits cs = []"
  by (auto simp: false_verdict_def mismatch_verdict_def verdict_call_def split: if_splits sum.splits)

lemma submit_mode: "has_verifier rt \<Longrightarrow> mode_kept rt (submit_to_verifier cfg env f rt)"
  by (auto simp: submit_to_verifier_def Let_def finalize_mode split: option.split prod.split) (auto simp: has_verifier_def)

lemma mode_kept_cong: "has_verifier rt = has_verifier rt' \<Longrightarrow> mode_kept rt res = mode_kept rt' res"
  by (cases res) (simp add: mode_label_def)

lemma verify_mode:
  assumes "has_verifier rt"
  shows "mode_kept rt (share_verify cfg env f rt)"
proof -
  have "mode_kept rt (submit_to_verifier cfg env f rt')" if "has_verifier rt'" for rt'
    using submit_mode [OF that] mode_kept_cong [of rt rt'] assms that by simp
  then show ?thesis using assms by (simp add: share_verify_def Let_def finalize_mode split: prod.split)
qed

lemma phase_mode:
  assumes "verifying f \<Longrightarrow> has_verifier rt"
  shows "mode_kept rt (share_phase cfg env f rt)"
proof (cases "fr_pc f")
  case Rebuild
  then show ?thesis
    by (auto simp: share_phase_def share_rebuild_def finalize_mode verifying_def Let_def split: sum.split prod.split)
next
  case Journal
  then show ?thesis
    by (auto simp: share_phase_def share_journal_def finalize_mode verifying_def split: sum.split prod.split dest!: journal_mode)
next
  case Decide
  then show ?thesis
    by (auto simp: share_phase_def share_decide_def finalize_mode Let_def mode_label_def intro!: accept_mode)
next
  case Verify
  then show ?thesis using assms by (simp add: share_phase_def verify_mode verifying_def)
next
  case Mark
  then show ?thesis using assms by (simp add: share_phase_def share_mark_def verifying_def Let_def split: sum.split)
next
  case Wait
  then show ?thesis using assms
    by (auto simp: share_phase_def share_wait_def finalize_mode verifying_def Let_def split: option.split prod.split)
next
  case Computed
  then show ?thesis using assms
    by (auto simp: share_phase_def share_computed_def verifying_def Let_def split: sum.split prod.split)
next
  case Journal_Computed
  then show ?thesis using assms
    by (auto simp: share_phase_def share_journal_computed_def finalize_mode verifying_def split: sum.split prod.split dest!: journal_mode)
next
  case Verdicts
  then show ?thesis using assms
    by (auto simp: share_phase_def share_verdicts_def verifying_def split: option.split prod.split dest!: verdict_mode)
next
  case Finish
  then show ?thesis using assms
    by (auto simp: share_phase_def share_finish_def finalize_mode verifying_def mode_label_def Let_def intro!: accept_mode)
qed

definition mode_inv :: "share_system \<Rightarrow> bool" where
  "mode_inv s \<longleftrightarrow> (\<forall>n f. map_of (sys_frames s) n = Some f \<longrightarrow> verifying f \<longrightarrow> has_verifier (sys_rt s)) \<and>
     (\<forall>(f, c) \<in> set (sys_calls s). \<forall>(d, src) \<in> set (credits [c]). src = mode_label (sys_rt s))"

lemma mode_inv_runtime: "mode_inv s \<Longrightarrow> has_verifier rt = has_verifier (sys_rt s) \<Longrightarrow> mode_inv (s\<lparr>sys_rt := rt\<rparr>)"
  by (simp add: mode_inv_def mode_label_def)

lemma mode_settle:
  assumes "mode_inv s" and "mode_kept (sys_rt s) res"
  shows "mode_inv (settle n f res s)"
proof -
  obtain out rt cs where res: "res = (out, rt, cs)" by (cases res)
  have "src = mode_label (sys_rt s)" if "c \<in> set cs" "(d, src) \<in> set (credits [c])" for c d src
    using credits_in [OF that] assms(2) by (auto simp: res)
  then show ?thesis using assms
    by (auto simp: mode_inv_def settle_def res mode_label_def split: outcome.split if_splits)
qed

lemma mode_step:
  assumes "share_step cfg s s'" and "mode_inv s"
  shows "mode_inv s'"
  using assms
proof (induction rule: share_step.induct)
  case (runtime s rt)
  then show ?case by (simp add: mode_inv_runtime runtime_step_mode)
next
  case (arrive s n env sub lease)
  obtain out rt cs where res: "share_received env sub lease (sys_rt s) = (out, rt, cs)"
    by (cases "share_received env sub lease (sys_rt s)")
  have "has_verifier rt = has_verifier (sys_rt s) \<and> (\<forall>f. out = Next f \<longrightarrow> \<not> verifying f)"
    using res by (auto simp: share_received_def unknown_job_share_def verifying_def Let_def split: option.splits if_splits sum.splits)
  then show ?case using arrive by (auto simp: res begin_share_def mode_inv_def mode_label_def split: outcome.split if_splits)
next
  case (advance s n f env)
  then show ?case by (intro mode_settle phase_mode) (auto simp: mode_inv_def)
qed (simp_all add: mode_inv_runtime)

lemma share_reachable_mode: "share_reachable cfg s \<Longrightarrow> mode_inv s"
proof (induction rule: share_reachable.induct)
  case (start s)
  then show ?case by (simp add: fresh_system_def mode_inv_def)
next
  case (step s s')
  then show ?case by (blast intro: mode_step)
qed

section \<open>A history with a credited share\<close>

text \<open>One connection without a verifier: a job on the sample block, a share of it, and its credit.\<close>

definition sample_share_config :: share_config where
  "sample_share_config = \<lparr>max_pending_per_connection = 1, share_defense = Defense.sample_config, share_verifier = Verifier.sample_config\<lparr>max_input_size := 4096\<rparr>,
     submit_attempts = 4, sc_sha256 = take 32, sc_round = (\<lambda>x. x)\<rparr>"

definition sample_template :: template_context where
  "sample_template = \<lparr>tc_generation = 1, tc_block = sample_block, tc_hashing_blob = [], tc_reserved_offset = 48, tc_height = 10,
     tc_previous_hash = replicate 32 7, tc_seed_hash = replicate 32 7, tc_next_seed_hash = None, tc_network_difficulty = ''256'',
     tc_fetch_reason = ''startup'', tc_wide_difficulty_hex = None, tc_seed_id = 0\<rparr>"

definition sample_pub :: publication where
  "sample_pub = \<lparr>current_template = Some sample_template, current_height = 10, template_generation = 1, accepted_fence = None,
     unresolved = [], issuance_allowed = True, active_seed = 0, pub_verifier = None, refresh_requested = False\<rparr>"

definition sample_rt :: runtime where
  "sample_rt = \<lparr>pub = sample_pub, registry = \<lparr>global_capacity = 2, source_capacity = 1, entries = [], source_sizes = [], buckets = [], next_generation = 1\<rparr>,
     jobs = [], connection_jobs = [], connection_ids = [(''c'', 1)], worker_ids = [], pending_verifications = [], accepted_submits = [],
     deferred_closes = [], next_job_id = 0, leases = [], next_lease = 0, retiring = [], issued = [], tasks = [],
     completions = \<lparr>box_capacity = 1, box_slots = [], box_closed = True\<rparr>, engine = fresh_engine, internal_failure = False, running = True,
     database_operational = True, runtime_error = None\<rparr>"

definition sample_conn :: miner_connection where
  "sample_conn = \<lparr>public_id = ''c'', miner_peer = sample_peer, peer_port = 1, listen_address = [], miner_login = [], miner_rigid = [],
     miner_agent = [], assigned_difficulty = 15, last_sent_height = 0, request_sequence = 0\<rparr>"

definition sample_hash :: bytes where
  "sample_hash = replicate 31 0 @ [0x10]"

definition sample_submission :: stratum_submission where
  "sample_submission = \<lparr>sub_connection = sample_conn, sub_request_id = Number_Id 1, sub_sequence = 1, sub_received = 1, sub_job_id = hex_encode (replicate 16 1),
     sub_nonce = [1, 2, 3, 4], sub_claimed_hash = sample_hash, sub_claimed_hex = []\<rparr>"

definition sample_share_env :: share_env where
  "sample_share_env = \<lparr>en_latest = 10, en_steady = 0, en_wall = 0, en_insert = Inr 1, en_hash = Inr (), en_ensure = Inr 1, en_find = Inr None,
     en_attach = Inr (), en_admission = Inr (), en_journal = Inr no_candidate, en_waiter_fails = False, en_submit = None, en_mark = Inr (),
     en_verdict_false = Inr False, en_verdict_mismatch = Inr False, en_older = Inr (), en_accept = Inr True, en_finalize = Inr ()\<rparr>"

definition sample_job :: job_context where
  "sample_job = \<lparr>jc_local_id = 1, jc_public_id = replicate 16 1, jc_entropy = replicate 16 9, jc_connection = ''c'', jc_connection_id = 1, jc_source = 1,
     jc_worker = None, jc_generation = 1, jc_template = sample_template, jc_height = 10, jc_seed_id = 0, jc_difficulty = 15,
     jc_target64 = 0x1111111111111111, jc_network = ''256'', jc_created = 0, jc_expires = 1000, jc_retained = True\<rparr>"

definition sample_lease :: job_lease where
  "sample_lease = \<lparr>lease_job = Some sample_job, lease_connection = 1, lease_worker = None, lease_seed_retained = False, lease_height_retained = True\<rparr>"

definition sample_leased :: runtime where
  "sample_leased = sample_rt\<lparr>next_job_id := 1, issued := [(replicate 16 9, 1, 10)], jobs := [(hex_encode (replicate 16 1), sample_job)],
     connection_jobs := [(''c'', [hex_encode (replicate 16 1)])],
     registry := retain_height (retain_height (registry sample_rt) 1 10) 1 10, leases := [(0, sample_lease)], next_lease := 1\<rparr>"

lemma held_bound:
  assumes "map_ok (jobs rt)" "map_ok (leases rt)"
  shows "held rt b \<le> length (jobs rt) + length (retiring rt) + length (leases rt) + length (tasks rt)"
  unfolding held_def job_count_def lease_count_def by (intro add_mono smap.count_le_size assms length_filter_le)

lemma small_few:
  assumes "map_ok (jobs rt)" "map_ok (leases rt)" "length (jobs rt) + length (retiring rt) + length (leases rt) + length (tasks rt) \<le> 9"
  shows "small rt"
proof -
  have "held rt b \<le> 9" for b using held_bound [OF assms(1,2)] assms(3) by (rule le_trans)
  then have "held rt b + 1 < 2 ^ 64" for b by (rule order.strict_trans1 [OF add_right_mono]) simp
  then show ?thesis by (simp only: small_def simp_thms)
qed

lemma sample_mutate: "\<exists>b hb b' hb'. mutate_reserved_bytes sample_block 48 (replicate 16 9) = Inr b \<and> block_hashing_blob b = Inr hb \<and>
    insert_nonce b [1, 2, 3, 4] = Inr b' \<and> block_hashing_blob b' = Inr hb'"
proof -
  obtain b where b: "mutate_reserved_bytes sample_block 48 (replicate 16 9) = Inr b"
    using mutate_reserved_parsed [OF parse_sample, of "replicate 16 9" 48] sample_guard by auto
  obtain d' where d': "parse_block d' = Inr b" using b by (auto simp: mutate_reserved_bytes_def split: if_splits)
  show ?thesis using b insert_nonce_parsed [OF d', of "[1, 2, 3, 4]"] by auto
qed

lemma sample_made:
  "\<exists>w. make_job 0 1 (Inr (replicate 16 9)) (Inr (replicate 16 1)) MSPV_OK sample_conn sample_rt =
     (Some w, sample_rt\<lparr>next_job_id := 1, registry := retain_height (registry sample_rt) 1 10,
       issued := [(replicate 16 9, 1, 10)], jobs := [(hex_encode (replicate 16 1), sample_job)],
       connection_jobs := [(''c'', [hex_encode (replicate 16 1)])]\<rparr>)"
proof -
  obtain b hb where b: "mutate_reserved_bytes sample_block 48 (replicate 16 9) = Inr b" "block_hashing_blob b = Inr hb"
    using sample_mutate by blast
  show ?thesis using b
    by (simp add: make_job_def sample_rt_def sample_pub_def sample_conn_def sample_template_def with_verifier_def finish_job_def new_job_def
        share_target64_def share_target_hex_def share_target_le_def map_has_def install_job_def sample_job_def Let_def)
qed

lemma sample_admit:
  "snd (Jobs.admit_submission ''c'' (hex_encode (replicate 16 1)) 10 1 (sample_rt\<lparr>next_job_id := 1, registry := retain_height (registry sample_rt) 1 10,
       issued := [(replicate 16 9, 1, 10)], jobs := [(hex_encode (replicate 16 1), sample_job)],
       connection_jobs := [(''c'', [hex_encode (replicate 16 1)])]\<rparr>)) = sample_leased"
  by (simp add: Jobs.admit_submission_def sample_rt_def sample_leased_def job_lapsed_def map_has_def sample_job_def sample_lease_def job_lease_of_def
      with_verifier_def add_lease_def sample_pub_def Let_def)

definition sample_frame :: share_frame where
  "sample_frame = \<lparr>fr_submission = sample_submission, fr_lease = 0, fr_job = sample_job, fr_pc = Rebuild, fr_share_id = 1, fr_older = False,
     fr_claimed_share = True, fr_claimed_network = False, fr_frozen = sample_block, fr_hashing = [], fr_local = ReserveCapacity,
     fr_token = null_token, fr_candidate = no_candidate, fr_ticket = 0, fr_completion = None, fr_match = False, fr_computed_share = False,
     fr_computed_network = False, fr_computed_duplicate = False, fr_computed_capacity = False\<rparr>"

lemma sample_targets: "meets_share_target sample_hash 0x1111111111111111" "meets_network_target sample_hash ''256'' = Inr False"
proof -
  show "meets_share_target sample_hash 0x1111111111111111" by code_simp
  have "le_value sample_hash = 16 * 2 ^ 248" by (simp add: sample_hash_def le_value_append)
  then show "meets_network_target sample_hash ''256'' = Inr False"
    using network_target_value [of sample_hash "''256''"]
    by (simp add: sample_hash_def canonical_decimal_def decimal_value_def less_eq_char_def)
qed

lemma sample_arrival: "share_received sample_share_env sample_submission (Some 0) sample_leased =
    (Next sample_frame, sample_leased, [Db_Insert_Share (Some (replicate 16 1)) False False ''claimed''])"
proof -
  have l: "map_of (leases sample_leased) 0 = Some sample_lease" "lease_connection sample_lease = 1" "lease_job sample_lease = Some sample_job"
    by (simp_all add: sample_leased_def sample_lease_def)
  have j: "jc_network sample_job = ''256''" "jc_target64 sample_job = 0x1111111111111111" "jc_height sample_job = 10"
    "jc_public_id sample_job = replicate 16 1" "tc_block (jc_template sample_job) = sample_block"
    by (simp_all only: sample_job_def sample_template_def job_context.simps template_context.simps)
  have e: "en_insert sample_share_env = Inr 1" "en_latest sample_share_env = 10" "sub_claimed_hash sample_submission = sample_hash"
    by (simp_all add: sample_share_env_def sample_submission_def)
  have p: "candidate_height_allowed (pub sample_leased) 10" "\<not> has_verifier sample_leased"
    by (simp_all add: sample_leased_def sample_rt_def sample_pub_def candidate_height_allowed_def has_verifier_def)
  have o: "is_older sample_job 10 = False" by (simp add: is_older_def j)
  show ?thesis unfolding share_received_def option.case l e j sample_targets o Let_def by (simp add: p l sample_frame_def sample_targets j)
qed

lemma sample_rebuilt: "\<exists>frozen hashing t r. share_rebuild sample_share_env sample_frame sample_leased =
    (Next (sample_frame\<lparr>fr_pc := Journal, fr_frozen := frozen, fr_hashing := hashing, fr_local := ReserveReserved, fr_token := t\<rparr>),
     sample_leased\<lparr>registry := r\<rparr>, [Db_Insert_Hash 1 ''claimed'' sample_hash True False])"
proof -
  obtain b b' hb where b: "mutate_reserved_bytes sample_block 48 (replicate 16 9) = Inr b" "insert_nonce b [1, 2, 3, 4] = Inr b'" "block_hashing_blob b' = Inr hb"
    using sample_mutate by blast
  have rb: "rebuild sample_frame = Inr (b', hb)"
    using b by (simp add: rebuild_def sample_frame_def sample_job_def sample_template_def sample_submission_def)
  obtain t r where "reserve (registry sample_leased) (claim_key sample_frame) 1 10 = (ReserveReserved, t, r)"
    by (simp add: reserve_def map_has_def at_capacity_def sample_leased_def sample_rt_def retain_height_def Let_def)
  then have "share_rebuild sample_share_env sample_frame sample_leased =
    (Next (sample_frame\<lparr>fr_pc := Journal, fr_frozen := b', fr_hashing := hb, fr_local := ReserveReserved, fr_token := t\<rparr>),
     sample_leased\<lparr>registry := r\<rparr>, [Db_Insert_Hash 1 ''claimed'' sample_hash True False])"
    using rb by (simp add: share_rebuild_def) (simp add: sample_frame_def sample_job_def sample_share_env_def sample_submission_def)
  then show ?thesis by blast
qed

lemma reach_runtime:
  assumes "share_reachable cfg \<lparr>sys_rt = rt, sys_frames = fs, sys_calls = cs\<rparr>" "runtime_step rt rt'" "small rt'"
  shows "share_reachable cfg \<lparr>sys_rt = rt', sys_frames = fs, sys_calls = cs\<rparr>"
  using share_reachable.step [OF assms(1) runtime] assms(2,3) by fastforce

lemma reach_advance:
  assumes "share_reachable cfg s" "map_of (sys_frames s) n = Some f" "share_phase cfg env f (sys_rt s) = (out, rt', cs)" "small rt'"
  shows "share_reachable cfg (settle n f (out, rt', cs) s)"
  using share_reachable.step [OF assms(1) advance [OF assms(2)], of env] assms(3,4) by simp

lemma sample_run:
  "\<exists>s f. share_reachable sample_share_config s \<and> map snd (filter (accepts \<circ> snd) (sys_calls s)) = [Db_Accept 1 15 ''claimed'' 15] \<and>
     credited s = [f] \<and> fr_submission f = sample_submission \<and> fr_job f = sample_job"
proof -
  let ?cfg = sample_share_config
  let ?s = "\<lambda>rt frames cs. \<lparr>sys_rt = rt, sys_frames = frames, sys_calls = cs\<rparr>"
  have fresh: "share_reachable ?cfg (?s sample_rt [] [])"
  proof (rule share_reachable.start)
    have "make_registry 2 1 = Inr (registry sample_rt)" by (simp add: make_registry_def sample_rt_def)
    then show "fresh_system (?s sample_rt [] [])" by (auto simp: fresh_system_def) (simp_all add: sample_rt_def)
  qed
  obtain w where w: "make_job 0 1 (Inr (replicate 16 9)) (Inr (replicate 16 1)) MSPV_OK sample_conn sample_rt = (Some w,
      sample_rt\<lparr>next_job_id := 1, registry := retain_height (registry sample_rt) 1 10,
       issued := [(replicate 16 9, 1, 10)], jobs := [(hex_encode (replicate 16 1), sample_job)],
       connection_jobs := [(''c'', [hex_encode (replicate 16 1)])]\<rparr>)" (is "_ = (_, ?made)") using sample_made by blast
  have "runtime_step sample_rt ?made"
    using made [of "Inr (replicate 16 9)" sample_rt 0 1 "Inr (replicate 16 1)" MSPV_OK sample_conn] w by (simp add: sample_rt_def)
  moreover have "small ?made" by (rule small_few) (simp_all add: sample_rt_def map_ok_Cons)
  ultimately have r1: "share_reachable ?cfg (?s ?made [] [])" by (rule reach_runtime [OF fresh])
  have "runtime_step ?made sample_leased"
    using admitted [of ?made "''c''" "hex_encode (replicate 16 1)" 10 1] by (simp add: sample_admit)
  then have r2: "share_reachable ?cfg (?s sample_leased [] [])"
    by (rule reach_runtime [OF r1]) (rule small_few; simp add: sample_leased_def sample_rt_def map_ok_Cons)
  have sl: "small (sample_leased\<lparr>registry := r\<rparr>)" for r by (rule small_few) (simp_all add: sample_leased_def sample_rt_def map_ok_Cons)
  have sl': "small sample_leased" by (rule small_few) (simp_all add: sample_leased_def sample_rt_def map_ok_Cons)
  have r3: "share_reachable ?cfg (?s sample_leased [(0, sample_frame)] [])"
    using share_reachable.step [OF r2 arrive, of 0 sample_share_env sample_submission "Some 0"] sl'
    by (simp add: begin_share_def sample_arrival)
  obtain frozen hashing t r where rb: "share_rebuild sample_share_env sample_frame sample_leased =
    (Next (sample_frame\<lparr>fr_pc := Journal, fr_frozen := frozen, fr_hashing := hashing, fr_local := ReserveReserved, fr_token := t\<rparr>),
     sample_leased\<lparr>registry := r\<rparr>, [Db_Insert_Hash 1 ''claimed'' sample_hash True False])" (is "_ = (Next ?f1, ?rt1, ?c1)") using sample_rebuilt by blast
  have ph1: "share_phase ?cfg sample_share_env sample_frame sample_leased = (Next ?f1, ?rt1, ?c1)"
    using rb by (simp add: share_phase_def sample_frame_def)
  have r4: "share_reachable ?cfg (?s ?rt1 [(0, ?f1)] (map (Pair sample_frame) ?c1))"
    using reach_advance [OF r3, of 0 sample_frame sample_share_env "Next ?f1" ?rt1 ?c1] ph1 sl by (simp add: settle_def)
  let ?f2 = "?f1\<lparr>fr_pc := Decide\<rparr>"
  have ph2: "share_phase ?cfg sample_share_env ?f1 ?rt1 = (Next ?f2, ?rt1, [])"
    by (simp add: share_phase_def share_journal_def sample_frame_def)
  have r5: "share_reachable ?cfg (?s ?rt1 [(0, ?f2)] (map (Pair sample_frame) ?c1))"
    using reach_advance [OF r4, of 0 ?f1 sample_share_env "Next ?f2" ?rt1 "[]"] ph2 sl by (simp add: settle_def)
  have act: "actual_difficulty sample_hash = 15" by code_simp
  have ph3: "share_phase ?cfg sample_share_env ?f2 ?rt1 = (Respond Accepted ''accepted'', ?rt1, [Db_Accept 1 15 ''claimed'' 15])"
    using act by (simp add: share_phase_def share_decide_def accept_share_def sample_frame_def sample_job_def sample_share_env_def sample_submission_def
        has_verifier_def sample_leased_def sample_rt_def sample_pub_def no_candidate_def is_older_def Let_def)
  have r6: "share_reachable ?cfg (?s ?rt1 [] (map (Pair sample_frame) ?c1 @ [(?f2, Db_Accept 1 15 ''claimed'' 15)]))"
    using reach_advance [OF r5, of 0 ?f2 sample_share_env _ ?rt1] ph3 sl by (simp add: settle_def map_erase_def)
  show ?thesis
    by (rule exI, rule exI [of _ ?f2], rule conjI [OF r6]) (simp add: accepts_def credited_def sample_frame_def)
qed

section \<open>A history with a verified share\<close>

text \<open>The same history with a verifier: the share is handed over, its completion published, and its credit is verified.\<close>

definition sample_seed :: "u64 \<Rightarrow> seed_record" where
  "sample_seed k = (new_seed (replicate 32 7))\<lparr>seed_state := MSPV_SEED_CURRENT, retained_job_references := k\<rparr>"

definition sample_verifier :: "u64 \<Rightarrow> verifier" where
  "sample_verifier k = \<lparr>has_context = True, lifecycle = Running, current_seed_id = 0, seeds = [sample_seed k],
     submissions = replicate (submission_table_size 2) empty_slot, tracked_submissions = 0, wake_pending = False, callback_exceptions = 0, calls = []\<rparr>"

definition verified_rt :: runtime where
  "verified_rt = sample_rt\<lparr>pub := sample_pub\<lparr>pub_verifier := Some (sample_verifier 0)\<rparr>,
     completions := \<lparr>box_capacity = 1, box_slots = [], box_closed = False\<rparr>\<rparr>"

definition verified_leased :: runtime where
  "verified_leased = sample_leased\<lparr>pub := sample_pub\<lparr>pub_verifier := Some (sample_verifier 2)\<rparr>,
     leases := [(0, sample_lease\<lparr>lease_seed_retained := True\<rparr>)],
     completions := \<lparr>box_capacity = 1, box_slots = [], box_closed = False\<rparr>\<rparr>"

definition verified_env :: share_env where
  "verified_env = sample_share_env\<lparr>en_submit := Some (sample_info, (MSPV_OK, 5))\<rparr>"

definition verified_completion :: completion where
  "verified_completion = \<lparr>c_result = MSPV_RESULT_OK, c_error = MSPV_OK, c_comparison = MSPV_COMPARISON_NOT_REQUESTED,
     c_ticket = 5, c_user_tag = 1, c_seed_id = 0, c_hash = sample_hash, c_queue_ns = 0, c_hash_ns = 0, c_total_ns = 0,
     c_submission_kind = Verify_Claim, c_correlation = Matched, c_expected_ticket = 5, c_expected_seed_id = 0\<rparr>"

lemma sample_retain: "retain_seed 0 (sample_verifier 0) = (MSPV_OK, sample_verifier 1)"
  "retain_seed 0 (sample_verifier 1) = (MSPV_OK, sample_verifier 2)"
  by (simp_all add: retain_seed_def usable_def sample_verifier_def sample_seed_def new_seed_def find_seed_def named_def set_seed_def)

lemma verified_made:
  "\<exists>w. make_job 0 1 (Inr (replicate 16 9)) (Inr (replicate 16 1)) MSPV_OK sample_conn verified_rt =
     (Some w, verified_rt\<lparr>pub := sample_pub\<lparr>pub_verifier := Some (sample_verifier 1)\<rparr>, next_job_id := 1,
       registry := retain_height (registry sample_rt) 1 10, issued := [(replicate 16 9, 1, 10)],
       jobs := [(hex_encode (replicate 16 1), sample_job)], connection_jobs := [(''c'', [hex_encode (replicate 16 1)])]\<rparr>)"
proof -
  obtain b hb where b: "mutate_reserved_bytes sample_block 48 (replicate 16 9) = Inr b" "block_hashing_blob b = Inr hb"
    using sample_mutate by blast
  show ?thesis using b
    by (simp add: make_job_def verified_rt_def sample_rt_def sample_pub_def sample_conn_def sample_template_def with_verifier_def
        sample_retain finish_job_def new_job_def share_target64_def share_target_hex_def share_target_le_def map_has_def
        install_job_def sample_job_def Let_def)
qed

lemma verified_admit:
  "snd (Jobs.admit_submission ''c'' (hex_encode (replicate 16 1)) 10 1
     (verified_rt\<lparr>pub := sample_pub\<lparr>pub_verifier := Some (sample_verifier 1)\<rparr>, next_job_id := 1,
       registry := retain_height (registry sample_rt) 1 10, issued := [(replicate 16 9, 1, 10)],
       jobs := [(hex_encode (replicate 16 1), sample_job)], connection_jobs := [(''c'', [hex_encode (replicate 16 1)])]\<rparr>)) = verified_leased"
  by (simp add: Jobs.admit_submission_def verified_rt_def sample_rt_def sample_leased_def verified_leased_def job_lapsed_def map_has_def
      sample_job_def sample_lease_def job_lease_of_def with_verifier_def sample_retain add_lease_def sample_pub_def Let_def)

lemma verified_arrival: "share_received verified_env sample_submission (Some 0) verified_leased =
    (Next sample_frame, verified_leased, [Db_Insert_Share (Some (replicate 16 1)) False False ''pending''])"
proof -
  have l: "map_of (leases verified_leased) 0 = Some (sample_lease\<lparr>lease_seed_retained := True\<rparr>)"
    "lease_connection (sample_lease\<lparr>lease_seed_retained := True\<rparr>) = 1"
    "lease_job (sample_lease\<lparr>lease_seed_retained := True\<rparr>) = Some sample_job"
    by (simp_all add: verified_leased_def sample_lease_def)
  have j: "jc_network sample_job = ''256''" "jc_target64 sample_job = 0x1111111111111111" "jc_height sample_job = 10"
    "jc_public_id sample_job = replicate 16 1" "tc_block (jc_template sample_job) = sample_block"
    by (simp_all only: sample_job_def sample_template_def job_context.simps template_context.simps)
  have e: "en_insert verified_env = Inr 1" "en_latest verified_env = 10" "sub_claimed_hash sample_submission = sample_hash"
    by (simp_all add: verified_env_def sample_share_env_def sample_submission_def)
  have p: "candidate_height_allowed (pub verified_leased) 10" "has_verifier verified_leased"
    by (simp_all add: verified_leased_def sample_pub_def candidate_height_allowed_def has_verifier_def)
  have o: "is_older sample_job 10 = False" by (simp add: is_older_def j)
  show ?thesis unfolding share_received_def option.case l e j sample_targets o Let_def by (simp add: p l sample_frame_def sample_targets j)
qed

lemma sample_hashing:
  "\<exists>frozen hashing. rebuild sample_frame = Inr (frozen, hashing) \<and> hashing \<noteq> [] \<and> length hashing \<le> 4096"
proof -
  obtain b where b: "mutate_reserved_bytes sample_block 48 (replicate 16 9) = Inr b" "transaction_hashes b = []" "nonce_offset b = 35"
    using mutate_reserved_parsed [OF parse_sample, of "replicate 16 9" 48] sample_guard by (auto simp: sample_block_def)
  obtain d' where "parse_block d' = Inr b" using b by (auto simp: mutate_reserved_bytes_def split: if_splits)
  then obtain b' hb where b': "insert_nonce b [1, 2, 3, 4] = Inr b'" "block_hashing_blob b' = Inr hb"
    "transaction_hashes b' = []" "nonce_offset b' = 35"
    using insert_nonce_parsed [of d' b "[1, 2, 3, 4]"] b by auto
  have "hb \<noteq> []" "length hb \<le> 4096"
    using b' length_encode_varint [of 1]
    by (auto simp: block_hashing_blob_def transaction_tree_hash_def tree_hash_def miner_transaction_hash_def Let_def split: if_splits)
  then show ?thesis using b b'
    by (simp add: rebuild_def sample_frame_def sample_job_def sample_template_def sample_submission_def)
qed

lemma sample_submitted:
  assumes "hashing \<noteq> []" and "length hashing \<le> 4096"
  shows "\<exists>v. submit_verify (Verifier.sample_config\<lparr>max_input_size := 4096\<rparr>) sample_info (MSPV_OK, 5) 0 hashing sample_hash 1
    (sample_verifier 2) = ((MSPV_OK, 5), v)"
proof -
  let ?T = "replicate (submission_table_size 2) empty_slot"
  have n: "table_map ?T 1 = None" "used ?T < length ?T"
    using fresh_table(2,3) [of 2] submission_table_size_bounds(1) [of 2] by (auto simp: power_table_def)
  obtain i where i: "find_submission_insert_slot ?T 1 = (i, False)" "i \<noteq> submission_table_size 2"
    using insert_slot_absent(1,3) [OF fresh_table(1) n(1)] n(2) by (cases "find_submission_insert_slot ?T 1") simp
  have f: "usable (sample_verifier 2)" "find_seed (sample_verifier 2) 0 = Some (sample_seed 2)" "\<not> release_started (sample_seed 2)"
    by (simp_all add: usable_def sample_verifier_def sample_seed_def new_seed_def find_seed_def named_def)
  have r: "fst sample_info = MSPV_OK" "seed_state (refresh_record sample_info (sample_seed 2)) = MSPV_SEED_READY"
    by (simp_all add: sample_info_def refresh_record_def sample_seed_def)
  have s: "tracked_submissions (snd (seed_snapshot_locked sample_info (sample_seed 2) (sample_verifier 2))) = 0"
    "submissions (snd (seed_snapshot_locked sample_info (sample_seed 2) (sample_verifier 2))) = ?T"
    by (simp_all add: seed_snapshot_locked_def set_seed_def sample_verifier_def Let_def)
  have c: "max_outstanding (Verifier.sample_config\<lparr>max_input_size := 4096\<rparr>) = 2"
    by (simp add: Verifier.sample_config_def)
  show ?thesis using assms i
    by (simp add: submit_verify_def submit_locked_def f r s c Verifier.admit_submission_def Let_def)
qed

lemma verified_handed_over:
  assumes "hashing \<noteq> []" and "length hashing \<le> 4096" and "fr_hashing f = hashing" and "fr_submission f = sample_submission"
    and "fr_share_id f = 1" and "fr_job f = sample_job" and "fr_pc f = Verify"
  shows "\<exists>v. share_phase sample_share_config verified_env f (verified_leased\<lparr>registry := r\<rparr>) =
    (Next (f\<lparr>fr_pc := Mark, fr_ticket := 5\<rparr>), verified_leased\<lparr>registry := r, pending_verifications := [(''c'', 1)],
       completions := \<lparr>box_capacity = 1, box_slots = [(1, None)], box_closed = False\<rparr>,
       pub := sample_pub\<lparr>pub_verifier := Some v\<rparr>\<rparr>, [])"
proof -
  obtain v where v: "submit_verify (Verifier.sample_config\<lparr>max_input_size := 4096\<rparr>) sample_info (MSPV_OK, 5) 0 hashing sample_hash 1
    (sample_verifier 2) = ((MSPV_OK, 5), v)" using sample_submitted [OF assms(1,2)] by blast
  have sub: "public_id (sub_connection sample_submission) = ''c''" "sub_claimed_hash sample_submission = sample_hash" "jc_seed_id sample_job = 0"
    by (simp_all add: sample_submission_def sample_conn_def sample_job_def)
  have cfg: "share_verifier sample_share_config = Verifier.sample_config\<lparr>max_input_size := 4096\<rparr>" "max_pending_per_connection sample_share_config = 1"
    by (simp_all add: sample_share_config_def)
  have env: "en_submit verified_env = Some (sample_info, (MSPV_OK, 5))" "\<not> en_waiter_fails verified_env"
    by (simp_all add: verified_env_def sample_share_env_def)
  have rt: "pending_verifications verified_leased = []" "pub verified_leased = sample_pub\<lparr>pub_verifier := Some (sample_verifier 2)\<rparr>"
    "completions verified_leased = \<lparr>box_capacity = 1, box_slots = [], box_closed = False\<rparr>"
    by (simp_all add: verified_leased_def sample_leased_def sample_rt_def)
  have tag: "share_tag f = 1" using assms(5) by (simp add: share_tag_def)
  have reg: "register_waiter 1 \<lparr>box_capacity = 1, box_slots = [], box_closed = False\<rparr> =
      (True, \<lparr>box_capacity = 1, box_slots = [(1, None)], box_closed = False\<rparr>)"
    by (simp add: register_waiter_def map_has_def)
  have "share_verify sample_share_config verified_env f (verified_leased\<lparr>registry := r\<rparr>) = submit_to_verifier sample_share_config verified_env f
      (verified_leased\<lparr>registry := r, pending_verifications := [(''c'', 1)],
       completions := \<lparr>box_capacity = 1, box_slots = [(1, None)], box_closed = False\<rparr>\<rparr>)"
    by (simp add: share_verify_def assms(4) sub(1) cfg(2) env(2) rt tag reg [simplified] pending_of_def Let_def)
  also have "\<dots> = (Next (f\<lparr>fr_pc := Mark, fr_ticket := 5\<rparr>), verified_leased\<lparr>registry := r, pending_verifications := [(''c'', 1)],
       completions := \<lparr>box_capacity = 1, box_slots = [(1, None)], box_closed = False\<rparr>,
       pub := sample_pub\<lparr>pub_verifier := Some v\<rparr>\<rparr>, [])"
    by (simp add: submit_to_verifier_def assms(3,4,6) sub cfg(1) env(1) rt tag v)
  finally show ?thesis using assms(7) by (auto simp: share_phase_def)
qed

lemma verified_small:
  assumes "same_tables verified_leased rt"
  shows "small rt"
proof (rule small_few)
  have "jobs verified_leased = [(hex_encode (replicate 16 1), sample_job)]" "retiring verified_leased = []"
    "leases verified_leased = [(0, sample_lease\<lparr>lease_seed_retained := True\<rparr>)]" "tasks verified_leased = []"
    by (simp_all add: verified_leased_def sample_leased_def sample_rt_def)
  then show "map_ok (jobs rt)" "map_ok (leases rt)" "length (jobs rt) + length (retiring rt) + length (leases rt) + length (tasks rt) \<le> 9"
    using assms by (simp_all add: same_tables_def map_ok_Cons)
qed

lemma verified_arrived: "share_reachable sample_share_config \<lparr>sys_rt = verified_leased, sys_frames = [(0, sample_frame)], sys_calls = []\<rparr>"
proof -
  let ?cfg = sample_share_config
  let ?s = "\<lambda>rt frames cs. \<lparr>sys_rt = rt, sys_frames = frames, sys_calls = cs\<rparr>"
  have fresh: "share_reachable ?cfg (?s verified_rt [] [])"
  proof (rule share_reachable.start)
    have "make_registry 2 1 = Inr (registry verified_rt)" by (simp add: make_registry_def verified_rt_def sample_rt_def)
    then show "fresh_system (?s verified_rt [] [])" by (auto simp: fresh_system_def) (simp_all add: verified_rt_def sample_rt_def)
  qed
  obtain w where w: "make_job 0 1 (Inr (replicate 16 9)) (Inr (replicate 16 1)) MSPV_OK sample_conn verified_rt = (Some w,
      verified_rt\<lparr>pub := sample_pub\<lparr>pub_verifier := Some (sample_verifier 1)\<rparr>, next_job_id := 1,
       registry := retain_height (registry sample_rt) 1 10, issued := [(replicate 16 9, 1, 10)],
       jobs := [(hex_encode (replicate 16 1), sample_job)], connection_jobs := [(''c'', [hex_encode (replicate 16 1)])]\<rparr>)" (is "_ = (_, ?made)")
    using verified_made by blast
  have "runtime_step verified_rt ?made"
    using made [of "Inr (replicate 16 9)" verified_rt 0 1 "Inr (replicate 16 1)" MSPV_OK sample_conn] w by (simp add: verified_rt_def sample_rt_def)
  moreover have "small ?made" by (rule small_few) (simp_all add: verified_rt_def sample_rt_def map_ok_Cons)
  ultimately have r1: "share_reachable ?cfg (?s ?made [] [])" by (rule reach_runtime [OF fresh])
  have "runtime_step ?made verified_leased"
    using admitted [of ?made "''c''" "hex_encode (replicate 16 1)" 10 1] by (simp add: verified_admit)
  then have r2: "share_reachable ?cfg (?s verified_leased [] [])" by (rule reach_runtime [OF r1]) (rule verified_small, simp)
  show ?thesis
    using share_reachable.step [OF r2 arrive, of 0 verified_env sample_submission "Some 0"] verified_small [of verified_leased]
    by (simp add: begin_share_def verified_arrival)
qed

lemma reach_next:
  assumes "share_reachable cfg \<lparr>sys_rt = rt, sys_frames = [(0, f)], sys_calls = cs\<rparr>"
    and "share_phase cfg env f rt = (Next f', rt', cs')" and "small rt'"
  shows "share_reachable cfg \<lparr>sys_rt = rt', sys_frames = [(0, f')], sys_calls = cs @ map (Pair f) cs'\<rparr>"
  using reach_advance [OF assms(1), of 0 f env "Next f'" rt' cs'] assms(2,3) by (simp add: settle_def)

lemma reach_end:
  assumes "share_reachable cfg \<lparr>sys_rt = rt, sys_frames = [(0, f)], sys_calls = cs\<rparr>"
    and "share_phase cfg env f rt = (Respond d code, rt', cs')" and "small rt'"
  shows "share_reachable cfg \<lparr>sys_rt = rt', sys_frames = [], sys_calls = cs @ map (Pair f) cs'\<rparr>"
  using reach_advance [OF assms(1), of 0 f env "Respond d code" rt' cs'] assms(2,3) by (simp add: settle_def map_erase_def)

text \<open>The phases of the share up to the wait, and from its completion to the credit.\<close>

lemma verified_waits:
  "\<exists>f r v cs. share_reachable sample_share_config \<lparr>sys_rt = verified_leased\<lparr>registry := r, pending_verifications := [(''c'', 1)],
       completions := \<lparr>box_capacity = 1, box_slots = [(1, None)], box_closed = False\<rparr>, pub := sample_pub\<lparr>pub_verifier := Some v\<rparr>\<rparr>,
       sys_frames = [(0, f)], sys_calls = cs\<rparr> \<and>
     fr_pc f = Wait \<and> fr_ticket f = 5 \<and> fr_submission f = sample_submission \<and> fr_share_id f = 1 \<and> fr_job f = sample_job \<and>
     fr_local f = ReserveReserved \<and> \<not> fr_older f \<and> \<not> fr_claimed_network f \<and> fr_candidate f = no_candidate"
proof -
  let ?cfg = sample_share_config and ?env = verified_env
  obtain frozen hashing where h: "rebuild sample_frame = Inr (frozen, hashing)" "hashing \<noteq> []" "length hashing \<le> 4096"
    using sample_hashing by blast
  obtain t r where t: "reserve (registry verified_leased) (claim_key sample_frame) 1 10 = (ReserveReserved, t, r)"
    by (simp add: reserve_def map_has_def at_capacity_def verified_leased_def sample_leased_def sample_rt_def retain_height_def Let_def)
  define f where "f = sample_frame\<lparr>fr_pc := Journal, fr_frozen := frozen, fr_hashing := hashing, fr_local := ReserveReserved, fr_token := t\<rparr>"
  let ?rt = "verified_leased\<lparr>registry := r\<rparr>"
  have fields: "fr_pc f = Journal" "fr_hashing f = hashing" "fr_submission f = sample_submission" "fr_share_id f = 1" "fr_job f = sample_job"
    "fr_local f = ReserveReserved" "\<not> fr_older f" "\<not> fr_claimed_network f" "fr_candidate f = no_candidate"
    by (simp_all add: f_def sample_frame_def)
  have frame: "fr_pc sample_frame = Rebuild" "jc_source (fr_job sample_frame) = 1" "jc_height (fr_job sample_frame) = 10"
    by (simp_all add: sample_frame_def sample_job_def)
  have env: "en_hash verified_env = Inr ()" "en_mark verified_env = Inr ()" by (simp_all add: verified_env_def sample_share_env_def)
  have sm: "small (verified_leased\<lparr>registry := x\<rparr>)" for x by (rule verified_small) (simp add: same_tables_def)
  have "share_phase ?cfg ?env sample_frame verified_leased =
      (Next f, ?rt, [Db_Insert_Hash (fr_share_id sample_frame) ''claimed'' (claimed sample_frame) (fr_claimed_share sample_frame)
        (fr_claimed_network sample_frame)])"
    by (simp add: share_phase_def share_rebuild_def frame h(1) t env f_def)
  from reach_next [OF verified_arrived this sm]
  obtain cs1 where r1: "share_reachable ?cfg \<lparr>sys_rt = ?rt, sys_frames = [(0, f)], sys_calls = cs1\<rparr>" by blast
  have "share_phase ?cfg ?env f ?rt = (Next (f\<lparr>fr_pc := Decide\<rparr>), ?rt, [])"
    by (simp add: share_phase_def share_journal_def fields)
  from reach_next [OF r1 this sm]
  have r2: "share_reachable ?cfg \<lparr>sys_rt = ?rt, sys_frames = [(0, f\<lparr>fr_pc := Decide\<rparr>)], sys_calls = cs1\<rparr>" by simp
  have "has_verifier verified_leased" by (simp add: verified_leased_def has_verifier_def)
  then have "share_phase ?cfg ?env (f\<lparr>fr_pc := Decide\<rparr>) ?rt = (Next (f\<lparr>fr_pc := Verify\<rparr>), ?rt, [])"
    by (simp add: share_phase_def share_decide_def fields continue_verification_after_claimed_capacity_def)
  from reach_next [OF r2 this sm]
  have r3: "share_reachable ?cfg \<lparr>sys_rt = ?rt, sys_frames = [(0, f\<lparr>fr_pc := Verify\<rparr>)], sys_calls = cs1\<rparr>" by simp
  obtain v where v: "share_phase ?cfg ?env (f\<lparr>fr_pc := Verify\<rparr>) ?rt =
    (Next (f\<lparr>fr_pc := Mark, fr_ticket := 5\<rparr>), verified_leased\<lparr>registry := r, pending_verifications := [(''c'', 1)],
       completions := \<lparr>box_capacity = 1, box_slots = [(1, None)], box_closed = False\<rparr>,
       pub := sample_pub\<lparr>pub_verifier := Some v\<rparr>\<rparr>, [])" (is "_ = (_, ?w, _)")
    using verified_handed_over [OF h(2,3), of "f\<lparr>fr_pc := Verify\<rparr>" r] fields by auto
  have smw: "small ?w" by (rule verified_small) (simp add: same_tables_def)
  from reach_next [OF r3 v smw]
  have r4: "share_reachable ?cfg \<lparr>sys_rt = ?w, sys_frames = [(0, f\<lparr>fr_pc := Mark, fr_ticket := 5\<rparr>)], sys_calls = cs1\<rparr>" by simp
  have "\<exists>cs. share_phase ?cfg ?env (f\<lparr>fr_pc := Mark, fr_ticket := 5\<rparr>) ?w = (Next (f\<lparr>fr_pc := Wait, fr_ticket := 5\<rparr>), ?w, cs)"
    by (simp add: share_phase_def share_mark_def env)
  then obtain cs where "share_reachable ?cfg \<lparr>sys_rt = ?w, sys_frames = [(0, f\<lparr>fr_pc := Wait, fr_ticket := 5\<rparr>)], sys_calls = cs\<rparr>"
    using reach_next [OF r4 _ smw] by blast
  then show ?thesis using fields by (intro exI conjI) (assumption | simp)+
qed

lemma verified_computed:
  "\<exists>f rt cs. share_reachable sample_share_config \<lparr>sys_rt = rt, sys_frames = [(0, f)], sys_calls = cs\<rparr> \<and>
     same_tables verified_leased rt \<and> has_verifier rt \<and> fr_pc f = Computed \<and> fr_completion f = Some verified_completion \<and>
     fr_submission f = sample_submission \<and> fr_share_id f = 1 \<and> fr_job f = sample_job \<and>
     fr_local f = ReserveReserved \<and> \<not> fr_older f \<and> \<not> fr_claimed_network f \<and> fr_candidate f = no_candidate"
proof -
  let ?cfg = sample_share_config and ?env = verified_env
  obtain f r v cs where r0: "share_reachable ?cfg \<lparr>sys_rt = verified_leased\<lparr>registry := r, pending_verifications := [(''c'', 1)],
       completions := \<lparr>box_capacity = 1, box_slots = [(1, None)], box_closed = False\<rparr>, pub := sample_pub\<lparr>pub_verifier := Some v\<rparr>\<rparr>,
       sys_frames = [(0, f)], sys_calls = cs\<rparr>" (is "share_reachable _ \<lparr>sys_rt = ?w, sys_frames = _, sys_calls = _\<rparr>")
    and f: "fr_pc f = Wait" "fr_ticket f = 5" "fr_submission f = sample_submission" "fr_share_id f = 1" "fr_job f = sample_job"
      "fr_local f = ReserveReserved" "\<not> fr_older f" "\<not> fr_claimed_network f" "fr_candidate f = no_candidate"
    using verified_waits by blast
  let ?box = "\<lparr>box_capacity = 1, box_slots = [(1, Some verified_completion)], box_closed = False\<rparr>"
  let ?d = "decrement_pending ''c'' (?w\<lparr>completions := \<lparr>box_capacity = 1, box_slots = [], box_closed = False\<rparr>\<rparr>)"
  have published: "snd (publish True verified_completion (completions ?w)) = ?box"
    by (simp add: publish_def verified_completion_def)
  have "runtime_step ?w (?w\<lparr>completions := snd (publish True verified_completion (completions ?w))\<rparr>)"
    by (rule other) (simp_all add: same_tables_def has_verifier_def)
  then have "runtime_step ?w (?w\<lparr>completions := ?box\<rparr>)" by (simp only: published)
  then have r1: "share_reachable ?cfg \<lparr>sys_rt = ?w\<lparr>completions := ?box\<rparr>, sys_frames = [(0, f)], sys_calls = cs\<rparr>"
    by (rule reach_runtime [OF r0]) (rule verified_small, simp add: same_tables_def)
  have smd: "small ?d" by (rule verified_small) (simp add: same_tables_def decrement_pending_def)
  have tag: "share_tag f = 1" using f(4) by (simp add: share_tag_def)
  have conn: "share_connection f = ''c''" using f(3) by (simp add: sample_submission_def sample_conn_def)
  have c: "completion_usable f verified_completion" "c_hash verified_completion = sample_hash"
    using f by (simp_all add: completion_usable_def verified_completion_def sample_job_def)
  let ?f1 = "f\<lparr>fr_pc := Computed, fr_completion := Some verified_completion\<rparr>"
  have "share_phase ?cfg ?env f (?w\<lparr>completions := ?box\<rparr>) = (Next ?f1, ?d, [])"
    by (simp add: share_phase_def share_wait_def f(1) tag conn c wait_blocking_def map_erase_def)
  from reach_next [OF r1 this smd]
  have r2: "share_reachable ?cfg \<lparr>sys_rt = ?d, sys_frames = [(0, ?f1)], sys_calls = cs\<rparr>" by simp
  moreover have "same_tables verified_leased ?d" "has_verifier ?d" by (simp_all add: same_tables_def has_verifier_def decrement_pending_def)
  ultimately show ?thesis using f by (intro exI conjI) (assumption | simp)+
qed

lemma verified_run:
  "\<exists>s f. share_reachable sample_share_config s \<and> has_verifier (sys_rt s) \<and> (f, Db_Accept 1 15 ''verified'' 15) \<in> set (sys_calls s)"
proof -
  let ?cfg = sample_share_config and ?env = verified_env
  obtain f rt cs where r2: "share_reachable ?cfg \<lparr>sys_rt = rt, sys_frames = [(0, f)], sys_calls = cs\<rparr>"
    and rt: "same_tables verified_leased rt" "has_verifier rt"
    and f: "fr_pc f = Computed" "fr_completion f = Some verified_completion" "fr_submission f = sample_submission" "fr_share_id f = 1"
      "fr_job f = sample_job" "fr_local f = ReserveReserved" "\<not> fr_older f" "\<not> fr_claimed_network f" "fr_candidate f = no_candidate"
    using verified_computed by blast
  note sm = verified_small [OF rt(1)]
  have j: "jc_network sample_job = ''256''" "jc_target64 sample_job = 0x1111111111111111" "jc_height sample_job = 10" "jc_difficulty sample_job = 15"
    "sub_claimed_hash sample_submission = sample_hash"
    by (simp_all add: sample_job_def sample_submission_def)
  have env: "en_hash ?env = Inr ()" "en_latest ?env = 10" "en_accept ?env = Inr True" by (simp_all add: verified_env_def sample_share_env_def)
  have c: "c_hash verified_completion = sample_hash" by (simp add: verified_completion_def)
  let ?f2 = "f\<lparr>fr_pc := Journal_Computed, fr_match := True, fr_computed_share := True, fr_computed_network := False,
    fr_computed_duplicate := False, fr_computed_capacity := False\<rparr>"
  have "share_phase ?cfg ?env f rt = (Next ?f2, rt, [Db_Insert_Hash 1 ''computed'' sample_hash True False])"
    by (simp add: share_phase_def share_computed_def f c j sample_targets env)
  from reach_next [OF r2 this sm]
  obtain cs2 where r3: "share_reachable ?cfg \<lparr>sys_rt = rt, sys_frames = [(0, ?f2)], sys_calls = cs2\<rparr>" by blast
  have pl: "plan_terminal (verified_post_hash_plan False False False False) = No_Terminal"
    "\<not> journal_computed_candidate (verified_post_hash_plan False False False False)"
    by (simp_all add: verified_post_hash_plan_def)
  have "share_phase ?cfg ?env ?f2 rt = (Next (?f2\<lparr>fr_pc := Verdicts\<rparr>), rt, [])"
    using pl by (simp add: share_phase_def share_journal_computed_def plan_of_def f)
  from reach_next [OF r3 this sm]
  have r4: "share_reachable ?cfg \<lparr>sys_rt = rt, sys_frames = [(0, ?f2\<lparr>fr_pc := Verdicts\<rparr>)], sys_calls = cs2\<rparr>" by simp
  have "share_phase ?cfg ?env (?f2\<lparr>fr_pc := Verdicts\<rparr>) rt = (Next (?f2\<lparr>fr_pc := Finish\<rparr>), rt, [])"
    by (simp add: share_phase_def share_verdicts_def false_verdict_def mismatch_verdict_def f)
  from reach_next [OF r4 this sm]
  have r5: "share_reachable ?cfg \<lparr>sys_rt = rt, sys_frames = [(0, ?f2\<lparr>fr_pc := Finish\<rparr>)], sys_calls = cs2\<rparr>" by simp
  have act: "actual_difficulty sample_hash = 15" by code_simp
  have "share_phase ?cfg ?env (?f2\<lparr>fr_pc := Finish\<rparr>) rt = (Respond Accepted ''accepted'', rt, [Db_Accept 1 15 ''verified'' 15])"
    using pl act by (simp add: share_phase_def share_finish_def accept_share_def plan_of_def f c j env is_older_def)
  note r6 = reach_end [OF r5 this sm]
  show ?thesis by (rule exI, rule exI [of _ "?f2\<lparr>fr_pc := Finish\<rparr>"], rule conjI [OF r6]) (simp add: rt(2))
qed

section \<open>Properties\<close>

text \<open>
  C1: no proof of work is credited twice. In every state that any interleaving of shares, job creation, retirement,
  connection events and candidate work can reach, the pairs of job entropy and claimed hash of the shares for which the database was
  asked to accept a share are pairwise different, whatever the database answered. A key that the registry has dropped with its height does not come back,
  since nothing refers to a job of that entropy any more. The histories rest on one premise of \<open>runtime_step\<close>: the random generator
  does not give the same 16 bytes to two jobs.
\<close>

theorem work_is_credited_once:
  assumes "share_reachable cfg s"
  shows "distinct (map (\<lambda>f. (jc_entropy (fr_job f), sub_claimed_hash (fr_submission f))) (credited s))"
proof -
  have "distinct (map claim_key (credited s))" using share_reachable_inv [OF assms] by (simp add: share_inv_def)
  then have "distinct (map (\<lambda>(e, h). make_duplicate_key e h) (map (\<lambda>f. (jc_entropy (fr_job f), claimed f)) (credited s)))"
    by (simp add: claim_key_def [abs_def] comp_def)
  then show ?thesis by (auto simp: distinct_map dest: inj_on_imageI2)
qed

theorem work_is_credited_once_witness:
  "\<exists>s f. share_reachable sample_share_config s \<and> credited s = [f] \<and> fr_job f = sample_job \<and>
     distinct (map (\<lambda>f. (jc_entropy (fr_job f), sub_claimed_hash (fr_submission f))) (credited s))"
proof -
  obtain s f where "share_reachable sample_share_config s" "credited s = [f]" "fr_job f = sample_job" using sample_run by blast
  then show ?thesis using work_is_credited_once by blast
qed

text \<open>
  C2: what is credited was earned. Whenever the database is asked to accept a share, the share holds a fresh reservation of its
  hash, the claimed hash meets the target of its job and the credited difficulty is that of the job. If the process runs with a
  verifier, the credit is labelled as verified, and the verifier completed this very submission (ticket, seed and correlation
  agree, no error) and computed exactly the claimed hash: no share is credited from its claim. Only a process without a verifier
  credits the claim, and labels it so.
\<close>

theorem credited_work_is_earned:
  assumes "share_reachable cfg s" and "(f, Db_Accept i d source a) \<in> set (sys_calls s)"
  shows "fr_local f = ReserveReserved \<and> d = jc_difficulty (fr_job f) \<and>
    meets_share_target (sub_claimed_hash (fr_submission f)) (jc_target64 (fr_job f)) \<and>
    (if has_verifier (sys_rt s)
     then source = ''verified'' \<and>
       (\<exists>c. fr_completion f = Some c \<and> completion_usable f c \<and> c_hash c = sub_claimed_hash (fr_submission f))
     else source = ''claimed'')"
proof -
  have "\<forall>(f, c) \<in> set (sys_calls s). \<forall>(d, src) \<in> set (credits [c]). credit_ok f d src"
    using share_reachable_inv [OF assms(1)] by (simp add: share_inv_def)
  then have ok: "credit_ok f d source" using assms(2) by fastforce
  have "\<forall>(f, c) \<in> set (sys_calls s). \<forall>(d, src) \<in> set (credits [c]). src = mode_label (sys_rt s)"
    using share_reachable_mode [OF assms(1)] by (simp add: mode_inv_def)
  then have "source = mode_label (sys_rt s)" using assms(2) by fastforce
  then show ?thesis using ok by (auto simp: credit_ok_def mode_label_def)
qed

theorem credited_work_is_earned_witness:
  "\<exists>s f c. share_reachable sample_share_config s \<and> (f, Db_Accept 1 15 ''verified'' 15) \<in> set (sys_calls s) \<and>
     has_verifier (sys_rt s) \<and> fr_local f = ReserveReserved \<and> 15 = jc_difficulty (fr_job f) \<and>
     fr_completion f = Some c \<and> c_hash c = sub_claimed_hash (fr_submission f)"
proof -
  obtain s f where s: "share_reachable sample_share_config s" "has_verifier (sys_rt s)"
    and f: "(f, Db_Accept 1 15 ''verified'' 15) \<in> set (sys_calls s)" using verified_run by blast
  from credited_work_is_earned [OF s(1) f] show ?thesis using s f by auto
qed

text \<open>
  C11: references are exact. In every reachable state the registry counts for each connection and height exactly the jobs, the jobs being
  retired, the leases of submissions and the candidate tasks that refer to it, and the key of a share in progress is live with its token.
\<close>

theorem bucket_references_exact:
  assumes "share_reachable cfg s"
  shows "(\<forall>src h. external_references (bucket_at (registry (sys_rt s)) src h) = of_nat (held (sys_rt s) (src, h))) \<and>
    (\<forall>n f. map_of (sys_frames s) n = Some f \<longrightarrow> fr_local f = ReserveReserved \<longrightarrow>
       map_of (entries (registry (sys_rt s))) (claim_key f) = Some (entry_of f))"
proof -
  have inv: "share_inv s" using share_reachable_inv [OF assms] by simp
  have "refs_at (registry (sys_rt s)) (src, h) = of_nat (held (sys_rt s) (src, h))" for src h
    using inv counted_refs by (simp add: share_inv_def runtime_inv_def)
  then show ?thesis using inv by (auto simp: refs_at_def share_inv_def frame_ok_def owns_def key_at_def)
qed

theorem bucket_references_exact_witness:
  "\<exists>s. share_reachable sample_share_config s \<and> credited s \<noteq> [] \<and>
     external_references (bucket_at (registry (sys_rt s)) 1 10) = of_nat (held (sys_rt s) (1, 10))"
proof -
  obtain s f where "share_reachable sample_share_config s" "credited s = [f]" using sample_run by blast
  then show ?thesis using bucket_references_exact [of sample_share_config s] by (intro exI [of _ s]) simp
qed

lemma released:
  assumes "frame_ok f" "owns f rt" "fr_local f = ReserveReserved" "registry rt' = registry rt"
  shows "claim_key f \<notin> live_keys (registry (release_claimed_if_safe f rt'))"
proof -
  have "key_at (registry (release_claimed_if_safe f rt')) (claim_key f) = None"
    using assms by (auto simp: release_claimed_if_safe_def release_key_at owning_def owns_def frame_ok_def entry_of_def)
  then show ?thesis by (auto simp: live_keys_def key_at_def)
qed

lemma decrement_registry [simp]: "registry (decrement_pending c rt) = registry rt"
  by (simp add: decrement_pending_def split: option.split)

text \<open>
  C22: a failure of the verifier permits a retry, a failure of the database does not. A share that has reserved its hash and ends
  while it is handed to the verifier or while its completion is awaited (connection limit, full mailbox, refused or failed
  submission, failed or missing completion, whatever the database says when the answer is stored) leaves no trace in the
  duplicate registry. Between the two, when the hand-over is recorded, the only way to end is an exception of the
  database; the share then throws that exception and its hash stays reserved.
\<close>

theorem failed_verification_frees_the_claim:
  assumes "frame_ok f" "owns f rt" "fr_local f = ReserveReserved" and "fr_pc f \<in> {Verify, Mark, Wait}"
    and "share_phase cfg env f rt = (out, rt', cs)" and "\<nexists>f'. out = Next f'"
  shows "if fr_pc f = Mark
    then (\<exists>e. en_mark env = Inl e \<and> out = Throw e) \<and> claim_key f \<in> live_keys (registry rt')
    else claim_key f \<notin> live_keys (registry rt')"
proof -
  note r = released [OF assms(1-3)]
  have live: "claim_key f \<in> live_keys (registry rt)"
  proof -
    have "key_at (registry rt) (claim_key f) = Some (entry_of f)" using assms(1-3) by (simp add: frame_ok_def owns_def)
    then show ?thesis by (auto simp: live_keys_def key_at_def)
  qed
  consider "fr_pc f = Verify" | "fr_pc f = Mark" | "fr_pc f = Wait" using assms(4) by blast
  then show ?thesis
  proof cases
    case 1
    then have "(\<exists>f'. out = Next f') \<or> claim_key f \<notin> live_keys (registry rt')" using assms(5) r
      by (auto simp: share_phase_def share_verify_def submit_to_verifier_def finalize_def Let_def split: if_splits option.splits prod.splits)
    then show ?thesis using 1 assms(6) by simp
  next
    case 2
    then have "share_mark env f rt = (out, rt', cs)" using assms(5) by (simp add: share_phase_def)
    then have "registry rt' = registry rt \<and> (\<exists>e. en_mark env = Inl e \<and> out = Throw e)"
      using assms(6) by (cases "en_mark env") (auto simp: share_mark_def)
    then show ?thesis using 2 live by simp
  next
    case 3
    then have "(\<exists>f'. out = Next f') \<or> claim_key f \<notin> live_keys (registry rt')" using assms(5) r
      by (auto simp: share_phase_def share_wait_def finalize_def Let_def split: if_splits option.splits prod.splits)
    then show ?thesis using 3 assms(6) by simp
  qed
qed

definition sample_waiting :: share_frame where
  "sample_waiting = sample_frame\<lparr>fr_pc := Wait, fr_local := ReserveReserved, fr_token := \<lparr>token_key = claim_key sample_frame, token_generation = 1\<rparr>\<rparr>"

definition sample_waiting_rt :: runtime where
  "sample_waiting_rt = sample_rt\<lparr>registry := (registry sample_rt)\<lparr>entries := [(claim_key sample_frame, entry_of sample_waiting)]\<rparr>\<rparr>"

theorem failed_verification_frees_the_claim_witness:
  "claim_key sample_waiting \<in> live_keys (registry sample_waiting_rt) \<and>
   fst (share_phase sample_share_config sample_share_env sample_waiting sample_waiting_rt) = Respond Verifier_Failed ''verifier_completion_failed'' \<and>
   claim_key sample_waiting \<notin> live_keys (registry (fst (snd (share_phase sample_share_config sample_share_env sample_waiting sample_waiting_rt))))"
proof -
  have k: "claim_key sample_waiting = claim_key sample_frame" by (simp add: sample_waiting_def claim_key_def)
  have live: "key_at (registry sample_waiting_rt) (claim_key sample_frame) = Some (entry_of sample_waiting)"
    by (simp add: sample_waiting_rt_def key_at_def)
  have w: "frame_ok sample_waiting" "owns sample_waiting sample_waiting_rt" "fr_local sample_waiting = ReserveReserved" "fr_pc sample_waiting = Wait"
    using live sample_targets(1) k by (simp_all add: frame_ok_def owns_def owning_def sample_waiting_def sample_frame_def sample_job_def sample_submission_def)
  have out: "fst (share_phase sample_share_config sample_share_env sample_waiting sample_waiting_rt) = Respond Verifier_Failed ''verifier_completion_failed''"
    by (simp add: share_phase_def w(4) share_wait_def wait_blocking_def finalize_def sample_share_env_def sample_waiting_rt_def sample_rt_def)
  obtain o1 rt1 cs1 where ph: "share_phase sample_share_config sample_share_env sample_waiting sample_waiting_rt = (o1, rt1, cs1)"
    by (cases "share_phase sample_share_config sample_share_env sample_waiting sample_waiting_rt")
  have "o1 = Respond Verifier_Failed ''verifier_completion_failed''" using out ph by simp
  then have "claim_key sample_waiting \<notin> live_keys (registry rt1)"
    using failed_verification_frees_the_claim [OF w(1-3) _ ph] w(4) by simp
  moreover have "claim_key sample_waiting \<in> live_keys (registry sample_waiting_rt)" using live k by (auto simp: live_keys_def key_at_def)
  ultimately show ?thesis using out ph by simp
qed

end
