(* ===== verification/Event_Stream.thy ===== *)
theory Event_Stream
  imports Stratum_Wire "HOL-Library.Sublist" "HOL-Library.Multiset" "HOL-Library.Monad_Syntax"
begin

text \<open>
  The event stream of src/events/event_stream.cpp: a local socket on which every subscriber receives a
  control line and then each event committed to the database after it joined. A publisher appends to
  the queues of the subscribers, the stream's own thread accepts clients and sends; both hold the
  mutex for one pass over the clients. The answers of the operating system (accept, poll, send, the
  file system) and the rendered time are arguments.

  An operation returns, beside the new state, what it did in order: who joined, which event was announced,
  which bytes a socket took and which socket was closed. The history of a run is the concatenation of these
  lists, and \<open>view_of\<close> reads from it what one client has been shown.
\<close>

section \<open>State\<close>

record event_stream_config =
  unix_socket :: string
  permissions :: u32
  stream_max_clients :: nat
  max_pending_bytes_per_client :: nat

record subscriber =
  sub_descriptor :: int
  sub_output :: "string list"
  front_offset :: nat
  pending_bytes :: nat

text \<open>\<open>stream_thread\<close> says that the thread of \<open>thread_\<close> has not been joined.\<close>

record event_stream =
  stream_config :: event_stream_config
  session_public_id :: string
  stream_listener :: int
  owns_socket_path :: bool
  stream_running :: bool
  high_watermark :: u64
  stream_thread :: bool
  subscribers :: "subscriber list"

datatype stream_event =
    Joined int u64 string
  | Announced u64 string
  | Sent int string
  | Closed int
  | Unlinked string

section \<open>Construction, start and stop\<close>

definition make_event_stream :: "event_stream_config \<Rightarrow> string \<Rightarrow> event_stream result" where
  "make_event_stream cfg session =
     (if unix_socket cfg = [] \<or> hd (unix_socket cfg) \<noteq> CHR ''/'' \<or> stream_max_clients cfg = 0 \<or>
         max_pending_bytes_per_client cfg < 4096 \<or> length session \<noteq> 32
      then Inl (InvalidArgument ''invalid event stream configuration'')
      else if permissions cfg AND 7 \<noteq> 0 \<or> permissions cfg AND 73 \<noteq> 0
      then Inl (InvalidArgument ''unsafe event stream permissions'')
      else Inr \<lparr>stream_config = cfg, session_public_id = session, stream_listener = - 1,
                owns_socket_path = False, stream_running = False, high_watermark = 0,
                stream_thread = False, subscribers = []\<rparr>)"

definition close_descriptor :: "int \<Rightarrow> stream_event list" where
  "close_descriptor d = (if d \<ge> 0 then [Closed d] else [])"

datatype path_state = Path_Missing | Path_Unreadable | Path_Present (is_socket: bool) (owned: bool)

record start_answers =
  path_before :: path_state
  unlink_works :: bool
  new_socket :: int
  bind_works :: bool
  chmod_works :: bool
  listen_works :: bool
  nonblocking_works :: bool

definition sun_path_size :: nat where
  "sun_path_size = 108"

text \<open>The body of the \<open>try\<close> block of \<open>start\<close>: the state it leaves, also when it throws.\<close>

definition start_listener :: "u64 \<Rightarrow> start_answers \<Rightarrow> event_stream \<Rightarrow> error option \<times> event_stream \<times> stream_event list" where
  "start_listener initial a s =
     (let path = unix_socket (stream_config s) in
      if length path \<ge> sun_path_size
      then (Some (InvalidArgument ''event stream socket path is too long''), s, [])
      else if path_before a = Path_Unreadable
      then (Some (RuntimeError ''could not inspect event stream socket path''), s, [])
      else if path_before a \<noteq> Path_Missing \<and> \<not> (is_socket (path_before a) \<and> owned (path_before a))
      then (Some (RuntimeError ''refusing to unlink unsafe event stream path''), s, [])
      else if path_before a \<noteq> Path_Missing \<and> \<not> unlink_works a
      then (Some (RuntimeError ''could not unlink stale event stream socket''), s, [])
      else
        (let done = (if path_before a = Path_Missing then [] else [Unlinked path]);
             s = s\<lparr>stream_listener := new_socket a\<rparr> in
         if new_socket a < 0 then (Some (RuntimeError ''could not create event stream socket''), s, done)
         else if \<not> bind_works a \<or> \<not> chmod_works a \<or> \<not> listen_works a
         then (Some (RuntimeError ''could not bind event stream socket''), s, done)
         else let s = s\<lparr>owns_socket_path := True\<rparr> in
           if \<not> nonblocking_works a
           then (Some (RuntimeError ''could not make event socket nonblocking''), s, done)
           else (None, s\<lparr>high_watermark := initial, stream_thread := True\<rparr>, done)))"

definition start_stream :: "u64 \<Rightarrow> start_answers \<Rightarrow> event_stream \<Rightarrow> unit result \<times> event_stream \<times> stream_event list" where
  "start_stream initial a s =
     (if stream_running s then (Inr (), s, [])
      else case start_listener initial a (s\<lparr>stream_running := True\<rparr>) of
        (None, s, done) \<Rightarrow> (Inr (), s, done)
      | (Some e, s, done) \<Rightarrow>
          (Inl e, s\<lparr>stream_running := False, stream_listener := - 1, owns_socket_path := False\<rparr>,
           done @ close_descriptor (stream_listener s) @
           (if owns_socket_path s then [Unlinked (unix_socket (stream_config s))] else [])))"

text \<open>
  \<open>stop\<close> first clears the flag that the thread's loops read, then joins the thread; the thread may
  complete its pass in between, so the two halves are operations of their own. \<open>safe_path\<close>
  says that the path still is a socket of the user.
\<close>

definition stop_request :: "event_stream \<Rightarrow> event_stream" where
  "stop_request s = s\<lparr>stream_running := False\<rparr>"

definition stop_finish :: "bool \<Rightarrow> event_stream \<Rightarrow> event_stream \<times> stream_event list" where
  "stop_finish safe_path s =
     (s\<lparr>stream_thread := False, stream_listener := - 1, subscribers := [], owns_socket_path := False\<rparr>,
      close_descriptor (stream_listener s) @
      concat (map (\<lambda>c. close_descriptor (sub_descriptor c)) (subscribers s)) @
      (if owns_socket_path s \<and> safe_path then [Unlinked (unix_socket (stream_config s))] else []))"

section \<open>Passes over the clients\<close>

text \<open>\<open>close_client\<close> fills the gap with the last client.\<close>

definition close_client :: "nat \<Rightarrow> subscriber list \<Rightarrow> subscriber list" where
  "close_client i cs = butlast (if i + 1 \<noteq> length cs then cs[i := last cs] else cs)"

text \<open>
  Both passes walk the vector by descending index and either keep the client at the index, changed, or
  close it. The visitor answers \<open>None\<close> inside when the client is closed; the outer option is that of
  the sending loop below.
\<close>

fun sweep :: "(subscriber \<Rightarrow> (subscriber option \<times> stream_event list) option) \<Rightarrow> nat \<Rightarrow> subscriber list \<Rightarrow>
    (subscriber list \<times> stream_event list) option" where
  "sweep visit 0 cs = Some (cs, [])"
| "sweep visit (Suc index) cs = do {
     (kept, done) \<leftarrow> visit (cs ! index);
     (cs, later) \<leftarrow> sweep visit index
       (case kept of Some c \<Rightarrow> cs[index := c] | None \<Rightarrow> close_client index cs);
     Some (cs, done @ later)
   }"

definition publish_visit :: "nat \<Rightarrow> string \<Rightarrow> subscriber \<Rightarrow> (subscriber option \<times> stream_event list) option" where
  "publish_visit limit line c =
     (if length line > limit \<or> pending_bytes c > limit - length line
      then Some (None, close_descriptor (sub_descriptor c))
      else Some (Some (c\<lparr>pending_bytes := pending_bytes c + length line, sub_output := sub_output c @ [line]\<rparr>), []))"

definition end_line :: "string \<Rightarrow> string" where
  "end_line encoded = (if encoded = [] \<or> last encoded \<noteq> CHR 0x0A then encoded @ [CHR 0x0A] else encoded)"

text \<open>The part of \<open>publish_committed\<close> under the mutex.\<close>

definition publish_locked :: "u64 \<Rightarrow> string \<Rightarrow> event_stream \<Rightarrow> (event_stream \<times> stream_event list) option" where
  "publish_locked event line s =
     (if event \<le> high_watermark s then Some (s, [])
      else do {
        (cs, done) \<leftarrow> sweep (publish_visit (max_pending_bytes_per_client (stream_config s)) line)
          (length (subscribers s)) (subscribers s);
        Some (s\<lparr>high_watermark := event, subscribers := cs\<rparr>, Announced event line # done)
      })"

definition publish_committed :: "u64 \<Rightarrow> string \<Rightarrow> event_stream \<Rightarrow> (event_stream \<times> stream_event list) option" where
  "publish_committed event encoded s =
     (if \<not> stream_running s \<or> event = 0 then Some (s, []) else publish_locked event (end_line encoded) s)"

section \<open>Accepting\<close>

definition control_line :: "string \<Rightarrow> string \<Rightarrow> u64 \<Rightarrow> string" where
  \<open>control_line session time watermark =
     ''{"schema_version":1,"control":"stream_open","session_id":"'' @ session @ ''","time_utc":"'' @ time @
     ''","last_committed_event_id":"'' @ nat_text (unat watermark) @ ''"}'' @ [CHR 0x0A]\<close>

datatype accept_answer = Accepted int string | Accept_Interrupted | Accept_Failed

text \<open>One round of the loop of \<open>accept_clients\<close>; the first component says whether the loop goes on.\<close>

definition accept_round :: "accept_answer \<Rightarrow> event_stream \<Rightarrow> bool \<times> event_stream \<times> stream_event list" where
  "accept_round answer s =
     (if \<not> stream_running s then (False, s, [])
      else case answer of
        Accept_Interrupted \<Rightarrow> (True, s, [])
      | Accept_Failed \<Rightarrow> (False, s, [])
      | Accepted d time \<Rightarrow>
          let cfg = stream_config s; control = control_line (session_public_id s) time (high_watermark s) in
          if length (subscribers s) \<ge> stream_max_clients cfg then (True, s, [Closed d])
          else if length control > max_pending_bytes_per_client cfg then (True, s, [Closed d])
          else (True, s\<lparr>subscribers := subscribers s @
                  [\<lparr>sub_descriptor = d, sub_output = [control], front_offset = 0, pending_bytes = length control\<rparr>]\<rparr>,
                [Joined d (high_watermark s) control]))"

fun accept_clients :: "accept_answer list \<Rightarrow> event_stream \<Rightarrow> event_stream \<times> stream_event list" where
  "accept_clients [] s = (s, [])"
| "accept_clients (a # answers) s =
     (case accept_round a s of
        (False, s, done) \<Rightarrow> (s, done)
      | (True, s, done) \<Rightarrow> (case accept_clients answers s of (s, later) \<Rightarrow> (s, done @ later)))"

section \<open>Sending\<close>

datatype poll_answer = Poll_Failed | Polled (poll_error: bool) (poll_in: bool) (poll_out: bool)

datatype send_answer = Send_Count nat | Send_Blocked | Send_Error

text \<open>What \<open>poll\<close> says of a descriptor, and what the \<open>k\<close>-th \<open>send\<close> on it answers to so many bytes.\<close>

type_synonym poll_os = "int \<Rightarrow> bool \<Rightarrow> poll_answer"
type_synonym send_os = "int \<Rightarrow> nat \<Rightarrow> nat \<Rightarrow> send_answer"

definition rest_of_front :: "subscriber \<Rightarrow> string" where
  "rest_of_front c = drop (front_offset c) (hd (sub_output c))"

definition advance :: "nat \<Rightarrow> subscriber \<Rightarrow> subscriber" where
  "advance amount c =
     (let offset = front_offset c + amount;
          c = c\<lparr>front_offset := offset, pending_bytes := pending_bytes c - amount\<rparr> in
      if offset = length (hd (sub_output c)) then c\<lparr>sub_output := tl (sub_output c), front_offset := 0\<rparr> else c)"

partial_function (option) send_loop :: "send_os \<Rightarrow> nat \<Rightarrow> subscriber \<Rightarrow> stream_event list \<Rightarrow>
    (subscriber option \<times> stream_event list) option" where
  "send_loop send k c done =
     (if sub_output c = [] then Some (Some c, done)
      else case send (sub_descriptor c) k (length (rest_of_front c)) of
        Send_Blocked \<Rightarrow> Some (Some c, done)
      | Send_Error \<Rightarrow> Some (None, done @ close_descriptor (sub_descriptor c))
      | Send_Count amount \<Rightarrow>
          if amount > 0
          then send_loop send (Suc k) (advance amount c)
                 (done @ [Sent (sub_descriptor c) (take amount (rest_of_front c))])
          else Some (None, done @ close_descriptor (sub_descriptor c)))"

text \<open>A client that sends anything, or closes its side, is closed; what it sent is not looked at.\<close>

definition service_visit :: "poll_os \<Rightarrow> send_os \<Rightarrow> subscriber \<Rightarrow> (subscriber option \<times> stream_event list) option" where
  "service_visit poll send c =
     (case poll (sub_descriptor c) (sub_output c \<noteq> []) of
        Poll_Failed \<Rightarrow> Some (None, close_descriptor (sub_descriptor c))
      | Polled err readable writable \<Rightarrow>
          if err then Some (None, close_descriptor (sub_descriptor c))
          else if readable then Some (None, close_descriptor (sub_descriptor c))
          else if writable then send_loop send 0 c []
          else Some (Some c, []))"

definition service_clients :: "poll_os \<Rightarrow> send_os \<Rightarrow> event_stream \<Rightarrow> (event_stream \<times> stream_event list) option" where
  "service_clients poll send s = do {
     (cs, done) \<leftarrow> sweep (service_visit poll send) (length (subscribers s)) (subscribers s);
     Some (s\<lparr>subscribers := cs\<rparr>, done)
   }"

section \<open>Histories\<close>

text \<open>
  The sends of POSIX accept at most the bytes they are given, and a new descriptor is not negative and is not
  that of an open socket.
\<close>

definition send_within :: "send_os \<Rightarrow> bool" where
  "send_within send \<longleftrightarrow> (\<forall>d k n amount. send d k n = Send_Count amount \<longrightarrow> amount \<le> n)"

definition descriptor_is_new :: "accept_answer \<Rightarrow> event_stream \<Rightarrow> bool" where
  "descriptor_is_new answer s \<longleftrightarrow>
     (case answer of Accepted d _ \<Rightarrow> d \<ge> 0 \<and> list_all (\<lambda>c. sub_descriptor c \<noteq> d) (subscribers s) | _ \<Rightarrow> True)"

type_synonym stream_history = "stream_event list"

text \<open>
  \<open>Late_Publish\<close> is a publisher that read the running flag before \<open>stop\<close> cleared it. The thread's passes
  end when it has been joined; the caller starts a stream only after a stop has returned.
\<close>

inductive stream_step :: "event_stream \<times> stream_history \<Rightarrow> event_stream \<times> stream_history \<Rightarrow> bool" where
  Start: "\<not> stream_thread s \<Longrightarrow> start_stream initial a s = (r, s', done) \<Longrightarrow> stream_step (s, h) (s', h @ done)"
| Publish: "publish_committed event encoded s = Some (s', done) \<Longrightarrow> stream_step (s, h) (s', h @ done)"
| Late_Publish: "publish_locked event (end_line encoded) s = Some (s', done) \<Longrightarrow> stream_step (s, h) (s', h @ done)"
| Accept: "stream_thread s \<Longrightarrow> descriptor_is_new answer s \<Longrightarrow> accept_round answer s = (more_rounds, s', done) \<Longrightarrow>
    stream_step (s, h) (s', h @ done)"
| Service: "stream_thread s \<Longrightarrow> send_within send \<Longrightarrow> service_clients poll send s = Some (s', done) \<Longrightarrow>
    stream_step (s, h) (s', h @ done)"
| Request_Stop: "stream_step (s, h) (stop_request s, h)"
| Finish_Stop: "\<not> stream_running s \<Longrightarrow> stop_finish safe_path s = (s', done) \<Longrightarrow> stream_step (s, h) (s', h @ done)"

inductive stream_reachable :: "event_stream \<times> stream_history \<Rightarrow> bool" where
  Created: "make_event_stream cfg session = Inr s \<Longrightarrow> stream_reachable (s, [])"
| Stepped: "stream_reachable x \<Longrightarrow> stream_step x y \<Longrightarrow> stream_reachable y"

text \<open>What a client has been shown since it last joined under a descriptor, and what was announced since.\<close>

record view =
  view_watermark :: u64
  view_control :: string
  view_events :: "(u64 \<times> string) list"
  view_sent :: string

fun view_step :: "int \<Rightarrow> view option \<Rightarrow> stream_event \<Rightarrow> view option" where
  "view_step d v (Joined d' w control) =
     (if d' = d then Some \<lparr>view_watermark = w, view_control = control, view_events = [], view_sent = []\<rparr> else v)"
| "view_step d v (Announced event line) = map_option (\<lambda>v. v\<lparr>view_events := view_events v @ [(event, line)]\<rparr>) v"
| "view_step d v (Sent d' bs) = (if d' = d then map_option (\<lambda>v. v\<lparr>view_sent := view_sent v @ bs\<rparr>) v else v)"
| "view_step d v (Closed d') = v"
| "view_step d v (Unlinked p) = v"

definition view_of :: "int \<Rightarrow> stream_history \<Rightarrow> view option" where
  "view_of d h = foldl (view_step d) None h"

definition view_due :: "view \<Rightarrow> string" where
  "view_due v = view_control v @ concat (map snd (view_events v))"

definition queued :: "subscriber \<Rightarrow> string" where
  "queued c = drop (front_offset c) (concat (sub_output c))"

section \<open>Passes\<close>

lemma close_client_length: "i < length cs \<Longrightarrow> length (close_client i cs) = length cs - 1"
  by (simp add: close_client_def)

lemma close_client_take: "i < length cs \<Longrightarrow> take i (close_client i cs) = take i cs"
  by (simp add: close_client_def take_butlast)

lemma close_client_mset: "i < length cs \<Longrightarrow> add_mset (cs ! i) (mset (close_client i cs)) = mset cs"
proof (cases "i + 1 = length cs")
  case True
  moreover assume "i < length cs"
  ultimately have "cs \<noteq> []" and "i = length cs - 1" by auto
  then have "cs \<noteq> []" and "cs ! i = last cs" by (simp_all add: last_conv_nth)
  then have "mset cs = add_mset (cs ! i) (mset (butlast cs))"
    by (metis append_butlast_last_id mset.simps mset_append add.commute union_mset_add_mset_right add_0)
  with True show ?thesis by (simp add: close_client_def)
next
  case False
  assume i: "i < length cs"
  with False have i': "i < length (butlast cs)" by simp
  have "cs = butlast cs @ [last cs]" using i by (metis append_butlast_last_id length_0_conv less_zeroE)
  then have "cs ! i = butlast cs ! i" and "mset cs = add_mset (last cs) (mset (butlast cs))"
    using i' by (metis nth_append, metis mset.simps mset_append add.commute union_mset_add_mset_right add_0)
  moreover have "close_client i cs = (butlast cs)[i := last cs]"
    using False i i' by (simp add: close_client_def butlast_list_update)
  moreover have "butlast cs ! i \<in># mset (butlast cs)" using i' by simp
  ultimately show ?thesis using i' by (simp add: mset_update)
qed

lemma close_client_drop: "i < length cs \<Longrightarrow> mset (drop i (close_client i cs)) = mset (drop (Suc i) cs)"
proof -
  assume i: "i < length cs"
  let ?l = "close_client i cs"
  have "mset ?l = mset (take i cs) + mset (drop i ?l)"
    by (metis append_take_drop_id close_client_take i mset_append)
  moreover have "mset cs = mset (take i cs) + add_mset (cs ! i) (mset (drop (Suc i) cs))"
    using i by (metis id_take_nth_drop mset.simps(2) mset_append)
  ultimately show ?thesis using close_client_mset [OF i] by simp
qed

text \<open>A pass visits every client once, whatever it closes on the way; the order of the vector is not kept.\<close>

lemma sweep_visits_all:
  assumes "sweep visit n cs = Some (cs', done)" and "n \<le> length cs"
  shows "\<exists>ks. map visit (rev (take n cs)) = map Some ks \<and> done = concat (map snd ks) \<and>
    mset cs' = mset (List.map_filter fst ks) + mset (drop n cs)"
  using assms
proof (induction n arbitrary: cs cs' "done")
  case 0
  then show ?case by (intro exI [of _ "[]"]) (simp add: map_filter_simps)
next
  case (Suc i)
  then have i: "i < length cs" by simp
  from Suc.prems obtain kept now later where v: "visit (cs ! i) = Some (kept, now)"
    and sw: "sweep visit i (case kept of Some c \<Rightarrow> cs[i := c] | None \<Rightarrow> close_client i cs) = Some (cs', later)"
    and d: "done = now @ later"
    by (auto split: Option.bind_splits)
  let ?cs = "case kept of Some c \<Rightarrow> cs[i := c] | None \<Rightarrow> close_client i cs"
  have le: "i \<le> length ?cs" and tk: "take i ?cs = take i cs"
    using i by (auto simp: close_client_length close_client_take split: option.split)
  obtain ks where ks: "map visit (rev (take i cs)) = map Some ks" "later = concat (map snd ks)"
    "mset cs' = mset (List.map_filter fst ks) + mset (drop i ?cs)"
    using Suc.IH [OF sw le] tk by auto
  have "mset (drop i ?cs) = mset (List.map_filter fst [(kept, now)]) + mset (drop (Suc i) cs)"
    using i by (cases kept) (auto simp: close_client_drop map_filter_simps drop_update_swap upd_conv_take_nth_drop)
  then show ?case using i v d ks
    by (intro exI [of _ "(kept, now) # ks"])
      (auto simp: take_Suc_conv_app_nth map_filter_simps split: option.splits)
qed

lemma sweep_total:
  assumes "\<And>c. c \<in> set (take n cs) \<Longrightarrow> visit c \<noteq> None" and "n \<le> length cs"
  shows "\<exists>cs' done. sweep visit n cs = Some (cs', done)"
  using assms
proof (induction n arbitrary: cs)
  case 0
  then show ?case by simp
next
  case (Suc i)
  then have i: "i < length cs" by simp
  then obtain kept now where v: "visit (cs ! i) = Some (kept, now)"
    using Suc.prems(1) [of "cs ! i"] by (auto simp: take_Suc_conv_app_nth)
  let ?cs = "case kept of Some c \<Rightarrow> cs[i := c] | None \<Rightarrow> close_client i cs"
  have le: "i \<le> length ?cs" and tk: "take i ?cs = take i cs"
    using i by (auto simp: close_client_length close_client_take split: option.split)
  have "\<exists>cs' done. sweep visit i ?cs = Some (cs', done)"
    using Suc.prems(1) i le tk by (intro Suc.IH) (auto simp: take_Suc_conv_app_nth)
  then show ?case using v by auto
qed

section \<open>One client\<close>

text \<open>The bytes that a list of effects sends to a descriptor.\<close>

fun sent_to :: "int \<Rightarrow> stream_event list \<Rightarrow> string" where
  "sent_to d [] = []"
| "sent_to d (Sent d' bs # es) = (if d' = d then bs @ sent_to d es else sent_to d es)"
| "sent_to d (_ # es) = sent_to d es"

fun of_client :: "int \<Rightarrow> stream_event \<Rightarrow> bool" where
  "of_client d (Sent d' bs) \<longleftrightarrow> d' = d"
| "of_client d (Closed d') \<longleftrightarrow> d' = d"
| "of_client d _ \<longleftrightarrow> False"

lemma sent_to_append [simp]: "sent_to d (es @ fs) = sent_to d es @ sent_to d fs"
  by (induction d es rule: sent_to.induct) auto

lemma sent_to_close [simp]: "sent_to d (close_descriptor d') = []"
  by (simp add: close_descriptor_def)

lemma of_client_close [simp]: "e \<in> set (close_descriptor d) \<Longrightarrow> of_client d e"
  by (auto simp: close_descriptor_def split: if_splits)

lemma sent_to_other: "(\<And>e. e \<in> set es \<Longrightarrow> of_client d' e) \<Longrightarrow> d \<noteq> d' \<Longrightarrow> sent_to d es = []"
  by (induction d es rule: sent_to.induct) force+

lemma view_of_append: "view_of d (h @ es) = foldl (view_step d) (view_of d h) es"
  by (simp add: view_of_def)

fun is_news :: "stream_event \<Rightarrow> bool" where
  "is_news (Joined d w control) = True"
| "is_news (Announced event line) = True"
| "is_news _ = False"

lemma of_client_not_news: "of_client d e \<Longrightarrow> \<not> is_news e"
  by (cases e) auto

lemma view_of_sends:
  assumes "\<forall>e\<in>set es. \<not> is_news e"
  shows "foldl (view_step d) v es = map_option (\<lambda>v. v\<lparr>view_sent := view_sent v @ sent_to d es\<rparr>) v"
  using assms
proof (induction es arbitrary: v)
  case Nil
  then show ?case by (cases v) auto
next
  case (Cons e es)
  then show ?case by (cases e; cases v) auto
qed

text \<open>What holds of a client's queue between two passes.\<close>

definition queue_ok :: "nat \<Rightarrow> subscriber \<Rightarrow> bool" where
  "queue_ok limit c \<longleftrightarrow> sub_descriptor c \<ge> 0 \<and> pending_bytes c = length (queued c) \<and> pending_bytes c \<le> limit \<and>
     [] \<notin> set (sub_output c) \<and>
     (if sub_output c = [] then front_offset c = 0 else front_offset c < length (hd (sub_output c)))"

text \<open>A visit that offers \<open>line\<close> to the client: what goes out and what stays queued is what was queued, and the line.\<close>

definition shown :: "nat \<Rightarrow> string \<Rightarrow> subscriber \<Rightarrow> subscriber option \<Rightarrow> stream_event list \<Rightarrow> bool" where
  "shown limit line c kept es \<longleftrightarrow> (\<forall>e\<in>set es. of_client (sub_descriptor c) e) \<and>
     (case kept of
        Some c' \<Rightarrow> sub_descriptor c' = sub_descriptor c \<and> queue_ok limit c' \<and>
          sent_to (sub_descriptor c) es @ queued c' = queued c @ line
      | None \<Rightarrow> prefix (sent_to (sub_descriptor c) es) (queued c @ line))"

lemma queued_decompose:
  assumes "queue_ok limit c" and "sub_output c \<noteq> []"
  shows "queued c = rest_of_front c @ concat (tl (sub_output c))" and "rest_of_front c \<noteq> []"
  using assms by (cases "sub_output c"; auto simp: queued_def rest_of_front_def queue_ok_def)+

lemma publish_visit_shown:
  assumes "queue_ok limit c" and "line \<noteq> []" and "publish_visit limit line c = Some (kept, es)"
  shows "shown limit line c kept es"
proof (cases "length line > limit \<or> pending_bytes c > limit - length line")
  case True
  then show ?thesis using assms(3) by (auto simp: publish_visit_def shown_def)
next
  case False
  let ?c = "c\<lparr>pending_bytes := pending_bytes c + length line, sub_output := sub_output c @ [line]\<rparr>"
  have "front_offset c \<le> length (concat (sub_output c))"
    using assms(1) by (cases "sub_output c") (auto simp: queue_ok_def)
  then have "queued ?c = queued c @ line" by (simp add: queued_def)
  moreover from this have "queue_ok limit ?c"
    using False assms(1,2) by (cases "sub_output c") (auto simp: queue_ok_def)
  ultimately show ?thesis using assms(3) False by (auto simp: publish_visit_def shown_def)
qed

lemma advance_queue:
  assumes "queue_ok limit c" and "sub_output c \<noteq> []" and "0 < n" and "n \<le> length (rest_of_front c)"
  shows "queue_ok limit (advance n c)" and "take n (rest_of_front c) @ queued (advance n c) = queued c"
    and "sub_descriptor (advance n c) = sub_descriptor c" and "pending_bytes (advance n c) = pending_bytes c - n"
proof -
  obtain l ls where o: "sub_output c = l # ls" using assms(2) by (cases "sub_output c") auto
  have q: "queued c = drop (front_offset c) l @ concat ls" and lt: "front_offset c < length l"
    and n: "n \<le> length l - front_offset c" and ne: "l \<noteq> []" "[] \<notin> set ls"
    using assms o by (auto simp: queue_ok_def queued_def rest_of_front_def)
  show "take n (rest_of_front c) @ queued (advance n c) = queued c"
  proof (cases "front_offset c + n = length l")
    case True
    then show ?thesis using q o lt by (simp add: advance_def rest_of_front_def queued_def Let_def)
  next
    case False
    then have "drop (front_offset c) l = take n (drop (front_offset c) l) @ drop (front_offset c + n) l"
      by (metis add.commute append_take_drop_id drop_drop)
    moreover have "front_offset c + n - length l = 0" using n lt by simp
    ultimately show ?thesis using False q o
      by (simp add: advance_def rest_of_front_def queued_def Let_def)
  qed
  then have "length (queued c) = n + length (queued (advance n c))"
    using assms(4) by (metis length_append length_take min.absorb2)
  then show "queue_ok limit (advance n c)"
    using assms(1,3) o n lt ne by (cases ls) (auto simp: advance_def queue_ok_def Let_def)
  show "sub_descriptor (advance n c) = sub_descriptor c" "pending_bytes (advance n c) = pending_bytes c - n"
    by (simp_all add: advance_def Let_def)
qed

text \<open>
  The sending loop ends: every round that goes on sends at least one byte of the queue. Its
  effects are at most one per byte and one for closing.
\<close>

lemma send_loop_ends:
  assumes "send_within send" and "queue_ok limit c"
  shows "\<exists>kept es. send_loop send k c done = Some (kept, done @ es) \<and> shown limit [] c kept es \<and>
    length es \<le> pending_bytes c + 1"
  using assms(2)
proof (induction "pending_bytes c" arbitrary: k c "done" rule: less_induct)
  case less
  let ?d = "sub_descriptor c" and ?r = "rest_of_front c"
  show ?case
  proof (cases "sub_output c = []")
    case True
    then show ?thesis using less.prems by (subst send_loop.simps) (simp add: shown_def)
  next
    case False
    show ?thesis
    proof (cases "\<exists>n. send ?d k (length ?r) = Send_Count n \<and> n > 0")
      case True
      then obtain n where n: "send ?d k (length ?r) = Send_Count n" "n > 0" by blast
      have le: "n \<le> length ?r" using assms(1) n(1) unfolding send_within_def by blast
      note adv = advance_queue [OF less.prems False n(2) le]
      have "length ?r \<le> pending_bytes c"
        using queued_decompose(1) [OF less.prems False] less.prems by (simp add: queue_ok_def)
      then have smaller: "pending_bytes (advance n c) < pending_bytes c" using adv(4) n(2) le by simp
      obtain kept es where IH: "send_loop send (Suc k) (advance n c) (done @ [Sent ?d (take n ?r)]) =
            Some (kept, (done @ [Sent ?d (take n ?r)]) @ es)"
          "shown limit [] (advance n c) kept es" "length es \<le> pending_bytes (advance n c) + 1"
        using less.hyps [OF smaller adv(1)] by blast
      have "shown limit [] c kept (Sent ?d (take n ?r) # es)"
        using IH(2) adv(2,3) by (auto simp: shown_def prefix_def split: option.splits)
          (metis append_assoc)+
      moreover have "send_loop send k c done = Some (kept, done @ Sent ?d (take n ?r) # es)"
        using IH(1) n False by (subst send_loop.simps) simp
      ultimately show ?thesis using IH(3) smaller by (intro exI conjI) auto
    next
      case stop: False
      then show ?thesis using False less.prems
        by (subst send_loop.simps) (auto simp: shown_def close_descriptor_def split: send_answer.split)
    qed
  qed
qed

lemma service_visit_shown:
  assumes "send_within send" and "queue_ok limit c"
  shows "\<exists>kept es. service_visit poll send c = Some (kept, es) \<and> shown limit [] c kept es \<and>
    length es \<le> pending_bytes c + 1"
  using assms(2) send_loop_ends [OF assms, of 0 "[]"]
  by (auto simp: service_visit_def shown_def close_descriptor_def split: poll_answer.split)

section \<open>All clients\<close>

abbreviation descriptors :: "subscriber list \<Rightarrow> int list" where
  "descriptors \<equiv> map sub_descriptor"

text \<open>The results of visits to clients with distinct descriptors.\<close>

definition all_shown :: "nat \<Rightarrow> string \<Rightarrow> subscriber list \<Rightarrow> subscriber list \<Rightarrow> stream_event list \<Rightarrow> bool" where
  "all_shown limit line cs cs' es \<longleftrightarrow> distinct (descriptors cs') \<and> length cs' \<le> length cs \<and>
     (\<forall>c'\<in>set cs'. queue_ok limit c' \<and> (\<exists>c\<in>set cs. sub_descriptor c' = sub_descriptor c \<and>
        sent_to (sub_descriptor c) es @ queued c' = queued c @ line)) \<and>
     (\<forall>c\<in>set cs. prefix (sent_to (sub_descriptor c) es) (queued c @ line)) \<and>
     (\<forall>d. d \<notin> set (descriptors cs) \<longrightarrow> sent_to d es = []) \<and>
     (\<forall>e\<in>set es. \<exists>c\<in>set cs. of_client (sub_descriptor c) e)"

lemma all_shownD:
  assumes "all_shown limit line cs cs' es"
  shows "distinct (descriptors cs')" and "length cs' \<le> length cs"
    and "c' \<in> set cs' \<Longrightarrow> queue_ok limit c'"
    and "c' \<in> set cs' \<Longrightarrow> \<exists>c\<in>set cs. sub_descriptor c' = sub_descriptor c \<and>
        sent_to (sub_descriptor c) es @ queued c' = queued c @ line"
    and "c \<in> set cs \<Longrightarrow> prefix (sent_to (sub_descriptor c) es) (queued c @ line)"
    and "d \<notin> set (descriptors cs) \<Longrightarrow> sent_to d es = []"
    and "e \<in> set es \<Longrightarrow> \<exists>c\<in>set cs. of_client (sub_descriptor c) e"
  using assms unfolding all_shown_def by blast+

lemma visits_shown:
  assumes "map visit cs = map Some ks" and "distinct (descriptors cs)"
    and "\<And>c kept es. c \<in> set cs \<Longrightarrow> visit c = Some (kept, es) \<Longrightarrow> shown limit line c kept es"
  shows "all_shown limit line cs (List.map_filter fst ks) (concat (map snd ks))"
  using assms
proof (induction cs arbitrary: ks)
  case Nil
  then show ?case by (simp add: all_shown_def map_filter_simps)
next
  case (Cons c cs)
  then obtain kept es ks' where ks: "ks = (kept, es) # ks'" and v: "visit c = Some (kept, es)"
    and m: "map visit cs = map Some ks'"
    by (cases ks) auto
  have IH: "all_shown limit line cs (List.map_filter fst ks') (concat (map snd ks'))"
    using Cons.prems(2,3) m by (intro Cons.IH) auto
  have sh: "shown limit line c kept es" using Cons.prems(3) v by simp
  have fresh: "sub_descriptor c \<notin> set (descriptors cs)" using Cons.prems(2) by simp
  have other: "d \<noteq> sub_descriptor c \<Longrightarrow> sent_to d es = []" for d
    using sh by (intro sent_to_other [of es "sub_descriptor c"]) (auto simp: shown_def)
  have mine: "sent_to (sub_descriptor c) (concat (map snd ks')) = []"
    using IH fresh by (simp add: all_shown_def)
  have keep: "List.map_filter fst ks = (case kept of None \<Rightarrow> [] | Some c' \<Rightarrow> [c']) @ List.map_filter fst ks'"
    by (simp add: ks map_filter_simps split: option.split)
  have apart: "sub_descriptor c \<notin> set (descriptors (List.map_filter fst ks'))"
    using all_shownD(4) [OF IH] fresh by fastforce
  have sent: "sent_to (sub_descriptor c') es = []" if "c' \<in> set cs" for c'
    using fresh that by (metis image_eqI list.set_map other)
  show ?case
    unfolding all_shown_def
  proof (intro conjI)
    show "distinct (descriptors (List.map_filter fst ks))"
      using all_shownD(1) [OF IH] sh apart unfolding keep by (cases kept) (simp_all add: shown_def)
    show "length (List.map_filter fst ks) \<le> length (c # cs)"
      using IH unfolding keep by (auto simp: all_shown_def split: option.split)
    show "\<forall>c'\<in>set (List.map_filter fst ks). queue_ok limit c' \<and> (\<exists>c\<in>set (c # cs).
        sub_descriptor c' = sub_descriptor c \<and>
        sent_to (sub_descriptor c) (concat (map snd ks)) @ queued c' = queued c @ line)"
      using IH sh mine sent unfolding keep all_shown_def shown_def ks by (fastforce split: option.splits)
    show "\<forall>c\<in>set (c # cs). prefix (sent_to (sub_descriptor c) (concat (map snd ks))) (queued c @ line)"
      using IH sh mine sent unfolding all_shown_def shown_def ks
      by (auto split: option.splits) (metis prefixI)
    show "\<forall>d. d \<notin> set (descriptors (c # cs)) \<longrightarrow> sent_to d (concat (map snd ks)) = []"
      using IH other by (simp add: all_shown_def ks)
    show "\<forall>e\<in>set (concat (map snd ks)). \<exists>c\<in>set (c # cs). of_client (sub_descriptor c) e"
      using IH sh by (auto simp: all_shown_def shown_def ks)
  qed
qed

lemma sweep_shown:
  assumes "sweep visit (length cs) cs = Some (cs', es)" and "distinct (descriptors cs)"
    and "\<And>c kept es. c \<in> set cs \<Longrightarrow> visit c = Some (kept, es) \<Longrightarrow> shown limit line c kept es"
  shows "all_shown limit line cs cs' es"
proof -
  obtain ks where ks: "map visit (rev cs) = map Some ks" "es = concat (map snd ks)"
      "mset cs' = mset (List.map_filter fst ks)"
    using sweep_visits_all [OF assms(1)] by auto
  have "distinct (descriptors (rev cs))" using assms(2) by (simp add: rev_map [symmetric])
  then have "all_shown limit line (rev cs) (List.map_filter fst ks) es"
    unfolding ks(2) by (rule visits_shown [OF ks(1)]) (use assms(3) in auto)
  moreover have "distinct (descriptors cs') = distinct (descriptors (List.map_filter fst ks))"
    by (rule mset_eq_imp_distinct_iff) (simp add: ks(3))
  moreover have "set cs' = set (List.map_filter fst ks)" and "length cs' = length (List.map_filter fst ks)"
    using ks(3) by (auto dest: mset_eq_setD mset_eq_length)
  ultimately show ?thesis by (simp add: all_shown_def)
qed

text \<open>
  What a pass needs of its visitor: it answers, and what it sends and keeps is what was queued and the line it
  offers. The two passes of the stream satisfy it.
\<close>

locale visitor =
  fixes permitted :: bool
    and visit :: "subscriber \<Rightarrow> (subscriber option \<times> stream_event list) option"
    and limit :: nat
    and line :: string
  assumes visit_shown: "permitted \<Longrightarrow> queue_ok limit c \<Longrightarrow>
    \<exists>kept es. visit c = Some (kept, es) \<and> shown limit line c kept es"
begin

lemma pass_shown:
  assumes permitted and "distinct (descriptors cs)" and "\<And>c. c \<in> set cs \<Longrightarrow> queue_ok limit c"
  shows "\<exists>cs' es. sweep visit (length cs) cs = Some (cs', es) \<and> all_shown limit line cs cs' es"
proof -
  obtain cs' es where sw: "sweep visit (length cs) cs = Some (cs', es)"
    using sweep_total [of "length cs" cs visit] visit_shown [OF assms(1)] assms(3) by fastforce
  moreover have "all_shown limit line cs cs' es"
    using visit_shown [OF assms(1)] assms(3) by (intro sweep_shown [OF sw assms(2)]) fastforce
  ultimately show ?thesis by blast
qed

end

lemma end_line_nonempty [simp]: "end_line encoded \<noteq> []"
  by (simp add: end_line_def)

interpretation publishing: visitor True "publish_visit limit (end_line encoded)" limit "end_line encoded"
  for limit encoded
proof unfold_locales
  fix c assume "queue_ok limit c"
  then show "\<exists>kept es. publish_visit limit (end_line encoded) c = Some (kept, es) \<and>
      shown limit (end_line encoded) c kept es"
    using publish_visit_shown [of limit c "end_line encoded"] by (auto simp: publish_visit_def)
qed

interpretation servicing: visitor "send_within send" "service_visit poll send" limit "[]"
  for send poll limit
  by unfold_locales (use service_visit_shown in blast)

section \<open>The invariant\<close>

definition ids_shown :: "view \<Rightarrow> u64 list" where
  "ids_shown v = view_watermark v # map fst (view_events v)"

definition view_exact :: "event_stream \<Rightarrow> view \<Rightarrow> subscriber \<Rightarrow> bool" where
  "view_exact s v c \<longleftrightarrow> view_sent v @ queued c = view_due v \<and>
     (\<exists>time. view_control v = control_line (session_public_id s) time (view_watermark v)) \<and>
     sorted_wrt (<) (ids_shown v) \<and> last (ids_shown v) \<le> high_watermark s"

definition stream_inv :: "event_stream \<times> stream_history \<Rightarrow> bool" where
  "stream_inv = (\<lambda>(s, h).
     length (subscribers s) \<le> stream_max_clients (stream_config s) \<and> distinct (descriptors (subscribers s)) \<and>
     (\<forall>c\<in>set (subscribers s). queue_ok (max_pending_bytes_per_client (stream_config s)) c \<and>
        (\<exists>v. view_of (sub_descriptor c) h = Some v \<and> view_exact s v c)) \<and>
     (\<forall>d v. view_of d h = Some v \<longrightarrow> prefix (view_sent v) (view_due v)) \<and>
     (stream_thread s \<or> subscribers s = [] \<and> \<not> stream_running s))"

lemma stream_invD:
  assumes "stream_inv (s, h)"
  shows "length (subscribers s) \<le> stream_max_clients (stream_config s)"
    and "distinct (descriptors (subscribers s))"
    and "\<And>c. c \<in> set (subscribers s) \<Longrightarrow> queue_ok (max_pending_bytes_per_client (stream_config s)) c"
    and "\<And>c. c \<in> set (subscribers s) \<Longrightarrow> \<exists>v. view_of (sub_descriptor c) h = Some v \<and> view_exact s v c"
    and "\<And>d v. view_of d h = Some v \<Longrightarrow> prefix (view_sent v) (view_due v)"
    and "stream_thread s \<or> subscribers s = [] \<and> \<not> stream_running s"
  using assms by (auto simp: stream_inv_def)

lemma view_due_announce [simp]:
  "view_due (v\<lparr>view_events := view_events v @ [(event, line)]\<rparr>) = view_due v @ line"
  by (simp add: view_due_def)

lemma view_due_sent [simp]: "view_due (v\<lparr>view_sent := x\<rparr>) = view_due v"
  by (simp add: view_due_def)

lemma ids_shown_update [simp]:
  "ids_shown (v\<lparr>view_sent := x\<rparr>) = ids_shown v"
  "ids_shown (v\<lparr>view_events := view_events v @ [(event, line)]\<rparr>) = ids_shown v @ [event]"
  by (simp_all add: ids_shown_def)

lemma view_news:
  "view_of d (h @ news @ es) = foldl (view_step d) (foldl (view_step d) (view_of d h) news) es"
  by (simp add: view_of_def)

lemma sorted_snoc: "sorted_wrt (<) xs \<Longrightarrow> xs \<noteq> [] \<Longrightarrow> last xs < y \<Longrightarrow> sorted_wrt (<) (xs @ [y :: u64])"
proof (induction xs)
  case (Cons x xs)
  then show ?case
  proof (cases "xs = []")
    case False
    then have "x < last xs" and "last xs < y" using Cons.prems by auto
    then have "x < y" by (rule order.strict_trans)
    then show ?thesis using Cons False by simp
  qed simp
qed simp

text \<open>A pass that offers \<open>line\<close> to every client, after the news it announces.\<close>

definition offers :: "event_stream \<Rightarrow> u64 \<Rightarrow> string \<Rightarrow> stream_event list \<Rightarrow> bool" where
  "offers s high line news \<longleftrightarrow> (news = [] \<and> line = [] \<and> high = high_watermark s) \<or>
     (\<exists>event. news = [Announced event line] \<and> high = event \<and> high_watermark s < event)"

lemma offers_view:
  assumes "offers s high line news" and "view_of d h = Some v" and "\<forall>e\<in>set es. \<not> is_news e"
  shows "\<exists>v'. view_of d (h @ news @ es) = Some v' \<and> view_due v' = view_due v @ line \<and>
    view_sent v' = view_sent v @ sent_to d es \<and> view_control v' = view_control v \<and> view_watermark v' = view_watermark v \<and>
    (sorted_wrt (<) (ids_shown v) \<and> last (ids_shown v) \<le> high_watermark s \<longrightarrow>
     sorted_wrt (<) (ids_shown v') \<and> last (ids_shown v') \<le> high)"
proof -
  consider "news = []" "line = []" "high = high_watermark s" |
    "news = [Announced high line]" "high_watermark s < high"
    using assms(1) by (auto simp: offers_def)
  then show ?thesis
  proof cases
    case 1
    then have "view_of d (h @ news @ es) = Some (v\<lparr>view_sent := view_sent v @ sent_to d es\<rparr>)"
      using assms(2,3) by (simp add: view_of_append view_of_sends)
    then show ?thesis using 1 by simp
  next
    case 2
    have "sorted_wrt (<) (ids_shown v @ [high])"
      if "sorted_wrt (<) (ids_shown v)" and "last (ids_shown v) \<le> high_watermark s"
      using that 2(2) by (intro sorted_snoc) (auto simp: ids_shown_def)
    moreover have "view_of d (h @ news @ es) =
        Some (v\<lparr>view_events := view_events v @ [(high, line)], view_sent := view_sent v @ sent_to d es\<rparr>)"
      using assms(2,3) 2(1) by (simp add: view_of_append view_of_sends)
    ultimately show ?thesis by simp
  qed
qed

lemma pass_keeps_invariant:
  assumes inv: "stream_inv (s, h)" and off: "offers s high line news"
    and all: "all_shown (max_pending_bytes_per_client (stream_config s)) line (subscribers s) cs' es"
  shows "stream_inv (s\<lparr>high_watermark := high, subscribers := cs'\<rparr>, h @ news @ es)"
proof -
  note i = stream_invD [OF inv]
  have quiet: "\<forall>e\<in>set es. \<not> is_news e"
    using all of_client_not_news by (auto simp: all_shown_def)
  have live: "\<exists>v. view_of (sub_descriptor c') (h @ news @ es) = Some v \<and>
      view_exact (s\<lparr>high_watermark := high, subscribers := cs'\<rparr>) v c'" if c': "c' \<in> set cs'" for c'
  proof -
    obtain c where c: "c \<in> set (subscribers s)" "sub_descriptor c' = sub_descriptor c"
        "sent_to (sub_descriptor c) es @ queued c' = queued c @ line"
      using all_shownD(4) [OF all c'] by blast
    obtain v where v: "view_of (sub_descriptor c) h = Some v" "view_exact s v c" using i(4) [OF c(1)] by blast
    show ?thesis using offers_view [OF off v(1) quiet] v(2) c(2,3)
      by (fastforce simp: view_exact_def)
  qed
  have all_views: "prefix (view_sent v') (view_due v')" if v': "view_of d (h @ news @ es) = Some v'" for d v'
  proof -
    obtain v where v: "view_of d h = Some v"
      using v' off quiet by (cases "view_of d h") (auto simp: view_news view_of_sends offers_def view_of_append)
    then obtain due: "view_due v' = view_due v @ line" and sent: "view_sent v' = view_sent v @ sent_to d es"
      using offers_view [OF off v quiet] v' by auto
    show ?thesis
    proof (cases "d \<in> set (descriptors (subscribers s))")
      case False
      then show ?thesis using all i(5) [OF v] due sent by (auto simp: all_shown_def prefix_def)
    next
      case True
      then obtain c where c: "c \<in> set (subscribers s)" "d = sub_descriptor c" by auto
      then have "view_sent v @ queued c = view_due v" using i(4) [OF c(1)] v by (auto simp: view_exact_def)
      moreover have "prefix (sent_to d es) (queued c @ line)" using all c by (auto simp: all_shown_def)
      ultimately show ?thesis unfolding due sent by (metis append_assoc same_prefix_prefix)
    qed
  qed
  have "stream_thread s \<or> cs' = [] \<and> \<not> stream_running s"
    using i(6) all by (auto simp: all_shown_def)
  then show ?thesis using i(1) all live all_views by (auto simp: stream_inv_def all_shown_def)
qed

lemma publish_keeps_invariant:
  assumes "stream_inv (s, h)" and "publish_locked event (end_line encoded) s = Some (s', es)"
  shows "stream_inv (s', h @ es)"
proof (cases "event \<le> high_watermark s")
  case True
  then show ?thesis using assms by (simp add: publish_locked_def)
next
  case False
  let ?limit = "max_pending_bytes_per_client (stream_config s)" and ?line = "end_line encoded"
  obtain cs' later where sw: "sweep (publish_visit ?limit ?line) (length (subscribers s)) (subscribers s) = Some (cs', later)"
    and s': "s' = s\<lparr>high_watermark := event, subscribers := cs'\<rparr>" and es: "es = [Announced event ?line] @ later"
    using assms(2) False by (auto simp: publish_locked_def split: Option.bind_splits)
  have "all_shown ?limit ?line (subscribers s) cs' later"
    using publishing.pass_shown [OF _ stream_invD(2,3) [OF assms(1)], of encoded] sw by simp
  moreover have "offers s event ?line [Announced event ?line]" using False by (simp add: offers_def)
  ultimately show ?thesis unfolding s' es by (rule pass_keeps_invariant [OF assms(1), rotated])
qed

lemma service_shown:
  assumes "stream_inv (s, h)" and "send_within send"
  shows "\<exists>cs' es. service_clients poll send s = Some (s\<lparr>subscribers := cs'\<rparr>, es) \<and>
    all_shown (max_pending_bytes_per_client (stream_config s)) [] (subscribers s) cs' es"
proof -
  obtain cs' es where "sweep (service_visit poll send) (length (subscribers s)) (subscribers s) = Some (cs', es)"
      and shown: "all_shown (max_pending_bytes_per_client (stream_config s)) [] (subscribers s) cs' es"
    using servicing.pass_shown [OF assms(2) stream_invD(2,3) [OF assms(1)], of poll] by blast
  then have "service_clients poll send s = Some (s\<lparr>subscribers := cs'\<rparr>, es)" by (simp add: service_clients_def)
  with shown show ?thesis by blast
qed

lemma accept_keeps_invariant:
  assumes inv: "stream_inv (s, h)" and new: "descriptor_is_new answer s" and thr: "stream_thread s"
    and "accept_round answer s = (more_rounds, s', es)"
  shows "stream_inv (s', h @ es)"
proof (cases "\<exists>d time. answer = Accepted d time \<and> stream_running s")
  case False
  then have "s' = s" and "es = []"
    using assms(4) by (cases answer; auto simp: accept_round_def split: if_splits)+
  then show ?thesis using inv by simp
next
  case True
  then obtain d time where a: "answer = Accepted d time" "stream_running s" by blast
  let ?cfg = "stream_config s" and ?control = "control_line (session_public_id s) time (high_watermark s)"
  have closed: "stream_inv (s, h @ [Closed d])" using inv by (simp add: stream_inv_def view_of_append)
  show ?thesis
  proof (cases "length (subscribers s) \<ge> stream_max_clients ?cfg \<or> length ?control > max_pending_bytes_per_client ?cfg")
    case True
    then show ?thesis using closed a assms(4) by (auto simp: accept_round_def Let_def split: if_splits)
  next
    case False
    let ?c = "\<lparr>sub_descriptor = d, sub_output = [?control], front_offset = 0, pending_bytes = length ?control\<rparr>"
    have s': "s' = s\<lparr>subscribers := subscribers s @ [?c]\<rparr>" and es: "es = [Joined d (high_watermark s) ?control]"
      using False a assms(4) by (auto simp: accept_round_def Let_def)
    have d: "d \<ge> 0" "d \<notin> set (descriptors (subscribers s))"
      using new a by (auto simp: descriptor_is_new_def list_all_iff)
    have "queue_ok (max_pending_bytes_per_client ?cfg) ?c"
      using d False by (simp add: queue_ok_def queued_def control_line_def)
    moreover have "view_exact s' \<lparr>view_watermark = high_watermark s, view_control = ?control, view_events = [],
        view_sent = []\<rparr> ?c"
      by (auto simp: view_exact_def view_due_def queued_def ids_shown_def s')
    ultimately show ?thesis using stream_invD [OF inv] d False thr
      by (auto simp: stream_inv_def s' es view_of_append view_exact_def image_iff)
  qed
qed

text \<open>Starting and stopping shows nothing to anyone.\<close>

fun is_bare :: "stream_event \<Rightarrow> bool" where
  "is_bare (Closed d) = True"
| "is_bare (Unlinked p) = True"
| "is_bare _ = False"

lemma view_of_bare: "\<forall>e\<in>set es. is_bare e \<Longrightarrow> view_of d (h @ es) = view_of d h"
proof (induction es arbitrary: h)
  case (Cons e es)
  have "view_of d ((h @ [e]) @ es) = view_of d (h @ [e])" using Cons.prems by (intro Cons.IH) simp
  then have "view_of d (h @ e # es) = view_of d (h @ [e])" by simp
  also have "\<dots> = view_of d h" using Cons.prems by (cases e) (auto simp: view_of_append)
  finally show ?case .
qed simp

lemma close_is_bare [simp]: "\<forall>e\<in>set (close_descriptor d). is_bare e"
  by (simp add: close_descriptor_def)

lemma start_listener_quiet:
  assumes "start_listener initial a s = (r, s', es)"
  shows "\<forall>e\<in>set es. is_bare e" and "subscribers s' = subscribers s" and "stream_config s' = stream_config s"
    and "session_public_id s' = session_public_id s"
    and "r = None \<longrightarrow> stream_thread s'" and "r \<noteq> None \<longrightarrow> stream_thread s' = stream_thread s"
    and "stream_running s' = stream_running s"
  using assms by (auto simp: start_listener_def Let_def split: if_splits)

lemma start_quiet:
  assumes "start_stream initial a s = (r, s', es)" and "\<not> stream_thread s" and "\<not> stream_running s"
  shows "\<forall>e\<in>set es. is_bare e" and "subscribers s' = subscribers s" and "stream_config s' = stream_config s"
    and "session_public_id s' = session_public_id s" and "stream_thread s' \<or> \<not> stream_running s'"
proof -
  obtain r1 s1 e1 where l: "start_listener initial a (s\<lparr>stream_running := True\<rparr>) = (r1, s1, e1)"
    by (metis prod_cases3)
  note q = start_listener_quiet [OF l]
  show "\<forall>e\<in>set es. is_bare e" "subscribers s' = subscribers s" "stream_config s' = stream_config s"
    "session_public_id s' = session_public_id s" "stream_thread s' \<or> \<not> stream_running s'"
    using assms l q close_is_bare by (auto simp: start_stream_def split: option.splits if_splits)
qed

lemma stop_quiet:
  "stop_finish safe_path s = (s', es) \<Longrightarrow> \<forall>e\<in>set es. is_bare e"
  by (auto simp: stop_finish_def close_descriptor_def split: if_splits)

lemma step_keeps_invariant:
  assumes "stream_step x y" and "stream_inv x"
  shows "stream_inv y"
  using assms
proof (induction rule: stream_step.induct)
  case (Start s initial a r s' es h)
  then have "subscribers s = []" and "\<not> stream_running s" using stream_invD(6) by blast+
  with start_quiet [OF Start.hyps(2,1)] Start.prems show ?case by (simp add: stream_inv_def view_of_bare)
next
  case (Publish event encoded s s' es h)
  then show ?case using publish_keeps_invariant by (auto simp: publish_committed_def split: if_splits)
next
  case (Late_Publish event encoded s s' es h)
  then show ?case using publish_keeps_invariant by blast
next
  case (Accept s answer more_rounds s' es h)
  then show ?case using accept_keeps_invariant by blast
next
  case (Service s send poll s' es h)
  then obtain cs' where "s' = s\<lparr>subscribers := cs'\<rparr>"
      and "all_shown (max_pending_bytes_per_client (stream_config s)) [] (subscribers s) cs' es"
    using service_shown [OF Service.prems Service.hyps(2), of poll] by auto
  with pass_keeps_invariant [OF Service.prems, of "high_watermark s" "[]" "[]"] show ?case
    by (simp add: offers_def)
next
  case (Request_Stop s h)
  then show ?case by (auto simp: stream_inv_def stop_request_def view_exact_def)
next
  case (Finish_Stop s safe_path s' es h)
  then show ?case using stop_quiet [OF Finish_Stop.hyps(2)]
    by (auto simp: stream_inv_def view_of_bare) (auto simp: stop_finish_def)
qed

lemma reachable_invariant: "stream_reachable x \<Longrightarrow> stream_inv x"
proof (induction rule: stream_reachable.induct)
  case (Created cfg session s)
  then show ?case by (auto simp: make_event_stream_def stream_inv_def view_of_def split: if_splits)
next
  case (Stepped x y)
  then show ?case using step_keeps_invariant by blast
qed

lemma service_effects_bounded:
  assumes "stream_inv (s, h)" and "send_within send" and "service_clients poll send s = Some (s', es)"
  shows "length es \<le> (\<Sum>c\<leftarrow>subscribers s. pending_bytes c + 1)"
proof -
  obtain cs' where "sweep (service_visit poll send) (length (subscribers s)) (subscribers s) = Some (cs', es)"
    using assms(3) by (auto simp: service_clients_def split: Option.bind_splits)
  then obtain ks where ks: "map (service_visit poll send) (rev (subscribers s)) = map Some ks"
      and es: "es = concat (map snd ks)"
    using sweep_visits_all by fastforce
  have "map (service_visit poll send) cs = map Some ks \<Longrightarrow> set cs \<subseteq> set (subscribers s) \<Longrightarrow>
      length (concat (map snd ks)) \<le> (\<Sum>c\<leftarrow>cs. pending_bytes c + 1)" for cs ks
  proof (induction cs arbitrary: ks)
    case (Cons c cs)
    then obtain kept now ks' where ks: "ks = (kept, now) # ks'" "service_visit poll send c = Some (kept, now)"
        "map (service_visit poll send) cs = map Some ks'"
      by (cases ks) auto
    have "length now \<le> pending_bytes c + 1"
      using service_visit_shown [OF assms(2) stream_invD(3) [OF assms(1)], of c poll] Cons.prems(2) ks(2) by auto
    moreover have "length (concat (map snd ks')) \<le> (\<Sum>c\<leftarrow>cs. pending_bytes c + 1)"
      using Cons.IH [OF ks(3)] Cons.prems(2) by simp
    ultimately show ?case using ks(1) by simp
  qed simp
  from this [OF ks] show ?thesis by (simp add: es rev_map [symmetric] sum_list_rev)
qed

text \<open>
  A start that fails behind a successful \<open>bind\<close> does not remove the socket file that \<open>bind\<close> has created: the flag that
  makes the handler unlink it is set only after \<open>chmod\<close> and \<open>listen\<close>.
\<close>

lemma failed_chmod_leaves_socket_file:
  assumes "start_stream initial a s = (Inl e, s', es)" and "bind_works a" and "path_before a = Path_Missing"
    and "\<not> chmod_works a \<or> \<not> listen_works a" and "\<not> owns_socket_path s"
  shows "Unlinked (unix_socket (stream_config s)) \<notin> set es"
  using assms by (auto simp: start_stream_def start_listener_def close_descriptor_def Let_def split: if_splits)

section \<open>What subscribers are promised\<close>

definition sample_stream :: event_stream where
  "sample_stream = \<lparr>stream_config = \<lparr>unix_socket = ''/e'', permissions = 432, stream_max_clients = 8,
       max_pending_bytes_per_client = 4096\<rparr>,
     session_public_id = replicate 32 (CHR ''0''), stream_listener = 3, owns_socket_path = True, stream_running = True,
     high_watermark = 6, stream_thread = True, subscribers = []\<rparr>"

definition sample_answers :: start_answers where
  "sample_answers = \<lparr>path_before = Path_Missing, unlink_works = True, new_socket = 3, bind_works = True,
     chmod_works = True, listen_works = True, nonblocking_works = True\<rparr>"

definition sample_control :: string where
  "sample_control = control_line (replicate 32 (CHR ''0'')) ''t'' 6"

definition sample_client :: subscriber where
  "sample_client = \<lparr>sub_descriptor = 5, sub_output = [sample_control, ''{}'' @ [CHR 0x0A]], front_offset = 0,
     pending_bytes = length sample_control + 3\<rparr>"

definition sample_history :: stream_history where
  "sample_history = [Joined 5 6 sample_control, Announced 7 (''{}'' @ [CHR 0x0A])]"

lemma sample_control_length [simp]: "length sample_control = 138"
  by (simp add: sample_control_def control_line_def nat_text.simps)

lemma sample_reachable:
  "stream_reachable (sample_stream\<lparr>high_watermark := 7, subscribers := [sample_client]\<rparr>, sample_history)"
proof -
  let ?new = "\<lparr>stream_config = stream_config sample_stream, session_public_id = session_public_id sample_stream,
    stream_listener = - 1, owns_socket_path = False, stream_running = False, high_watermark = 0,
    stream_thread = False, subscribers = []\<rparr>"
  let ?one = "\<lparr>sub_descriptor = 5, sub_output = [sample_control], front_offset = 0, pending_bytes = length sample_control\<rparr>"
  have "make_event_stream (stream_config sample_stream) (session_public_id sample_stream) = Inr ?new"
    by (simp add: make_event_stream_def sample_stream_def)
  then have 0: "stream_reachable (?new, [])" by (rule Created)
  have "start_stream 6 sample_answers ?new = (Inr (), sample_stream, [])"
    by (simp add: start_stream_def start_listener_def sun_path_size_def sample_answers_def sample_stream_def)
  from Stepped [OF 0 Start [OF _ this]] have 1: "stream_reachable (sample_stream, [])" by simp
  have "accept_round (Accepted 5 ''t'') sample_stream =
      (True, sample_stream\<lparr>subscribers := [?one]\<rparr>, [Joined 5 6 sample_control])"
    using sample_control_length unfolding sample_control_def
    by (simp add: accept_round_def sample_stream_def Let_def)
  from Stepped [OF 1 Accept [OF _ _ this]]
  have 2: "stream_reachable (sample_stream\<lparr>subscribers := [?one]\<rparr>, [Joined 5 6 sample_control])"
    by (simp add: descriptor_is_new_def sample_stream_def)
  have "publish_committed 7 ''{}'' (sample_stream\<lparr>subscribers := [?one]\<rparr>) =
      Some (sample_stream\<lparr>high_watermark := 7, subscribers := [sample_client]\<rparr>, [Announced 7 (''{}'' @ [CHR 0x0A])])"
    by (simp add: publish_committed_def publish_locked_def publish_visit_def end_line_def sample_stream_def sample_client_def)
  from Stepped [OF 2 Publish [OF this]] show ?thesis by (simp add: sample_history_def)
qed

definition sample_send :: send_os where
  "sample_send d k n = Send_Count (min n 100)"

lemma sample_send_within: "send_within sample_send"
  by (simp add: send_within_def sample_send_def)

text \<open>
  C13: a subscriber misses no event, sees none twice and sees them in order. For every connected client the
  bytes its socket took, followed by the bytes still queued for it, are its control line and then the lines of
  all events announced since it joined; their identifiers increase strictly from the watermark
  named in the control line. What a socket was given, also of a client dropped since, is always a
  prefix of that text.
\<close>

theorem subscriber_sees_every_event:
  assumes "stream_reachable (s, h)"
  shows "(\<forall>c\<in>set (subscribers s). \<exists>v time. view_of (sub_descriptor c) h = Some v \<and>
      view_sent v @ queued c = control_line (session_public_id s) time (view_watermark v) @ concat (map snd (view_events v)) \<and>
      sorted_wrt (<) (view_watermark v # map fst (view_events v))) \<and>
    (\<forall>d v. view_of d h = Some v \<longrightarrow> prefix (view_sent v) (view_control v @ concat (map snd (view_events v))))"
  using stream_invD(4,5) [OF reachable_invariant [OF assms]]
  by (fastforce simp: view_exact_def view_due_def ids_shown_def)

theorem subscriber_sees_every_event_witness:
  "\<exists>v time. view_of 5 sample_history = Some v \<and>
     view_sent v @ queued sample_client = control_line (replicate 32 (CHR ''0'')) time (view_watermark v) @ concat (map snd (view_events v))"
  using subscriber_sees_every_event [OF sample_reachable] by (auto simp: sample_stream_def sample_client_def)

text \<open>
  C30: the stream's memory is bounded and its accounts are exact. At most the configured number of clients is
  connected, under distinct descriptors; the counted pending bytes of a client are the bytes
  that remain to be sent and never exceed the limit.
\<close>

theorem stream_bounded:
  assumes "stream_reachable (s, h)"
  shows "length (subscribers s) \<le> stream_max_clients (stream_config s) \<and> distinct (descriptors (subscribers s)) \<and>
    (\<forall>c\<in>set (subscribers s). pending_bytes c = length (queued c) \<and>
      pending_bytes c \<le> max_pending_bytes_per_client (stream_config s))"
  using stream_invD(1-3) [OF reachable_invariant [OF assms]] unfolding queue_ok_def by blast

theorem stream_bounded_witness: "length (queued sample_client) \<le> 4096"
  using stream_bounded [OF sample_reachable] by (simp add: sample_stream_def)

text \<open>
  C14: a sending pass ends, whatever the sockets answer. On every reachable stream, if a send takes no more than it is
  given, the pass over the clients returns; it makes at most one send or close per pending
  byte and one more per client (sends that take bytes and closes are counted, polls and blocked sends are not).
\<close>

theorem service_pass_ends:
  assumes "stream_reachable (s, h)" and "send_within send"
  shows "\<exists>s' es. service_clients poll send s = Some (s', es) \<and>
    length es \<le> (\<Sum>c\<leftarrow>subscribers s. pending_bytes c + 1)"
  using service_shown [OF reachable_invariant [OF assms(1)] assms(2), of poll]
    service_effects_bounded [OF reachable_invariant [OF assms(1)] assms(2)]
  by blast

theorem service_pass_ends_witness:
  "\<exists>s' es. service_clients (\<lambda>d out. Polled False False out) sample_send
       (sample_stream\<lparr>high_watermark := 7, subscribers := [sample_client]\<rparr>) = Some (s', es) \<and>
     length es \<le> 142"
  using service_pass_ends [OF sample_reachable sample_send_within, of "\<lambda>d out. Polled False False out"]
  by (simp add: sample_client_def)

end
