(* ===== verification/Candidate_Life.thy ===== *)
theory Candidate_Life
  imports Candidate_Store
begin

text \<open>
  The life of a candidate in the store of \<open>Candidate_Store\<close>: the states as an abstract machine, the agreement of a
  candidate's row with the rows of its attempts, and that every operation of the database respects both.
\<close>

section \<open>Rows and tables\<close>

lemma set_update_where: "x \<in> set (update_where p f rows) \<longleftrightarrow> (\<exists>r\<in>set rows. x = (if p r then f r else r))"
  by (auto simp: update_where_def)

lemma map_update_where [simp]: "(\<And>r. g (f r) = g r) \<Longrightarrow> map g (update_where p f rows) = map g rows"
  by (simp add: update_where_def)

lemma filter_update_where: "(\<And>r. P (f r) = P r) \<Longrightarrow> filter P (update_where p f rows) = update_where p f (filter P rows)"
  by (induction rows) (auto simp: update_where_def)

lemma length_update_where [simp]: "length (update_where p f rows) = length rows"
  by (simp add: update_where_def)

lemma update_where_append [simp]: "update_where p f (xs @ ys) = update_where p f xs @ update_where p f ys"
  by (simp add: update_where_def)

lemma update_where_id: "(\<And>r. r \<in> set rows \<Longrightarrow> \<not> p r) \<Longrightarrow> update_where p f rows = rows"
  by (simp add: update_where_def map_idI)

lemma update_where_cong: "(\<And>r. r \<in> set rows \<Longrightarrow> p r = q r) \<Longrightarrow> update_where p f rows = update_where q f rows"
  by (simp add: update_where_def)

lemma new_rowid_above: "i \<in> set ids \<Longrightarrow> i < new_rowid ids"
proof -
  have "i \<le> foldr max ids 0" if "i \<in> set ids" for i using that by (induction ids) auto
  then show "i \<in> set ids \<Longrightarrow> i < new_rowid ids" by (fastforce simp: new_rowid_def)
qed

lemma new_rowid_positive: "new_rowid ids > 0"
proof -
  have "foldr max ids 0 \<ge> (0 :: int)" by (induction ids) auto
  then show ?thesis by (simp add: new_rowid_def)
qed

lemma new_rowid_fresh: "new_rowid ids \<notin> set ids"
  using new_rowid_above by blast

lemma find_SomeD: "find P xs = Some x \<Longrightarrow> x \<in> set xs \<and> P x"
  by (auto simp: find_Some_iff in_set_conv_nth)

lemma find_unique:
  assumes "distinct (map k xs)" and "x \<in> set xs"
  shows "find (\<lambda>y. k y = k x) xs = Some x"
  using assms by (induction xs) (auto simp: rev_image_eqI)

lemma distinct_map_eq: "distinct (map k xs) \<Longrightarrow> x \<in> set xs \<Longrightarrow> y \<in> set xs \<Longrightarrow> k x = k y \<Longrightarrow> x = y"
  by (metis distinct_map inj_onD)

lemma changed_rows_one:
  assumes "distinct (map k xs)" and "x \<in> set xs" and "P x" and "\<And>y. P y \<Longrightarrow> k y = k x"
  shows "changed_rows P xs = 1"
proof -
  have "set (filter P xs) \<subseteq> {x}"
  proof
    fix y assume "y \<in> set (filter P xs)"
    then have y: "y \<in> set xs" "P y" by simp_all
    then have "y = x" by (rule distinct_map_eq [OF assms(1) _ assms(2) assms(4)])
    then show "y \<in> {x}" by simp
  qed
  then have "set (filter P xs) = {x}" using assms(2,3) by force
  moreover have "distinct (filter P xs)" using assms(1) by (simp add: distinct_map)
  ultimately have "length (filter P xs) = card {x}" using distinct_card [of "filter P xs"] by simp
  then show ?thesis by (simp add: changed_rows_def)
qed

lemma candidate_by_idD: "candidate_by_id s i = Some c \<Longrightarrow> c \<in> set (st_candidates s) \<and> cr_id c = i"
  by (auto simp: candidate_by_id_def dest: find_SomeD)

lemma candidate_contextD: "candidate_context s i = Inr c \<Longrightarrow> candidate_by_id s i = Some c \<and> st_session s > 0"
  by (auto simp: candidate_context_def split: option.splits if_splits)

lemma add_event_simps [simp]:
  "st_candidates (add_event t k c r s) = st_candidates s" "st_attempts (add_event t k c r s) = st_attempts s"
  "st_lookups (add_event t k c r s) = st_lookups s" "st_rounds (add_event t k c r s) = st_rounds s"
  "st_verdicts (add_event t k c r s) = st_verdicts s" "st_abuse (add_event t k c r s) = st_abuse s"
  "st_deliveries (add_event t k c r s) = st_deliveries s" "st_session (add_event t k c r s) = st_session s"
  "st_blocknotify_enabled (add_event t k c r s) = st_blocknotify_enabled s"
  "candidate_by_id (add_event t k c r s) i = candidate_by_id s i"
  by (simp_all add: add_event_def candidate_by_id_def)

lemma parse_state_name [simp]: "parse_candidate_state (state_name st) = Inr st"
  by (cases st) (simp_all add: parse_candidate_state_def state_name_def)

section \<open>The life of one candidate\<close>

text \<open>The states as an abstract machine: what may follow what.\<close>

fun candidate_move :: "candidate_state \<Rightarrow> candidate_state \<Rightarrow> bool" where
  "candidate_move Cand_Journaled st \<longleftrightarrow>
     st \<in> {Cand_Journaled, Cand_Dispatching, Cand_Accepted, Cand_Accepted_By_Reconciliation}"
| "candidate_move Cand_Dispatching st \<longleftrightarrow> st \<noteq> Cand_Journaled"
| "candidate_move Cand_Retry_Wait st \<longleftrightarrow>
     st \<in> {Cand_Retry_Wait, Cand_Dispatching, Cand_Accepted, Cand_Accepted_By_Reconciliation}"
| "candidate_move Cand_Ambiguous st \<longleftrightarrow> st \<in> {Cand_Ambiguous, Cand_Accepted_By_Reconciliation}"
| "candidate_move Cand_Accepted st \<longleftrightarrow> st = Cand_Accepted"
| "candidate_move Cand_Rejected st \<longleftrightarrow> st = Cand_Rejected"
| "candidate_move Cand_Accepted_By_Reconciliation st \<longleftrightarrow> st = Cand_Accepted_By_Reconciliation"

text \<open>What of a row is written once.\<close>

definition same_block :: "candidate_row \<Rightarrow> candidate_row \<Rightarrow> bool" where
  "same_block c c' \<longleftrightarrow> cr_id c' = cr_id c \<and> cr_key c' = cr_key c \<and> cr_round c' = cr_round c \<and> cr_height c' = cr_height c \<and>
     cr_frozen c' = cr_frozen c \<and> cr_miner_tx c' = cr_miner_tx c \<and> cr_max_attempts c' = cr_max_attempts c \<and>
     cr_expected c' = cr_expected c"

definition advances :: "candidate_row \<Rightarrow> candidate_row \<Rightarrow> bool" where
  "advances c c' \<longleftrightarrow> same_block c c' \<and> candidate_move (cr_state c) (cr_state c') \<and> cr_attempts c \<le> cr_attempts c'"

text \<open>The attempts on record for a candidate agree with the columns of its row.\<close>

definition attempts_for :: "attempt_row list \<Rightarrow> candidate_row \<Rightarrow> attempt_row list" where
  "attempts_for as c = filter (\<lambda>a. at_candidate a = cr_id c) as"

definition outcomes_for :: "attempt_row list \<Rightarrow> candidate_row \<Rightarrow> attempt_outcome option set" where
  "outcomes_for as c = at_outcome ` set (attempts_for as c)"

definition attempts_agree :: "attempt_row list \<Rightarrow> candidate_row \<Rightarrow> bool" where
  "attempts_agree as c \<longleftrightarrow> 1 \<le> cr_max_attempts c \<and> cr_max_attempts c \<le> 4 \<and> cr_attempts c \<le> cr_max_attempts c \<and> 0 \<le> cr_attempts c \<and>
     map at_number (attempts_for as c) = [1..cr_attempts c] \<and>
     (\<forall>a\<in>set (attempts_for as c). at_outcome a = None \<longrightarrow> at_number a = cr_attempts c) \<and>
     (if accepted_state (cr_state c) then True
      else Some Outcome_Accepted \<notin> outcomes_for as c \<and>
        (cr_had_indeterminate c \<longleftrightarrow> Some Outcome_Indeterminate \<in> outcomes_for as c) \<and>
        (None \<in> outcomes_for as c \<longleftrightarrow> cr_state c = Cand_Dispatching)) \<and>
     (cr_state c = Cand_Journaled \<longrightarrow> cr_attempts c = 0) \<and>
     (cr_state c = Cand_Retry_Wait \<longrightarrow> 1 \<le> cr_attempts c \<and> cr_attempts c < cr_max_attempts c) \<and>
     (cr_state c = Cand_Ambiguous \<longrightarrow> cr_attempts c = cr_max_attempts c \<and> cr_had_indeterminate c) \<and>
     (cr_state c = Cand_Rejected \<longrightarrow> cr_attempts c = cr_max_attempts c \<and> \<not> cr_had_indeterminate c)"

definition candidates_inv :: "candidate_row list \<Rightarrow> attempt_row list \<Rightarrow> bool" where
  "candidates_inv cs as \<longleftrightarrow> distinct (map cr_id cs) \<and> distinct (map cr_key cs) \<and>
     (\<forall>c\<in>set cs. attempts_agree as c \<and> cr_id c > 0 \<and> cr_height c > 0) \<and>
     (\<forall>a\<in>set as. \<exists>c\<in>set cs. cr_id c = at_candidate a)"

text \<open>Rows change one by one; a change that leaves the columns of the attempts alone keeps agreement.\<close>

lemma attempts_agree_cong:
  assumes "cr_id c' = cr_id c" and "cr_max_attempts c' = cr_max_attempts c" and "cr_attempts c' = cr_attempts c"
    and "cr_state c' = cr_state c" and "cr_had_indeterminate c' = cr_had_indeterminate c"
  shows "attempts_agree as c' = attempts_agree as c"
  using assms by (simp add: attempts_agree_def attempts_for_def outcomes_for_def)

lemma attempts_agreeD:
  assumes "attempts_agree as c"
  shows "1 \<le> cr_max_attempts c" and "cr_max_attempts c \<le> 4" and "cr_attempts c \<le> cr_max_attempts c" and "0 \<le> cr_attempts c"
    and "map at_number (attempts_for as c) = [1..cr_attempts c]"
    and "\<And>a. a \<in> set (attempts_for as c) \<Longrightarrow> at_outcome a = None \<Longrightarrow> at_number a = cr_attempts c"
    and "\<not> accepted_state (cr_state c) \<Longrightarrow> Some Outcome_Accepted \<notin> outcomes_for as c"
    and "\<not> accepted_state (cr_state c) \<Longrightarrow> cr_had_indeterminate c \<longleftrightarrow> Some Outcome_Indeterminate \<in> outcomes_for as c"
    and "\<not> accepted_state (cr_state c) \<Longrightarrow> None \<in> outcomes_for as c \<longleftrightarrow> cr_state c = Cand_Dispatching"
    and "cr_state c = Cand_Rejected \<Longrightarrow> cr_attempts c = cr_max_attempts c \<and> \<not> cr_had_indeterminate c"
    and "cr_state c = Cand_Ambiguous \<Longrightarrow> cr_attempts c = cr_max_attempts c \<and> cr_had_indeterminate c"
  using assms unfolding attempts_agree_def by (auto split: if_splits)

lemma in_flight_attempted:
  assumes "attempts_agree as c" and "None \<in> outcomes_for as c"
  shows "1 \<le> cr_attempts c"
proof (rule ccontr)
  assume "\<not> 1 \<le> cr_attempts c"
  then have "attempts_for as c = []" using attempts_agreeD(5) [OF assms(1)] by simp
  then show False using assms(2) by (simp add: outcomes_for_def)
qed

lemma attempts_for_append: "attempts_for (as @ bs) c = attempts_for as c @ attempts_for bs c"
  by (simp add: attempts_for_def)

lemma attempts_for_update [simp]:
  "attempts_for as (cr_state_update f1 c) = attempts_for as c"
  "attempts_for as (cr_had_indeterminate_update f2 c) = attempts_for as c"
  "attempts_for as (cr_updated_update f3 c) = attempts_for as c"
  "attempts_for as (cr_reason_update f4 c) = attempts_for as c"
  by (simp_all add: attempts_for_def)

lemma outcomes_for_update [simp]:
  "outcomes_for as (cr_state_update f1 c) = outcomes_for as c"
  "outcomes_for as (cr_had_indeterminate_update f2 c) = outcomes_for as c"
  "outcomes_for as (cr_updated_update f3 c) = outcomes_for as c"
  "outcomes_for as (cr_reason_update f4 c) = outcomes_for as c"
  by (simp_all add: outcomes_for_def)

lemma candidates_inv_update:
  assumes "candidates_inv cs as"
    and "\<And>c. c \<in> set cs \<Longrightarrow> cr_id (f c) = cr_id c \<and> cr_key (f c) = cr_key c \<and> cr_height (f c) = cr_height c"
    and "\<And>c. c \<in> set cs \<Longrightarrow> attempts_agree as c \<Longrightarrow> attempts_agree as' (f c)"
    and "at_candidate ` set as' \<subseteq> cr_id ` set cs"
  shows "candidates_inv (map f cs) as'"
proof -
  have k: "map (cr_id \<circ> f) cs = map cr_id cs" "map (cr_key \<circ> f) cs = map cr_key cs"
    using assms(2) by (auto intro: map_cong)
  have "\<exists>c\<in>set cs. cr_id (f c) = at_candidate a" if "a \<in> set as'" for a
  proof -
    have "at_candidate a \<in> cr_id ` set cs" using assms(4) that by blast
    then obtain c where "c \<in> set cs" "cr_id c = at_candidate a" by (metis imageE)
    then show ?thesis using assms(2) [of c] by (intro bexI [of _ c]) simp_all
  qed
  moreover have "attempts_agree as' (f c) \<and> cr_id (f c) > 0 \<and> cr_height (f c) > 0" if "c \<in> set cs" for c
    using assms(1) assms(2) [OF that] assms(3) [OF that] that by (simp add: candidates_inv_def)
  moreover have "distinct (map cr_id (map f cs))" "distinct (map cr_key (map f cs))"
    unfolding map_map k using assms(1) by (simp_all add: candidates_inv_def)
  ultimately show ?thesis unfolding candidates_inv_def by simp
qed

lemma candidates_invD:
  assumes "candidates_inv cs as"
  shows "distinct (map cr_id cs)" and "distinct (map cr_key cs)" and "c \<in> set cs \<Longrightarrow> attempts_agree as c"
    and "at_candidate ` set as \<subseteq> cr_id ` set cs" and "c \<in> set cs \<Longrightarrow> cr_id c > 0 \<and> cr_height c > 0"
  using assms by (auto simp: candidates_inv_def) (metis image_eqI)

lemma attempts_for_map:
  assumes "\<And>a. at_candidate (g a) = at_candidate a"
  shows "attempts_for (map g as) c = map g (attempts_for as c)"
  by (simp add: attempts_for_def filter_map o_def assms)

text \<open>Acceptance is always allowed by the columns of the attempts.\<close>

lemma attempts_agree_accept:
  assumes "attempts_agree as c" and "accepted_state st"
  shows "attempts_agree as (c\<lparr>cr_state := st, cr_canonical := x, cr_accepted := y, cr_updated := z, cr_reason := w\<rparr>)"
  using assms by (auto simp: attempts_agree_def attempts_for_def outcomes_for_def accepted_state_def)

lemma attempts_agree_start:
  assumes "attempts_agree as c" and "eligible False (cr_state c)" and "cr_state c \<noteq> Cand_Dispatching"
    and "n = cr_attempts c + 1" and "n \<le> cr_max_attempts c" and "at_candidate a = cr_id c" and "at_number a = n"
    and "at_outcome a = None"
  shows "attempts_agree (as @ [a]) (c\<lparr>cr_state := Cand_Dispatching, cr_attempts := n, cr_updated := t\<rparr>)"
proof -
  let ?c = "c\<lparr>cr_state := Cand_Dispatching, cr_attempts := n, cr_updated := t\<rparr>"
  have mine: "attempts_for (as @ [a]) ?c = attempts_for as c @ [a]"
    using assms(6) by (simp add: attempts_for_def)
  have "None \<notin> outcomes_for as c"
    using assms(1-3) by (auto simp: attempts_agree_def eligible_def accepted_state_def)
  then have none: "\<forall>a\<in>set (attempts_for as c). at_outcome a \<noteq> None" by (force simp: outcomes_for_def)
  have numbers: "map at_number (attempts_for as c @ [a]) = [1..n]"
    using assms(1,4,7) by (simp add: attempts_agree_def upto_rec2)
  show ?thesis
    using assms none numbers unfolding attempts_agree_def outcomes_for_def mine
    by (auto simp: eligible_def accepted_state_def outcomes_for_def)
qed

text \<open>A change of attempts that belong to another candidate.\<close>

lemma attempts_agree_other:
  assumes "attempts_agree as c" and "attempts_for as' c = attempts_for as c"
  shows "attempts_agree as' c"
proof -
  have "outcomes_for as' c = outcomes_for as c" by (simp add: outcomes_for_def assms(2))
  then show ?thesis using assms by (simp add: attempts_agree_def)
qed

lemma attempts_agree_settled:
  assumes "1 \<le> cr_max_attempts c" and "cr_max_attempts c \<le> 4" and "1 \<le> cr_attempts c" and "cr_attempts c \<le> cr_max_attempts c"
    and "map at_number (attempts_for as c) = [1..cr_attempts c]" and none: "None \<notin> outcomes_for as c"
    and "Some Outcome_Accepted \<notin> outcomes_for as c"
    and "cr_had_indeterminate c \<longleftrightarrow> Some Outcome_Indeterminate \<in> outcomes_for as c"
    and st: "cr_state c = next_state c (cr_attempts c) (cr_had_indeterminate c)"
  shows "attempts_agree as c"
proof -
  have "\<forall>a\<in>set (attempts_for as c). at_outcome a = None \<longrightarrow> at_number a = cr_attempts c"
    using none by (force simp: outcomes_for_def)
  moreover have "cr_attempts c \<noteq> 0" using assms(3) by simp
  ultimately show ?thesis using assms(1-8) st unfolding attempts_agree_def
    by (auto simp: next_state_def accepted_state_def)
qed

lemma attempts_agree_accepted:
  assumes "attempts_agree as c" and "accepted_state (cr_state c)"
    and "map at_number (attempts_for as' c) = map at_number (attempts_for as c)"
    and "\<And>a. a \<in> set (attempts_for as' c) \<Longrightarrow> at_outcome a = None \<Longrightarrow> a \<in> set (attempts_for as c)"
  shows "attempts_agree as' c"
  using assms by (auto simp: attempts_agree_def)

lemma attempts_for_close:
  "attempts_for (st_attempts (close_attempt cid n done s)) c =
     (if cr_id c = cid then update_where (\<lambda>a. at_number a = n \<and> at_outcome a = None)
        (\<lambda>a. a\<lparr>at_outcome := Some (ac_outcome done), at_completion := Some done, at_excerpt := ac_excerpt done\<rparr>)
        (attempts_for (st_attempts s) c)
      else attempts_for (st_attempts s) c)"
proof -
  let ?f = "\<lambda>a. a\<lparr>at_outcome := Some (ac_outcome done), at_completion := Some done, at_excerpt := ac_excerpt done\<rparr>"
  let ?p = "\<lambda>a. at_candidate a = cid \<and> at_number a = n \<and> at_outcome a = None"
  have "attempts_for (st_attempts (close_attempt cid n done s)) c = update_where ?p ?f (attempts_for (st_attempts s) c)"
    by (simp add: close_attempt_def attempts_for_def filter_update_where)
  moreover have "a \<in> set (attempts_for (st_attempts s) c) \<Longrightarrow> at_candidate a = cr_id c" for a
    by (simp add: attempts_for_def)
  ultimately show ?thesis
    by (auto intro!: update_where_cong simp: update_where_id)
qed

lemma outcomes_replace:
  assumes "\<And>a. a \<in> set as \<Longrightarrow> p a \<longleftrightarrow> at_outcome a = None" and "\<And>a. at_outcome (f a) = Some out"
    and "None \<in> at_outcome ` set as"
  shows "at_outcome ` set (update_where p f as) = insert (Some out) (at_outcome ` set as - {None})"
proof (intro set_eqI iffI)
  fix x assume "x \<in> at_outcome ` set (update_where p f as)"
  then obtain a where a: "a \<in> set as" "x = at_outcome (if p a then f a else a)"
    by (auto simp: set_update_where)
  then show "x \<in> insert (Some out) (at_outcome ` set as - {None})"
    using assms(1) [OF a(1)] assms(2) by (cases "p a") simp_all
next
  fix x assume x: "x \<in> insert (Some out) (at_outcome ` set as - {None})"
  obtain a where "a \<in> set as" "x = at_outcome (if p a then f a else a)"
  proof (cases "x = Some out")
    case True
    obtain b where "b \<in> set as" "at_outcome b = None" using assms(3) by (metis imageE)
    then show ?thesis using that [of b] assms(1,2) True by simp
  next
    case False
    then obtain b where b: "b \<in> set as" "x = at_outcome b" "x \<noteq> None" using x by auto
    then have "\<not> p b" using assms(1) by simp
    then show ?thesis using that [of b] b by simp
  qed
  then show "x \<in> at_outcome ` set (update_where p f as)" by (simp add: update_where_def)
qed

text \<open>Closing the attempt in flight puts its outcome in place of it.\<close>

lemma outcomes_close:
  assumes "attempts_agree (st_attempts s) c" and "None \<in> outcomes_for (st_attempts s) c" and "n = cr_attempts c"
  shows "outcomes_for (st_attempts (close_attempt (cr_id c) n done s)) c =
    insert (Some (ac_outcome done)) (outcomes_for (st_attempts s) c - {None})"
proof -
  let ?as = "attempts_for (st_attempts s) c"
  have last: "at_number a = n" if "a \<in> set ?as" and "at_outcome a = None" for a
    using attempts_agreeD(6) [OF assms(1)] assms(3) that by simp
  show ?thesis
    unfolding outcomes_for_def attempts_for_close
    using last assms(2) by (simp only: refl if_True) (rule outcomes_replace, auto simp: outcomes_for_def)
qed

lemma numbers_close:
  "map at_number (attempts_for (st_attempts (close_attempt cid n done s)) c) = map at_number (attempts_for (st_attempts s) c)"
  by (simp add: attempts_for_close)

lemma attempts_agree_fail:
  assumes "attempts_agree (st_attempts s) c" and "cr_state c = Cand_Dispatching" and "n = cr_attempts c"
    and "ac_outcome done \<noteq> Outcome_Accepted" and "had \<longleftrightarrow> cr_had_indeterminate c \<or> ac_outcome done = Outcome_Indeterminate"
  shows "attempts_agree (st_attempts (close_attempt (cr_id c) n done s))
    (c\<lparr>cr_state := next_state c n had, cr_had_indeterminate := had, cr_updated := t, cr_reason := w\<rparr>)"
proof -
  let ?as = "st_attempts s" and ?as' = "st_attempts (close_attempt (cr_id c) n done s)"
  let ?c = "c\<lparr>cr_state := next_state c n had, cr_had_indeterminate := had, cr_updated := t, cr_reason := w\<rparr>"
  have open_state: "\<not> accepted_state (cr_state c)" using assms(2) by (simp add: accepted_state_def)
  note agree = attempts_agreeD [OF assms(1)]
  have none: "None \<in> outcomes_for ?as c" using agree(9) [OF open_state] assms(2) by simp
  note old = agree(7) [OF open_state] agree(8) [OF open_state]
  have out: "outcomes_for ?as' c = insert (Some (ac_outcome done)) (outcomes_for ?as c - {None})"
    by (rule outcomes_close [OF assms(1) none assms(3)])
  have nums: "map at_number (attempts_for ?as' c) = [1..n]" unfolding numbers_close assms(3) by (rule agree(5))
  show ?thesis
  proof (rule attempts_agree_settled)
    show "1 \<le> cr_max_attempts ?c" "cr_max_attempts ?c \<le> 4" "cr_attempts ?c \<le> cr_max_attempts ?c"
      using agree(1-3) by simp_all
    show "1 \<le> cr_attempts ?c" using in_flight_attempted [OF assms(1) none] by simp
    show "map at_number (attempts_for ?as' ?c) = [1..cr_attempts ?c]" using nums assms(3) by simp
    show "None \<notin> outcomes_for ?as' ?c" "Some Outcome_Accepted \<notin> outcomes_for ?as' ?c"
      using out old(1) assms(4) by simp_all
    have "had \<longleftrightarrow> Some Outcome_Indeterminate \<in> insert (Some (ac_outcome done)) (outcomes_for ?as c - {None})"
      using assms(5) old(2) by (cases "ac_outcome done") simp_all
    then show "cr_had_indeterminate ?c \<longleftrightarrow> Some Outcome_Indeterminate \<in> outcomes_for ?as' ?c"
      using out by simp
    show "cr_state ?c = next_state ?c (cr_attempts ?c) (cr_had_indeterminate ?c)"
      using assms(3) by (simp add: next_state_def)
  qed
qed

text \<open>A restart makes the attempt in flight indeterminate.\<close>

lemma attempts_agree_restart:
  assumes "attempts_agree (st_attempts s) c" and "c' = (if cr_state c = Cand_Dispatching then c\<lparr>cr_had_indeterminate := True,
      cr_state := next_state c (cr_attempts c) True, cr_reason := w\<rparr> else c)"
  shows "attempts_agree (st_attempts (recover_inflight_candidates s)) c'"
proof -
  let ?f = "\<lambda>a. a\<lparr>at_outcome := Some Outcome_Indeterminate, at_excerpt := Some (case at_excerpt a of
      None \<Rightarrow> ''process restarted while daemon request was in flight'' | Some x \<Rightarrow> x)\<rparr>"
  let ?as = "st_attempts s" and ?as' = "st_attempts (recover_inflight_candidates s)"
  have mine: "attempts_for ?as' c = update_where (\<lambda>a. at_outcome a = None) ?f (attempts_for ?as c)"
    by (simp add: recover_inflight_candidates_def attempts_for_def filter_update_where)
  have nums: "map at_number (attempts_for ?as' c) = map at_number (attempts_for ?as c)" by (simp add: mine)
  have none: "None \<notin> outcomes_for ?as' c"
    unfolding outcomes_for_def mine update_where_def set_map image_image by (auto split: if_splits)
  show ?thesis
  proof (cases "None \<in> outcomes_for ?as c")
    case False
    then have "attempts_for ?as' c = attempts_for ?as c"
      unfolding mine by (intro update_where_id) (force simp: outcomes_for_def)
    then have "attempts_agree ?as' c" by (rule attempts_agree_other [OF assms(1)])
    moreover have "cr_state c \<noteq> Cand_Dispatching"
      using attempts_agreeD(9) [OF assms(1)] False by (auto simp: accepted_state_def)
    ultimately show ?thesis using assms(2) by simp
  next
    case True
    then have out: "outcomes_for ?as' c = insert (Some Outcome_Indeterminate) (outcomes_for ?as c - {None})"
      unfolding outcomes_for_def mine by (intro outcomes_replace) simp_all
    show ?thesis
    proof (cases "accepted_state (cr_state c)")
      case True
      then have "cr_state c \<noteq> Cand_Dispatching" by (auto simp: accepted_state_def)
      then have "c' = c" using assms(2) by simp
      moreover have "\<not> (a \<in> set (attempts_for ?as' c) \<and> at_outcome a = None)" for a
        using none by (force simp: outcomes_for_def)
      ultimately show ?thesis using attempts_agree_accepted [OF assms(1) True nums] by blast
    next
      case False
      then have st: "cr_state c = Cand_Dispatching"
        using attempts_agreeD(9) [OF assms(1)] \<open>None \<in> outcomes_for ?as c\<close> by simp
      have "1 \<le> cr_attempts c" by (rule in_flight_attempted [OF assms(1) \<open>None \<in> outcomes_for ?as c\<close>])
      note old = attempts_agreeD(5) [OF assms(1)] attempts_agreeD(7) [OF assms(1) False] attempts_agreeD(1-3) [OF assms(1)]
      let ?c = "c\<lparr>cr_had_indeterminate := True, cr_state := next_state c (cr_attempts c) True, cr_reason := w\<rparr>"
      have c': "c' = ?c" using assms(2) st by simp
      show ?thesis unfolding c'
      proof (rule attempts_agree_settled)
        show "1 \<le> cr_max_attempts ?c" "cr_max_attempts ?c \<le> 4" "cr_attempts ?c \<le> cr_max_attempts ?c" using old by simp_all
        show "1 \<le> cr_attempts ?c" using \<open>1 \<le> cr_attempts c\<close> by simp
        show "map at_number (attempts_for ?as' ?c) = [1..cr_attempts ?c]" using nums old(1) by simp
        show "None \<notin> outcomes_for ?as' ?c" "Some Outcome_Accepted \<notin> outcomes_for ?as' ?c"
          "cr_had_indeterminate ?c \<longleftrightarrow> Some Outcome_Indeterminate \<in> outcomes_for ?as' ?c"
          using out old(2) by simp_all
        show "cr_state ?c = next_state ?c (cr_attempts ?c) (cr_had_indeterminate ?c)" by (simp add: next_state_def)
      qed
    qed
  qed
qed

section \<open>Effects of the operations\<close>

lemma try_finalize_effect:
  assumes "try_finalize_round v rid t s = Inr (b, s')"
  shows "\<exists>p x. s' = s\<lparr>st_rounds := update_where p (\<lambda>r. r\<lparr>rd_finalized := x\<rparr>) (st_rounds s)\<rparr>"
proof -
  have same: "s = s\<lparr>st_rounds := update_where (\<lambda>_. False) (\<lambda>r. r\<lparr>rd_finalized := None\<rparr>) (st_rounds s)\<rparr>"
    by (simp add: update_where_id)
  show ?thesis
  proof (cases b)
    case False
    then have "s' = s" using assms by (auto simp: try_finalize_round_def split: if_splits option.splits sum.splits)
    then show ?thesis using same by blast
  next
    case True
    then obtain p x where "s' = s\<lparr>st_rounds := update_where p (\<lambda>r. r\<lparr>rd_finalized := x\<rparr>) (st_rounds s)\<rparr>"
      using assms by (auto simp: try_finalize_round_def split: if_splits option.splits sum.splits)
    then show ?thesis by blast
  qed
qed

lemma queue_notification_simps [simp]:
  "st_candidates (queue_notification c s) = st_candidates s" "st_attempts (queue_notification c s) = st_attempts s"
  "st_lookups (queue_notification c s) = st_lookups s" "st_rounds (queue_notification c s) = st_rounds s"
  "st_verdicts (queue_notification c s) = st_verdicts s" "st_abuse (queue_notification c s) = st_abuse s"
  "st_session (queue_notification c s) = st_session s"
  "st_blocknotify_enabled (queue_notification c s) = st_blocknotify_enabled s"
  by (simp_all add: queue_notification_def)

lemma deliveries_queue_notification:
  "st_deliveries s' = st_deliveries s \<Longrightarrow> st_blocknotify_enabled s' = st_blocknotify_enabled s \<Longrightarrow>
   st_deliveries (queue_notification c s') = st_deliveries (queue_notification c s)"
  by (simp add: queue_notification_def)

definition fresh_round :: "int \<Rightarrow> store \<Rightarrow> round_row" where
  "fresh_round t s = last (st_rounds (snd (open_new_round t s)))"

lemma open_new_round_effect:
  "open_new_round t s = (rd_id (fresh_round t s), s\<lparr>st_rounds := st_rounds s @ [fresh_round t s]\<rparr>)"
  "rd_closed (fresh_round t s) = None" "rd_candidate (fresh_round t s) = None"
  "rd_id (fresh_round t s) = new_rowid (map rd_id (st_rounds s))"
  by (simp_all add: open_new_round_def fresh_round_def Let_def)

lemma accepted_tables:
  "st_candidates (mark_accepted c t canonical by_reconciliation s) =
     update_where (\<lambda>x. cr_id x = cr_id c) (accepted_row t canonical by_reconciliation) (st_candidates s)"
  "st_verdicts (mark_accepted c t canonical by_reconciliation s) =
     update_where (\<lambda>x. vd_candidate x = Some (cr_id c) \<and> vd_disposition x = Verdict_Pending)
       (\<lambda>x. x\<lparr>vd_disposition := Verdict_Suppressed, vd_resolved := Some t\<rparr>) (st_verdicts s)"
  "st_rounds (mark_accepted c t canonical by_reconciliation s) = st_rounds s"
  "st_rounds (close_round c t canonical s) =
     update_where (\<lambda>r. rd_id r = cr_round c \<and> rd_closed r = None) (closed_row c t canonical) (st_rounds s)"
  by (simp_all add: mark_accepted_def close_round_def)

lemma record_acceptance_effect:
  "st_candidates (record_acceptance c rid t canonical by_reconciliation s) =
     update_where (\<lambda>x. cr_id x = cr_id c) (accepted_row t canonical by_reconciliation) (st_candidates s)"
  "st_attempts (record_acceptance c rid t canonical by_reconciliation s) = st_attempts s"
  "st_lookups (record_acceptance c rid t canonical by_reconciliation s) = st_lookups s"
  "st_session (record_acceptance c rid t canonical by_reconciliation s) = st_session s"
  "st_abuse (record_acceptance c rid t canonical by_reconciliation s) = st_abuse s"
  "st_blocknotify_enabled (record_acceptance c rid t canonical by_reconciliation s) = st_blocknotify_enabled s"
  "st_verdicts (record_acceptance c rid t canonical by_reconciliation s) =
     update_where (\<lambda>x. vd_candidate x = Some (cr_id c) \<and> vd_disposition x = Verdict_Pending)
       (\<lambda>x. x\<lparr>vd_disposition := Verdict_Suppressed, vd_resolved := Some t\<rparr>) (st_verdicts s)"
  "st_deliveries (record_acceptance c rid t canonical by_reconciliation s) = st_deliveries (queue_notification c s)"
  "\<exists>new. rd_closed new = None \<and> rd_candidate new = None \<and> rd_id new = new_rowid (map rd_id (st_rounds s)) \<and>
     st_rounds (record_acceptance c rid t canonical by_reconciliation s) =
       update_where (\<lambda>r. rd_id r = cr_round c \<and> rd_closed r = None) (closed_row c t canonical) (st_rounds s) @ [new]"
proof -
  let ?s1 = "close_round c t canonical (mark_accepted c t canonical by_reconciliation s)"
  let ?s2 = "?s1\<lparr>st_rounds := st_rounds ?s1 @ [fresh_round t ?s1]\<rparr>"
  obtain s3 where r: "record_acceptance c rid t canonical by_reconciliation s = queue_notification c s3"
    and s3: "st_candidates s3 = st_candidates ?s2" "st_attempts s3 = st_attempts ?s2" "st_lookups s3 = st_lookups ?s2"
      "st_session s3 = st_session ?s2" "st_abuse s3 = st_abuse ?s2" "st_verdicts s3 = st_verdicts ?s2"
      "st_rounds s3 = st_rounds ?s2" "st_deliveries s3 = st_deliveries ?s2"
      "st_blocknotify_enabled s3 = st_blocknotify_enabled ?s2"
    by (rule that [OF record_acceptance_def [unfolded Let_def open_new_round_effect(1) prod.case]]) simp_all
  have same: "st_attempts ?s1 = st_attempts s" "st_lookups ?s1 = st_lookups s" "st_session ?s1 = st_session s"
    "st_abuse ?s1 = st_abuse s" "st_deliveries ?s1 = st_deliveries s"
    "st_blocknotify_enabled ?s1 = st_blocknotify_enabled s"
    "st_candidates ?s1 = st_candidates (mark_accepted c t canonical by_reconciliation s)"
    "st_verdicts ?s1 = st_verdicts (mark_accepted c t canonical by_reconciliation s)"
    by (simp_all add: close_round_def mark_accepted_def)
  show "st_candidates (record_acceptance c rid t canonical by_reconciliation s) =
      update_where (\<lambda>x. cr_id x = cr_id c) (accepted_row t canonical by_reconciliation) (st_candidates s)"
    "st_attempts (record_acceptance c rid t canonical by_reconciliation s) = st_attempts s"
    "st_lookups (record_acceptance c rid t canonical by_reconciliation s) = st_lookups s"
    "st_session (record_acceptance c rid t canonical by_reconciliation s) = st_session s"
    "st_abuse (record_acceptance c rid t canonical by_reconciliation s) = st_abuse s"
    "st_blocknotify_enabled (record_acceptance c rid t canonical by_reconciliation s) = st_blocknotify_enabled s"
    "st_verdicts (record_acceptance c rid t canonical by_reconciliation s) =
      update_where (\<lambda>x. vd_candidate x = Some (cr_id c) \<and> vd_disposition x = Verdict_Pending)
        (\<lambda>x. x\<lparr>vd_disposition := Verdict_Suppressed, vd_resolved := Some t\<rparr>) (st_verdicts s)"
    unfolding r by (simp_all add: s3 same accepted_tables)
  show "st_deliveries (record_acceptance c rid t canonical by_reconciliation s) = st_deliveries (queue_notification c s)"
    unfolding r by (rule deliveries_queue_notification) (simp_all add: s3 same)
  have "map rd_id (st_rounds ?s1) = map rd_id (st_rounds s)"
    by (simp add: accepted_tables closed_row_def)
  then have "rd_id (fresh_round t ?s1) = new_rowid (map rd_id (st_rounds s))" by (simp only: open_new_round_effect(4))
  then show "\<exists>new. rd_closed new = None \<and> rd_candidate new = None \<and> rd_id new = new_rowid (map rd_id (st_rounds s)) \<and>
     st_rounds (record_acceptance c rid t canonical by_reconciliation s) =
       update_where (\<lambda>r. rd_id r = cr_round c \<and> rd_closed r = None) (closed_row c t canonical) (st_rounds s) @ [new]"
    unfolding r queue_notification_simps s3
    by (intro exI [of _ "fresh_round t ?s1"]) (simp add: open_new_round_effect(2,3) accepted_tables)
qed

text \<open>What an acceptance writes.\<close>

definition accepts_block :: "int \<Rightarrow> int \<Rightarrow> bytes option \<Rightarrow> bool \<Rightarrow> candidate_row \<Rightarrow> round_row \<Rightarrow> store \<Rightarrow> store \<Rightarrow> bool" where
  "accepts_block cid t canonical by_reconciliation c r s s' \<longleftrightarrow>
     candidate_by_id s cid = Some c \<and> eligible by_reconciliation (cr_state c) \<and> open_rounds s = [r] \<and> rd_id r = cr_round c \<and>
     st_candidates s' = update_where (\<lambda>x. cr_id x = cid) (accepted_row t canonical by_reconciliation) (st_candidates s) \<and>
     st_attempts s' = st_attempts s \<and> st_lookups s' = st_lookups s \<and> st_session s' = st_session s \<and> st_abuse s' = st_abuse s \<and>
     st_verdicts s' = update_where (\<lambda>x. vd_candidate x = Some cid \<and> vd_disposition x = Verdict_Pending)
       (\<lambda>x. x\<lparr>vd_disposition := Verdict_Suppressed, vd_resolved := Some t\<rparr>) (st_verdicts s) \<and>
     st_deliveries s' = st_deliveries (queue_notification c s) \<and> st_blocknotify_enabled s' = st_blocknotify_enabled s \<and>
     (\<exists>p x new. rd_closed new = None \<and> rd_candidate new = None \<and> rd_id new = new_rowid (map rd_id (st_rounds s)) \<and>
       st_rounds s' = update_where p (\<lambda>r. r\<lparr>rd_finalized := x\<rparr>)
         (update_where (\<lambda>r. rd_id r = cr_round c \<and> rd_closed r = None) (closed_row c t canonical) (st_rounds s) @ [new]))"

lemma accept_effect:
  assumes "accept_candidate_in_transaction v cid t canonical by_reconciliation s = Inr (b, s')"
  shows "(s' = s \<and> \<not> b \<and> (\<exists>c. candidate_by_id s cid = Some c \<and> accepted_state (cr_state c))) \<or>
    (b \<and> (\<exists>c r. accepts_block cid t canonical by_reconciliation c r s s'))"
proof -
  obtain c where ctx: "candidate_context s cid = Inr c"
    using assms by (cases "candidate_context s cid") (simp_all add: accept_candidate_in_transaction_def)
  have c: "candidate_context s cid = Inr c" "candidate_by_id s cid = Some c" "cr_id c = cid"
    using ctx candidate_contextD [OF ctx] candidate_by_idD by blast+
  show ?thesis
  proof (cases "accepted_state (cr_state c)")
    case True
    then show ?thesis using assms c by (simp add: accept_candidate_in_transaction_def)
  next
    case False
    let ?s1 = "record_acceptance c (cr_round c) t canonical by_reconciliation s"
    obtain r b' where r: "open_rounds s = [r]" "rd_id r = cr_round c" "eligible by_reconciliation (cr_state c)" "b"
      and fin: "try_finalize_round v (cr_round c) t ?s1 = Inr (b', s')"
      using assms False c(1)
      by (auto simp: accept_candidate_in_transaction_def split: if_splits list.splits sum.splits bool.splits)
    obtain p x where s': "s' = ?s1\<lparr>st_rounds := update_where p (\<lambda>r. r\<lparr>rd_finalized := x\<rparr>) (st_rounds ?s1)\<rparr>"
      using try_finalize_effect [OF fin] by blast
    obtain new where new: "rd_closed new = None" "rd_candidate new = None" "rd_id new = new_rowid (map rd_id (st_rounds s))"
        "st_rounds ?s1 = update_where (\<lambda>r. rd_id r = cr_round c \<and> rd_closed r = None) (closed_row c t canonical) (st_rounds s) @ [new]"
      using record_acceptance_effect(9) [of s c "cr_round c" t canonical by_reconciliation] by blast
    have "accepts_block cid t canonical by_reconciliation c r s s'"
      unfolding accepts_block_def
    proof (intro conjI)
      show "\<exists>p x new. rd_closed new = None \<and> rd_candidate new = None \<and> rd_id new = new_rowid (map rd_id (st_rounds s)) \<and>
          st_rounds s' = update_where p (\<lambda>r. r\<lparr>rd_finalized := x\<rparr>)
            (update_where (\<lambda>r. rd_id r = cr_round c \<and> rd_closed r = None) (closed_row c t canonical) (st_rounds s) @ [new])"
        using new by (intro exI [of _ p] exI [of _ x] exI [of _ new]) (simp add: s')
    qed (use r(1-3) c(2,3) in \<open>simp_all add: s' record_acceptance_effect(1-8)\<close>)
    then show ?thesis using r(4) by blast
  qed
qed

section \<open>Every operation respects the life of a candidate\<close>

abbreviation cand_inv :: "store \<Rightarrow> bool" where
  "cand_inv s \<equiv> candidates_inv (st_candidates s) (st_attempts s)"

definition evolves :: "store \<Rightarrow> store \<Rightarrow> bool" where
  "evolves s s' \<longleftrightarrow> (\<forall>c\<in>set (st_candidates s). \<exists>c'\<in>set (st_candidates s'). advances c c')"

definition keeps_candidates :: "store \<Rightarrow> store \<Rightarrow> bool" where
  "keeps_candidates s s' \<longleftrightarrow> cand_inv s' \<and> evolves s s'"

lemma candidate_move_refl [simp]: "candidate_move st st"
  by (cases st) simp_all

lemma advances_refl [simp]: "advances c c"
  by (simp add: advances_def same_block_def)

lemma keeps_same:
  "cand_inv s \<Longrightarrow> st_candidates s' = st_candidates s \<Longrightarrow> st_attempts s' = st_attempts s \<Longrightarrow> keeps_candidates s s'"
  unfolding keeps_candidates_def evolves_def using advances_refl by fastforce

lemma keeps_update:
  assumes "cand_inv s" and "st_candidates s' = map f (st_candidates s)"
    and "\<And>c. c \<in> set (st_candidates s) \<Longrightarrow> advances c (f c)"
    and "\<And>c. c \<in> set (st_candidates s) \<Longrightarrow> attempts_agree (st_attempts s) c \<Longrightarrow> attempts_agree (st_attempts s') (f c)"
    and "at_candidate ` set (st_attempts s') \<subseteq> cr_id ` set (st_candidates s)"
  shows "keeps_candidates s s'"
proof -
  have "candidates_inv (map f (st_candidates s)) (st_attempts s')"
  proof (rule candidates_inv_update [OF assms(1)])
    show "cr_id (f c) = cr_id c \<and> cr_key (f c) = cr_key c \<and> cr_height (f c) = cr_height c" if "c \<in> set (st_candidates s)" for c
      using assms(3) [OF that] by (simp add: advances_def same_block_def)
  qed (use assms(4,5) in auto)
  then show ?thesis using assms(2,3) by (auto simp: keeps_candidates_def evolves_def)
qed

text \<open>An update of columns that do not belong to the life of the candidate.\<close>

lemma keeps_columns:
  assumes "cand_inv s" and "st_candidates s' = update_where p f (st_candidates s)" and "st_attempts s' = st_attempts s"
    and "\<And>c. same_block c (f c) \<and> cr_attempts (f c) = cr_attempts c \<and> cr_state (f c) = cr_state c \<and>
      cr_had_indeterminate (f c) = cr_had_indeterminate c"
  shows "keeps_candidates s s'"
proof (rule keeps_update [OF assms(1), of _ "\<lambda>c. if p c then f c else c"])
  show "st_candidates s' = map (\<lambda>c. if p c then f c else c) (st_candidates s)"
    by (simp add: assms(2) update_where_def)
  show "advances c (if p c then f c else c)" for c
    using assms(4) [of c] by (simp add: advances_def same_block_def)
  show "attempts_agree (st_attempts s') (if p c then f c else c)" if "attempts_agree (st_attempts s) c" for c
    using that assms(3) assms(4) [of c] attempts_agree_cong [of "f c" c] by (simp add: same_block_def)
  show "at_candidate ` set (st_attempts s') \<subseteq> cr_id ` set (st_candidates s)"
    using candidates_invD(4) [OF assms(1)] assms(3) by simp
qed

lemma accepted_row_simps [simp]:
  "same_block c (accepted_row t x b c)" "cr_attempts (accepted_row t x b c) = cr_attempts c"
  "cr_state (accepted_row t x b c) = (if b then Cand_Accepted_By_Reconciliation else Cand_Accepted)"
  by (simp_all add: accepted_row_def same_block_def)

lemma eligible_accept_move:
  "eligible b st \<Longrightarrow> candidate_move st (if b then Cand_Accepted_By_Reconciliation else Cand_Accepted)"
  by (cases st) (auto simp: eligible_def)

lemma accepts_keeps:
  assumes "cand_inv s" and "accepts_block cid t canonical b c r s s'"
  shows "keeps_candidates s s'"
proof (rule keeps_update [OF assms(1), of _ "\<lambda>x. if cr_id x = cid then accepted_row t canonical b x else x"])
  note a = assms(2) [unfolded accepts_block_def]
  show "st_candidates s' = map (\<lambda>x. if cr_id x = cid then accepted_row t canonical b x else x) (st_candidates s)"
    using a by (simp add: update_where_def)
  have cm: "c \<in> set (st_candidates s)" "cr_id c = cid" using a candidate_by_idD by blast+
  show "advances x (if cr_id x = cid then accepted_row t canonical b x else x)" if "x \<in> set (st_candidates s)" for x
  proof (cases "cr_id x = cid")
    case True
    then have "x = c" using distinct_map_eq [OF candidates_invD(1) [OF assms(1)] that cm(1)] cm(2) by simp
    then show ?thesis using True a eligible_accept_move by (simp add: advances_def)
  qed simp
  show "attempts_agree (st_attempts s') (if cr_id x = cid then accepted_row t canonical b x else x)"
    if "attempts_agree (st_attempts s) x" for x
    using that a attempts_agree_accept [OF that] by (simp add: accepted_row_def accepted_state_def)
  show "at_candidate ` set (st_attempts s') \<subseteq> cr_id ` set (st_candidates s)"
    using candidates_invD(4) [OF assms(1)] a by simp
qed

lemma accept_in_transaction_keeps:
  assumes "cand_inv s" and "accept_candidate_in_transaction v cid t canonical b s = Inr (x, s')"
  shows "keeps_candidates s s'"
  using accept_effect [OF assms(2)] accepts_keeps [OF assms(1)] keeps_same [OF assms(1)] by blast

lemma evolves_trans_same:
  "st_candidates s2 = st_candidates s1 \<Longrightarrow> keeps_candidates s2 s3 \<Longrightarrow> keeps_candidates s1 s3"
  by (simp add: keeps_candidates_def evolves_def)

lemma journal_keeps:
  assumes inv: "cand_inv s" and j: "journal_candidate_row v j s = Inr (x, s')"
  shows "keeps_candidates s s'"
proof (cases "s' = s")
  case True
  then show ?thesis using keeps_same [OF inv] by simp
next
  case False
  let ?i = "new_rowid (map cr_id (st_candidates s))"
  have guard: "journal_guard v j = Inr ()" and new: "candidate_by_key s (cj_key j) = None"
    and ins: "insert_candidate j s = Inr (x, s')"
    using j False by (auto simp: journal_candidate_row_def and_then_eq_Inr split: option.splits if_splits sum.splits bool.splits)
  have cs: "st_candidates s' = st_candidates s @ [fresh_candidate ?i j]" and as: "st_attempts s' = st_attempts s"
    using ins by (auto simp: insert_candidate_def Let_def split: sum.splits)
  have key: "cj_key j \<notin> cr_key ` set (st_candidates s)"
    using new by (auto simp: candidate_by_key_def find_None_iff)
  have "cj_max_attempts j \<ge> 1" "cj_max_attempts j \<le> 4" "cj_height j \<noteq> 0"
    using guard by (auto simp: journal_guard_def split: if_splits)
  then have limits: "1 \<le> uint (cj_max_attempts j)" "uint (cj_max_attempts j) \<le> 4" "uint (cj_height j) > 0"
    using unsigned_greater_eq [of "cj_height j", where 'a = int]
    by (simp_all add: word_le_def less_le uint_0_iff)
  have "?i \<notin> at_candidate ` set (st_attempts s)"
    using candidates_invD(4) [OF inv] new_rowid_fresh [of "map cr_id (st_candidates s)"] by (metis list.set_map subsetD)
  then have "attempts_for (st_attempts s) (fresh_candidate ?i j) = []"
    by (force simp: attempts_for_def filter_empty_conv fresh_candidate_def)
  then have "attempts_agree (st_attempts s) (fresh_candidate ?i j)"
    using limits by (simp add: attempts_agree_def outcomes_for_def accepted_state_def) (simp add: fresh_candidate_def)
  moreover have "cr_id (fresh_candidate ?i j) = ?i" "cr_key (fresh_candidate ?i j) = cj_key j" "cr_height (fresh_candidate ?i j) > 0"
    using limits(3) by (simp_all add: fresh_candidate_def)
  ultimately have "candidates_inv (st_candidates s') (st_attempts s')"
    using inv key new_rowid_fresh [of "map cr_id (st_candidates s)"] new_rowid_positive [of "map cr_id (st_candidates s)"]
    unfolding cs as candidates_inv_def by simp
  moreover have "evolves s s'" unfolding evolves_def cs using advances_refl by fastforce
  ultimately show ?thesis by (simp add: keeps_candidates_def)
qed

lemma start_attempt_keeps:
  assumes inv: "cand_inv s" and idle: "not_in_flight cid s" and st: "start_candidate_attempt cid n rpc t s = Inr (i, s')"
  shows "keeps_candidates s s'"
proof (cases "s' = s")
  case True
  then show ?thesis using keeps_same [OF inv] by simp
next
  case False
  obtain c where c: "candidate_by_id s cid = Some c" "eligible False (cr_state c)" "uint n \<le> cr_max_attempts c" "uint n = cr_attempts c + 1"
    and cs: "st_candidates s' = update_where (\<lambda>r. cr_id r = cid \<and> eligible False (cr_state r))
        (\<lambda>r. r\<lparr>cr_state := Cand_Dispatching, cr_attempts := uint n, cr_updated := t\<rparr>) (st_candidates s)"
    and as: "\<exists>a. st_attempts s' = st_attempts s @ [a] \<and> at_candidate a = cid \<and> at_number a = uint n \<and> at_outcome a = None"
    using st False by (auto simp: start_candidate_attempt_def Let_def split: if_splits option.splits sum.splits)
  obtain a where a: "st_attempts s' = st_attempts s @ [a]" "at_candidate a = cid" "at_number a = uint n" "at_outcome a = None"
    using as by blast
  have cm: "c \<in> set (st_candidates s)" "cr_id c = cid" using c(1) candidate_by_idD by blast+
  have idle: "cr_state c \<noteq> Cand_Dispatching" using idle c(1) by (simp add: not_in_flight_def)
  have unique: "x = c" if "x \<in> set (st_candidates s)" "cr_id x = cid" for x
    using distinct_map_eq [OF candidates_invD(1) [OF inv] that(1) cm(1)] that(2) cm(2) by simp
  let ?f = "\<lambda>r. if cr_id r = cid \<and> eligible False (cr_state r)
    then r\<lparr>cr_state := Cand_Dispatching, cr_attempts := uint n, cr_updated := t\<rparr> else r"
  show ?thesis
  proof (rule keeps_update [OF inv, of _ ?f])
    show "st_candidates s' = map ?f (st_candidates s)" by (simp add: cs update_where_def)
    show "advances x (?f x)" if "x \<in> set (st_candidates s)" for x
    proof (cases "cr_id x = cid")
      case True
      then have "x = c" using unique that by blast
      then show ?thesis using c True by (cases "cr_state c") (auto simp: advances_def same_block_def eligible_def)
    qed simp
    show "attempts_agree (st_attempts s') (?f x)" if x: "x \<in> set (st_candidates s)" and g: "attempts_agree (st_attempts s) x" for x
    proof (cases "cr_id x = cid")
      case True
      then have "x = c" using unique x by blast
      then show ?thesis using attempts_agree_start [of "st_attempts s" c "uint n" a t] g c idle a cm by simp
    next
      case False
      then have "attempts_for (st_attempts s') x = attempts_for (st_attempts s) x" using a by (simp add: attempts_for_def)
      then show ?thesis using attempts_agree_other [OF g] False by simp
    qed
    show "at_candidate ` set (st_attempts s') \<subseteq> cr_id ` set (st_candidates s)"
      using candidates_invD(4) [OF inv] a cm by force
  qed
qed

text \<open>Closing an attempt of a candidate that has been accepted meanwhile, or on the way to acceptance or failure.\<close>

lemma close_attempt_simps [simp]:
  "st_candidates (close_attempt cid n done s) = st_candidates s" "st_session (close_attempt cid n done s) = st_session s"
  "st_rounds (close_attempt cid n done s) = st_rounds s" "st_verdicts (close_attempt cid n done s) = st_verdicts s"
  "st_abuse (close_attempt cid n done s) = st_abuse s" "st_deliveries (close_attempt cid n done s) = st_deliveries s"
  "st_blocknotify_enabled (close_attempt cid n done s) = st_blocknotify_enabled s"
  "candidate_by_id (close_attempt cid n done s) i = candidate_by_id s i"
  by (simp_all add: close_attempt_def candidate_by_id_def)

lemma close_attempt_candidates: "at_candidate ` set (st_attempts (close_attempt cid n done s)) = at_candidate ` set (st_attempts s)"
proof -
  have "map at_candidate (st_attempts (close_attempt cid n done s)) = map at_candidate (st_attempts s)"
    by (simp add: close_attempt_def)
  then show ?thesis by (metis list.set_map)
qed

text \<open>
  Once accepted, the row of a candidate agrees with its attempts whatever their outcomes, so the attempt in
  flight may be closed first and the row moved second.
\<close>

lemma attempts_agree_close_accept:
  assumes "attempts_agree (st_attempts s) c" and "accepted_state (cr_state c')" and "cr_id c' = cr_id c"
    and "cr_max_attempts c' = cr_max_attempts c" and "cr_attempts c' = cr_attempts c"
  shows "attempts_agree (st_attempts (close_attempt cid n done s)) c'"
proof -
  have mine: "attempts_for as c' = attempts_for as c" for as using assms(3) by (simp add: attempts_for_def)
  have still: "a \<in> set (attempts_for (st_attempts s) c)"
    if "a \<in> set (attempts_for (st_attempts (close_attempt cid n done s)) c)" and "at_outcome a = None" for a
    using that unfolding attempts_for_close by (auto simp: set_update_where split: if_splits)
  show ?thesis
    using assms(2,4,5) attempts_agreeD(1-6) [OF assms(1)] numbers_close [of cid n "done" s c] still
    unfolding attempts_agree_def mine by (auto simp: accepted_state_def)
qed

lemma resolve_kind_tables:
  "st_candidates (snd (resolve_kind cid t k s)) = st_candidates s" "st_attempts (snd (resolve_kind cid t k s)) = st_attempts s"
  "st_rounds (snd (resolve_kind cid t k s)) = st_rounds s" "st_deliveries (snd (resolve_kind cid t k s)) = st_deliveries s"
  "st_session (snd (resolve_kind cid t k s)) = st_session s"
  by (simp_all add: resolve_kind_def candidate_abuse_event_def insert_abuse_def Let_def split: list.split option.split prod.split)

lemma insert_abuse_tables [simp]:
  "st_candidates (snd (insert_abuse a b k t s)) = st_candidates s" "st_attempts (snd (insert_abuse a b k t s)) = st_attempts s"
  "st_rounds (snd (insert_abuse a b k t s)) = st_rounds s" "st_deliveries (snd (insert_abuse a b k t s)) = st_deliveries s"
  "st_session (snd (insert_abuse a b k t s)) = st_session s" "st_verdicts (snd (insert_abuse a b k t s)) = st_verdicts s"
  by (simp_all add: insert_abuse_def Let_def)

lemma resolve_verdicts_tables:
  "st_candidates (snd (resolve_rejected_verdicts cid t s)) = st_candidates s"
  "st_attempts (snd (resolve_rejected_verdicts cid t s)) = st_attempts s"
  "st_rounds (snd (resolve_rejected_verdicts cid t s)) = st_rounds s"
  "st_deliveries (snd (resolve_rejected_verdicts cid t s)) = st_deliveries s"
  by (simp_all add: resolve_rejected_verdicts_def case_prod_beta Let_def resolve_kind_tables)

text \<open>What a failed attempt writes.\<close>

definition failed_row :: "int \<Rightarrow> attempt_completion \<Rightarrow> candidate_row \<Rightarrow> candidate_row \<Rightarrow> candidate_row" where
  "failed_row n done c r =
     (let had = cr_had_indeterminate c \<or> ac_outcome done = Outcome_Indeterminate; st = next_state c n had in
      r\<lparr>cr_state := st, cr_had_indeterminate := had, cr_updated := ac_completed done,
        cr_reason := (if st \<noteq> Cand_Retry_Wait then Some (if st = Cand_Ambiguous then ''attempts_exhausted_with_indeterminate''
                      else ''attempts_explicitly_rejected'') else None)\<rparr>)"

lemma fail_attempt_effect:
  assumes "fail_attempt c n done s = Inr (x, s')"
  shows "st_candidates s' = update_where (\<lambda>r. cr_id r = cr_id c \<and> cr_state r = Cand_Dispatching) (failed_row n done c) (st_candidates s)"
    and "st_attempts s' = st_attempts s" and "st_rounds s' = st_rounds s" and "st_deliveries s' = st_deliveries s"
    and "ar_state x = next_state c n (cr_had_indeterminate c \<or> ac_outcome done = Outcome_Indeterminate)"
proof -
  have row: "failed_row n done c = (\<lambda>r. failed_row n done c r)" by simp
  show "st_candidates s' = update_where (\<lambda>r. cr_id r = cr_id c \<and> cr_state r = Cand_Dispatching) (failed_row n done c) (st_candidates s)"
    "st_attempts s' = st_attempts s" "st_rounds s' = st_rounds s" "st_deliveries s' = st_deliveries s"
    "ar_state x = next_state c n (cr_had_indeterminate c \<or> ac_outcome done = Outcome_Indeterminate)"
    using assms unfolding failed_row_def [abs_def]
    by (auto simp: fail_attempt_def Let_def case_prod_beta resolve_verdicts_tables split: if_splits)
qed

lemma failed_row_simps [simp]:
  "same_block r (failed_row n done c r)" "cr_attempts (failed_row n done c r) = cr_attempts r" "cr_id (failed_row n done c r) = cr_id r"
  "cr_state (failed_row n done c r) = next_state c n (cr_had_indeterminate c \<or> ac_outcome done = Outcome_Indeterminate)"
  by (simp_all add: failed_row_def Let_def same_block_def)

lemma attempt_ofD:
  "attempt_of s cid n = Some a \<Longrightarrow> a \<in> set (st_attempts s) \<and> at_candidate a = cid \<and> at_number a = n"
  by (auto simp: attempt_of_def dest: find_SomeD)

lemma keeps_close:
  assumes inv: "cand_inv s" and c: "c \<in> set (st_candidates s)"
    and cs: "st_candidates s' = map (\<lambda>x. if cr_id x = cr_id c then f x else x) (st_candidates s)"
    and as: "st_attempts s' = st_attempts (close_attempt (cr_id c) n done s)"
    and adv: "advances c (f c)" and agree: "attempts_agree (st_attempts s') (f c)"
  shows "keeps_candidates s s'"
proof (rule keeps_update [OF inv cs])
  have unique: "x = c" if "x \<in> set (st_candidates s)" "cr_id x = cr_id c" for x
    using distinct_map_eq [OF candidates_invD(1) [OF inv] that(1) c that(2)] .
  show "advances x (if cr_id x = cr_id c then f x else x)" if "x \<in> set (st_candidates s)" for x
    using unique [OF that] adv by auto
  show "attempts_agree (st_attempts s') (if cr_id x = cr_id c then f x else x)"
    if x: "x \<in> set (st_candidates s)" and g: "attempts_agree (st_attempts s) x" for x
  proof (cases "cr_id x = cr_id c")
    case True
    then show ?thesis using unique [OF x] agree by auto
  next
    case False
    then have "attempts_for (st_attempts s') x = attempts_for (st_attempts s) x" by (simp add: as attempts_for_close)
    then show ?thesis using attempts_agree_other [OF g] False by simp
  qed
  show "at_candidate ` set (st_attempts s') \<subseteq> cr_id ` set (st_candidates s)"
    using candidates_invD(4) [OF inv] by (simp add: as close_attempt_candidates)
qed

text \<open>The three ways in which finishing an attempt that is in flight ends.\<close>

lemma finish_attempt_cases:
  assumes "finish_candidate_attempt v cid n done s = Inr (x, s')"
  obtains (Repeated) "s' = s"
  | (Closed) c a where "candidate_by_id s cid = Some c" "cr_attempts c = uint n" "attempt_of s cid (uint n) = Some a"
      "at_outcome a = None" "accepted_state (cr_state c)"
      "s' = add_event (ac_completed done) ''candidate_result'' (Some cid) None (close_attempt cid (uint n) done s)"
  | (Accepted) c a b where "candidate_by_id s cid = Some c" "cr_attempts c = uint n" "attempt_of s cid (uint n) = Some a"
      "at_outcome a = None" "\<not> accepted_state (cr_state c)"
      "accept_candidate_in_transaction v cid (ac_completed done) (ac_daemon_block_id done) False
        (close_attempt cid (uint n) done s) = Inr (b, s')" "ac_outcome done = Outcome_Accepted" "ar_state x = Cand_Accepted"
  | (Failed) c a where "candidate_by_id s cid = Some c" "cr_attempts c = uint n" "attempt_of s cid (uint n) = Some a"
      "at_outcome a = None" "\<not> accepted_state (cr_state c)"
      "fail_attempt c (uint n) done (close_attempt cid (uint n) done s) = Inr (x, s')" "ac_outcome done \<noteq> Outcome_Accepted"
proof -
  obtain c a where c: "candidate_by_id s cid = Some c" "cr_attempts c = uint n" "attempt_of s cid (uint n) = Some a"
    using assms by (auto simp: finish_candidate_attempt_def and_then_eq_Inr split: if_splits option.splits)
  show thesis
  proof (cases "at_outcome a")
    case (Some out)
    then have "s' = s" using assms c by (auto simp: finish_candidate_attempt_def and_then_eq_Inr split: if_splits)
    then show thesis by (rule Repeated)
  next
    case None
    have cid: "cr_id c = cid" using candidate_by_idD [OF c(1)] by simp
    have ctx: "candidate_context (close_attempt cid (uint n) done s) cid = Inr c"
      and settle: "settle_attempt v c (uint n) done (close_attempt cid (uint n) done s) = Inr (x, s')"
      using assms c None
      by (auto simp: finish_candidate_attempt_def and_then_eq_Inr candidate_context_def Let_def split: if_splits)
    consider "accepted_state (cr_state c)" | "\<not> accepted_state (cr_state c)" "ac_outcome done = Outcome_Accepted"
      | "\<not> accepted_state (cr_state c)" "ac_outcome done \<noteq> Outcome_Accepted" by blast
    then show thesis
    proof cases
      case 1
      then show thesis using settle cid by (intro Closed [OF c None]) (simp_all add: settle_attempt_def)
    next
      case 2
      then obtain b where "accept_candidate_in_transaction v cid (ac_completed done) (ac_daemon_block_id done) False
          (close_attempt cid (uint n) done s) = Inr (b, s')" "x = plain_result c Cand_Accepted True"
        using settle cid by (auto simp: settle_attempt_def split: sum.splits)
      then show thesis using 2 by (intro Accepted [OF c None]) (simp_all add: plain_result_def)
    next
      case 3
      then show thesis using settle by (intro Failed [OF c None]) (simp_all add: settle_attempt_def)
    qed
  qed
qed

lemma finish_attempt_keeps:
  assumes inv: "cand_inv s" and fin: "finish_candidate_attempt v cid n done s = Inr (x, s')"
  shows "keeps_candidates s s'"
  using fin
proof (cases rule: finish_attempt_cases)
  case Repeated
  then show ?thesis using keeps_same [OF inv] by simp
next
  case (Closed c a)
  have c: "c \<in> set (st_candidates s)" "cr_id c = cid" using candidate_by_idD [OF Closed(1)] by blast+
  show ?thesis
    by (rule keeps_close [OF inv c(1), of _ "\<lambda>x. x" "uint n" "done"])
      (use Closed c attempts_agree_close_accept [OF candidates_invD(3) [OF inv c(1)], of c] in simp_all)
next
  case (Accepted c a b)
  let ?s = "close_attempt cid (uint n) done s"
  have c: "c \<in> set (st_candidates s)" "cr_id c = cid" using candidate_by_idD [OF Accepted(1)] by blast+
  obtain r where acc: "accepts_block cid (ac_completed done) (ac_daemon_block_id done) False c r ?s s'"
    using accept_effect [OF Accepted(6)] Accepted(1,5) by (auto simp: accepts_block_def)
  show ?thesis
    by (rule keeps_close [OF inv c(1), of _ "accepted_row (ac_completed done) (ac_daemon_block_id done) False" "uint n" "done"])
      (use acc c eligible_accept_move [of False "cr_state c"]
          attempts_agree_close_accept [OF candidates_invD(3) [OF inv c(1)],
            of "accepted_row (ac_completed done) (ac_daemon_block_id done) False c" cid "uint n" "done"]
        in \<open>simp_all add: accepts_block_def update_where_def advances_def accepted_state_def same_block_def accepted_row_def\<close>)
next
  case (Failed c a)
  have c: "c \<in> set (st_candidates s)" "cr_id c = cid" using candidate_by_idD [OF Failed(1)] by blast+
  have agree: "attempts_agree (st_attempts s) c" by (rule candidates_invD(3) [OF inv c(1)])
  have "a \<in> set (attempts_for (st_attempts s) c)" using attempt_ofD [OF Failed(3)] c(2) by (simp add: attempts_for_def)
  then have "None \<in> outcomes_for (st_attempts s) c" using Failed(4) by (force simp: outcomes_for_def)
  then have st: "cr_state c = Cand_Dispatching" using attempts_agreeD(9) [OF agree Failed(5)] by simp
  let ?had = "cr_had_indeterminate c \<or> ac_outcome done = Outcome_Indeterminate"
  have unique: "y \<in> set (st_candidates s) \<Longrightarrow> cr_id y = cr_id c \<Longrightarrow> y = c" for y
    using distinct_map_eq [OF candidates_invD(1) [OF inv] _ c(1)] by blast
  show ?thesis
  proof (rule keeps_close [OF inv c(1), of _ "failed_row (uint n) done c" "uint n" "done"])
    show "st_candidates s' = map (\<lambda>x. if cr_id x = cr_id c then failed_row (uint n) done c x else x) (st_candidates s)"
      using fail_attempt_effect(1) [OF Failed(6)] unique st by (auto simp: update_where_def)
    show "st_attempts s' = st_attempts (close_attempt (cr_id c) (uint n) done s)"
      using fail_attempt_effect(2) [OF Failed(6)] c(2) by simp
    show "advances c (failed_row (uint n) done c c)" using st by (simp add: advances_def next_state_def)
    show "attempts_agree (st_attempts s') (failed_row (uint n) done c c)"
      using attempts_agree_fail [OF agree st Failed(2) [symmetric] Failed(7) refl] fail_attempt_effect(2) [OF Failed(6)] c(2)
      by (simp add: failed_row_def Let_def)
  qed
qed

lemma same_block_columns [simp]:
  "same_block c (cr_cycles_update f c)" "same_block c (cr_next_reconciliation_update g c)"
  "same_block c (cr_updated_update h c)" "same_block c (cr_exhausted_update k c)"
  "same_block c (c\<lparr>cr_cycles := x, cr_next_reconciliation := y, cr_updated := z\<rparr>)"
  "same_block c (c\<lparr>cr_next_reconciliation := y, cr_updated := z\<rparr>)"
  "same_block c (c\<lparr>cr_next_reconciliation := y, cr_exhausted := w, cr_updated := z\<rparr>)"
  by (simp_all add: same_block_def)

lemma start_lookup_keeps:
  assumes inv: "cand_inv s" and st: "start_candidate_reconciliation l s = Inr (k, s')"
  shows "keeps_candidates s s'"
proof (cases "s' = s")
  case True
  then show ?thesis using keeps_same [OF inv] by simp
next
  case False
  have "st_candidates s' = update_where (\<lambda>r. cr_id r = ls_candidate l)
      (\<lambda>r. r\<lparr>cr_cycles := max (cr_cycles r) (uint (ls_cycle l)), cr_next_reconciliation := None,
            cr_updated := max (cr_updated r) (ls_started l)\<rparr>) (st_candidates s)" and "st_attempts s' = st_attempts s"
    using st False by (auto simp: start_candidate_reconciliation_def Let_def split: if_splits option.splits)
  then show ?thesis by (rule keeps_columns [OF inv]) simp
qed

lemma finish_lookup_cases:
  assumes "finish_candidate_reconciliation v rid done s = Inr (y, s')"
  obtains (Unchanged) "st_candidates s' = st_candidates s" "st_attempts s' = st_attempts s" "st_rounds s' = st_rounds s"
      "st_deliveries s' = st_deliveries s" "st_verdicts s' = st_verdicts s" "st_abuse s' = st_abuse s"
  | (Positive) k s1 b where "k \<in> set (st_lookups s)" "lk_id k = rid" "lc_class done = Lookup_Positive"
      "\<exists>c. candidate_by_id s (lk_candidate k) = Some c \<and> positive_guard c k done = Inr ()"
      "s1 = close_lookup rid done s"
      "accept_candidate_in_transaction v (lk_candidate k) (lc_completed done) (lc_block_id done) True s1 = Inr (b, s')"
proof -
  obtain k where k: "find (\<lambda>k. lk_id k = rid) (st_lookups s) = Some k"
    using assms by (auto simp: finish_candidate_reconciliation_def and_then_eq_Inr split: if_splits option.splits)
  show thesis
  proof (cases "lk_abandoned k \<or> lk_completion k \<noteq> None")
    case True
    then have "s' = s" using assms k
      by (auto simp: finish_candidate_reconciliation_def and_then_eq_Inr split: if_splits)
    then show thesis by (intro Unchanged) simp_all
  next
    case False
    obtain c where c: "candidate_context s (lk_candidate k) = Inr c" "positive_guard c k done = Inr ()"
        "settle_lookup v c (lk_candidate k) done (close_lookup rid done s) = Inr (y, s')"
      using assms k False by (auto simp: finish_candidate_reconciliation_def and_then_eq_Inr split: if_splits)
    show thesis
    proof (cases "lc_class done = Lookup_Positive")
      case True
      let ?acc = "accept_candidate_in_transaction v (lk_candidate k) (lc_completed done) (lc_block_id done) True (close_lookup rid done s)"
      obtain b where "?acc = Inr (b, s')"
      proof (cases ?acc)
        case (Inl e)
        then show thesis using c(3) True by (simp add: settle_lookup_def)
      next
        case (Inr p)
        then have "and_then (candidate_context (snd p) (lk_candidate k)) (\<lambda>c.
            Inr (\<lparr>lr_state = cr_state c, lr_accepted = True, lr_already_completed = False\<rparr>, snd p)) = Inr (y, s')"
          using c(3) True by (simp add: settle_lookup_def case_prod_beta)
        then have "snd p = s'" unfolding and_then_eq_Inr by blast
        then show thesis using that [of "fst p"] Inr by (metis prod.collapse)
      qed
      moreover have "\<exists>c. candidate_by_id s (lk_candidate k) = Some c \<and> positive_guard c k done = Inr ()"
        using candidate_contextD [OF c(1)] c(2) by blast
      ultimately show thesis using find_SomeD [OF k] True by (intro Positive [OF _ _ True _ refl]) simp_all
    next
      case negative: False
      then have "s' = close_lookup rid done s" using c(3) by (simp add: settle_lookup_def)
      then show thesis by (intro Unchanged) (simp_all add: close_lookup_def)
    qed
  qed
qed

lemma finish_lookup_keeps:
  assumes inv: "cand_inv s" and fin: "finish_candidate_reconciliation v rid done s = Inr (y, s')"
  shows "keeps_candidates s s'"
  using fin
proof (cases rule: finish_lookup_cases)
  case Unchanged
  then show ?thesis using keeps_same [OF inv] by simp
next
  case (Positive k s1 b)
  have s1: "st_candidates s1 = st_candidates s" "st_attempts s1 = st_attempts s" by (simp_all add: Positive(5) close_lookup_def)
  then have "keeps_candidates s1 s'" using accept_in_transaction_keeps [OF _ Positive(6)] inv by simp
  then show ?thesis by (rule evolves_trans_same [OF s1(1)])
qed

lemma schedule_keeps:
  assumes "cand_inv s" and "schedule_candidate_reconciliation cid t s = Inr (u, s')"
  shows "keeps_candidates s s'"
proof (rule keeps_columns [OF assms(1)])
  show "st_candidates s' = update_where (\<lambda>r. cr_id r = cid \<and> cr_state r = Cand_Ambiguous)
      (\<lambda>r. r\<lparr>cr_next_reconciliation := Some t, cr_updated := max (cr_updated r) t\<rparr>) (st_candidates s)"
    "st_attempts s' = st_attempts s"
    using assms(2) by (auto simp: schedule_candidate_reconciliation_def split: if_splits)
qed simp

lemma exhaust_keeps:
  assumes "cand_inv s" and "exhaust_candidate_reconciliation cid t s = Inr (b, s')"
  shows "keeps_candidates s s'"
proof (rule keeps_columns [OF assms(1)])
  show "st_candidates s' = update_where (\<lambda>r. cr_id r = cid \<and> cr_state r = Cand_Ambiguous \<and> cr_exhausted r = None)
      (\<lambda>r. r\<lparr>cr_exhausted := Some t, cr_next_reconciliation := None, cr_updated := max (cr_updated r) t\<rparr>) (st_candidates s)"
    "st_attempts s' = st_attempts s"
    using assms(2) by (auto simp: exhaust_candidate_reconciliation_def Let_def split: if_splits)
qed (simp add: same_block_def)

lemma reopen_keeps:
  assumes inv: "cand_inv s"
  shows "keeps_candidates s (reopen notify s)"
proof -
  let ?reason = "\<lambda>c. if cr_attempts c \<ge> cr_max_attempts c
    then Some ''process_restarted_with_exhausted_inflight_attempt'' else None"
  let ?f = "\<lambda>c. if cr_state c = Cand_Dispatching then c\<lparr>cr_had_indeterminate := True,
      cr_state := next_state c (cr_attempts c) True, cr_reason := ?reason c\<rparr> else c"
  have as: "st_attempts (reopen notify s) = st_attempts (recover_inflight_candidates s)"
    by (simp add: reopen_def recover_blocknotify_def)
  show ?thesis
  proof (rule keeps_update [OF inv, of _ ?f])
    show "st_candidates (reopen notify s) = map ?f (st_candidates s)"
      by (simp add: reopen_def recover_blocknotify_def recover_inflight_candidates_def update_where_def next_state_def)
    show "advances c (?f c)" for c
      by (auto simp: advances_def same_block_def next_state_def)
    show "attempts_agree (st_attempts (reopen notify s)) (?f c)" if "attempts_agree (st_attempts s) c" for c
      unfolding as by (rule attempts_agree_restart [OF that refl])
    have "map at_candidate (st_attempts (reopen notify s)) = map at_candidate (st_attempts s)"
      by (simp add: as recover_inflight_candidates_def)
    then show "at_candidate ` set (st_attempts (reopen notify s)) \<subseteq> cr_id ` set (st_candidates s)"
      using candidates_invD(4) [OF inv] by (metis list.set_map)
  qed
qed

end
