(* ===== verification/Candidate_Rounds.thy ===== *)
theory Candidate_Rounds
  imports Candidate_Life
begin

text \<open>
  Rounds and block notifications in the store of \<open>Candidate_Store\<close>: a closed round belongs to one accepted candidate and
  the other way round, at most one round is open, and a notification is queued once for an accepted candidate. With the
  life of the candidates this is the invariant of the store.
\<close>

section \<open>Rounds and notifications\<close>

definition closes :: "candidate_row \<Rightarrow> round_row \<Rightarrow> bool" where
  "closes c r \<longleftrightarrow> rd_closed r \<noteq> None \<and> rd_candidate r = Some (cr_id c) \<and> rd_id r = cr_round c \<and>
     rd_height r = Some (cr_height c) \<and> rd_miner_tx r = Some (cr_miner_tx c)"

definition notifies :: "candidate_row \<Rightarrow> delivery_row \<Rightarrow> bool" where
  "notifies c d \<longleftrightarrow> dl_candidate d = cr_id c \<and> dl_miner_tx d = cr_miner_tx c"

definition accepted_in :: "store \<Rightarrow> candidate_row set" where
  "accepted_in s = {c \<in> set (st_candidates s). accepted_state (cr_state c)}"

definition rounds_inv :: "store \<Rightarrow> bool" where
  "rounds_inv s \<longleftrightarrow> distinct (map rd_id (st_rounds s)) \<and> length (open_rounds s) \<le> 1 \<and>
     (\<forall>r\<in>set (st_rounds s). rd_id r > 0 \<and> (rd_closed r \<noteq> None \<longrightarrow> (\<exists>c\<in>accepted_in s. closes c r))) \<and>
     (\<forall>c\<in>accepted_in s. \<exists>r\<in>set (st_rounds s). closes c r) \<and>
     distinct (map dl_candidate (st_deliveries s)) \<and> distinct (map dl_id (st_deliveries s)) \<and>
     (\<forall>d\<in>set (st_deliveries s). \<exists>c\<in>accepted_in s. notifies c d)"

text \<open>Steps that accept nothing: the same candidates stay accepted.\<close>

definition accepts_nothing :: "store \<Rightarrow> store \<Rightarrow> bool" where
  "accepts_nothing s s' \<longleftrightarrow> (\<forall>c\<in>accepted_in s. \<exists>c'\<in>accepted_in s'. same_block c c') \<and>
     (\<forall>c'\<in>accepted_in s'. \<exists>c\<in>accepted_in s. same_block c c')"

lemma same_block_refl [simp]: "same_block c c"
  by (simp add: same_block_def)

lemma same_block_closes: "same_block c c' \<Longrightarrow> closes c' r \<longleftrightarrow> closes c r"
  by (simp add: same_block_def closes_def)

lemma same_block_notifies: "same_block c c' \<Longrightarrow> notifies c' d \<longleftrightarrow> notifies c d"
  by (simp add: same_block_def notifies_def)

lemma accepts_nothing_same: "st_candidates s' = st_candidates s \<Longrightarrow> accepts_nothing s s'"
  using same_block_refl by (auto simp: accepts_nothing_def accepted_in_def)

lemma accepts_nothing_update:
  assumes "st_candidates s' = update_where p f (st_candidates s)"
    and "\<And>c. c \<in> set (st_candidates s) \<Longrightarrow> p c \<Longrightarrow> same_block c (f c) \<and> accepted_state (cr_state (f c)) = accepted_state (cr_state c)"
  shows "accepts_nothing s s'"
proof -
  have row: "same_block c (if p c then f c else c) \<and>
      accepted_state (cr_state (if p c then f c else c)) = accepted_state (cr_state c)" if "c \<in> set (st_candidates s)" for c
    using assms(2) [OF that] by simp
  show ?thesis
    unfolding accepts_nothing_def accepted_in_def assms(1) set_update_where Ball_def Bex_def mem_Collect_eq
    using row by metis
qed

lemma accepts_nothing_append:
  assumes "st_candidates s' = st_candidates s @ [c]" and "\<not> accepted_state (cr_state c)"
  shows "accepts_nothing s s'"
  using assms same_block_refl by (auto simp: accepts_nothing_def accepted_in_def)

lemma rounds_frame:
  assumes inv: "rounds_inv s" and acc: "accepts_nothing s s'"
    and rs: "st_rounds s' = update_where p g (st_rounds s)"
    and g: "\<And>r. rd_id (g r) = rd_id r \<and> rd_closed (g r) = rd_closed r \<and> rd_candidate (g r) = rd_candidate r \<and>
      rd_height (g r) = rd_height r \<and> rd_miner_tx (g r) = rd_miner_tx r"
    and ds: "st_deliveries s' = update_where q h (st_deliveries s)"
    and h: "\<And>d. dl_id (h d) = dl_id d \<and> dl_candidate (h d) = dl_candidate d \<and> dl_miner_tx (h d) = dl_miner_tx d"
  shows "rounds_inv s'"
proof -
  have closes: "closes c (if p r then g r else r) = closes c r" for c r using g [of r] by (simp add: closes_def)
  have notifies: "notifies c (if q d then h d else d) = notifies c d" for c d using h [of d] by (simp add: notifies_def)
  have keys: "map rd_id (st_rounds s') = map rd_id (st_rounds s)" "map dl_candidate (st_deliveries s') = map dl_candidate (st_deliveries s)"
    "map dl_id (st_deliveries s') = map dl_id (st_deliveries s)"
    using g h by (simp_all add: rs ds)
  have open_same: "length (open_rounds s') = length (open_rounds s)"
    using g by (simp add: open_rounds_def rs filter_update_where)
  have later: "\<exists>c'\<in>accepted_in s'. same_block c c'" if "c \<in> accepted_in s" for c
    using acc that unfolding accepts_nothing_def by blast
  show ?thesis
    unfolding rounds_inv_def keys open_same
  proof (intro conjI ballI impI)
    fix r' assume r': "r' \<in> set (st_rounds s')"
    then obtain r where r: "r \<in> set (st_rounds s)" "r' = (if p r then g r else r)" unfolding rs set_update_where by blast
    then show "rd_id r' > 0" using inv g [of r] by (simp add: rounds_inv_def)
    assume "rd_closed r' \<noteq> None"
    then have "rd_closed r \<noteq> None" using r(2) g [of r] by (simp split: if_splits)
    then obtain c where c: "c \<in> accepted_in s" "closes c r" using inv r(1) unfolding rounds_inv_def by blast
    then obtain c' where c': "c' \<in> accepted_in s'" "same_block c c'" using later by blast
    have "closes c' r'" using c(2) same_block_closes [OF c'(2)] closes [of c' r] r(2) by simp
    then show "\<exists>c\<in>accepted_in s'. closes c r'" using c'(1) by blast
  next
    fix c' assume "c' \<in> accepted_in s'"
    then obtain c where c: "c \<in> accepted_in s" "same_block c c'" using acc unfolding accepts_nothing_def by blast
    then obtain r where r: "r \<in> set (st_rounds s)" "closes c r" using inv unfolding rounds_inv_def by blast
    then have "closes c' (if p r then g r else r)" using closes same_block_closes [OF c(2)] by simp
    moreover have "(if p r then g r else r) \<in> set (st_rounds s')" using r(1) by (simp add: rs update_where_def)
    ultimately show "\<exists>r\<in>set (st_rounds s'). closes c' r" by blast
  next
    fix d' assume "d' \<in> set (st_deliveries s')"
    then obtain d where d: "d \<in> set (st_deliveries s)" "d' = (if q d then h d else d)" unfolding ds set_update_where by blast
    then obtain c where c: "c \<in> accepted_in s" "notifies c d" using inv unfolding rounds_inv_def by blast
    then obtain c' where c': "c' \<in> accepted_in s'" "same_block c c'" using later by blast
    have "notifies c' d'" using c(2) same_block_notifies [OF c'(2)] notifies [of c' d] d(2) by simp
    then show "\<exists>c\<in>accepted_in s'. notifies c d'" using c'(1) by blast
  qed (use inv in \<open>simp_all add: rounds_inv_def\<close>)
qed

lemma update_where_False: "rows = update_where (\<lambda>_. False) id rows"
  by (simp add: update_where_def)

lemma rounds_same:
  assumes "rounds_inv s" and "accepts_nothing s s'" and "st_rounds s' = st_rounds s" and "st_deliveries s' = st_deliveries s"
  shows "rounds_inv s'"
  by (rule rounds_frame [OF assms(1,2), of "\<lambda>_. False" id "\<lambda>_. False" id])
    (simp_all add: assms(3,4) update_where_id)

lemma rounds_append:
  assumes inv: "rounds_inv s" and cs: "st_candidates s' = st_candidates s" and ds: "st_deliveries s' = st_deliveries s"
    and rs: "st_rounds s' = st_rounds s @ [new]" and new: "rd_closed new = None" "rd_id new = new_rowid (map rd_id (st_rounds s))"
    and none: "open_rounds s = []"
  shows "rounds_inv s'"
proof -
  have acc: "accepted_in s' = accepted_in s" by (simp add: accepted_in_def cs)
  have "length (open_rounds s') \<le> 1" using none new(1) by (simp add: open_rounds_def rs)
  moreover have "distinct (map rd_id (st_rounds s'))"
    using inv new_rowid_fresh [of "map rd_id (st_rounds s)"] by (simp add: rs new(2) rounds_inv_def)
  moreover have "rd_id new > 0" unfolding new(2) by (rule new_rowid_positive)
  ultimately show ?thesis using inv new(1) unfolding rounds_inv_def acc ds rs by auto
qed

lemma accepted_in_accepts:
  assumes ids: "distinct (map cr_id (st_candidates s))" and acc: "accepts_block cid t canonical b c r s s'"
  shows "accepted_in s' = insert (accepted_row t canonical b c) (accepted_in s)" and "c \<in> set (st_candidates s)"
    and "c \<notin> accepted_in s" and "cr_id c = cid"
proof -
  have c: "candidate_by_id s cid = Some c" and el: "eligible b (cr_state c)"
    and cs: "st_candidates s' = update_where (\<lambda>x. cr_id x = cid) (accepted_row t canonical b) (st_candidates s)"
    using acc by (auto simp: accepts_block_def)
  show cm: "c \<in> set (st_candidates s)" and cid: "cr_id c = cid" using candidate_by_idD [OF c] by blast+
  show notacc: "c \<notin> accepted_in s" using el by (auto simp: accepted_in_def eligible_def accepted_state_def)
  have unique: "x = c" if "x \<in> set (st_candidates s)" "cr_id x = cid" for x
    using distinct_map_eq [OF ids that(1) cm] that(2) cid by simp
  have mem: "x \<in> set (st_candidates s') \<longleftrightarrow> x = accepted_row t canonical b c \<or> x \<in> set (st_candidates s) \<and> x \<noteq> c" for x
  proof
    assume "x \<in> set (st_candidates s')"
    then obtain y where y: "y \<in> set (st_candidates s)" "x = (if cr_id y = cid then accepted_row t canonical b y else y)"
      unfolding cs set_update_where by blast
    show "x = accepted_row t canonical b c \<or> x \<in> set (st_candidates s) \<and> x \<noteq> c"
      using y unique [OF y(1)] cid by (cases "cr_id y = cid") auto
  next
    assume "x = accepted_row t canonical b c \<or> x \<in> set (st_candidates s) \<and> x \<noteq> c"
    then show "x \<in> set (st_candidates s')"
      unfolding cs set_update_where using cm cid unique [of x] by (metis (full_types))
  qed
  have "accepted_state (cr_state (accepted_row t canonical b c))" by (simp add: accepted_state_def)
  then show "accepted_in s' = insert (accepted_row t canonical b c) (accepted_in s)"
    using mem notacc cm by (auto simp: accepted_in_def)
qed

lemma queue_notification_deliveries:
  assumes "rounds_inv s" and "c \<notin> accepted_in s" and "distinct (map cr_id (st_candidates s))" and "c \<in> set (st_candidates s)"
  shows "distinct (map dl_candidate (st_deliveries (queue_notification c s)))"
    and "distinct (map dl_id (st_deliveries (queue_notification c s)))"
    and "d \<in> set (st_deliveries (queue_notification c s)) \<Longrightarrow> d \<in> set (st_deliveries s) \<or> notifies c d"
  using assms(1) new_rowid_fresh [of "map dl_id (st_deliveries s)"]
  by (auto simp: queue_notification_def rounds_inv_def notifies_def list_ex_iff split: if_splits)

lemma rounds_accept:
  assumes cinv: "distinct (map cr_id (st_candidates s))" and inv: "rounds_inv s" and acc: "accepts_block cid t canonical b c r s s'"
  shows "rounds_inv s'"
proof -
  let ?c = "accepted_row t canonical b c"
  let ?close = "\<lambda>r. if rd_id r = cr_round c \<and> rd_closed r = None then closed_row c t canonical r else r"
  obtain p x new where new: "rd_closed new = None" "rd_id new = new_rowid (map rd_id (st_rounds s))"
    and rs: "st_rounds s' = update_where p (\<lambda>r. r\<lparr>rd_finalized := x\<rparr>) (map ?close (st_rounds s) @ [new])"
    and r: "open_rounds s = [r]" "rd_id r = cr_round c" and ds: "st_deliveries s' = st_deliveries (queue_notification c s)"
    using acc unfolding accepts_block_def update_where_def [of "\<lambda>r. rd_id r = cr_round c \<and> rd_closed r = None"] by blast
  note ac = accepted_in_accepts [OF cinv acc]
  let ?s1 = "s'\<lparr>st_rounds := map ?close (st_rounds s) @ [new]\<rparr>"
  have acc1: "accepted_in ?s1 = insert ?c (accepted_in s)" using ac(1) by (simp add: accepted_in_def)
  have "r \<in> set (open_rounds s)" using r(1) by simp
  then have rmem: "r \<in> set (st_rounds s)" "rd_closed r = None" by (simp_all add: open_rounds_def)
  have only: "rd_id q = cr_round c" if "q \<in> set (st_rounds s)" "rd_closed q = None" for q
  proof -
    have "q \<in> set (open_rounds s)" using that by (simp add: open_rounds_def)
    then show ?thesis using r by simp
  qed
  have closesc: "closes ?c (closed_row c t canonical q)" if "rd_id q = cr_round c" for q
    using that by (simp add: closes_def closed_row_def accepted_row_def)
  have ids: "rd_id (?close q) = rd_id q" for q by (simp add: closed_row_def)
  have "rounds_inv ?s1"
    unfolding rounds_inv_def acc1
  proof (intro conjI ballI impI)
    have eq: "map rd_id (st_rounds ?s1) = map rd_id (st_rounds s) @ [rd_id new]" using ids by simp
    show "distinct (map rd_id (st_rounds ?s1))"
      unfolding eq new(2) using inv new_rowid_fresh [of "map rd_id (st_rounds s)"] by (simp add: rounds_inv_def)
    have "filter (\<lambda>q. rd_closed q = None) (map ?close (st_rounds s)) = []"
      using only by (auto simp: filter_empty_conv closed_row_def)
    then show "length (open_rounds ?s1) \<le> 1" using new(1) by (simp add: open_rounds_def)
    fix q assume "q \<in> set (st_rounds ?s1)"
    then consider "q = new" | q0 where "q0 \<in> set (st_rounds s)" "q = ?close q0" by auto
    note qcases = this
    show "rd_id q > 0"
      using qcases inv ids new_rowid_positive [of "map rd_id (st_rounds s)"] by cases (auto simp: new(2) rounds_inv_def)
    assume closed: "rd_closed q \<noteq> None"
    show "\<exists>c\<in>insert ?c (accepted_in s). closes c q"
      using qcases
    proof cases
      case 1
      then show ?thesis using closed new(1) by simp
    next
      case (2 q0)
      show ?thesis
      proof (cases "rd_closed q0 = None")
        case True
        then show ?thesis using only [OF 2(1)] closesc 2(2) by simp
      next
        case False
        then show ?thesis using 2 inv unfolding rounds_inv_def by auto
      qed
    qed
  next
    fix d assume d: "d \<in> insert ?c (accepted_in s)"
    show "\<exists>q\<in>set (st_rounds ?s1). closes d q"
    proof (cases "d = ?c")
      case True
      have "?close r \<in> set (st_rounds ?s1)" using rmem(1) by simp
      moreover have "closes ?c (?close r)" using rmem(2) r(2) closesc by simp
      ultimately show ?thesis using True by blast
    next
      case False
      then obtain q where q: "q \<in> set (st_rounds s)" "closes d q" using d inv unfolding rounds_inv_def by blast
      then have "?close q = q" by (auto simp: closes_def)
      then have "q \<in> set (st_rounds ?s1)" using q(1) by force
      then show ?thesis using q(2) by blast
    qed
  next
    show "distinct (map dl_candidate (st_deliveries ?s1))" "distinct (map dl_id (st_deliveries ?s1))"
      using queue_notification_deliveries(1,2) [OF inv ac(3) cinv ac(2)] ds by simp_all
    fix d assume "d \<in> set (st_deliveries ?s1)"
    then have "d \<in> set (st_deliveries s) \<or> notifies c d"
      using queue_notification_deliveries(3) [OF inv ac(3) cinv ac(2)] ds by simp
    moreover have "notifies ?c d \<longleftrightarrow> notifies c d" by (simp add: notifies_def accepted_row_def)
    ultimately show "\<exists>c\<in>insert ?c (accepted_in s). notifies c d" using inv unfolding rounds_inv_def by blast
  qed
  then show ?thesis
    by (rule rounds_frame [of _ _ p "\<lambda>r. r\<lparr>rd_finalized := x\<rparr>" "\<lambda>_. False" id])
      (simp_all add: rs accepts_nothing_same update_where_id)
qed

text \<open>The operations that accept nothing, with what they leave of rounds and notifications.\<close>

definition leaves_rounds :: "store \<Rightarrow> store \<Rightarrow> bool" where
  "leaves_rounds s s' \<longleftrightarrow> accepts_nothing s s' \<and> st_rounds s' = st_rounds s \<and> st_deliveries s' = st_deliveries s"

lemma journal_leaves:
  assumes "journal_candidate_row v j s = Inr (x, s')"
  shows "leaves_rounds s s'"
proof (cases "s' = s")
  case False
  then have ins: "insert_candidate j s = Inr (x, s')"
    using assms by (auto simp: journal_candidate_row_def and_then_eq_Inr split: option.splits if_splits sum.splits bool.splits)
  then have "st_candidates s' = st_candidates s @ [fresh_candidate (new_rowid (map cr_id (st_candidates s))) j]"
    and "st_rounds s' = st_rounds s" and "st_deliveries s' = st_deliveries s"
    by (auto simp: insert_candidate_def Let_def split: sum.splits)
  then show ?thesis unfolding leaves_rounds_def
    using accepts_nothing_append by (simp add: fresh_candidate_def accepted_state_def)
qed (simp add: leaves_rounds_def accepts_nothing_same)

lemma start_attempt_leaves:
  assumes "start_candidate_attempt cid n rpc t s = Inr (i, s')"
  shows "leaves_rounds s s'"
proof (cases "s' = s")
  case False
  have "st_candidates s' = update_where (\<lambda>r. cr_id r = cid \<and> eligible False (cr_state r))
        (\<lambda>r. r\<lparr>cr_state := Cand_Dispatching, cr_attempts := uint n, cr_updated := t\<rparr>) (st_candidates s)"
      "st_rounds s' = st_rounds s" "st_deliveries s' = st_deliveries s"
    using assms False by (auto simp: start_candidate_attempt_def Let_def split: if_splits option.splits sum.splits)
  moreover from this(1) have "accepts_nothing s s'"
    by (rule accepts_nothing_update) (auto simp: same_block_def eligible_def accepted_state_def)
  ultimately show ?thesis by (simp add: leaves_rounds_def)
qed (simp add: leaves_rounds_def accepts_nothing_same)

lemma start_lookup_leaves:
  assumes "start_candidate_reconciliation l s = Inr (k, s')"
  shows "leaves_rounds s s'"
proof (cases "s' = s")
  case False
  have "st_candidates s' = update_where (\<lambda>r. cr_id r = ls_candidate l)
      (\<lambda>r. r\<lparr>cr_cycles := max (cr_cycles r) (uint (ls_cycle l)), cr_next_reconciliation := None,
            cr_updated := max (cr_updated r) (ls_started l)\<rparr>) (st_candidates s)"
      "st_rounds s' = st_rounds s" "st_deliveries s' = st_deliveries s"
    using assms False by (auto simp: start_candidate_reconciliation_def Let_def split: if_splits option.splits)
  moreover from this(1) have "accepts_nothing s s'"
    by (rule accepts_nothing_update) simp
  ultimately show ?thesis by (simp add: leaves_rounds_def)
qed (simp add: leaves_rounds_def accepts_nothing_same)

lemma schedule_leaves:
  assumes "schedule_candidate_reconciliation cid t s = Inr (u, s')"
  shows "leaves_rounds s s'"
proof -
  have "st_candidates s' = update_where (\<lambda>r. cr_id r = cid \<and> cr_state r = Cand_Ambiguous)
      (\<lambda>r. r\<lparr>cr_next_reconciliation := Some t, cr_updated := max (cr_updated r) t\<rparr>) (st_candidates s)"
    "st_rounds s' = st_rounds s" "st_deliveries s' = st_deliveries s"
    using assms by (auto simp: schedule_candidate_reconciliation_def split: if_splits)
  moreover from this(1) have "accepts_nothing s s'" by (rule accepts_nothing_update) simp
  ultimately show ?thesis by (simp add: leaves_rounds_def)
qed

lemma exhaust_leaves:
  assumes "exhaust_candidate_reconciliation cid t s = Inr (b, s')"
  shows "leaves_rounds s s'"
proof -
  have "st_candidates s' = update_where (\<lambda>r. cr_id r = cid \<and> cr_state r = Cand_Ambiguous \<and> cr_exhausted r = None)
      (\<lambda>r. r\<lparr>cr_exhausted := Some t, cr_next_reconciliation := None, cr_updated := max (cr_updated r) t\<rparr>) (st_candidates s)"
    "st_rounds s' = st_rounds s" "st_deliveries s' = st_deliveries s"
    using assms by (auto simp: exhaust_candidate_reconciliation_def Let_def split: if_splits)
  moreover from this(1) have "accepts_nothing s s'"
    by (rule accepts_nothing_update) (simp add: same_block_def)
  ultimately show ?thesis by (simp add: leaves_rounds_def)
qed

lemma fail_attempt_leaves:
  assumes "fail_attempt c n done s = Inr (x, s')"
  shows "leaves_rounds s s'"
proof -
  have "accepts_nothing s s'"
    by (rule accepts_nothing_update [OF fail_attempt_effect(1) [OF assms]])
      (simp add: accepted_state_def next_state_def)
  then show ?thesis using fail_attempt_effect(3,4) [OF assms] by (simp add: leaves_rounds_def)
qed

lemma leaves_rounds_inv: "rounds_inv s \<Longrightarrow> leaves_rounds s s' \<Longrightarrow> rounds_inv s'"
  unfolding leaves_rounds_def using rounds_same by blast

lemma decide_verdict_tables:
  assumes "decide_verdict v d cand s = Inr (x, s')"
  shows "st_candidates s' = st_candidates s" "st_attempts s' = st_attempts s" "st_rounds s' = st_rounds s"
    "st_deliveries s' = st_deliveries s" "st_verdicts s' = st_verdicts s" "st_session s' = st_session s"
  using assms
  by (auto simp: decide_verdict_def candidate_abuse_event_def insert_abuse_def Let_def split: option.splits if_splits prod.splits)

lemma insert_verdict_tables:
  assumes "insert_verdict d cand verdict s = Inr (w, s')"
  shows "st_candidates s' = st_candidates s" "st_attempts s' = st_attempts s" "st_rounds s' = st_rounds s"
    "st_deliveries s' = st_deliveries s" "st_abuse s' = st_abuse s"
    "st_verdicts s' = st_verdicts s @ [verdict_row_of d cand (fst verdict) (fst (snd verdict))]"
  using assms by (auto simp: insert_verdict_def Let_def and_then_eq_Inr split: prod.splits if_splits)

lemma record_verdict_cases:
  assumes "record_candidate_verdict v d s = Inr (w, s')"
  obtains (Known) "s' = s"
  | (New) cand verdict s1 where "find (\<lambda>x. vd_share x = vi_share d \<and> vd_kind x = vi_kind d) (st_verdicts s) = None"
      "cand = (if vi_candidate d \<noteq> None then vi_candidate d else map_option cr_id (candidate_by_key s (vi_key d)))"
      "decide_verdict v d cand s = Inr (verdict, s1)" "insert_verdict d cand verdict s1 = Inr (w, s')"
proof (cases "find (\<lambda>x. vd_share x = vi_share d \<and> vd_kind x = vi_kind d) (st_verdicts s)")
  case (Some x)
  then show thesis using assms Known by (simp add: record_candidate_verdict_def split: if_splits)
next
  case None
  let ?cand = "if vi_candidate d \<noteq> None then vi_candidate d else map_option cr_id (candidate_by_key s (vi_key d))"
  have "and_then (decide_verdict v d ?cand s) (\<lambda>(verdict, s). insert_verdict d ?cand verdict s) = Inr (w, s')"
    using assms None by (simp add: record_candidate_verdict_def Let_def split: if_splits)
  then obtain p where "decide_verdict v d ?cand s = Inr p" "(\<lambda>(verdict, s). insert_verdict d ?cand verdict s) p = Inr (w, s')"
    unfolding and_then_eq_Inr by blast
  then show thesis using New [OF None refl, of "fst p" "snd p"] by (simp add: case_prod_beta)
qed

lemma record_verdict_tables:
  assumes "record_candidate_verdict v d s = Inr (w, s')"
  shows "st_candidates s' = st_candidates s" "st_attempts s' = st_attempts s" "st_rounds s' = st_rounds s"
    "st_deliveries s' = st_deliveries s"
  using assms
  by (cases rule: record_verdict_cases, simp_all add: decide_verdict_tables insert_verdict_tables)+

section \<open>The invariant of the store\<close>

definition store_inv :: "store \<Rightarrow> bool" where
  "store_inv s \<longleftrightarrow> cand_inv s \<and> rounds_inv s"

lemma store_invD: "store_inv s \<Longrightarrow> cand_inv s" "store_inv s \<Longrightarrow> rounds_inv s"
  by (simp_all add: store_inv_def)

lemma deliveries_step:
  assumes inv: "store_inv s" and cs: "st_candidates s' = st_candidates s" and as: "st_attempts s' = st_attempts s"
    and rs: "st_rounds s' = st_rounds s" and ds: "st_deliveries s' = update_where q h (st_deliveries s)"
    and h: "\<And>d. dl_id (h d) = dl_id d \<and> dl_candidate (h d) = dl_candidate d \<and> dl_miner_tx (h d) = dl_miner_tx d"
  shows "keeps_candidates s s' \<and> rounds_inv s'"
proof
  show "keeps_candidates s s'" using store_invD(1) [OF inv] cs as by (rule keeps_same)
  show "rounds_inv s'"
  proof (rule rounds_frame [OF store_invD(2) [OF inv] accepts_nothing_same [OF cs] _ _ ds h])
    show "st_rounds s' = update_where (\<lambda>_. False) id (st_rounds s)" by (simp add: rs update_where_id)
  qed simp
qed

lemma claim_cases:
  assumes "claim_next_blocknotify now s = Inr (m, s')"
  obtains (Nothing) "s' = s" "m = None"
  | (Claimed) d n where "first_delivery (filter (delivery_due now) (st_deliveries s)) = Some d"
      "m = Some (d\<lparr>dl_attempts := n\<rparr>)" "n = (dl_attempts d + 1) mod 2 ^ 32"
      "s' = add_event now ''blocknotify_started'' (Some (dl_candidate d)) None
        (s\<lparr>st_deliveries := update_where (\<lambda>x. dl_id x = dl_id d \<and> delivery_due now x) (claimed_row now n) (st_deliveries s)\<rparr>)"
proof (cases "st_blocknotify_enabled s \<and> first_delivery (filter (delivery_due now) (st_deliveries s)) \<noteq> None")
  case False
  then show thesis using assms Nothing by (auto simp: claim_next_blocknotify_def split: if_splits)
next
  case True
  then obtain d where d: "first_delivery (filter (delivery_due now) (st_deliveries s)) = Some d" by auto
  show thesis
    by (rule Claimed [OF d, of "(dl_attempts d + 1) mod 2 ^ 32"])
      (use assms True d in \<open>auto simp: claim_next_blocknotify_def and_then_eq_Inr Let_def split: if_splits\<close>)
qed

lemma claim_step:
  assumes inv: "store_inv s" and claim: "claim_next_blocknotify now s = Inr (m, s')"
  shows "keeps_candidates s s' \<and> rounds_inv s'"
  using claim
proof (cases rule: claim_cases)
  case Nothing
  then show ?thesis using inv keeps_same [of s s] by (simp add: store_inv_def)
next
  case (Claimed d n)
  show ?thesis
    by (rule deliveries_step [OF inv, of _ "\<lambda>x. dl_id x = dl_id d \<and> delivery_due now x" "claimed_row now n"])
      (simp_all add: Claimed(4) claimed_row_def)
qed

lemma notified_cases:
  assumes "finish_blocknotify did done s = Inr (u, s')"
  obtains d t where "find (\<lambda>d. dl_id d = did) (st_deliveries s) = Some d" "dl_state d = Delivery_Running"
    "nc_delivered done \<longrightarrow> nc_exit done = Some 0 \<and> nc_signal done = None"
    "s' = add_event (nc_completed done) ''blocknotify_result'' (Some (dl_candidate d)) None
      (s\<lparr>st_deliveries := update_where (\<lambda>x. dl_id x = did \<and> dl_state x = Delivery_Running) (notified_row done t) (st_deliveries s)\<rparr>)"
proof -
  obtain d where d: "find (\<lambda>d. dl_id d = did) (st_deliveries s) = Some d" "dl_state d = Delivery_Running"
      "nc_delivered done \<longrightarrow> nc_exit done = Some 0 \<and> nc_signal done = None"
    using assms by (auto simp: finish_blocknotify_def and_then_eq_Inr split: if_splits option.splits)
  let ?next = "if nc_delivered done then Inr None
     else and_then (checked_add_time (nc_completed done) (blocknotify_delay_seconds (of_int (dl_attempts d)) * 1000000)) (\<lambda>t. Inr (Some t))"
  obtain t where t: "?next = Inr t"
    using assms d by (cases ?next) (auto simp: finish_blocknotify_def and_then_eq_Inr split: if_splits)
  show thesis
    by (rule that [OF d, of t])
      (use assms d t in \<open>auto simp: finish_blocknotify_def and_then_eq_Inr Let_def split: if_splits\<close>)
qed

lemma notified_step:
  assumes inv: "store_inv s" and fin: "finish_blocknotify did done s = Inr (u, s')"
  shows "keeps_candidates s s' \<and> rounds_inv s'"
  using fin
proof (cases rule: notified_cases)
  case (1 d t)
  show ?thesis
    by (rule deliveries_step [OF inv, of _ "\<lambda>x. dl_id x = did \<and> dl_state x = Delivery_Running" "notified_row done t"])
      (simp_all add: 1(4) notified_row_def)
qed

lemma new_round_step:
  assumes inv: "store_inv s" and "st_candidates s' = st_candidates s" and "st_attempts s' = st_attempts s"
    and "st_deliveries s' = st_deliveries s"
    and "st_rounds s' = st_rounds s \<or> open_rounds s = [] \<and> (\<exists>t s0. st_rounds s0 = st_rounds s \<and> st_rounds s' = st_rounds s @ [fresh_round t s0])"
  shows "keeps_candidates s s' \<and> rounds_inv s'"
proof -
  have "rounds_inv s'"
    using assms(5)
  proof
    assume "st_rounds s' = st_rounds s"
    then show ?thesis using rounds_same [of s s'] inv assms(2,4) accepts_nothing_same by (simp add: store_inv_def)
  next
    assume "open_rounds s = [] \<and> (\<exists>t s0. st_rounds s0 = st_rounds s \<and> st_rounds s' = st_rounds s @ [fresh_round t s0])"
    then obtain t s0 where "open_rounds s = []" "st_rounds s0 = st_rounds s" "st_rounds s' = st_rounds s @ [fresh_round t s0]" by blast
    then show ?thesis using rounds_append [of s s' "fresh_round t s0"] inv assms(2,4)
      by (simp add: store_inv_def open_new_round_effect(2,4))
  qed
  then show ?thesis using inv keeps_same [of s s'] assms(2,3) by (simp add: store_inv_def)
qed

lemma same_rounds_inv:
  assumes "rounds_inv s" and "st_candidates s' = st_candidates s" and "st_rounds s' = st_rounds s"
    and "st_deliveries s' = st_deliveries s"
  shows "rounds_inv s'"
  using assms(1) accepts_nothing_same [OF assms(2)] assms(3,4) by (rule rounds_same)

lemma accept_rounds:
  assumes "distinct (map cr_id (st_candidates s))" and "rounds_inv s"
    and "accept_candidate_in_transaction v cid t canonical b s = Inr (x, s')"
  shows "rounds_inv s'"
  using accept_effect [OF assms(3)] rounds_accept [OF assms(1,2)] assms(2) by blast

lemma finish_attempt_rounds:
  assumes inv: "store_inv s" and fin: "finish_candidate_attempt v cid n done s = Inr (x, s')"
  shows "rounds_inv s'"
proof -
  let ?s = "close_attempt cid (uint n) done s"
  have rinv: "rounds_inv ?s" by (rule same_rounds_inv [OF store_invD(2) [OF inv]]) simp_all
  have ids: "distinct (map cr_id (st_candidates ?s))" using candidates_invD(1) [OF store_invD(1) [OF inv]] by simp
  show ?thesis using fin
  proof (cases rule: finish_attempt_cases)
    case Repeated
    then show ?thesis using store_invD(2) [OF inv] by simp
  next
    case (Closed c a)
    show ?thesis unfolding Closed(6) by (rule same_rounds_inv [OF rinv]) simp_all
  next
    case (Accepted c a b)
    show ?thesis by (rule accept_rounds [OF ids rinv Accepted(6)])
  next
    case (Failed c a)
    show ?thesis by (rule leaves_rounds_inv [OF rinv fail_attempt_leaves [OF Failed(6)]])
  qed
qed

lemma finish_lookup_rounds:
  assumes inv: "store_inv s" and fin: "finish_candidate_reconciliation v rid done s = Inr (y, s')"
  shows "rounds_inv s'"
  using fin
proof (cases rule: finish_lookup_cases)
  case Unchanged
  show ?thesis by (rule same_rounds_inv [OF store_invD(2) [OF inv] Unchanged(1,3,4)])
next
  case (Positive k s1 b)
  have tables: "st_candidates s1 = st_candidates s" "st_rounds s1 = st_rounds s" "st_deliveries s1 = st_deliveries s"
    by (simp_all add: Positive(5) close_lookup_def)
  have "distinct (map cr_id (st_candidates s1))" unfolding tables by (rule candidates_invD(1) [OF store_invD(1) [OF inv]])
  moreover have "rounds_inv s1" by (rule same_rounds_inv [OF store_invD(2) [OF inv] tables])
  ultimately show ?thesis by (rule accept_rounds [OF _ _ Positive(6)])
qed

section \<open>The contract of an operation\<close>

text \<open>
  What every method of the database that returns promises, whatever it returns; an exception rolls back. The laws
  are discharged for each method of \<open>Candidate_Store\<close> below.
\<close>

locale durable =
  fixes operation :: "store \<Rightarrow> 'a db"
  assumes keeps: "store_inv s \<Longrightarrow> operation s = Inr (x, s') \<Longrightarrow> keeps_candidates s s'"
    and rounds: "store_inv s \<Longrightarrow> operation s = Inr (x, s') \<Longrightarrow> rounds_inv s'"
begin

lemma invariant: "store_inv s \<Longrightarrow> operation s = Inr (x, s') \<Longrightarrow> store_inv s'"
  unfolding store_inv_def [of s'] using keeps [unfolded keeps_candidates_def] rounds by blast

lemma evolution: "store_inv s \<Longrightarrow> operation s = Inr (x, s') \<Longrightarrow> evolves s s'"
  using keeps [unfolded keeps_candidates_def] by blast

end

lemma durableI:
  assumes "\<And>s x s'. store_inv s \<Longrightarrow> operation s = Inr (x, s') \<Longrightarrow> keeps_candidates s s' \<and> rounds_inv s'"
  shows "durable operation"
proof unfold_locales
  fix s x s' assume "store_inv s" and "operation s = Inr (x, s')"
  note both = assms [OF this]
  show "keeps_candidates s s'" by (rule conjunct1 [OF both])
  show "rounds_inv s'" by (rule conjunct2 [OF both])
qed

lemma leaving_durable:
  assumes "\<And>s x s'. cand_inv s \<Longrightarrow> operation s = Inr (x, s') \<Longrightarrow> keeps_candidates s s'"
    and "\<And>s x s'. operation s = Inr (x, s') \<Longrightarrow> leaves_rounds s s'"
  shows "durable operation"
proof (rule durableI)
  fix s x s' assume inv: "store_inv s" and op: "operation s = Inr (x, s')"
  show "keeps_candidates s s' \<and> rounds_inv s'"
    using assms(1) [OF store_invD(1) [OF inv] op] leaves_rounds_inv [OF store_invD(2) [OF inv] assms(2) [OF op]] by blast
qed

lemma session_cases:
  assumes "start_session version commit t s = Inr (i, s')"
  obtains (Opens) s0 where "s0 = s\<lparr>st_session := i\<rparr>" "open_rounds s = []"
      "s' = add_event t ''round_opened'' None (Some (rd_id (fresh_round t s0))) (add_event t ''server_started'' None None
        (s0\<lparr>st_rounds := st_rounds s0 @ [fresh_round t s0]\<rparr>))"
  | (Has) "s' = add_event t ''server_started'' None None (s\<lparr>st_session := i\<rparr>)"
proof -
  have open_same: "open_rounds (s\<lparr>st_session := i\<rparr>) = open_rounds s" for i by (simp add: open_rounds_def)
  show thesis
  proof (cases "open_rounds s")
    case Nil
    show thesis
      by (rule Opens [OF refl Nil]) (use assms Nil in \<open>auto simp: start_session_def and_then_eq_Inr Let_def open_same open_new_round_effect(1) split: if_splits\<close>)
  next
    case (Cons r rs)
    show thesis
      by (rule Has) (use assms Cons in \<open>auto simp: start_session_def and_then_eq_Inr Let_def open_same split: list.splits if_splits\<close>)
  qed
qed

lemma session_step:
  assumes inv: "store_inv s" and start: "start_session version commit t s = Inr (i, s')"
  shows "keeps_candidates s s' \<and> rounds_inv s'"
  using start
proof (cases rule: session_cases)
  case (Opens s0)
  have "st_rounds s0 = st_rounds s" "st_rounds s' = st_rounds s @ [fresh_round t s0]"
    unfolding Opens(3) by (simp_all add: Opens(1))
  then have "\<exists>t s0. st_rounds s0 = st_rounds s \<and> st_rounds s' = st_rounds s @ [fresh_round t s0]" by blast
  then show ?thesis
    using Opens(2) by (intro new_round_step [OF inv] disjI2 conjI) (simp_all add: Opens(1,3))
next
  case Has
  show ?thesis by (rule new_round_step [OF inv]) (simp_all add: Has)
qed

lemma ensure_tables:
  assumes "ensure_open_round t s = Inr (i, s')"
  shows "s' = s \<or> open_rounds s = [] \<and> s' = s\<lparr>st_rounds := st_rounds s @ [fresh_round t s]\<rparr>"
  using assms by (auto simp: ensure_open_round_def open_new_round_effect(1) split: list.splits)

lemma ensure_step:
  assumes inv: "store_inv s" and op: "ensure_open_round t s = Inr (i, s')"
  shows "keeps_candidates s s' \<and> rounds_inv s'"
  using ensure_tables [OF op]
proof
  assume "s' = s"
  then show ?thesis by (intro new_round_step [OF inv]) simp_all
next
  assume opened: "open_rounds s = [] \<and> s' = s\<lparr>st_rounds := st_rounds s @ [fresh_round t s]\<rparr>"
  then have "st_rounds s' = st_rounds s @ [fresh_round t s]" by simp
  with opened show ?thesis by (intro new_round_step [OF inv] disjI2 conjI exI [of _ t] exI [of _ s]) simp_all
qed

interpretation session: durable "start_session version commit t"
  by (rule durableI) (rule session_step)

interpretation ensuring: durable "ensure_open_round t"
  by (rule durableI) (rule ensure_step)

interpretation journaling: durable "journal_candidate_row v j"
  by (rule leaving_durable) (fact journal_keeps, fact journal_leaves)

interpretation looking: durable "start_candidate_reconciliation l"
  by (rule leaving_durable) (fact start_lookup_keeps, fact start_lookup_leaves)

interpretation scheduling: durable "schedule_candidate_reconciliation cid t"
  by (rule leaving_durable) (fact schedule_keeps, fact schedule_leaves)

interpretation exhausting: durable "exhaust_candidate_reconciliation cid t"
  by (rule leaving_durable) (fact exhaust_keeps, fact exhaust_leaves)

interpretation finishing: durable "finish_candidate_attempt v cid n ended"
  by unfold_locales (fact finish_attempt_keeps [OF store_invD(1)], fact finish_attempt_rounds)

interpretation reconciling: durable "finish_candidate_reconciliation v rid found"
  by unfold_locales (fact finish_lookup_keeps [OF store_invD(1)], fact finish_lookup_rounds)

lemma accept_candidate_step:
  assumes "store_inv s" and "accept_candidate v cid t canonical b s = Inr (x, s')"
  shows "keeps_candidates s s' \<and> rounds_inv s'"
proof -
  have acc: "accept_candidate_in_transaction v cid t canonical b s = Inr (x, s')"
    using assms(2) by (simp add: accept_candidate_def split: if_splits)
  note ids = candidates_invD(1) [OF store_invD(1) [OF assms(1)]]
  show ?thesis
    using accept_in_transaction_keeps [OF store_invD(1) [OF assms(1)] acc] accept_rounds [OF ids store_invD(2) [OF assms(1)] acc]
    by blast
qed

interpretation accepting: durable "accept_candidate v cid t canonical b"
  by (rule durableI) (rule accept_candidate_step)

lemma record_verdict_step:
  assumes "store_inv s" and "record_candidate_verdict v d s = Inr (w, s')"
  shows "keeps_candidates s s' \<and> rounds_inv s'"
proof -
  note tables = record_verdict_tables [OF assms(2)]
  show ?thesis
    using keeps_same [OF store_invD(1) [OF assms(1)] tables(1,2)] same_rounds_inv [OF store_invD(2) [OF assms(1)] tables(1,3,4)]
    by blast
qed

interpretation judging: durable "record_candidate_verdict v d"
  by (rule durableI) (rule record_verdict_step)

interpretation claiming: durable "claim_next_blocknotify now"
  by (rule durableI) (rule claim_step)

interpretation notifying: durable "finish_blocknotify did ended"
  by (rule durableI) (rule notified_step)

lemma work_step:
  assumes inv: "store_inv s" and s': "s' = s\<lparr>st_rounds := update_where p g (st_rounds s)\<rparr>"
    and g: "\<And>r. rd_id (g r) = rd_id r \<and> rd_closed (g r) = rd_closed r \<and> rd_candidate (g r) = rd_candidate r \<and>
      rd_height (g r) = rd_height r \<and> rd_miner_tx (g r) = rd_miner_tx r"
  shows "keeps_candidates s s' \<and> rounds_inv s'"
proof
  have cs: "st_candidates s' = st_candidates s" and as: "st_attempts s' = st_attempts s"
    and rs: "st_rounds s' = update_where p g (st_rounds s)" by (simp_all add: s')
  show "keeps_candidates s s'" by (rule keeps_same [OF store_invD(1) [OF inv] cs as])
  show "rounds_inv s'"
    by (rule rounds_frame [OF store_invD(2) [OF inv] accepts_nothing_same [OF cs] rs g, of "\<lambda>_. False" id])
      (simp_all add: s' update_where_id)
qed

lemma finalize_step:
  assumes "store_inv s" and "try_finalize_round v rid t s = Inr (b, s')"
  shows "keeps_candidates s s' \<and> rounds_inv s'"
proof -
  obtain p x where "s' = s\<lparr>st_rounds := update_where p (\<lambda>r. r\<lparr>rd_finalized := x\<rparr>) (st_rounds s)\<rparr>"
    using try_finalize_effect [OF assms(2)] by blast
  then show ?thesis by (rule work_step [OF assms(1)]) simp
qed

interpretation finalizing: durable "try_finalize_round v rid t"
  by (rule durableI) (rule finalize_step)

lemma account_step:
  assumes "store_inv s"
  shows "keeps_candidates s (account_round rid credited shares height s) \<and> rounds_inv (account_round rid credited shares height s)"
  by (rule work_step [OF assms account_round_def]) simp

lemma restart_step:
  assumes inv: "store_inv s"
  shows "keeps_candidates s (reopen notify s) \<and> rounds_inv (reopen notify s)"
proof
  show "keeps_candidates s (reopen notify s)" by (rule reopen_keeps [OF store_invD(1) [OF inv]])
  let ?p = "\<lambda>r. cr_state r = Cand_Dispatching"
  let ?f = "\<lambda>r. r\<lparr>cr_had_indeterminate := True,
      cr_state := (if cr_attempts r < cr_max_attempts r then Cand_Retry_Wait else Cand_Ambiguous),
      cr_reason := (if cr_attempts r \<ge> cr_max_attempts r
        then Some ''process_restarted_with_exhausted_inflight_attempt'' else None)\<rparr>"
  have "st_candidates (reopen notify s) = update_where ?p ?f (st_candidates s)"
    by (simp add: reopen_def recover_blocknotify_def recover_inflight_candidates_def)
  then have frame: "accepts_nothing s (reopen notify s)"
    by (rule accepts_nothing_update) (simp add: same_block_def accepted_state_def)
  have ds: "st_deliveries (reopen notify s) = update_where (\<lambda>d. dl_state d = Delivery_Running)
      (\<lambda>d. d\<lparr>dl_state := Delivery_Pending, dl_next := None\<rparr>) (st_deliveries s)"
    by (simp add: reopen_def recover_blocknotify_def recover_inflight_candidates_def)
  show "rounds_inv (reopen notify s)"
    by (rule rounds_frame [of s _ "\<lambda>_. False" id, OF store_invD(2) [OF inv] frame _ _ ds])
      (simp_all add: reopen_def recover_blocknotify_def recover_inflight_candidates_def update_where_id)
qed

section \<open>Every reachable store\<close>

lemma step_keeps:
  assumes "store_inv s" and "store_step s s'"
  shows "store_inv s' \<and> evolves s s'"
  using assms(2)
proof cases
  case Start_Session then show ?thesis using session.invariant session.evolution assms(1) by blast
next
  case Ensure_Round then show ?thesis using ensuring.invariant ensuring.evolution assms(1) by blast
next
  case Journal then show ?thesis using journaling.invariant journaling.evolution assms(1) by blast
next
  case (Start_Attempt cid n rpc t i)
  note keeps = start_attempt_keeps [OF store_invD(1) [OF assms(1)] Start_Attempt]
  moreover have "rounds_inv s'" by (rule leaves_rounds_inv [OF store_invD(2) [OF assms(1)] start_attempt_leaves [OF Start_Attempt(2)]])
  ultimately show ?thesis by (simp add: store_inv_def keeps_candidates_def)
next
  case Finish_Attempt then show ?thesis using finishing.invariant finishing.evolution assms(1) by blast
next
  case Start_Lookup then show ?thesis using looking.invariant looking.evolution assms(1) by blast
next
  case Finish_Lookup then show ?thesis using reconciling.invariant reconciling.evolution assms(1) by blast
next
  case Schedule then show ?thesis using scheduling.invariant scheduling.evolution assms(1) by blast
next
  case Exhaust then show ?thesis using exhausting.invariant exhausting.evolution assms(1) by blast
next
  case Accept_Candidate then show ?thesis using accepting.invariant accepting.evolution assms(1) by blast
next
  case Record_Verdict then show ?thesis using judging.invariant judging.evolution assms(1) by blast
next
  case Claim_Notification then show ?thesis using claiming.invariant claiming.evolution assms(1) by blast
next
  case Finish_Notification then show ?thesis using notifying.invariant notifying.evolution assms(1) by blast
next
  case Finalize then show ?thesis using finalizing.invariant finalizing.evolution assms(1) by blast
next
  case Account then show ?thesis using account_step [OF assms(1)] by (simp add: store_inv_def keeps_candidates_def)
next
  case Reopen then show ?thesis using restart_step [OF assms(1)] by (simp add: store_inv_def keeps_candidates_def)
qed

lemma empty_store_inv: "store_inv (empty_store notify)"
  by (simp add: store_inv_def empty_store_def candidates_inv_def rounds_inv_def accepted_in_def open_rounds_def)

lemma reachable_inv: "store_reachable s \<Longrightarrow> store_inv s"
  by (induction rule: store_reachable.induct) (use empty_store_inv step_keeps in blast)+

lemma steps_reachable: "store_step\<^sup>*\<^sup>* s s' \<Longrightarrow> store_reachable s \<Longrightarrow> store_reachable s'"
  by (induction rule: rtranclp_induct) (auto intro: Store_Step)

lemma same_block_trans: "same_block a b \<Longrightarrow> same_block b c \<Longrightarrow> same_block a c"
  by (simp add: same_block_def)

lemma steps_evolve:
  assumes "store_step\<^sup>*\<^sup>* s s'" and "store_reachable s" and "c \<in> set (st_candidates s)"
  shows "\<exists>c'\<in>set (st_candidates s'). same_block c c' \<and> candidate_move\<^sup>*\<^sup>* (cr_state c) (cr_state c')"
  using assms(1)
proof (induction rule: rtranclp_induct)
  case base
  then show ?case using assms(3) same_block_refl by blast
next
  case (step s1 s2)
  then obtain c1 where c1: "c1 \<in> set (st_candidates s1)" "same_block c c1" "candidate_move\<^sup>*\<^sup>* (cr_state c) (cr_state c1)"
    by blast
  have "evolves s1 s2" using step_keeps [OF reachable_inv [OF steps_reachable [OF step(1) assms(2)]] step(2)] by blast
  then obtain c2 where "c2 \<in> set (st_candidates s2)" "advances c1 c2" using c1(1) unfolding evolves_def by blast
  then show ?case using c1 same_block_trans unfolding advances_def
    by (meson rtranclp.rtrancl_into_rtrancl)
qed

lemma settled_moves:
  assumes "candidate_move\<^sup>*\<^sup>* st st'" and "st \<in> {Cand_Accepted, Cand_Rejected, Cand_Accepted_By_Reconciliation}"
  shows "st' = st"
  using assms by (induction rule: rtranclp_induct) auto

lemma ambiguous_moves:
  assumes "candidate_move\<^sup>*\<^sup>* st st'" and "st = Cand_Ambiguous"
  shows "st' \<in> {Cand_Ambiguous, Cand_Accepted_By_Reconciliation}"
  using assms by (induction rule: rtranclp_induct) auto

section \<open>A block is journaled once\<close>

lemma candidate_by_keyD: "candidate_by_key s k = Some c \<Longrightarrow> c \<in> set (st_candidates s) \<and> cr_key c = k"
  by (auto simp: candidate_by_key_def dest: find_SomeD)

lemma candidate_by_key_found:
  assumes "store_reachable s" and "c \<in> set (st_candidates s)"
  shows "candidate_by_key s (cr_key c) = Some c"
  using find_unique [OF candidates_invD(2) [OF store_invD(1) [OF reachable_inv [OF assms(1)]]] assms(2)]
  by (simp add: candidate_by_key_def)

lemma journaled_row:
  assumes "journal_candidate_row v j s = Inr (r, s')" and "\<not> jr_contaminated r"
  obtains c where "c \<in> set (st_candidates s')" "cr_key c = cj_key j" "cr_id c = jr_candidate_id r" "cr_frozen c = cj_frozen j"
proof (cases "candidate_by_key s (cj_key j)")
  case (Some c)
  then show thesis
    using assms candidate_by_keyD [OF Some] that [of c]
    by (auto simp: journal_candidate_row_def journal_matches_def and_then_eq_Inr split: if_splits)
next
  case None
  then have ins: "insert_candidate j s = Inr (r, s')"
    using assms
    by (auto simp: journal_candidate_row_def and_then_eq_Inr contaminated_def split: option.splits if_splits sum.splits bool.splits)
  let ?c = "fresh_candidate (new_rowid (map cr_id (st_candidates s))) j"
  have "?c \<in> set (st_candidates s')" "cr_id ?c = jr_candidate_id r"
    using ins by (auto simp: insert_candidate_def Let_def fresh_candidate_def split: sum.splits)
  then show thesis using that [of ?c] by (simp add: fresh_candidate_def)
qed

lemma journal_known:
  assumes "candidate_by_key s (cj_key j) = Some c" and "journal_candidate_row v j s = Inr (r, s')"
  shows "s' = s \<and> jr_candidate_id r = cr_id c \<and> \<not> jr_inserted r \<and> \<not> jr_contaminated r \<and> cj_frozen j = cr_frozen c"
  using assms by (auto simp: journal_candidate_row_def journal_matches_def and_then_eq_Inr split: if_splits)

section \<open>An example history\<close>

definition demo_view :: shares_view where
  "demo_view = \<lparr>sv_origin = Map.empty, sv_attaches = (\<lambda>_. True), sv_higher = (\<lambda>_ _. False), sv_unsettled = (\<lambda>_. False),
     sv_segments = (\<lambda>_. []), sv_peer_evidence = (\<lambda>_. False)\<rparr>"

definition demo_journal :: candidate_journal where
  "demo_journal = \<lparr>cj_key = [1], cj_first_share = None, cj_session = 1, cj_round = 1, cj_job = [2], cj_generation = 1,
     cj_connection = 1, cj_height = 7, cj_peer_family = 2, cj_peer_address = [127, 0, 0, 1], cj_frozen = [3], cj_miner_tx = [4],
     cj_expected = None, cj_max_attempts = 1, cj_created = 10\<rparr>"

definition demo_answer :: "attempt_outcome \<Rightarrow> attempt_completion" where
  "demo_answer outcome = \<lparr>ac_outcome = outcome, ac_completed = 20, ac_trusted = False, ac_http_status = Some 200, ac_rpc_error = None,
     ac_daemon_status = None, ac_daemon_block_id = None, ac_excerpt = None\<rparr>"

definition after_call :: "'a db \<Rightarrow> store" where
  "after_call r = snd (projr r)"

definition demo_started :: store where
  "demo_started = after_call (start_session ''1'' None 1 (empty_store True))"

definition demo_journaled :: store where
  "demo_journaled = after_call (journal_candidate_row demo_view demo_journal demo_started)"

definition demo_dispatching :: store where
  "demo_dispatching = after_call (start_candidate_attempt 1 1 5 15 demo_journaled)"

definition demo_settled :: "attempt_outcome \<Rightarrow> store" where
  "demo_settled outcome = after_call (finish_candidate_attempt demo_view 1 1 (demo_answer outcome) demo_dispatching)"

lemma after_call: "\<not> isl r \<Longrightarrow> r = Inr (fst (projr r), after_call r)"
  by (cases r) (simp_all add: after_call_def)

lemma demo_returns:
  "\<not> isl (start_session ''1'' None 1 (empty_store True))"
  "\<not> isl (journal_candidate_row demo_view demo_journal demo_started)"
  "not_in_flight 1 demo_journaled"
  "\<not> isl (start_candidate_attempt 1 1 5 15 demo_journaled)"
  "\<not> isl (finish_candidate_attempt demo_view 1 1 (demo_answer Outcome_Rejection) demo_dispatching)"
  "\<not> isl (finish_candidate_attempt demo_view 1 1 (demo_answer Outcome_Accepted) demo_dispatching)"
  by code_simp+

lemma demo_started_reachable: "store_reachable demo_started"
  by (rule Store_Step [OF Empty_Store Start_Session [OF after_call [OF demo_returns(1)], folded demo_started_def]])

lemma demo_attempt: "store_step demo_journaled demo_dispatching"
  by (rule Start_Attempt [OF demo_returns(3) after_call [OF demo_returns(4)], folded demo_dispatching_def])

lemma demo_dispatching_reachable: "store_reachable demo_dispatching"
  by (rule Store_Step [OF Store_Step [OF demo_started_reachable
    Journal [OF after_call [OF demo_returns(2)], folded demo_journaled_def]] demo_attempt])

lemma demo_reject: "store_step demo_dispatching (demo_settled Outcome_Rejection)"
  by (rule Finish_Attempt [OF after_call [OF demo_returns(5)], folded demo_settled_def])

lemma demo_accept: "store_step demo_dispatching (demo_settled Outcome_Accepted)"
  by (rule Finish_Attempt [OF after_call [OF demo_returns(6)], folded demo_settled_def])

text \<open>
  Why the worker has to wait for an attempt before it starts the next: the database lets attempt 2 start while attempt 1 is
  in flight, and then no longer takes the outcome of attempt 1.
\<close>

lemma overlapping_attempts_strand_the_first:
  "let s = after_call (start_candidate_attempt 1 1 5 15 (after_call (journal_candidate_row demo_view
       (demo_journal\<lparr>cj_max_attempts := 2\<rparr>) demo_started)));
       s' = after_call (start_candidate_attempt 1 2 6 16 s) in
   map at_outcome (st_attempts s') = [None, None] \<and>
   finish_candidate_attempt demo_view 1 1 (demo_answer Outcome_Accepted) s' = fail ''candidate attempt is not the active attempt''"
  by code_simp

section \<open>Properties\<close>

text \<open>
  C5: A candidate is given up as rejected only when the daemon has rejected every submission it is entitled to: on
  every store the database can reach, whatever the order of journaling, attempts, look-ups, verdicts, notifications and restarts,
  the attempts on record for a candidate are numbered from 1 to its attempt count without a gap, the count is at most
  the configured maximum and that is at most 4; the row of a rejected candidate has all its attempts, every one of them
  answered with a definite rejection; and an ambiguous one has all its attempts with at least one of unknown outcome.
\<close>

theorem rejected_only_if_every_attempt_rejected:
  assumes "store_reachable s" and "c \<in> set (st_candidates s)" and "as = filter (\<lambda>a. at_candidate a = cr_id c) (st_attempts s)"
  shows "map at_number as = [1..cr_attempts c] \<and> cr_attempts c \<le> cr_max_attempts c \<and> cr_max_attempts c \<le> 4 \<and>
    (cr_state c = Cand_Rejected \<longrightarrow> cr_attempts c = cr_max_attempts c \<and> (\<forall>a\<in>set as. at_outcome a = Some Outcome_Rejection)) \<and>
    (cr_state c = Cand_Ambiguous \<longrightarrow> cr_attempts c = cr_max_attempts c \<and> (\<exists>a\<in>set as. at_outcome a = Some Outcome_Indeterminate))"
proof -
  have agree: "attempts_agree (st_attempts s) c"
    using candidates_invD(3) [OF store_invD(1) [OF reachable_inv [OF assms(1)]]] assms(2) by blast
  have as: "attempts_for (st_attempts s) c = as" by (simp add: attempts_for_def assms(3))
  have rejected: "at_outcome a = Some Outcome_Rejection" if "a \<in> set as" "cr_state c = Cand_Rejected" for a
  proof -
    have "at_outcome a \<in> outcomes_for (st_attempts s) c" using that(1) by (simp add: outcomes_for_def as)
    moreover have "outcomes_for (st_attempts s) c \<inter> {None, Some Outcome_Accepted, Some Outcome_Indeterminate} = {}"
      using agree that(2) by (auto simp: attempts_agree_def accepted_state_def)
    ultimately show ?thesis by (cases "at_outcome a"; cases "the (at_outcome a)") simp_all
  qed
  have "\<exists>a\<in>set as. at_outcome a = Some Outcome_Indeterminate" if "cr_state c = Cand_Ambiguous"
  proof -
    have "Some Outcome_Indeterminate \<in> at_outcome ` set as"
      using agree that by (auto simp: attempts_agree_def accepted_state_def outcomes_for_def as)
    then show ?thesis by (metis imageE)
  qed
  then show ?thesis using agree rejected by (simp add: attempts_agree_def as)
qed

theorem rejected_only_if_every_attempt_rejected_witness:
  "\<exists>c. st_candidates (demo_settled Outcome_Rejection) = [c] \<and> cr_state c = Cand_Rejected \<and> cr_attempts c = 1 \<and>
    map at_outcome (st_attempts (demo_settled Outcome_Rejection)) = [Some Outcome_Rejection] \<and>
    (\<forall>a\<in>set (filter (\<lambda>a. at_candidate a = cr_id c) (st_attempts (demo_settled Outcome_Rejection))). at_outcome a = Some Outcome_Rejection)"
proof -
  let ?s = "demo_settled Outcome_Rejection"
  have ev: "length (st_candidates ?s) = 1 \<and> cr_state (hd (st_candidates ?s)) = Cand_Rejected \<and> cr_attempts (hd (st_candidates ?s)) = 1 \<and>
      map at_outcome (st_attempts ?s) = [Some Outcome_Rejection]" by code_simp
  then obtain c where c: "st_candidates ?s = [c]" "cr_state c = Cand_Rejected" "cr_attempts c = 1" by (auto simp: length_Suc_conv)
  then show ?thesis
    using rejected_only_if_every_attempt_rejected [OF Store_Step [OF demo_dispatching_reachable demo_reject] _ refl, of c] ev by simp
qed

text \<open>
  C4: What is decided about a block stays decided. From any reachable store, after any number of further operations and
  restarts, the row of a candidate is still there for the same frozen block, and its state has moved along the
  abstract machine \<open>candidate_move\<close>: an accepted, rejected or reconciled candidate has not changed state, and an
  ambiguous one can only have become accepted by reconciliation.
\<close>

theorem decided_is_final:
  assumes "store_reachable s" and "store_step\<^sup>*\<^sup>* s s'" and "c \<in> set (st_candidates s)"
  shows "\<exists>c'\<in>set (st_candidates s'). same_block c c' \<and> candidate_move\<^sup>*\<^sup>* (cr_state c) (cr_state c') \<and>
    (cr_state c \<in> {Cand_Accepted, Cand_Rejected, Cand_Accepted_By_Reconciliation} \<longrightarrow> cr_state c' = cr_state c) \<and>
    (cr_state c = Cand_Ambiguous \<longrightarrow> cr_state c' \<in> {Cand_Ambiguous, Cand_Accepted_By_Reconciliation})"
  using steps_evolve [OF assms(2,1,3)] settled_moves ambiguous_moves by blast

theorem decided_is_final_witness:
  "\<exists>c\<in>set (st_candidates demo_dispatching). \<exists>c'\<in>set (st_candidates (demo_settled Outcome_Accepted)).
    same_block c c' \<and> candidate_move\<^sup>*\<^sup>* (cr_state c) (cr_state c') \<and> cr_state c = Cand_Dispatching"
proof -
  have ev: "length (st_candidates demo_dispatching) = 1 \<and> cr_state (hd (st_candidates demo_dispatching)) = Cand_Dispatching" by code_simp
  then obtain c where "c \<in> set (st_candidates demo_dispatching)" "cr_state c = Cand_Dispatching" by (auto simp: length_Suc_conv)
  then show ?thesis using decided_is_final [OF demo_dispatching_reachable r_into_rtranclp [of store_step, OF demo_accept]] by blast
qed

text \<open>
  C3: A round is closed by exactly one block. On every reachable store at most one round is open; every closed round
  was closed by exactly one accepted candidate, of the round's own height and miner transaction; every accepted candidate has
  closed exactly one round; and the queue of block notifications holds at most one entry for a candidate, only for
  accepted candidates, and each with that candidate's miner transaction.
\<close>

theorem one_block_per_round:
  assumes "store_reachable s"
  shows "length (open_rounds s) \<le> 1 \<and>
    (\<forall>r\<in>set (st_rounds s). rd_closed r \<noteq> None \<longrightarrow> (\<exists>!c. c \<in> accepted_in s \<and> closes c r)) \<and>
    (\<forall>c\<in>accepted_in s. \<exists>!r. r \<in> set (st_rounds s) \<and> closes c r) \<and>
    distinct (map dl_candidate (st_deliveries s)) \<and>
    (\<forall>d\<in>set (st_deliveries s). \<exists>c\<in>accepted_in s. notifies c d)"
proof -
  note inv = store_invD [OF reachable_inv [OF assms]]
  have cands: "c = c'" if "c \<in> accepted_in s" "c' \<in> accepted_in s" "closes c r" "closes c' r" for c c' r
    by (rule distinct_map_eq [OF candidates_invD(1) [OF inv(1)]]) (use that in \<open>simp_all add: accepted_in_def closes_def\<close>)
  have rounds: "r = r'" if "r \<in> set (st_rounds s)" "r' \<in> set (st_rounds s)" "closes c r" "closes c r'" for c r r'
  proof -
    have "distinct (map rd_id (st_rounds s))" using inv(2) by (simp add: rounds_inv_def)
    then show ?thesis by (rule distinct_map_eq) (use that in \<open>simp_all add: closes_def\<close>)
  qed
  show ?thesis
  proof (intro conjI ballI impI)
    fix r assume "r \<in> set (st_rounds s)" and "rd_closed r \<noteq> None"
    then obtain c where "c \<in> accepted_in s" "closes c r" using inv(2) unfolding rounds_inv_def by blast
    then show "\<exists>!c. c \<in> accepted_in s \<and> closes c r" using cands by blast
  next
    fix c assume "c \<in> accepted_in s"
    then obtain r where "r \<in> set (st_rounds s)" "closes c r" using inv(2) unfolding rounds_inv_def by blast
    then show "\<exists>!r. r \<in> set (st_rounds s) \<and> closes c r" using rounds by blast
  qed (use inv(2) in \<open>simp_all add: rounds_inv_def\<close>)
qed

theorem one_block_per_round_witness:
  "let s = demo_settled Outcome_Accepted in map rd_closed (st_rounds s) = [Some 20, None] \<and> length (st_deliveries s) = 1 \<and>
    (\<forall>r\<in>set (st_rounds s). rd_closed r \<noteq> None \<longrightarrow> (\<exists>!c. c \<in> accepted_in s \<and> closes c r)) \<and> length (open_rounds s) \<le> 1"
proof -
  have "map rd_closed (st_rounds (demo_settled Outcome_Accepted)) = [Some 20, None] \<and> length (st_deliveries (demo_settled Outcome_Accepted)) = 1"
    by code_simp
  then show ?thesis
    using one_block_per_round [OF Store_Step [OF demo_dispatching_reachable demo_accept]] unfolding Let_def by blast
qed

text \<open>
  C7: A block is journaled once. After a candidate has been journaled for a key, every later call of
  \<open>journal_candidate\<close> with that key that does not raise, after any further operations and restarts, leaves the store
  unchanged and answers with the same candidate, as not inserted and not contaminated; and the block it was called
  with is the very block that is on record.
\<close>

theorem block_is_journaled_once:
  assumes "store_reachable s" and "journal_candidate_row v j s = Inr (r, s1)" and "\<not> jr_contaminated r"
    and "store_step\<^sup>*\<^sup>* s1 s2" and "cj_key j' = cj_key j" and "journal_candidate_row v' j' s2 = Inr (r', s3)"
  shows "s3 = s2 \<and> jr_candidate_id r' = jr_candidate_id r \<and> \<not> jr_inserted r' \<and> \<not> jr_contaminated r' \<and> cj_frozen j' = cj_frozen j"
proof -
  obtain c where c: "c \<in> set (st_candidates s1)" "cr_key c = cj_key j" "cr_id c = jr_candidate_id r" "cr_frozen c = cj_frozen j"
    by (rule journaled_row [OF assms(2,3)])
  have reach: "store_reachable s1" by (rule Store_Step [OF assms(1) Journal [OF assms(2)]])
  then obtain c' where c': "c' \<in> set (st_candidates s2)" "same_block c c'" using steps_evolve [OF assms(4) _ c(1)] by blast
  have cols: "cr_key c' = cr_key c" "cr_id c' = cr_id c" "cr_frozen c' = cr_frozen c" using c'(2) by (simp_all add: same_block_def)
  have "candidate_by_key s2 (cj_key j') = Some c'"
    using candidate_by_key_found [OF steps_reachable [OF assms(4) reach] c'(1)] c(2) cols(1) assms(5) by simp
  from journal_known [OF this assms(6)] show ?thesis using c cols by simp
qed

theorem block_is_journaled_once_witness:
  "\<exists>r s3. journal_candidate_row demo_view demo_journal (demo_settled Outcome_Rejection) = Inr (r, s3) \<and>
    s3 = demo_settled Outcome_Rejection \<and> jr_candidate_id r = 1 \<and> \<not> jr_inserted r"
proof -
  let ?first = "journal_candidate_row demo_view demo_journal demo_started"
  let ?again = "journal_candidate_row demo_view demo_journal (demo_settled Outcome_Rejection)"
  have "\<not> isl ?again \<and> \<not> jr_contaminated (fst (projr ?first)) \<and> jr_candidate_id (fst (projr ?first)) = 1" by code_simp
  moreover have "store_step\<^sup>*\<^sup>* (after_call ?first) (demo_settled Outcome_Rejection)"
    unfolding demo_journaled_def [symmetric] using demo_attempt demo_reject by (meson r_into_rtranclp rtranclp.rtrancl_into_rtrancl)
  ultimately show ?thesis
    using block_is_journaled_once [OF demo_started_reachable after_call [OF demo_returns(2)] _ _ refl after_call [of ?again]]
      after_call [of ?again] by metis
qed

end
