(* ===== verification/Candidate_Verdicts.thy ===== *)
theory Candidate_Verdicts
  imports Candidate_Rounds
begin

text \<open>
  Verdicts of the verifier on a candidate and the abuse they are turned into, over the store of \<open>Candidate_Store\<close>:
  a miner is blamed for a candidate once for each kind of verdict, and only when the network has refused the block. A
  verdict that finds no candidate with its key counts at once; in an example it still counts after the block was accepted.
\<close>

section \<open>Well-formed verdicts\<close>

definition verdict_linked :: "candidate_row list \<Rightarrow> verdict_row \<Rightarrow> bool" where
  "verdict_linked cs x \<longleftrightarrow>
     (case vd_candidate x of
        None \<Rightarrow> vd_disposition x \<noteq> Verdict_Pending
      | Some i \<Rightarrow> \<exists>c\<in>set cs. cr_id c = i \<and>
          (vd_disposition x = Verdict_Actionable \<longrightarrow> cr_state c = Cand_Rejected) \<and>
          (vd_disposition x = Verdict_Pending \<longrightarrow> \<not> accepted_state (cr_state c) \<and> cr_state c \<noteq> Cand_Rejected))"

definition blamed_once :: "verdict_row list \<Rightarrow> abuse_row list \<Rightarrow> bool" where
  "blamed_once vs as \<longleftrightarrow> distinct (map (\<lambda>x. (vd_share x, vd_kind x)) vs) \<and> distinct (map ab_id as) \<and>
     (\<forall>a\<in>set as. \<forall>b\<in>set as. ab_candidate a \<noteq> None \<and> ab_candidate b = ab_candidate a \<and> ab_kind b = ab_kind a \<longrightarrow> b = a) \<and>
     (\<forall>x\<in>set vs. vd_disposition x = Verdict_Actionable \<longrightarrow>
        (\<exists>a\<in>set as. vd_abuse x = Some (ab_id a) \<and> ab_candidate a = vd_candidate x \<and> ab_kind a = verdict_abuse_kind (vd_kind x))) \<and>
     (\<forall>x\<in>set vs. vd_disposition x \<noteq> Verdict_Actionable \<longrightarrow> vd_abuse x = None) \<and>
     (\<forall>x\<in>set vs. \<forall>y\<in>set vs. vd_abuse x \<noteq> None \<and> vd_abuse y = vd_abuse x \<longrightarrow> y = x)"

definition verdicts_inv :: "store \<Rightarrow> bool" where
  "verdicts_inv s \<longleftrightarrow> list_all (verdict_linked (st_candidates s)) (st_verdicts s) \<and> blamed_once (st_verdicts s) (st_abuse s)"

section \<open>Steps that decide nothing\<close>

definition decides_nothing :: "candidate_row list \<Rightarrow> candidate_row list \<Rightarrow> bool" where
  "decides_nothing cs cs' \<longleftrightarrow> (\<forall>c\<in>set cs. \<exists>c'\<in>set cs'. cr_id c' = cr_id c \<and>
     accepted_state (cr_state c') = accepted_state (cr_state c) \<and> (cr_state c' = Cand_Rejected \<longleftrightarrow> cr_state c = Cand_Rejected))"

lemma decides_nothing_refl [simp]: "decides_nothing cs cs"
  by (auto simp: decides_nothing_def)

lemma decides_nothing_append [simp]: "decides_nothing cs (cs @ ds)"
  by (auto simp: decides_nothing_def)

lemma decides_nothing_update:
  assumes "\<And>c. c \<in> set cs \<Longrightarrow> p c \<Longrightarrow> cr_id (f c) = cr_id c \<and> accepted_state (cr_state (f c)) = accepted_state (cr_state c) \<and>
    (cr_state (f c) = Cand_Rejected \<longleftrightarrow> cr_state c = Cand_Rejected)"
  shows "decides_nothing cs (update_where p f cs)"
  unfolding decides_nothing_def
proof
  fix c assume c: "c \<in> set cs"
  show "\<exists>c'\<in>set (update_where p f cs). cr_id c' = cr_id c \<and>
     accepted_state (cr_state c') = accepted_state (cr_state c) \<and> (cr_state c' = Cand_Rejected \<longleftrightarrow> cr_state c = Cand_Rejected)"
    using assms [OF c] c by (intro bexI [of _ "if p c then f c else c"]) (simp_all add: update_where_def)
qed

lemma linked_frame:
  assumes "verdict_linked cs x" and "decides_nothing cs cs'"
  shows "verdict_linked cs' x"
proof (cases "vd_candidate x")
  case None
  then show ?thesis using assms(1) by (simp add: verdict_linked_def)
next
  case (Some i)
  then obtain c where c: "c \<in> set cs" "cr_id c = i" "vd_disposition x = Verdict_Actionable \<longrightarrow> cr_state c = Cand_Rejected"
      "vd_disposition x = Verdict_Pending \<longrightarrow> \<not> accepted_state (cr_state c) \<and> cr_state c \<noteq> Cand_Rejected"
    using assms(1) by (auto simp: verdict_linked_def)
  obtain c' where "c' \<in> set cs'" "cr_id c' = cr_id c" "accepted_state (cr_state c') = accepted_state (cr_state c)"
      "cr_state c' = Cand_Rejected \<longleftrightarrow> cr_state c = Cand_Rejected"
    using assms(2) c(1) unfolding decides_nothing_def by blast
  then show ?thesis using c Some by (auto simp: verdict_linked_def)
qed

lemma undecided_step:
  assumes "verdicts_inv s" and "decides_nothing (st_candidates s) (st_candidates s')"
    and "st_verdicts s' = st_verdicts s" and "st_abuse s' = st_abuse s"
  shows "verdicts_inv s'"
  using assms linked_frame by (auto simp: verdicts_inv_def list_all_iff)

section \<open>Writing abuse and suppressing verdicts\<close>

lemma blamed_onceD:
  assumes "blamed_once vs as"
  shows "distinct (map (\<lambda>x. (vd_share x, vd_kind x)) vs)" "distinct (map ab_id as)"
    "a \<in> set as \<Longrightarrow> b \<in> set as \<Longrightarrow> ab_candidate a = Some i \<Longrightarrow> ab_candidate b = Some i \<Longrightarrow> ab_kind b = ab_kind a \<Longrightarrow> b = a"
    "x \<in> set vs \<Longrightarrow> vd_disposition x = Verdict_Actionable \<Longrightarrow>
      \<exists>a\<in>set as. vd_abuse x = Some (ab_id a) \<and> ab_candidate a = vd_candidate x \<and> ab_kind a = verdict_abuse_kind (vd_kind x)"
    "x \<in> set vs \<Longrightarrow> vd_disposition x \<noteq> Verdict_Actionable \<Longrightarrow> vd_abuse x = None"
    "x \<in> set vs \<Longrightarrow> y \<in> set vs \<Longrightarrow> vd_abuse x = Some e \<Longrightarrow> vd_abuse y = Some e \<Longrightarrow> y = x"
  using assms unfolding blamed_once_def by simp_all

lemma blamed_append:
  assumes inv: "blamed_once vs as" and fresh: "ab_id a \<notin> ab_id ` set as"
    and first: "\<And>b. b \<in> set as \<Longrightarrow> ab_candidate a \<noteq> None \<Longrightarrow> ab_candidate b = ab_candidate a \<Longrightarrow> ab_kind b \<noteq> ab_kind a"
  shows "blamed_once vs (as @ [a])"
proof -
  have unique: "c = b" if "b \<in> set (as @ [a])" "c \<in> set (as @ [a])" "ab_candidate b = Some i" "ab_candidate c = Some i"
      "ab_kind c = ab_kind b" for b c i
  proof -
    have other: False if "d \<in> set as" "ab_candidate d = Some i" "ab_candidate a = Some i" "ab_kind d = ab_kind a" for d
      using first [OF that(1)] that(2-4) by simp
    consider "b = a" "c = a" | "b = a" "c \<in> set as" | "b \<in> set as" "c = a" | "b \<in> set as" "c \<in> set as"
      using \<open>b \<in> set (as @ [a])\<close> \<open>c \<in> set (as @ [a])\<close> by auto
    then show ?thesis
    proof cases
      case 1
      then show ?thesis by simp
    next
      case 2
      then show ?thesis using other [OF 2(2) that(4)] that(3,5) by simp
    next
      case 3
      then show ?thesis using other [OF 3(1) that(3)] that(4,5) by simp
    next
      case 4
      show ?thesis by (rule blamed_onceD(3) [OF inv 4 that(3-5)])
    qed
  qed
  have backed: "\<exists>b\<in>set (as @ [a]). vd_abuse x = Some (ab_id b) \<and> ab_candidate b = vd_candidate x \<and> ab_kind b = verdict_abuse_kind (vd_kind x)"
    if "x \<in> set vs" "vd_disposition x = Verdict_Actionable" for x
    using blamed_onceD(4) [OF inv that] by auto
  show ?thesis
    unfolding blamed_once_def
  proof (intro conjI ballI impI)
    show "distinct (map ab_id (as @ [a]))" using blamed_onceD(2) [OF inv] fresh by simp
    show "distinct (map (\<lambda>x. (vd_share x, vd_kind x)) vs)" by (rule blamed_onceD(1) [OF inv])
    show "vd_abuse x = None" if "x \<in> set vs" "vd_disposition x \<noteq> Verdict_Actionable" for x by (rule blamed_onceD(5) [OF inv that])
    show "y = x" if xy: "x \<in> set vs" "y \<in> set vs" and same: "vd_abuse x \<noteq> None \<and> vd_abuse y = vd_abuse x" for x y
    proof -
      obtain e where "vd_abuse x = Some e" "vd_abuse y = Some e" using same by auto
      then show ?thesis by (rule blamed_onceD(6) [OF inv xy])
    qed
    show "c = b" if bc: "b \<in> set (as @ [a])" "c \<in> set (as @ [a])"
        and same: "ab_candidate b \<noteq> None \<and> ab_candidate c = ab_candidate b \<and> ab_kind c = ab_kind b" for b c
    proof -
      obtain i where "ab_candidate b = Some i" "ab_candidate c = Some i" "ab_kind c = ab_kind b" using same by auto
      then show ?thesis by (rule unique [OF bc])
    qed
  qed (rule backed)
qed

lemma candidate_abuse_None: "candidate_abuse s i kind = None \<longleftrightarrow> (\<forall>b\<in>set (st_abuse s). \<not> (ab_candidate b = Some i \<and> ab_kind b = kind))"
  by (auto simp: candidate_abuse_def find_None_iff)

lemma blamed_insert:
  assumes "blamed_once vs (st_abuse s)" and "\<And>i. cand = Some i \<Longrightarrow> candidate_abuse s i kind = None"
  shows "blamed_once vs (st_abuse (snd (insert_abuse share cand kind t s)))"
proof -
  let ?a = "\<lparr>ab_id = new_rowid (map ab_id (st_abuse s)), ab_share = share, ab_candidate = cand, ab_kind = kind, ab_created = t\<rparr>"
  have "blamed_once vs (st_abuse s @ [?a])"
  proof (rule blamed_append [OF assms(1)])
    show "ab_id ?a \<notin> ab_id ` set (st_abuse s)" using new_rowid_fresh [of "map ab_id (st_abuse s)"] by simp
    fix b assume "b \<in> set (st_abuse s)" "ab_candidate ?a \<noteq> None" "ab_candidate b = ab_candidate ?a"
    then show "ab_kind b \<noteq> ab_kind ?a" using assms(2) by (auto simp: candidate_abuse_None)
  qed
  then show ?thesis by (simp add: insert_abuse_def Let_def)
qed

lemma blamed_suppress:
  assumes "blamed_once vs as" and "\<And>x. x \<in> set vs \<Longrightarrow> p x \<Longrightarrow> vd_disposition x = Verdict_Pending"
  shows "blamed_once (update_where p (\<lambda>x. x\<lparr>vd_disposition := Verdict_Suppressed, vd_resolved := t\<rparr>) vs) as"
proof -
  let ?f = "\<lambda>x. if p x then x\<lparr>vd_disposition := Verdict_Suppressed, vd_resolved := t\<rparr> else x"
  have abuse: "vd_abuse (?f x) = vd_abuse x" for x by simp
  have pend: "vd_abuse x = None" if "x \<in> set vs" "p x" for x using blamed_onceD(5) [OF assms(1) that(1)] assms(2) [OF that] by simp
  have vs: "update_where p (\<lambda>x. x\<lparr>vd_disposition := Verdict_Suppressed, vd_resolved := t\<rparr>) vs = map ?f vs"
    by (simp add: update_where_def)
  have keys: "map (\<lambda>x. (vd_share x, vd_kind x)) (map ?f vs) = map (\<lambda>x. (vd_share x, vd_kind x)) vs" by simp
  show ?thesis
    unfolding vs blamed_once_def keys
  proof (intro conjI ballI impI)
    fix y assume "y \<in> set (map ?f vs)" and act: "vd_disposition y = Verdict_Actionable"
    then obtain x where x: "x \<in> set vs" "y = ?f x" by auto
    then have "y = x" using act by (cases "p x") simp_all
    then show "\<exists>a\<in>set as. vd_abuse y = Some (ab_id a) \<and> ab_candidate a = vd_candidate y \<and> ab_kind a = verdict_abuse_kind (vd_kind y)"
      using blamed_onceD(4) [OF assms(1) x(1)] act by simp
  next
    fix y assume "y \<in> set (map ?f vs)" and "vd_disposition y \<noteq> Verdict_Actionable"
    then obtain x where x: "x \<in> set vs" "y = ?f x" by auto
    then show "vd_abuse y = None"
      using \<open>vd_disposition y \<noteq> Verdict_Actionable\<close> pend [OF x(1)] blamed_onceD(5) [OF assms(1) x(1)] by (cases "p x") simp_all
  next
    fix y z assume "y \<in> set (map ?f vs)" "z \<in> set (map ?f vs)" and same: "vd_abuse y \<noteq> None \<and> vd_abuse z = vd_abuse y"
    then obtain u w where u: "u \<in> set vs" "y = ?f u" and w: "w \<in> set vs" "z = ?f w" by auto
    obtain e where e: "vd_abuse u = Some e" "vd_abuse w = Some e" using same unfolding u(2) w(2) abuse by auto
    then show "z = y" using blamed_onceD(6) [OF assms(1) u(1) w(1) e] u(2) w(2) by simp
  qed (use assms(1) in \<open>simp_all add: blamed_once_def\<close>)
qed

lemma blamed_act:
  assumes inv: "blamed_once vs as" and x: "x \<in> set vs" "vd_disposition x = Verdict_Pending"
    and p: "\<And>y. y \<in> set vs \<Longrightarrow> p y \<longleftrightarrow> y = x"
    and a: "a \<in> set as" "ab_candidate a = vd_candidate x" "ab_kind a = verdict_abuse_kind (vd_kind x)"
    and unused: "\<And>y. y \<in> set vs \<Longrightarrow> vd_abuse y \<noteq> Some (ab_id a)"
  shows "blamed_once (update_where p (\<lambda>y. y\<lparr>vd_disposition := Verdict_Actionable, vd_resolved := t, vd_abuse := Some (ab_id a)\<rparr>) vs) as"
proof -
  let ?g = "\<lambda>y. y\<lparr>vd_disposition := Verdict_Actionable, vd_resolved := t, vd_abuse := Some (ab_id a)\<rparr>"
  let ?vs = "update_where p ?g vs"
  have mem: "y \<in> set ?vs \<Longrightarrow> y = ?g x \<or> y \<in> set vs \<and> y \<noteq> x" for y
    using p unfolding set_update_where by (metis (full_types))
  have keys: "map (\<lambda>x. (vd_share x, vd_kind x)) ?vs = map (\<lambda>x. (vd_share x, vd_kind x)) vs" by (rule map_update_where) simp
  show ?thesis
    unfolding blamed_once_def keys
  proof (intro conjI ballI impI)
    fix y assume "y \<in> set ?vs" and act: "vd_disposition y = Verdict_Actionable"
    from mem [OF this(1)] show "\<exists>a\<in>set as. vd_abuse y = Some (ab_id a) \<and> ab_candidate a = vd_candidate y \<and> ab_kind a = verdict_abuse_kind (vd_kind y)"
    proof
      assume "y = ?g x"
      then show ?thesis using a by auto
    next
      assume "y \<in> set vs \<and> y \<noteq> x"
      then show ?thesis using blamed_onceD(4) [OF inv] act by simp
    qed
  next
    fix y assume "y \<in> set ?vs" and no: "vd_disposition y \<noteq> Verdict_Actionable"
    then show "vd_abuse y = None" using mem blamed_onceD(5) [OF inv] by fastforce
  next
    fix y z assume yz: "y \<in> set ?vs" "z \<in> set ?vs" "vd_abuse y \<noteq> None \<and> vd_abuse z = vd_abuse y"
    then obtain e where e: "vd_abuse y = Some e" "vd_abuse z = Some e" by auto
    show "z = y"
      using mem [OF yz(1)] mem [OF yz(2)]
    proof (elim disjE)
      assume "y = ?g x" "z \<in> set vs \<and> z \<noteq> x"
      then show ?thesis using unused e by auto
    next
      assume "y \<in> set vs \<and> y \<noteq> x" "z = ?g x"
      then show ?thesis using unused e by auto
    next
      assume "y \<in> set vs \<and> y \<noteq> x" "z \<in> set vs \<and> z \<noteq> x"
      then show ?thesis using blamed_onceD(6) [OF inv _ _ e] by simp
    qed simp
  qed (use inv in \<open>simp_all add: blamed_once_def\<close>)
qed

section \<open>The verdicts of a rejected candidate\<close>

lemma abuse_event_effect:
  assumes "blamed_once vs (st_abuse s)"
  shows "blamed_once vs (st_abuse (snd (candidate_abuse_event cid kind share t s)))"
    and "\<exists>a\<in>set (st_abuse (snd (candidate_abuse_event cid kind share t s))).
      ab_id a = fst (candidate_abuse_event cid kind share t s) \<and> ab_candidate a = Some cid \<and> ab_kind a = kind"
    and "st_verdicts (snd (candidate_abuse_event cid kind share t s)) = st_verdicts s"
    and "st_candidates (snd (candidate_abuse_event cid kind share t s)) = st_candidates s"
proof -
  show "blamed_once vs (st_abuse (snd (candidate_abuse_event cid kind share t s)))"
    using assms blamed_insert [OF assms, of "Some cid" kind "Some share" t] by (simp add: candidate_abuse_event_def split: option.split)
  show "\<exists>a\<in>set (st_abuse (snd (candidate_abuse_event cid kind share t s))).
      ab_id a = fst (candidate_abuse_event cid kind share t s) \<and> ab_candidate a = Some cid \<and> ab_kind a = kind"
  proof (cases "candidate_abuse s cid kind")
    case None
    then show ?thesis by (simp add: candidate_abuse_event_def insert_abuse_def Let_def)
  next
    case (Some a)
    then have "a \<in> set (st_abuse s) \<and> ab_candidate a = Some cid \<and> ab_kind a = kind"
      by (auto simp: candidate_abuse_def dest: find_SomeD)
    then show ?thesis using Some by (auto simp: candidate_abuse_event_def)
  qed
qed (simp_all add: candidate_abuse_event_def insert_abuse_def Let_def split: option.split)

definition pending_for :: "int \<Rightarrow> verdict_kind \<Rightarrow> verdict_row \<Rightarrow> bool" where
  "pending_for cid kind x \<longleftrightarrow> vd_candidate x = Some cid \<and> vd_kind x = kind \<and> vd_disposition x = Verdict_Pending"

lemma minimum_share:
  assumes "filter P vs = x # xs"
  shows "\<exists>y\<in>set vs. P y \<and> vd_share y = foldr (\<lambda>y m. min (vd_share y) m) xs (vd_share x)"
proof -
  have "\<exists>y\<in>set (x # xs). vd_share y = foldr (\<lambda>y m. min (vd_share y) m) xs (vd_share x)"
    by (induction xs) (auto simp: min_def)
  then obtain y where "y \<in> set (x # xs)" "vd_share y = foldr (\<lambda>y m. min (vd_share y) m) xs (vd_share x)" by blast
  then show ?thesis unfolding assms [symmetric] by auto
qed

lemma resolve_kind_cases:
  assumes inv: "blamed_once (st_verdicts s) (st_abuse s)"
  obtains (None) "filter (pending_for cid kind) (st_verdicts s) = []" "snd (resolve_kind cid t kind s) = s"
  | (Some) x a s1 vs where "x \<in> set (st_verdicts s)" "pending_for cid kind x"
      "blamed_once (st_verdicts s) (st_abuse s1)" "a \<in> set (st_abuse s1)" "ab_candidate a = Some cid" "ab_kind a = verdict_abuse_kind kind"
      "vs = (if \<exists>y\<in>set (st_verdicts s). vd_abuse y = Some (ab_id a) then st_verdicts s else
        update_where (\<lambda>y. vd_share y = vd_share x \<and> vd_kind y = kind \<and> vd_disposition y = Verdict_Pending)
          (\<lambda>y. y\<lparr>vd_disposition := Verdict_Actionable, vd_resolved := Some t, vd_abuse := Some (ab_id a)\<rparr>) (st_verdicts s))"
      "snd (resolve_kind cid t kind s) = s1\<lparr>st_verdicts := update_where (pending_for cid kind)
        (\<lambda>x. x\<lparr>vd_disposition := Verdict_Suppressed, vd_resolved := Some t\<rparr>) vs\<rparr>"
proof (cases "filter (pending_for cid kind) (st_verdicts s)")
  case Nil
  then show thesis by (rule None) (use Nil in \<open>simp add: resolve_kind_def pending_for_def [abs_def]\<close>)
next
  case (Cons x0 xs)
  define share where "share = foldr (\<lambda>y m. min (vd_share y) m) xs (vd_share x0)"
  define ev where "ev = candidate_abuse_event cid (verdict_abuse_kind kind) share t s"
  note effect = abuse_event_effect [OF inv, of cid "verdict_abuse_kind kind" share t, folded ev_def]
  obtain x where x: "x \<in> set (st_verdicts s)" "pending_for cid kind x" "vd_share x = share"
    using minimum_share [OF Cons] unfolding share_def by blast
  obtain a where a: "a \<in> set (st_abuse (snd ev))" "ab_id a = fst ev" "ab_candidate a = Some cid" "ab_kind a = verdict_abuse_kind kind"
    using effect(2) by blast
  show thesis
  proof (rule Some [OF x(1,2) effect(1) a(1,3,4) refl])
    show "snd (resolve_kind cid t kind s) = (snd ev)\<lparr>st_verdicts := update_where (pending_for cid kind)
        (\<lambda>x. x\<lparr>vd_disposition := Verdict_Suppressed, vd_resolved := Some t\<rparr>)
        (if \<exists>y\<in>set (st_verdicts s). vd_abuse y = Some (ab_id a) then st_verdicts s else
          update_where (\<lambda>y. vd_share y = vd_share x \<and> vd_kind y = kind \<and> vd_disposition y = Verdict_Pending)
          (\<lambda>y. y\<lparr>vd_disposition := Verdict_Actionable, vd_resolved := Some t, vd_abuse := Some (ab_id a)\<rparr>) (st_verdicts s))\<rparr>"
      unfolding resolve_kind_def Let_def Cons [unfolded pending_for_def [abs_def]] list.case share_def [symmetric] ev_def [symmetric]
        case_prod_beta effect(3) a(2) x(3) list_ex_iff pending_for_def [abs_def] by simp
  qed
qed

lemma resolve_kind_blamed:
  assumes inv: "blamed_once (st_verdicts s) (st_abuse s)"
  shows "blamed_once (st_verdicts (snd (resolve_kind cid t kind s))) (st_abuse (snd (resolve_kind cid t kind s)))"
proof (cases rule: resolve_kind_cases [OF inv, of cid kind t])
  case 1
  then show ?thesis using inv by simp
next
  case (2 x a s1 vs)
  have xp: "vd_disposition x = Verdict_Pending" "vd_candidate x = Some cid" "vd_kind x = kind"
    using 2(2) by (simp_all add: pending_for_def)
  have only: "vd_share y = vd_share x \<and> vd_kind y = kind \<and> vd_disposition y = Verdict_Pending \<longleftrightarrow> y = x" if "y \<in> set (st_verdicts s)" for y
    using distinct_map_eq [OF blamed_onceD(1) [OF inv] that 2(1)] xp by auto
  have "blamed_once vs (st_abuse s1)"
  proof (cases "\<exists>y\<in>set (st_verdicts s). vd_abuse y = Some (ab_id a)")
    case True
    then show ?thesis using 2(3,7) by simp
  next
    case False
    then have "vs = update_where (\<lambda>y. vd_share y = vd_share x \<and> vd_kind y = kind \<and> vd_disposition y = Verdict_Pending)
          (\<lambda>y. y\<lparr>vd_disposition := Verdict_Actionable, vd_resolved := Some t, vd_abuse := Some (ab_id a)\<rparr>) (st_verdicts s)"
      using 2(7) by simp
    then show ?thesis
      using blamed_act [OF 2(3,1) xp(1) only 2(4)] 2(5,6) xp False by simp
  qed
  then show ?thesis unfolding 2(8) using blamed_suppress [of vs "st_abuse s1" "pending_for cid kind" "Some t"]
    by (simp add: pending_for_def)
qed

lemma resolve_kind_rows:
  assumes inv: "blamed_once (st_verdicts s) (st_abuse s)" and y: "y \<in> set (st_verdicts (snd (resolve_kind cid t kind s)))"
  shows "\<not> pending_for cid kind y \<and> (y \<in> set (st_verdicts s) \<or> vd_candidate y = Some cid \<and> vd_kind y = kind)"
proof (cases rule: resolve_kind_cases [OF inv, of cid kind t])
  case 1
  then show ?thesis using y by (auto simp: filter_empty_conv)
next
  case (2 x a s1 vs)
  have xp: "vd_candidate x = Some cid" "vd_disposition x = Verdict_Pending" "vd_kind x = kind"
    using 2(2) by (simp_all add: pending_for_def)
  obtain z where z: "z \<in> set vs"
      "y = (if pending_for cid kind z then z\<lparr>vd_disposition := Verdict_Suppressed, vd_resolved := Some t\<rparr> else z)"
    using y unfolding 2(8) by (auto simp: set_update_where)
  have "z \<in> set (st_verdicts s) \<or> vd_candidate z = Some cid \<and> vd_kind z = kind"
  proof (cases "\<exists>y\<in>set (st_verdicts s). vd_abuse y = Some (ab_id a)")
    case True
    then show ?thesis using z(1) 2(7) by simp
  next
    case False
    then obtain w where w: "w \<in> set (st_verdicts s)"
        "z = w \<or> z = w\<lparr>vd_disposition := Verdict_Actionable, vd_resolved := Some t, vd_abuse := Some (ab_id a)\<rparr> \<and> vd_share w = vd_share x \<and> vd_kind w = kind"
      using z(1) 2(7) by (auto simp: set_update_where)
    have "w = x" if "vd_share w = vd_share x" "vd_kind w = kind"
      using distinct_map_eq [OF blamed_onceD(1) [OF inv] w(1) 2(1)] that xp(3) by simp
    then show ?thesis using w xp(1) by auto
  qed
  then show ?thesis using z(2) by (cases "pending_for cid kind z") (simp_all add: pending_for_def)
qed

lemma resolve_verdicts_rows:
  assumes inv: "blamed_once (st_verdicts s) (st_abuse s)" and s': "s' = snd (resolve_rejected_verdicts cid t s)"
  shows "blamed_once (st_verdicts s') (st_abuse s')"
    and "y \<in> set (st_verdicts s') \<Longrightarrow> \<not> (vd_candidate y = Some cid \<and> vd_disposition y = Verdict_Pending) \<and>
      (y \<in> set (st_verdicts s) \<or> vd_candidate y = Some cid)"
proof -
  let ?s1 = "snd (resolve_kind cid t Kind_False_Candidate s)"
  have eq: "s' = snd (resolve_kind cid t Kind_Candidate_Mismatch ?s1)"
    by (simp add: s' resolve_rejected_verdicts_def case_prod_beta Let_def)
  note inv1 = resolve_kind_blamed [OF inv, of cid t Kind_False_Candidate]
  show "blamed_once (st_verdicts s') (st_abuse s')" unfolding eq by (rule resolve_kind_blamed [OF inv1])
  assume "y \<in> set (st_verdicts s')"
  note r2 = resolve_kind_rows [OF inv1 this [unfolded eq]]
  have first: "\<not> pending_for cid Kind_False_Candidate z \<and> (z \<in> set (st_verdicts s) \<or> vd_candidate z = Some cid \<and> vd_kind z = Kind_False_Candidate)"
    if "z \<in> set (st_verdicts ?s1)" for z by (rule resolve_kind_rows [OF inv that])
  show "\<not> (vd_candidate y = Some cid \<and> vd_disposition y = Verdict_Pending) \<and> (y \<in> set (st_verdicts s) \<or> vd_candidate y = Some cid)"
    using r2 first by (cases "vd_kind y") (auto simp: pending_for_def)
qed

section \<open>Decisions\<close>

lemma verdicts_invD: "verdicts_inv s \<Longrightarrow> blamed_once (st_verdicts s) (st_abuse s)"
  "verdicts_inv s \<Longrightarrow> x \<in> set (st_verdicts s) \<Longrightarrow> verdict_linked (st_candidates s) x"
  by (auto simp: verdicts_inv_def list_all_iff)

text \<open>One candidate is decided: the verdicts on the others stay as they are linked.\<close>

lemma linked_other:
  assumes "verdict_linked cs x" and "vd_candidate x \<noteq> Some i" and "\<And>c. c \<in> set cs \<Longrightarrow> cr_id c \<noteq> i \<Longrightarrow> c \<in> set cs'"
  shows "verdict_linked cs' x"
  using assms by (fastforce simp: verdict_linked_def split: option.splits)

lemma accepting_verdicts:
  assumes ids: "distinct (map cr_id (st_candidates s))" and inv: "verdicts_inv s" and acc: "accepts_block cid t canonical b c r s s'"
  shows "verdicts_inv s'"
proof -
  let ?p = "\<lambda>x. vd_candidate x = Some cid \<and> vd_disposition x = Verdict_Pending"
  let ?f = "\<lambda>x. x\<lparr>vd_disposition := Verdict_Suppressed, vd_resolved := Some t\<rparr>"
  have c: "candidate_by_id s cid = Some c" "eligible b (cr_state c)"
    and cs: "st_candidates s' = update_where (\<lambda>x. cr_id x = cid) (accepted_row t canonical b) (st_candidates s)"
    and vs: "st_verdicts s' = update_where ?p ?f (st_verdicts s)" and ab: "st_abuse s' = st_abuse s"
    using acc by (simp_all add: accepts_block_def)
  have mem: "c \<in> set (st_candidates s)" "cr_id c = cid" using candidate_by_idD [OF c(1)] by blast+
  have row: "accepted_row t canonical b c \<in> set (st_candidates s')" unfolding cs using mem by (auto simp: update_where_def)
  have others: "d \<in> set (st_candidates s')" if "d \<in> set (st_candidates s)" "cr_id d \<noteq> cid" for d
    unfolding cs set_update_where by (rule bexI [OF _ that(1)]) (simp add: that(2))
  have "verdict_linked (st_candidates s') y" if y: "y \<in> set (st_verdicts s')" for y
  proof -
    obtain x where x: "x \<in> set (st_verdicts s)" "y = (if ?p x then ?f x else x)" using y unfolding vs set_update_where by blast
    show ?thesis
    proof (cases "vd_candidate x = Some cid")
      case True
      have "vd_disposition x \<noteq> Verdict_Actionable"
      proof
        assume "vd_disposition x = Verdict_Actionable"
        then obtain d where d: "d \<in> set (st_candidates s)" "cr_id d = cid" "cr_state d = Cand_Rejected"
          using verdicts_invD(2) [OF inv x(1)] True by (auto simp: verdict_linked_def)
        have "d = c" by (rule distinct_map_eq [OF ids d(1) mem(1)]) (simp add: d(2) mem(2))
        then show False using d(3) c(2) by (simp add: eligible_def)
      qed
      then have "vd_disposition y = Verdict_Suppressed" "vd_candidate y = Some cid"
        using x(2) True by (cases "vd_disposition x"; simp)+
      then show ?thesis using bexI [OF _ row, of "\<lambda>d. cr_id d = cid"] mem(2) by (simp add: verdict_linked_def accepted_row_def)
    next
      case False
      then show ?thesis using linked_other [OF verdicts_invD(2) [OF inv x(1)] False others] x(2) by simp
    qed
  qed
  moreover have "blamed_once (st_verdicts s') (st_abuse s')"
    unfolding vs ab by (rule blamed_suppress [OF verdicts_invD(1) [OF inv]]) simp
  ultimately show ?thesis by (simp add: verdicts_inv_def list_all_iff)
qed

lemma fail_attempt_abuse:
  assumes "fail_attempt c n done s = Inr (x, s')"
  shows "\<exists>s1. st_candidates s1 = st_candidates s' \<and> st_verdicts s1 = st_verdicts s \<and> st_abuse s1 = st_abuse s \<and>
    (let s2 = (if ar_state x = Cand_Rejected then snd (resolve_rejected_verdicts (cr_id c) (ac_completed done) s1) else s1);
         trusted = (ar_state x = Cand_Rejected \<and> ac_trusted done \<and> candidate_abuse s2 (cr_id c) ''trusted_candidate_rejection'' = None) in
     st_verdicts s' = st_verdicts s2 \<and>
     st_abuse s' = (if trusted then st_abuse (snd (insert_abuse (cr_first_share c) (Some (cr_id c)) ''trusted_candidate_rejection'' (ac_completed done) s2))
       else st_abuse s2))"
proof -
  let ?s1 = "s\<lparr>st_candidates := update_where (\<lambda>r. cr_id r = cr_id c \<and> cr_state r = Cand_Dispatching) (failed_row n done c) (st_candidates s)\<rparr>"
  have cs: "st_candidates ?s1 = st_candidates s'" using fail_attempt_effect(1) [OF assms] by simp
  show ?thesis
    by (rule exI [of _ ?s1], intro conjI, rule cs)
      (use assms in \<open>auto simp: fail_attempt_def Let_def case_prod_beta failed_row_def [abs_def] split: if_splits\<close>)
qed

lemma failing_verdicts:
  assumes inv: "verdicts_inv s" and fail: "fail_attempt c n done s = Inr (x, s')"
  shows "verdicts_inv s'"
proof -
  let ?p = "\<lambda>r. cr_id r = cr_id c \<and> cr_state r = Cand_Dispatching"
  note cs = fail_attempt_effect(1) [OF fail] and st = fail_attempt_effect(5) [OF fail]
  obtain s1 where s1: "st_verdicts s1 = st_verdicts s" "st_abuse s1 = st_abuse s"
    and writes: "let s2 = (if ar_state x = Cand_Rejected then snd (resolve_rejected_verdicts (cr_id c) (ac_completed done) s1) else s1);
         trusted = (ar_state x = Cand_Rejected \<and> ac_trusted done \<and> candidate_abuse s2 (cr_id c) ''trusted_candidate_rejection'' = None) in
     st_verdicts s' = st_verdicts s2 \<and>
     st_abuse s' = (if trusted then st_abuse (snd (insert_abuse (cr_first_share c) (Some (cr_id c)) ''trusted_candidate_rejection'' (ac_completed done) s2))
       else st_abuse s2)"
    using fail_attempt_abuse [OF fail] by blast
  show ?thesis
  proof (cases "ar_state x = Cand_Rejected")
    case False
    then have "st_verdicts s' = st_verdicts s" "st_abuse s' = st_abuse s" using writes s1 by (simp_all add: Let_def)
    moreover have "\<not> accepted_state (ar_state x)" by (simp add: st next_state_def accepted_state_def)
    then have "decides_nothing (st_candidates s) (st_candidates s')"
      unfolding cs by (intro decides_nothing_update) (simp add: st [symmetric] False accepted_state_def)
    ultimately show ?thesis by (intro undecided_step [OF inv])
  next
    case True
    define s2 where "s2 = snd (resolve_rejected_verdicts (cr_id c) (ac_completed done) s1)"
    have inv1: "blamed_once (st_verdicts s1) (st_abuse s1)" unfolding s1 by (rule verdicts_invD(1) [OF inv])
    note rows = resolve_verdicts_rows [OF inv1 s2_def]
    have vs: "st_verdicts s' = st_verdicts s2" using writes True by (simp add: Let_def s2_def)
    have "blamed_once (st_verdicts s') (st_abuse s')"
      using writes True rows(1) blamed_insert [OF rows(1), of "Some (cr_id c)" "''trusted_candidate_rejection''" "cr_first_share c" "ac_completed done"]
      by (auto simp: Let_def s2_def [symmetric] vs split: if_splits)
    moreover have "changed_rows ?p (st_candidates s) = 1"
      using fail by (simp add: fail_attempt_def Let_def split: if_splits)
    then have "filter ?p (st_candidates s) \<noteq> []" by (auto simp: changed_rows_def)
    then have "hd (filter ?p (st_candidates s)) \<in> set (filter ?p (st_candidates s))" by (rule hd_in_set)
    then obtain r where r: "r \<in> set (st_candidates s)" "?p r" unfolding set_filter by blast
    then have row: "failed_row n done c r \<in> set (st_candidates s')" unfolding cs set_update_where by (intro bexI [OF _ r(1)]) simp
    have others: "d \<in> set (st_candidates s')" if "d \<in> set (st_candidates s)" "cr_id d \<noteq> cr_id c" for d
      unfolding cs set_update_where by (rule bexI [OF _ that(1)]) (simp add: that(2))
    have "verdict_linked (st_candidates s') y" if y: "y \<in> set (st_verdicts s')" for y
    proof (cases "vd_candidate y = Some (cr_id c)")
      case cid: True
      then have "vd_disposition y \<noteq> Verdict_Pending" using rows(2) y unfolding vs by blast
      then show ?thesis unfolding verdict_linked_def cid option.case
        by (intro bexI [OF _ row]) (simp add: r(2) st [symmetric] True)
    next
      case other: False
      then have "y \<in> set (st_verdicts s)" using rows(2) y unfolding vs s1 by blast
      then show ?thesis by (rule linked_other [OF verdicts_invD(2) [OF inv] other others])
    qed
    ultimately show ?thesis by (simp add: verdicts_inv_def list_all_iff)
  qed
qed

lemma blamed_new:
  assumes inv: "blamed_once vs as" and fresh: "(vd_share y, vd_kind y) \<notin> (\<lambda>x. (vd_share x, vd_kind x)) ` set vs"
    and quiet: "vd_disposition y \<noteq> Verdict_Actionable \<Longrightarrow> vd_abuse y = None"
    and act: "vd_disposition y = Verdict_Actionable \<Longrightarrow> \<exists>a\<in>set as. vd_abuse y = Some (ab_id a) \<and> ab_candidate a = vd_candidate y \<and>
      ab_kind a = verdict_abuse_kind (vd_kind y) \<and> (\<forall>x\<in>set vs. vd_abuse x \<noteq> Some (ab_id a))"
  shows "blamed_once (vs @ [y]) as"
proof -
  have unused: "vd_abuse x \<noteq> vd_abuse y" if "x \<in> set vs" "vd_abuse y \<noteq> None" for x
    using quiet act that by (cases "vd_disposition y = Verdict_Actionable") auto
  show ?thesis
    unfolding blamed_once_def
  proof (intro conjI ballI impI)
    show "distinct (map (\<lambda>x. (vd_share x, vd_kind x)) (vs @ [y]))" using blamed_onceD(1) [OF inv] fresh by simp
  next
    fix x assume "x \<in> set (vs @ [y])" "vd_disposition x = Verdict_Actionable"
    then show "\<exists>a\<in>set as. vd_abuse x = Some (ab_id a) \<and> ab_candidate a = vd_candidate x \<and> ab_kind a = verdict_abuse_kind (vd_kind x)"
      using blamed_onceD(4) [OF inv] act by auto
  next
    fix x assume "x \<in> set (vs @ [y])" "vd_disposition x \<noteq> Verdict_Actionable"
    then show "vd_abuse x = None" using blamed_onceD(5) [OF inv] quiet by auto
  next
    fix x z assume xz: "x \<in> set (vs @ [y])" "z \<in> set (vs @ [y])" "vd_abuse x \<noteq> None \<and> vd_abuse z = vd_abuse x"
    then obtain e where e: "vd_abuse x = Some e" "vd_abuse z = Some e" by auto
    consider "x = y" "z = y" | "x \<in> set vs" "z = y" | "x = y" "z \<in> set vs" | "x \<in> set vs" "z \<in> set vs" using xz(1,2) by auto
    then show "z = x"
    proof cases
      case 1 then show ?thesis by simp
    next
      case 2 then show ?thesis using unused [of x] e by simp
    next
      case 3 then show ?thesis using unused [of z] e by simp
    next
      case 4 show ?thesis by (rule blamed_onceD(6) [OF inv 4 e])
    qed
  qed (use inv in \<open>simp_all add: blamed_once_def\<close>)
qed

lemma abuse_on_record:
  assumes "blamed_once vs as" and "x \<in> set vs" and "vd_abuse x = Some e"
  shows "e \<in> ab_id ` set as"
proof -
  have "vd_disposition x = Verdict_Actionable" using blamed_onceD(5) [OF assms(1,2)] assms(3) by auto
  then show ?thesis using blamed_onceD(4) [OF assms(1,2)] assms(3) by auto
qed

text \<open>What the disposition of a new verdict rests on.\<close>

lemma decide_verdict_effect:
  assumes inv: "verdicts_inv s" and dec: "decide_verdict v d cand s = Inr ((disposition, event, contradiction), s1)"
  shows "blamed_once (st_verdicts s) (st_abuse s1)"
    and "disposition \<noteq> Verdict_Actionable \<Longrightarrow> event = None"
    and "disposition = Verdict_Actionable \<Longrightarrow> \<exists>a\<in>set (st_abuse s1). event = Some (ab_id a) \<and> ab_candidate a = cand \<and>
      ab_kind a = verdict_abuse_kind (vi_kind d) \<and> (\<forall>x\<in>set (st_verdicts s). vd_abuse x \<noteq> Some (ab_id a))"
    and "verdict_linked (st_candidates s) (verdict_row_of d cand disposition event)"
proof -
  note b = verdicts_invD(1) [OF inv]
  have "blamed_once (st_verdicts s) (st_abuse s1) \<and> (disposition \<noteq> Verdict_Actionable \<longrightarrow> event = None) \<and>
    (disposition = Verdict_Actionable \<longrightarrow> (\<exists>a\<in>set (st_abuse s1). event = Some (ab_id a) \<and> ab_candidate a = cand \<and>
      ab_kind a = verdict_abuse_kind (vi_kind d) \<and> (\<forall>x\<in>set (st_verdicts s). vd_abuse x \<noteq> Some (ab_id a)))) \<and>
    verdict_linked (st_candidates s) (verdict_row_of d cand disposition event)"
  proof (cases cand)
    case None
    let ?kind = "verdict_abuse_kind (vi_kind d)"
    let ?a = "\<lparr>ab_id = new_rowid (map ab_id (st_abuse s)), ab_share = Some (vi_share d), ab_candidate = None,
      ab_kind = ?kind, ab_created = vi_created d\<rparr>"
    have out: "disposition = Verdict_Actionable" "event = Some (ab_id ?a)" "s1 = snd (insert_abuse (Some (vi_share d)) None ?kind (vi_created d) s)"
      using dec None by (auto simp: decide_verdict_def insert_abuse_def Let_def split: if_splits)
    have blamed: "blamed_once (st_verdicts s) (st_abuse s1)" unfolding out(3) by (rule blamed_insert [OF b]) simp
    have rec: "?a \<in> set (st_abuse s1)" unfolding out(3) by (simp add: insert_abuse_def Let_def)
    have unused: "vd_abuse x \<noteq> Some (ab_id ?a)" if "x \<in> set (st_verdicts s)" for x
      using abuse_on_record [OF b that, of "ab_id ?a"] new_rowid_fresh [of "map ab_id (st_abuse s)"] by auto
    have backed: "\<exists>a\<in>set (st_abuse s1). event = Some (ab_id a) \<and> ab_candidate a = cand \<and> ab_kind a = ?kind \<and>
        (\<forall>x\<in>set (st_verdicts s). vd_abuse x \<noteq> Some (ab_id a))"
      using unused by (intro bexI [OF _ rec]) (simp add: out(2) None)
    have linked: "verdict_linked (st_candidates s) (verdict_row_of d cand disposition event)"
      by (simp add: out(1) None verdict_linked_def verdict_row_of_def)
    show ?thesis by (intro conjI impI blamed backed linked) (simp add: out(1))
  next
    case (Some cid)
    then obtain c where c: "candidate_by_id s cid = Some c" using dec by (auto simp: decide_verdict_def split: option.splits)
    have mem: "c \<in> set (st_candidates s)" "cr_id c = cid" using candidate_by_idD [OF c] by blast+
    let ?ev = "candidate_abuse_event cid (verdict_abuse_kind (vi_kind d)) (vi_share d) (vi_created d) s"
    note effect = abuse_event_effect [OF b, of cid "verdict_abuse_kind (vi_kind d)" "vi_share d" "vi_created d"]
    consider (Accepted) "accepted_state (cr_state c)" "disposition = Verdict_Suppressed" "event = None" "s1 = s"
      | (Used) "cr_state c = Cand_Rejected" "disposition = Verdict_Suppressed" "event = None" "s1 = snd ?ev"
      | (Blamed) "cr_state c = Cand_Rejected" "disposition = Verdict_Actionable" "event = Some (fst ?ev)" "s1 = snd ?ev"
          "\<forall>x\<in>set (st_verdicts s). vd_abuse x \<noteq> Some (fst ?ev)"
      | (Open) "\<not> accepted_state (cr_state c)" "cr_state c \<noteq> Cand_Rejected" "disposition = Verdict_Pending" "event = None" "s1 = s"
    proof -
      have key: "cr_key c = vi_key d" using dec Some c by (simp add: decide_verdict_def split: if_splits)
      have body: "(if accepted_state (cr_state c) then Inr ((Verdict_Suppressed, None, True), s)
          else if cr_state c = Cand_Rejected then
            if list_ex (\<lambda>y. vd_abuse y = Some (fst ?ev)) (st_verdicts s) then Inr ((Verdict_Suppressed, None, False), snd ?ev)
            else Inr ((Verdict_Actionable, Some (fst ?ev), False), snd ?ev)
          else Inr ((Verdict_Pending, None, False), s) :: ((verdict_disposition \<times> int option \<times> bool) \<times> store) result) =
          Inr ((disposition, event, contradiction), s1)"
        using dec unfolding decide_verdict_def Some option.case c Let_def case_prod_beta effect(3) by (simp add: key)
      have "thesis" if "accepted_state (cr_state c)" by (rule Accepted) (use that body in simp_all)
      moreover have "thesis" if "cr_state c = Cand_Rejected" "list_ex (\<lambda>y. vd_abuse y = Some (fst ?ev)) (st_verdicts s)"
        by (rule Used) (use that body in \<open>simp_all add: accepted_state_def\<close>)
      moreover have "thesis" if "cr_state c = Cand_Rejected" "\<not> list_ex (\<lambda>y. vd_abuse y = Some (fst ?ev)) (st_verdicts s)"
        by (rule Blamed) (use that body in \<open>simp_all add: accepted_state_def list_ex_iff\<close>)
      moreover have "thesis" if "\<not> accepted_state (cr_state c)" "cr_state c \<noteq> Cand_Rejected"
        by (rule Open) (use that body in simp_all)
      ultimately show thesis by blast
    qed
    then show ?thesis
    proof cases
      case Accepted
      then show ?thesis using b mem Some by (auto simp: verdict_linked_def verdict_row_of_def)
    next
      case Used
      then show ?thesis using effect(1) mem Some by (auto simp: verdict_linked_def verdict_row_of_def)
    next
      case Blamed
      obtain a where a: "a \<in> set (st_abuse (snd ?ev))" "ab_id a = fst ?ev" "ab_candidate a = Some cid"
          "ab_kind a = verdict_abuse_kind (vi_kind d)" using effect(2) by blast
      have "verdict_linked (st_candidates s) (verdict_row_of d cand disposition event)"
        using Blamed(1,2) mem Some by (auto simp: verdict_linked_def verdict_row_of_def)
      moreover have "\<exists>a\<in>set (st_abuse s1). event = Some (ab_id a) \<and> ab_candidate a = cand \<and> ab_kind a = verdict_abuse_kind (vi_kind d) \<and>
          (\<forall>x\<in>set (st_verdicts s). vd_abuse x \<noteq> Some (ab_id a))"
        unfolding Blamed(4) by (rule bexI [OF _ a(1)]) (simp add: a(2-4) Blamed(3,5) Some)
      moreover have "blamed_once (st_verdicts s) (st_abuse s1)" unfolding Blamed(4) by (rule effect(1))
      ultimately show ?thesis using Blamed(2) by (intro conjI impI) simp_all
    next
      case Open
      then show ?thesis using b mem Some by (auto simp: verdict_linked_def verdict_row_of_def)
    qed
  qed
  then show "blamed_once (st_verdicts s) (st_abuse s1)" "disposition \<noteq> Verdict_Actionable \<Longrightarrow> event = None"
    "disposition = Verdict_Actionable \<Longrightarrow> \<exists>a\<in>set (st_abuse s1). event = Some (ab_id a) \<and> ab_candidate a = cand \<and>
      ab_kind a = verdict_abuse_kind (vi_kind d) \<and> (\<forall>x\<in>set (st_verdicts s). vd_abuse x \<noteq> Some (ab_id a))"
    "verdict_linked (st_candidates s) (verdict_row_of d cand disposition event)" by blast+
qed

lemma recording_verdicts:
  assumes inv: "verdicts_inv s" and rec: "record_candidate_verdict v d s = Inr (w, s')"
  shows "verdicts_inv s'"
  using rec
proof (cases rule: record_verdict_cases)
  case Known
  then show ?thesis using inv by simp
next
  case (New cand verdict s1)
  obtain disposition event contradiction where verdict: "verdict = (disposition, event, contradiction)" by (cases verdict)
  let ?row = "verdict_row_of d cand disposition event"
  note eff = decide_verdict_effect [OF inv New(3) [unfolded verdict]]
  note t1 = decide_verdict_tables [OF New(3)] and t2 = insert_verdict_tables [OF New(4)]
  have vs: "st_verdicts s' = st_verdicts s @ [?row]" using t2(6) t1(5) by (simp add: verdict)
  have "blamed_once (st_verdicts s @ [?row]) (st_abuse s1)"
  proof (rule blamed_new [OF eff(1)])
    show "(vd_share ?row, vd_kind ?row) \<notin> (\<lambda>x. (vd_share x, vd_kind x)) ` set (st_verdicts s)"
      using New(1) by (auto simp: find_None_iff verdict_row_of_def)
    show "vd_abuse ?row = None" if "vd_disposition ?row \<noteq> Verdict_Actionable"
      using eff(2) that by (simp add: verdict_row_of_def)
    show "\<exists>a\<in>set (st_abuse s1). vd_abuse ?row = Some (ab_id a) \<and> ab_candidate a = vd_candidate ?row \<and>
        ab_kind a = verdict_abuse_kind (vd_kind ?row) \<and> (\<forall>x\<in>set (st_verdicts s). vd_abuse x \<noteq> Some (ab_id a))"
      if "vd_disposition ?row = Verdict_Actionable"
      using eff(3) that by (simp add: verdict_row_of_def)
  qed
  then show ?thesis
    using eff(4) inv t1(1) t2(1,5) vs by (simp add: verdicts_inv_def)
qed

section \<open>The other operations\<close>

definition undecided :: "store \<Rightarrow> store \<Rightarrow> bool" where
  "undecided s s' \<longleftrightarrow> decides_nothing (st_candidates s) (st_candidates s') \<and> st_verdicts s' = st_verdicts s \<and> st_abuse s' = st_abuse s"

lemma undecided_inv: "verdicts_inv s \<Longrightarrow> undecided s s' \<Longrightarrow> verdicts_inv s'"
  unfolding undecided_def using undecided_step by blast

lemma undecided_same: "st_candidates s' = st_candidates s \<Longrightarrow> st_verdicts s' = st_verdicts s \<Longrightarrow> st_abuse s' = st_abuse s \<Longrightarrow> undecided s s'"
  by (simp add: undecided_def)

lemma session_undecided: "start_session version commit t s = Inr (i, s') \<Longrightarrow> undecided s s'"
  by (erule session_cases) (simp_all add: undecided_same)

lemma ensure_undecided: "ensure_open_round t s = Inr (i, s') \<Longrightarrow> undecided s s'"
  using ensure_tables [of t s i s'] by (auto intro: undecided_same)

lemma journal_undecided:
  assumes inv: "verdicts_inv s" and j: "journal_candidate_row v j s = Inr (r, s')"
  shows "undecided s s'"
proof (cases "s' = s")
  case False
  then have ins: "insert_candidate j s = Inr (r, s')"
    using j by (auto simp: journal_candidate_row_def and_then_eq_Inr split: option.splits if_splits sum.splits bool.splits)
  have "\<not> (vd_key x = cj_key j \<and> vd_candidate x = None \<and> vd_disposition x = Verdict_Pending)" if "x \<in> set (st_verdicts s)" for x
    using verdicts_invD(2) [OF inv that] by (auto simp: verdict_linked_def)
  note id = update_where_id [OF this]
  show ?thesis using ins by (auto simp: insert_candidate_def Let_def undecided_def id split: sum.splits)
qed (simp add: undecided_same)

lemma start_attempt_undecided:
  assumes "start_candidate_attempt cid n rpc t s = Inr (i, s')"
  shows "undecided s s'"
proof (cases "s' = s")
  case False
  have "st_candidates s' = update_where (\<lambda>r. cr_id r = cid \<and> eligible False (cr_state r))
        (\<lambda>r. r\<lparr>cr_state := Cand_Dispatching, cr_attempts := uint n, cr_updated := t\<rparr>) (st_candidates s)"
      "st_verdicts s' = st_verdicts s" "st_abuse s' = st_abuse s"
    using assms False by (auto simp: start_candidate_attempt_def Let_def split: if_splits option.splits sum.splits)
  then show ?thesis unfolding undecided_def by (auto intro!: decides_nothing_update simp: eligible_def accepted_state_def)
qed (simp add: undecided_same)

lemma start_lookup_undecided:
  assumes "start_candidate_reconciliation l s = Inr (k, s')"
  shows "undecided s s'"
proof (cases "s' = s")
  case False
  have "st_candidates s' = update_where (\<lambda>r. cr_id r = ls_candidate l)
      (\<lambda>r. r\<lparr>cr_cycles := max (cr_cycles r) (uint (ls_cycle l)), cr_next_reconciliation := None,
            cr_updated := max (cr_updated r) (ls_started l)\<rparr>) (st_candidates s)"
      "st_verdicts s' = st_verdicts s" "st_abuse s' = st_abuse s"
    using assms False by (auto simp: start_candidate_reconciliation_def Let_def split: if_splits option.splits)
  then show ?thesis unfolding undecided_def by (auto intro!: decides_nothing_update)
qed (simp add: undecided_same)

lemma schedule_undecided: "schedule_candidate_reconciliation cid t s = Inr (u, s') \<Longrightarrow> undecided s s'"
  unfolding undecided_def schedule_candidate_reconciliation_def by (auto intro!: decides_nothing_update split: if_splits)

lemma exhaust_undecided: "exhaust_candidate_reconciliation cid t s = Inr (b, s') \<Longrightarrow> undecided s s'"
  unfolding undecided_def exhaust_candidate_reconciliation_def Let_def by (auto intro!: decides_nothing_update split: if_splits)

lemma claim_undecided: "claim_next_blocknotify now s = Inr (m, s') \<Longrightarrow> undecided s s'"
  by (erule claim_cases) (simp_all add: undecided_same)

lemma notified_undecided: "finish_blocknotify did ended s = Inr (u, s') \<Longrightarrow> undecided s s'"
  by (erule notified_cases) (simp add: undecided_same)

lemma finalize_undecided: "try_finalize_round v rid t s = Inr (b, s') \<Longrightarrow> undecided s s'"
  by (drule try_finalize_effect) (auto intro: undecided_same)

lemma restart_undecided: "undecided s (reopen notify s)"
  unfolding undecided_def reopen_def recover_blocknotify_def recover_inflight_candidates_def
  by (auto intro!: decides_nothing_update simp: accepted_state_def split: if_splits)

lemma accepting_step:
  assumes "distinct (map cr_id (st_candidates s))" and "verdicts_inv s"
    and "accept_candidate_in_transaction v cid t canonical b s = Inr (x, s')"
  shows "verdicts_inv s'"
  using accept_effect [OF assms(3)] accepting_verdicts [OF assms(1,2)] assms(2) by blast

lemma finish_attempt_verdicts:
  assumes ids: "distinct (map cr_id (st_candidates s))" and inv: "verdicts_inv s"
    and fin: "finish_candidate_attempt v cid n done s = Inr (x, s')"
  shows "verdicts_inv s'"
proof -
  let ?s = "close_attempt cid (uint n) done s"
  have tables: "st_candidates ?s = st_candidates s" "st_verdicts ?s = st_verdicts s" "st_abuse ?s = st_abuse s"
    by (simp_all add: close_attempt_def)
  have inv1: "verdicts_inv ?s" by (rule undecided_inv [OF inv undecided_same [OF tables]])
  show ?thesis using fin
  proof (cases rule: finish_attempt_cases)
    case Repeated
    then show ?thesis using inv by simp
  next
    case (Closed c a)
    show ?thesis unfolding Closed(6) by (rule undecided_inv [OF inv1 undecided_same]) simp_all
  next
    case (Accepted c a b)
    show ?thesis by (rule accepting_step [OF _ inv1 Accepted(6)]) (simp add: tables ids)
  next
    case (Failed c a)
    show ?thesis by (rule failing_verdicts [OF inv1 Failed(6)])
  qed
qed

lemma finish_lookup_verdicts:
  assumes ids: "distinct (map cr_id (st_candidates s))" and inv: "verdicts_inv s"
    and fin: "finish_candidate_reconciliation v rid found s = Inr (y, s')"
  shows "verdicts_inv s'"
  using fin
proof (cases rule: finish_lookup_cases)
  case Unchanged
  show ?thesis by (rule undecided_inv [OF inv undecided_same [OF Unchanged(1,5,6)]])
next
  case (Positive k s1 b)
  have tables: "st_candidates s1 = st_candidates s" "st_verdicts s1 = st_verdicts s" "st_abuse s1 = st_abuse s"
    by (simp_all add: Positive(5) close_lookup_def)
  have "verdicts_inv s1" by (rule undecided_inv [OF inv undecided_same [OF tables]])
  then show ?thesis by (rule accepting_step [OF _ _ Positive(6), rotated]) (simp add: tables ids)
qed

lemma step_verdicts:
  assumes reach: "store_reachable s" and inv: "verdicts_inv s" and step: "store_step s s'"
  shows "verdicts_inv s'"
proof -
  note ids = candidates_invD(1) [OF store_invD(1) [OF reachable_inv [OF reach]]]
  note quiet = undecided_inv [OF inv]
  from step show ?thesis
  proof cases
    case Start_Session then show ?thesis using quiet session_undecided by blast
  next
    case Ensure_Round then show ?thesis using quiet ensure_undecided by blast
  next
    case Journal then show ?thesis using quiet journal_undecided [OF inv] by blast
  next
    case Start_Attempt then show ?thesis using quiet start_attempt_undecided by blast
  next
    case Finish_Attempt then show ?thesis using finish_attempt_verdicts [OF ids inv] by blast
  next
    case Start_Lookup then show ?thesis using quiet start_lookup_undecided by blast
  next
    case Finish_Lookup then show ?thesis using finish_lookup_verdicts [OF ids inv] by blast
  next
    case Schedule then show ?thesis using quiet schedule_undecided by blast
  next
    case Exhaust then show ?thesis using quiet exhaust_undecided by blast
  next
    case (Accept_Candidate v cid t canonical b x)
    then have "accept_candidate_in_transaction v cid t canonical b s = Inr (x, s')" by (simp add: accept_candidate_def split: if_splits)
    then show ?thesis by (rule accepting_step [OF ids inv])
  next
    case Record_Verdict then show ?thesis using recording_verdicts [OF inv] by blast
  next
    case Claim_Notification then show ?thesis using quiet claim_undecided by blast
  next
    case Finish_Notification then show ?thesis using quiet notified_undecided by blast
  next
    case Finalize then show ?thesis using quiet finalize_undecided by blast
  next
    case Account then show ?thesis using quiet [OF undecided_same] by (simp add: account_round_def)
  next
    case Reopen then show ?thesis using quiet restart_undecided by blast
  qed
qed

lemma reachable_verdicts: "store_reachable s \<Longrightarrow> verdicts_inv s"
proof (induction rule: store_reachable.induct)
  case (Empty_Store notify)
  show ?case by (simp add: verdicts_inv_def blamed_once_def empty_store_def)
next
  case (Store_Step s s')
  then show ?case using step_verdicts by blast
qed

text \<open>A verdict that counts for a candidate: the block was refused, and nothing else of its kind counts.\<close>

lemma linked_blame:
  assumes inv: "verdicts_inv s" and x: "x \<in> set (st_verdicts s)" "vd_candidate x = Some i" "vd_disposition x = Verdict_Actionable"
  shows "(\<exists>c\<in>set (st_candidates s). cr_id c = i \<and> cr_state c = Cand_Rejected) \<and>
    (\<forall>y\<in>set (st_verdicts s). vd_candidate y = Some i \<and> vd_kind y = vd_kind x \<and> vd_disposition y = Verdict_Actionable \<longrightarrow> y = x) \<and>
    (\<exists>!a. a \<in> set (st_abuse s) \<and> ab_candidate a = Some i \<and> ab_kind a = verdict_abuse_kind (vd_kind x))"
proof -
  note b = verdicts_invD(1) [OF inv]
  obtain a where a: "a \<in> set (st_abuse s)" "vd_abuse x = Some (ab_id a)" "ab_candidate a = Some i" "ab_kind a = verdict_abuse_kind (vd_kind x)"
    using blamed_onceD(4) [OF b x(1,3)] x(2) by auto
  have event: "d = a" if "d \<in> set (st_abuse s)" "ab_candidate d = Some i" "ab_kind d = verdict_abuse_kind (vd_kind x)" for d
    by (rule blamed_onceD(3) [OF b a(1) that(1) a(3) that(2)]) (simp add: that(3) a(4))
  show ?thesis
  proof (intro conjI ballI impI)
    show "\<exists>c\<in>set (st_candidates s). cr_id c = i \<and> cr_state c = Cand_Rejected"
      using verdicts_invD(2) [OF inv x(1)] x(2,3) by (auto simp: verdict_linked_def)
    show "\<exists>!a. a \<in> set (st_abuse s) \<and> ab_candidate a = Some i \<and> ab_kind a = verdict_abuse_kind (vd_kind x)"
      using a event by blast
    fix y assume y: "y \<in> set (st_verdicts s)" and act: "vd_candidate y = Some i \<and> vd_kind y = vd_kind x \<and> vd_disposition y = Verdict_Actionable"
    then obtain d where "d \<in> set (st_abuse s)" "vd_abuse y = Some (ab_id d)" "ab_candidate d = Some i" "ab_kind d = verdict_abuse_kind (vd_kind x)"
      using blamed_onceD(4) [OF b y] by auto
    then have "vd_abuse y = Some (ab_id a)" using event by blast
    then show "y = x" by (rule blamed_onceD(6) [OF b x(1) y a(2)])
  qed
qed

section \<open>Verdicts without a candidate\<close>

text \<open>
  A verdict that names no candidate is recorded only while no candidate has its key.
\<close>

definition unlinked_kept :: "store \<Rightarrow> store \<Rightarrow> bool" where
  "unlinked_kept s s' \<longleftrightarrow>
     (\<forall>x\<in>set (st_verdicts s'). vd_candidate x = None \<longrightarrow> x \<in> set (st_verdicts s) \<or> candidate_by_key s (vd_key x) = None)"

lemma unlinked_same: "st_verdicts s' = st_verdicts s \<Longrightarrow> unlinked_kept s s'"
  by (simp add: unlinked_kept_def)

lemma unlinked_undecided: "undecided s s' \<Longrightarrow> unlinked_kept s s'"
  by (rule unlinked_same) (simp add: undecided_def)

lemma unlinked_after: "unlinked_kept s1 s' \<Longrightarrow> st_verdicts s1 = st_verdicts s \<Longrightarrow> st_candidates s1 = st_candidates s \<Longrightarrow> unlinked_kept s s'"
  by (simp add: unlinked_kept_def candidate_by_key_def)

lemma accept_unlinked:
  assumes "accept_candidate_in_transaction v cid t canonical b s = Inr (x, s')"
  shows "unlinked_kept s s'"
proof -
  have "unlinked_kept s s'" if "accepts_block cid t canonical b c r s s'" for c r
    using that by (auto simp: unlinked_kept_def accepts_block_def set_update_where split: if_splits)
  then show ?thesis using accept_effect [OF assms] unlinked_same [of s s] by blast
qed

lemma fail_unlinked:
  assumes inv: "verdicts_inv s" and "fail_attempt c n done s = Inr (x, s')"
  shows "unlinked_kept s s'"
proof -
  obtain s1 where s1: "st_verdicts s1 = st_verdicts s" "st_abuse s1 = st_abuse s"
    and vs: "st_verdicts s' = st_verdicts (if ar_state x = Cand_Rejected
      then snd (resolve_rejected_verdicts (cr_id c) (ac_completed done) s1) else s1)"
    using fail_attempt_abuse [OF assms(2)] by (auto simp: Let_def)
  have b: "blamed_once (st_verdicts s1) (st_abuse s1)" unfolding s1 by (rule verdicts_invD(1) [OF inv])
  have "y \<in> set (st_verdicts s)" if "y \<in> set (st_verdicts s')" "vd_candidate y = None" for y
    using resolve_verdicts_rows(2) [OF b refl, of y "cr_id c" "ac_completed done"] that s1(1) unfolding vs
    by (cases "ar_state x = Cand_Rejected") auto
  then show ?thesis by (auto simp: unlinked_kept_def)
qed

lemma finish_attempt_unlinked:
  assumes inv: "verdicts_inv s" and fin: "finish_candidate_attempt v cid n done s = Inr (x, s')"
  shows "unlinked_kept s s'"
proof -
  let ?s = "close_attempt cid (uint n) done s"
  have tables: "st_candidates ?s = st_candidates s" "st_verdicts ?s = st_verdicts s" "st_abuse ?s = st_abuse s"
    by (simp_all add: close_attempt_def)
  have inv1: "verdicts_inv ?s" by (rule undecided_inv [OF inv undecided_same [OF tables]])
  note after = unlinked_after [OF _ tables(2,1)]
  show ?thesis using fin
  proof (cases rule: finish_attempt_cases)
    case Repeated
    then show ?thesis by (simp add: unlinked_same)
  next
    case (Closed c a)
    show ?thesis by (rule unlinked_same) (simp add: Closed(6) tables)
  next
    case (Accepted c a b)
    show ?thesis by (rule after [OF accept_unlinked [OF Accepted(6)]])
  next
    case (Failed c a)
    show ?thesis by (rule after [OF fail_unlinked [OF inv1 Failed(6)]])
  qed
qed

lemma finish_lookup_unlinked:
  assumes "finish_candidate_reconciliation v rid found s = Inr (y, s')"
  shows "unlinked_kept s s'"
  using assms
proof (cases rule: finish_lookup_cases)
  case Unchanged
  show ?thesis by (rule unlinked_same [OF Unchanged(5)])
next
  case (Positive k s1 b)
  show ?thesis by (rule unlinked_after [OF accept_unlinked [OF Positive(6)]]) (simp_all add: Positive(5) close_lookup_def)
qed

lemma record_unlinked:
  assumes "record_candidate_verdict v d s = Inr (w, s')"
  shows "unlinked_kept s s'"
  using assms
proof (cases rule: record_verdict_cases)
  case Known
  then show ?thesis by (simp add: unlinked_same)
next
  case (New cand verdict s1)
  have "st_verdicts s' = st_verdicts s @ [verdict_row_of d cand (fst verdict) (fst (snd verdict))]"
    using insert_verdict_tables(6) [OF New(4)] decide_verdict_tables(5) [OF New(3)] by (simp add: case_prod_beta)
  moreover have "candidate_by_key s (vi_key d) = None" if "cand = None"
    using New(2) that by (auto split: if_splits)
  ultimately show ?thesis by (auto simp: unlinked_kept_def verdict_row_of_def)
qed

lemma step_unlinked:
  assumes inv: "verdicts_inv s" and step: "store_step s s'"
  shows "unlinked_kept s s'"
  using step
proof cases
  case Start_Session then show ?thesis using unlinked_undecided session_undecided by blast
next
  case Ensure_Round then show ?thesis using unlinked_undecided ensure_undecided by blast
next
  case Journal then show ?thesis using unlinked_undecided journal_undecided [OF inv] by blast
next
  case Start_Attempt then show ?thesis using unlinked_undecided start_attempt_undecided by blast
next
  case Finish_Attempt then show ?thesis using finish_attempt_unlinked [OF inv] by blast
next
  case Start_Lookup then show ?thesis using unlinked_undecided start_lookup_undecided by blast
next
  case Finish_Lookup then show ?thesis using finish_lookup_unlinked by blast
next
  case Schedule then show ?thesis using unlinked_undecided schedule_undecided by blast
next
  case Exhaust then show ?thesis using unlinked_undecided exhaust_undecided by blast
next
  case (Accept_Candidate v cid t canonical b x)
  then have "accept_candidate_in_transaction v cid t canonical b s = Inr (x, s')" by (simp add: accept_candidate_def split: if_splits)
  then show ?thesis by (rule accept_unlinked)
next
  case Record_Verdict then show ?thesis using record_unlinked by blast
next
  case Claim_Notification then show ?thesis using unlinked_undecided claim_undecided by blast
next
  case Finish_Notification then show ?thesis using unlinked_undecided notified_undecided by blast
next
  case Finalize then show ?thesis using unlinked_undecided finalize_undecided by blast
next
  case Account then show ?thesis by (simp add: unlinked_same account_round_def)
next
  case Reopen then show ?thesis using unlinked_undecided restart_undecided by blast
qed

section \<open>Properties\<close>

definition demo_verdict :: verdict_insert where
  "demo_verdict = \<lparr>vi_share = 9, vi_kind = Kind_False_Candidate, vi_key = [1], vi_candidate = Some 1, vi_created = 17\<rparr>"

definition demo_judged :: store where
  "demo_judged = after_call (record_candidate_verdict demo_view demo_verdict demo_dispatching)"

definition demo_blamed :: store where
  "demo_blamed = after_call (finish_candidate_attempt demo_view 1 1 (demo_answer Outcome_Rejection) demo_judged)"

lemma demo_verdict_returns:
  "\<not> isl (record_candidate_verdict demo_view demo_verdict demo_dispatching)"
  "\<not> isl (finish_candidate_attempt demo_view 1 1 (demo_answer Outcome_Rejection) demo_judged)"
  by code_simp+

lemma demo_judged_reachable: "store_reachable demo_judged"
  by (rule Store_Step [OF demo_dispatching_reachable Record_Verdict [OF after_call [OF demo_verdict_returns(1)], folded demo_judged_def]])

lemma demo_blame: "store_step demo_judged demo_blamed"
  by (rule Finish_Attempt [OF after_call [OF demo_verdict_returns(2)], folded demo_blamed_def])

text \<open>
  A verdict without a candidate counts at once and may keep counting: in this history the block is journaled only after the
  verdict, the network accepts it, and the verdict stays actionable although its key is the one of the accepted candidate.
\<close>

definition early_judged :: store where
  "early_judged = after_call (record_candidate_verdict (demo_view\<lparr>sv_peer_evidence := \<lambda>_. True\<rparr>)
     (demo_verdict\<lparr>vi_candidate := None\<rparr>) demo_started)"

definition early_journaled :: store where
  "early_journaled = after_call (journal_candidate_row demo_view demo_journal early_judged)"

definition early_dispatching :: store where
  "early_dispatching = after_call (start_candidate_attempt 1 1 5 15 early_journaled)"

definition early_accepted :: store where
  "early_accepted = after_call (finish_candidate_attempt demo_view 1 1 (demo_answer Outcome_Accepted) early_dispatching)"

lemma early_returns:
  "\<not> isl (record_candidate_verdict (demo_view\<lparr>sv_peer_evidence := \<lambda>_. True\<rparr>) (demo_verdict\<lparr>vi_candidate := None\<rparr>) demo_started)"
  "\<not> isl (journal_candidate_row demo_view demo_journal early_judged)"
  "not_in_flight 1 early_journaled"
  "\<not> isl (start_candidate_attempt 1 1 5 15 early_journaled)"
  "\<not> isl (finish_candidate_attempt demo_view 1 1 (demo_answer Outcome_Accepted) early_dispatching)"
  by code_simp+

lemma early_verdict_survives_acceptance:
  "store_reachable early_accepted \<and>
   map (\<lambda>x. (vd_key x, vd_candidate x, vd_disposition x)) (st_verdicts early_accepted) = [([1], None, Verdict_Actionable)] \<and>
   map (\<lambda>c. (cr_key c, cr_state c)) (st_candidates early_accepted) = [([1], Cand_Accepted)]"
proof (intro conjI)
  have "store_reachable early_judged"
    by (rule Store_Step [OF demo_started_reachable Record_Verdict [OF after_call [OF early_returns(1)], folded early_judged_def]])
  then have "store_reachable early_journaled"
    by (rule Store_Step [OF _ Journal [OF after_call [OF early_returns(2)], folded early_journaled_def]])
  then have "store_reachable early_dispatching"
    by (rule Store_Step [OF _ Start_Attempt [OF early_returns(3) after_call [OF early_returns(4)], folded early_dispatching_def]])
  then show "store_reachable early_accepted"
    by (rule Store_Step [OF _ Finish_Attempt [OF after_call [OF early_returns(5)], folded early_accepted_def]])
qed code_simp+

text \<open>
  C8: What counts against a miner, and why. Take any step of any reachable store and any verdict that counts (is actionable) after
  it. If the verdict belongs to a candidate, the network has refused that block (the candidate is rejected, which is final), the
  verdict is the only one of its kind that counts for the candidate, and exactly one abuse event of its kind is on record for
  the candidate. If it belongs to none, it counted before the step or no candidate had its key when the step recorded it: such
  a verdict counts at once, without any answer of the network. In both cases one abuse event of its kind backs the verdict, no other verdict uses that event, and no other verdict
  has the share and the kind of this one, so nothing is counted twice.
\<close>

theorem blame_needs_rejection_or_no_candidate:
  assumes "store_reachable s" and "store_step s s'" and "x \<in> set (st_verdicts s')" and "vd_disposition x = Verdict_Actionable"
  shows "(case vd_candidate x of
      Some i \<Rightarrow> (\<exists>c\<in>set (st_candidates s'). cr_id c = i \<and> cr_state c = Cand_Rejected) \<and>
        (\<forall>y\<in>set (st_verdicts s'). vd_candidate y = Some i \<and> vd_kind y = vd_kind x \<and> vd_disposition y = Verdict_Actionable \<longrightarrow> y = x) \<and>
        (\<exists>!a. a \<in> set (st_abuse s') \<and> ab_candidate a = Some i \<and> ab_kind a = verdict_abuse_kind (vd_kind x))
    | None \<Rightarrow> x \<in> set (st_verdicts s) \<or> candidate_by_key s (vd_key x) = None) \<and>
    (\<exists>a\<in>set (st_abuse s'). vd_abuse x = Some (ab_id a) \<and> ab_candidate a = vd_candidate x \<and> ab_kind a = verdict_abuse_kind (vd_kind x)) \<and>
    (\<forall>y\<in>set (st_verdicts s'). vd_abuse y = vd_abuse x \<or> vd_share y = vd_share x \<and> vd_kind y = vd_kind x \<longrightarrow> y = x)"
proof -
  note inv = reachable_verdicts [OF Store_Step [OF assms(1,2)]]
  note b = verdicts_invD(1) [OF inv]
  obtain a where a: "a \<in> set (st_abuse s')" "vd_abuse x = Some (ab_id a)" "ab_candidate a = vd_candidate x" "ab_kind a = verdict_abuse_kind (vd_kind x)"
    using blamed_onceD(4) [OF b assms(3,4)] by auto
  have same: "y = x" if "y \<in> set (st_verdicts s')" "vd_abuse y = vd_abuse x \<or> vd_share y = vd_share x \<and> vd_kind y = vd_kind x" for y
    using that(2)
  proof
    assume "vd_abuse y = vd_abuse x"
    then show ?thesis using blamed_onceD(6) [OF b assms(3) that(1) a(2)] a(2) by simp
  next
    assume "vd_share y = vd_share x \<and> vd_kind y = vd_kind x"
    then show ?thesis by (intro distinct_map_eq [OF blamed_onceD(1) [OF b] that(1) assms(3)]) simp
  qed
  have first: "case vd_candidate x of
      Some i \<Rightarrow> (\<exists>c\<in>set (st_candidates s'). cr_id c = i \<and> cr_state c = Cand_Rejected) \<and>
        (\<forall>y\<in>set (st_verdicts s'). vd_candidate y = Some i \<and> vd_kind y = vd_kind x \<and> vd_disposition y = Verdict_Actionable \<longrightarrow> y = x) \<and>
        (\<exists>!a. a \<in> set (st_abuse s') \<and> ab_candidate a = Some i \<and> ab_kind a = verdict_abuse_kind (vd_kind x))
    | None \<Rightarrow> x \<in> set (st_verdicts s) \<or> candidate_by_key s (vd_key x) = None"
  proof (cases "vd_candidate x")
    case None
    then show ?thesis using step_unlinked [OF reachable_verdicts [OF assms(1)] assms(2)] assms(3) by (simp add: unlinked_kept_def)
  next
    case (Some i)
    then show ?thesis using linked_blame [OF inv assms(3) Some assms(4)] by simp
  qed
  show ?thesis by (intro conjI ballI impI first bexI [OF _ a(1)] a(2-4)) (rule same)
qed

theorem blame_needs_rejection_or_no_candidate_witness:
  "\<exists>x. st_verdicts demo_blamed = [x] \<and> vd_disposition x = Verdict_Actionable \<and>
    (\<exists>c\<in>set (st_candidates demo_blamed). cr_id c = 1 \<and> cr_state c = Cand_Rejected) \<and>
    (\<exists>!a. a \<in> set (st_abuse demo_blamed) \<and> ab_candidate a = Some 1 \<and> ab_kind a = ''verified_false_candidate'')"
proof -
  let ?x = "hd (st_verdicts demo_blamed)"
  have ev: "length (st_verdicts demo_blamed) = 1 \<and> vd_disposition ?x = Verdict_Actionable \<and> vd_candidate ?x = Some 1 \<and>
      verdict_abuse_kind (vd_kind ?x) = ''verified_false_candidate''" by code_simp
  then have row: "st_verdicts demo_blamed = [?x]" by (cases "st_verdicts demo_blamed") simp_all
  then have mem: "?x \<in> set (st_verdicts demo_blamed)" by (metis list.set_intros(1))
  have act: "vd_candidate ?x = Some 1" "vd_disposition ?x = Verdict_Actionable" "verdict_abuse_kind (vd_kind ?x) = ''verified_false_candidate''"
    using ev by blast+
  show ?thesis
    using blame_needs_rejection_or_no_candidate [OF demo_judged_reachable demo_blame mem act(2), unfolded act option.case] act(2) row by blast
qed

end
