(* ===== verification/Spec2Isabelle.thy ===== *)
theory Spec2Isabelle
  imports Duplicate_Registry Targets Monero_Block Address Defense Entropy Mailbox Stratum_Server Template Jobs Share_Path Event_Stream Candidate_Verdicts
begin

text \<open>
  \<^bold>\<open>monero-solo-stratum: a verification library.\<close>

  The program is a solo mining pool for Monero. A Stratum server (src/stratum/stratum.cpp) accepts
  miners over TCP, hands out jobs and receives shares. A defense engine
  (src/stratum/defense.cpp) limits and bans peers; a registry (src/stratum/duplicate_registry.cpp)
  refuses a share that was seen before. Jobs are block templates of a Monero daemon, edited per
  miner (src/monero/monero.cpp) with bytes from a random generator (src/crypto/entropy.cpp). The hash of a share
  is computed by a native RandomX library behind an adapter (src/verifier/verifier.cpp); its
  completions travel to the waiting submit worker through a mailbox
  (src/verifier/completion_mailbox.cpp), and a share that meets the network target becomes a
  candidate block. The runtime (src/runtime/runtime.cpp) ties these services to a database, a
  management API and an event stream.

  \<^bold>\<open>Theories and what they model.\<close>

  \<^item> \<open>Prelude\<close>: bytes and machine words, exceptions as the values of \<open>error\<close>, the result type
    \<open>error + 'a\<close> with its sequencing, little-endian values.
  \<^item> \<open>Std_Map\<close>: \<open>std::map\<close> and \<open>std::set\<close> as sorted association lists; the locale \<open>key_value\<close> is the
    interface and the list is its interpretation \<open>smap\<close>.
  \<^item> \<open>Duplicate_Registry\<close>: every operation of \<open>DuplicateRegistry\<close> over the record of its fields. A key is
    admitted once, the totals are exact and bounded on every reachable state, a token of an earlier
    generation does nothing, retired heights are collected and retained ones survive. The locale
    \<open>reservation_store\<close>, interpreted as \<open>dup_store\<close>, is the promise to the share path.
  \<^item> \<open>Hex_Codec\<close>, \<open>Keccak\<close>, \<open>Targets\<close>: the codecs and Keccak-256 of src/crypto/util.cpp and the
    target arithmetic of src/monero/monero.cpp. The codecs round-trip and the decoder of
    the Stratum file agrees with the general one; the hash routine equals the sponge of the
    specification; the limb arithmetic decides exactly whether hash times difficulty is below
    \<open>2 ^ 256\<close>.
  \<^item> \<open>Reader\<close>, \<open>Monero_Block\<close>, \<open>Address\<close>: the byte reader, the block parser, the transaction tree, the two
    edits of a template and wallet addresses. The locale \<open>local_parser\<close> states that a parser moves
    forward and depends only on what it passed; it is interpreted for each of them.
    Parsed offsets are well formed, an edit is local and the hashing blob changes exactly in the
    nonce, the tree hash is the Merkle root, varints and addresses round-trip.
  \<^item> \<open>Defense\<close>: token buckets, the rate detector, candidate slots, evidence windows, bans and the
    bounded table of peers. Reachable engines stay within their limits; a peer is refused exactly
    while a ban is active; a reported ban is the peer's own and is enforced until it expires.
  \<^item> \<open>Entropy\<close>: the HMAC-DRBG and its reseeding policy. No output is generated from state of another
    process, of a failed reseed or beyond the age limit.
  \<^item> \<open>Submission_Table\<close>, \<open>Verifier\<close>, \<open>Mailbox\<close>: the open-addressing correlation table as a refinement of a
    finite map (locale \<open>tag_table\<close>, interpretation \<open>tags\<close>), the adapter's seed life cycle and
    submissions, and the mailbox with the share policy. A completion is matched with its own
    submission and no other, a seed is released only when nothing uses it, counts are
    exact, a waiter receives the first completion of its tag.
  \<^item> \<open>Stratum_Wire\<close>: request identifiers, compact targets, the difficulty of a login, the memory of
    jobs, replies. Identifiers are kept apart, a rental client is credited exactly the difficulty
    of its wire target.
  \<^item> \<open>Stratum_Server\<close>: the server as a state machine with the steps of its event loop and its
    workers. Connection tables, lanes and output queues are counted exactly and bounded
    in every reachable state; nothing passes without a login; a result is answered once.
  \<^item> \<open>Template\<close>, \<open>Jobs\<close>, \<open>Share_Path\<close>: the runtime's own logic (src/runtime/runtime.cpp). \<open>Template\<close> has the
    validation of a block template, the choice of seed and the boundary below which candidates hold back publication;
    \<open>Jobs\<close> has the jobs of a connection, their leases and their retirement, with the registry's
    references counted exactly (locale \<open>counted_buckets\<close>, interpretation \<open>buckets\<close>); \<open>Share_Path\<close> has
    \<open>process_share\<close> and \<open>journal_candidate\<close>, cut at their accesses to shared state and interleaved in any order. Work is credited once;
    a process with a verifier credits only what the verifier computed, and the mode is fixed at startup; a failed verification frees
    its claim, a database failure in between keeps it; publication respects unresolved candidates.
  \<^item> \<open>Event_Stream\<close>: the local socket that announces committed events (src/events/event_stream.cpp). A
    subscriber sees every event since it joined, in order and once; queues are bounded; a sending pass ends. The locale
    \<open>visitor\<close> is what a pass over the clients keeps, interpreted as \<open>publishing\<close> and \<open>servicing\<close>.
  \<^item> \<open>Candidate_Store\<close>, \<open>Candidate_Life\<close>, \<open>Candidate_Rounds\<close>, \<open>Candidate_Verdicts\<close>: the part of the database
    (src/db/database.cpp, src/db/schema.sql) that a block candidate lives in: journaling, attempts, reconciliation,
    acceptance, rounds, verdicts, notifications and recovery after a restart, each method a function on
    the tables. The first theory is the model; the second refines the states of a candidate to an abstract
    machine and ties its row to the rows of its attempts; the third shows that rounds and accepted
    blocks correspond one to one, with the locale \<open>durable\<close> as the contract of a method, interpreted for each of
    them; the fourth that a verdict on a candidate counts once and only for a refused block, and that one without a
    candidate counts at once, which the design documents do not intend.

  \<^bold>\<open>How the code is represented.\<close> A class is a record of its fields and a method a function from the
  state to the state and its result, with one branch per condition, early return and exception of
  the source. Operations under a mutex are atomic, so a history is a sequence of steps; the
  reachable states are inductive predicates. Values that come from outside (clocks, sockets,
  the native verifier, HMAC, the JSON parser and printer, the job provider) are arguments.
  A few operations are one step here although the source takes several mutexes in turn: \<open>make_job\<close> retains its bucket
  and enters the table together, \<open>share_verify\<close> counts, registers and submits together, and \<open>stop_server\<close> ends in
  one step, without the workers' draining of the lanes. A job's 16 random bytes are assumed not to repeat.
  64 bit and 32 bit quantities are machine words where they can wrap around; sizes bounded by memory
  are natural numbers. Allocation does not fail.

  \<^bold>\<open>Loops.\<close> Every loop but one is a total function: by structural recursion on the data it walks, or on a
  number of rounds that the code itself bounds (the probes of the table by its size, the lines of
  an input buffer by its newlines, the limbs of a product by their number). A drain loop takes the list of answers
  it receives. No definition uses fuel that could run out. The sending loop of the event stream runs as long as the socket takes bytes;
  \<open>send_loop\<close> is a \<open>partial_function\<close> whose value is \<open>None\<close> when it does not return, and \<open>service_pass_ends\<close> proves
  that it returns on every reachable stream.

  \<^bold>\<open>The database.\<close> Every public method holds the writer's mutex and runs in one transaction, so a method is one step. What
  the methods on candidates read from the tables of shares is the argument \<open>shares_view\<close>, and the work columns of a
  round change by the step \<open>Account\<close>; columns that no modelled method reads back (payloads and
  correlation columns of events, peers of abuse events) are left out. One step has a premise on its caller: the candidate worker
  starts an attempt only when none is in flight.

  \<^bold>\<open>Not modelled.\<close> Of the runtime, the candidate worker's loop around the daemon, reconciliation requests, startup, recovery and
  shutdown: they are sequences of calls to services and to the operating system. Of the database, the accounting of shares, hashrate
  buckets, bans, connections, migrations and the writer's queue: tables of their own that the modelled
  methods meet only through \<open>shares_view\<close>. The management API and its HTTP server, the daemon client, the configuration reader, the logger,
  the child processes of block notification, the program entry and the ZMQ subscriber render and parse text of
  third-party formats or perform I/O. Of the Stratum server, the creation of listeners and threads, polling and the wake-up pipe belong
  to the operating system; observer callbacks do not influence its state, and that of the runtime lets no exception out.
  The public \<open>insert_abuse_event\<close>, which the bans of the runtime use, is not a step of the candidate store.
\<close>

end
